(* ===== verification/Prelude.thy ===== *)
theory Prelude
  imports Main "HOL-Library.Monad_Syntax" "HOL-Library.Word"
begin

section \<open>Prelude: types, results and lemmas the components share\<close>

text \<open>
  Machine types, pointers and results used by every component theory.
  A pointer of the C code is an \<open>addr option\<close>, \<open>None\<close> being \<open>NULL\<close>, so that a
  dereference is a monadic bind. A structure link of \<open>struct lthread\<close> is kept in a heap of
  its own (one function from addresses to entries per field). The pointer routines return
  \<open>'a option\<close>, \<open>None\<close> being a \<open>NULL\<close> dereference or a loop that does not end; the operations
  above them return \<open>fault + 'a\<close>, with a failed \<open>assert\<close> as a fault.
\<close>

unbundle bit_operations_syntax

named_theorems tq_simps \<open>evaluation of the tail queue primitives\<close>
named_theorems rb_simps \<open>evaluation of the red-black tree primitives\<close>
named_theorems res_simps \<open>evaluation of results\<close>
named_theorems flag_simps \<open>bits of the lthread state word\<close>

type_synonym addr = nat
type_synonym ptr = "addr option"
type_synonym u16 = "16 word"
type_synonym u32 = "32 word"
type_synonym u64 = "64 word"

abbreviation NULL :: ptr where "NULL \<equiv> None"

subsection \<open>Results: a value, or the reason why the program stops\<close>

datatype fault =
    Assertion_failed string   \<comment> \<open>an \<open>assert\<close> of the code fails\<close>
  | Undefined                 \<comment> \<open>a dereference of \<open>NULL\<close> or of freed memory, or no return\<close>
  | Would_block string        \<comment> \<open>a mutex the caller waits for is held\<close>

type_synonym 'a res = "fault + 'a"

definition rbind :: "'a res \<Rightarrow> ('a \<Rightarrow> 'b res) \<Rightarrow> 'b res" where
  "rbind m f = (case m of Inl e \<Rightarrow> Inl e | Inr x \<Rightarrow> f x)"

definition of_option :: "'a option \<Rightarrow> 'a res" where
  "of_option m = (case m of None \<Rightarrow> Inl Undefined | Some x \<Rightarrow> Inr x)"

definition assert_that :: "string \<Rightarrow> bool \<Rightarrow> unit res" where
  "assert_that msg b = (if b then Inr () else Inl (Assertion_failed msg))"

lemma rbind_Inr [simp, res_simps]: "rbind (Inr x) f = f x"
  by (simp add: rbind_def)

lemma rbind_Inl [simp, res_simps]: "rbind (Inl e) f = Inl e"
  by (simp add: rbind_def)

lemma rbind_eq_Inr: "rbind m f = Inr y \<longleftrightarrow> (\<exists>x. m = Inr x \<and> f x = Inr y)"
  by (cases m) auto

lemma rbind_assoc [res_simps]: "rbind (rbind m f) g = rbind m (\<lambda>x. rbind (f x) g)"
  by (cases m) auto

lemma of_option_simps [simp, res_simps]:
  "of_option None = Inl Undefined" "of_option (Some x) = Inr x"
  by (simp_all add: of_option_def)

lemma of_option_eq_Inr [simp]: "of_option m = Inr x \<longleftrightarrow> m = Some x"
  by (cases m) auto

lemma assert_that_simps [simp, res_simps]:
  "assert_that msg True = Inr ()" "assert_that msg False = Inl (Assertion_failed msg)"
  by (simp_all add: assert_that_def)

lemma assert_that_eq_Inr [simp]: "assert_that msg b = Inr u \<longleftrightarrow> b"
  by (simp add: assert_that_def)

lemma assert_thatI [res_simps]: "b \<Longrightarrow> assert_that msg b = Inr ()"
  by simp

lemma rbind_cong [fundef_cong]:
  "m = m' \<Longrightarrow> (\<And>x. m' = Inr x \<Longrightarrow> f x = f' x) \<Longrightarrow> rbind m f = rbind m' f'"
  by (cases m') auto

subsection \<open>Lists\<close>

lemma remove1_middle: "a \<notin> set xs \<Longrightarrow> remove1 a (xs @ a # ys) = xs @ ys"
  by (simp add: remove1_append)

lemma set_remove1_distinct: "distinct xs \<Longrightarrow> set (remove1 a xs) = set xs - {a}"
  by simp

end
