(* ===== verification/Tailq.thy ===== *)
theory Tailq
  imports Prelude
begin

section \<open>The tail queues of \<^verbatim>\<open>queue.h\<close>\<close>

text \<open>
  The \<open>TAILQ\<close> macros of \<open>src/src/queue.h\<close>, pointer by pointer. One state holds all the
  queues threaded through one link field (\<open>ready_next\<close>, \<open>blocked_next\<close>): the heads, named
  by a queue number, and the links of the elements. A \<open>struct type **\<close> is a \<open>tq_slot\<close>: the
  \<open>tqh_first\<close> cell of a head or the \<open>tqe_next\<close> cell of an element. A queue represents a
  list (\<open>tq_repr\<close>), every macro is the list operation it stands for, and it leaves the
  other queues of the same field alone (\<open>tq_frame\<close>).
\<close>

datatype tq_slot = HeadFirst nat | NextOf addr

record tailq =
  tqh_first :: "nat \<Rightarrow> ptr"
  tqh_last  :: "nat \<Rightarrow> tq_slot"
  tqe_next  :: "addr \<Rightarrow> ptr"
  tqe_prev  :: "addr \<Rightarrow> tq_slot"

subsection \<open>Cells\<close>

text \<open>\<open>*slot\<close>, \<open>*slot = p\<close>, and the \<open>tqh_last\<close> field reached when a slot is read as the
  address of a head: a head and an entry have the same layout, so for the \<open>tqe_next\<close> cell of
  an element this is its \<open>tqe_prev\<close> field.\<close>

fun tq_deref :: "tailq \<Rightarrow> tq_slot \<Rightarrow> ptr" where
  "tq_deref Q (HeadFirst q) = tqh_first Q q"
| "tq_deref Q (NextOf a) = tqe_next Q a"

fun tq_store :: "tq_slot \<Rightarrow> ptr \<Rightarrow> tailq \<Rightarrow> tailq" where
  "tq_store (HeadFirst q) p Q = Q\<lparr>tqh_first := (tqh_first Q)(q := p)\<rparr>"
| "tq_store (NextOf a) p Q = Q\<lparr>tqe_next := (tqe_next Q)(a := p)\<rparr>"

fun tq_as_head_last :: "tailq \<Rightarrow> tq_slot \<Rightarrow> tq_slot" where
  "tq_as_head_last Q (HeadFirst q) = tqh_last Q q"
| "tq_as_head_last Q (NextOf a) = tqe_prev Q a"

abbreviation set_tqh_last :: "nat \<Rightarrow> tq_slot \<Rightarrow> tailq \<Rightarrow> tailq" where
  "set_tqh_last q s Q \<equiv> Q\<lparr>tqh_last := (tqh_last Q)(q := s)\<rparr>"

abbreviation set_tqe_prev :: "addr \<Rightarrow> tq_slot \<Rightarrow> tailq \<Rightarrow> tailq" where
  "set_tqe_prev a s Q \<equiv> Q\<lparr>tqe_prev := (tqe_prev Q)(a := s)\<rparr>"

abbreviation set_tqe_next :: "addr \<Rightarrow> ptr \<Rightarrow> tailq \<Rightarrow> tailq" where
  "set_tqe_next a p Q \<equiv> Q\<lparr>tqe_next := (tqe_next Q)(a := p)\<rparr>"

subsection \<open>The macros\<close>

definition TAILQ_INIT :: "nat \<Rightarrow> tailq \<Rightarrow> tailq" where
  "TAILQ_INIT q Q = set_tqh_last q (HeadFirst q) (tq_store (HeadFirst q) NULL Q)"

definition TAILQ_EMPTY :: "nat \<Rightarrow> tailq \<Rightarrow> bool" where
  "TAILQ_EMPTY q Q \<longleftrightarrow> tqh_first Q q = NULL"

definition TAILQ_FIRST :: "nat \<Rightarrow> tailq \<Rightarrow> ptr" where
  "TAILQ_FIRST q Q = tqh_first Q q"

definition TAILQ_NEXT :: "addr \<Rightarrow> tailq \<Rightarrow> ptr" where
  "TAILQ_NEXT a Q = tqe_next Q a"

definition TAILQ_LAST :: "nat \<Rightarrow> tailq \<Rightarrow> ptr" where
  "TAILQ_LAST q Q = tq_deref Q (tq_as_head_last Q (tqh_last Q q))"

definition TAILQ_PREV :: "addr \<Rightarrow> tailq \<Rightarrow> ptr" where
  "TAILQ_PREV a Q = tq_deref Q (tq_as_head_last Q (tqe_prev Q a))"

definition TAILQ_INSERT_TAIL :: "nat \<Rightarrow> addr \<Rightarrow> tailq \<Rightarrow> tailq" where
  "TAILQ_INSERT_TAIL q elm Q =
     (let Q = set_tqe_next elm NULL Q;
          Q = set_tqe_prev elm (tqh_last Q q) Q;
          Q = tq_store (tqh_last Q q) (Some elm) Q
      in set_tqh_last q (NextOf elm) Q)"

definition TAILQ_INSERT_HEAD :: "nat \<Rightarrow> addr \<Rightarrow> tailq \<Rightarrow> tailq" where
  "TAILQ_INSERT_HEAD q elm Q =
     (let Q = set_tqe_next elm (tqh_first Q q) Q;
          Q = (case tqe_next Q elm of
                 Some f \<Rightarrow> set_tqe_prev f (NextOf elm) Q
               | None \<Rightarrow> set_tqh_last q (NextOf elm) Q);
          Q = tq_store (HeadFirst q) (Some elm) Q
      in set_tqe_prev elm (HeadFirst q) Q)"

definition TAILQ_INSERT_AFTER :: "nat \<Rightarrow> addr \<Rightarrow> addr \<Rightarrow> tailq \<Rightarrow> tailq" where
  "TAILQ_INSERT_AFTER q listelm elm Q =
     (let Q = set_tqe_next elm (tqe_next Q listelm) Q;
          Q = (case tqe_next Q elm of
                 Some n \<Rightarrow> set_tqe_prev n (NextOf elm) Q
               | None \<Rightarrow> set_tqh_last q (NextOf elm) Q);
          Q = set_tqe_next listelm (Some elm) Q
      in set_tqe_prev elm (NextOf listelm) Q)"

definition TAILQ_INSERT_BEFORE :: "addr \<Rightarrow> addr \<Rightarrow> tailq \<Rightarrow> tailq" where
  "TAILQ_INSERT_BEFORE listelm elm Q =
     (let Q = set_tqe_prev elm (tqe_prev Q listelm) Q;
          Q = set_tqe_next elm (Some listelm) Q;
          Q = tq_store (tqe_prev Q listelm) (Some elm) Q
      in set_tqe_prev listelm (NextOf elm) Q)"

definition TAILQ_REMOVE :: "nat \<Rightarrow> addr \<Rightarrow> tailq \<Rightarrow> tailq" where
  "TAILQ_REMOVE q elm Q =
     (let Q = (case tqe_next Q elm of
                 Some n \<Rightarrow> set_tqe_prev n (tqe_prev Q elm) Q
               | None \<Rightarrow> set_tqh_last q (tqe_prev Q elm) Q)
      in tq_store (tqe_prev Q elm) (tqe_next Q elm) Q)"

definition TAILQ_CONCAT :: "nat \<Rightarrow> nat \<Rightarrow> tailq \<Rightarrow> tailq" where
  "TAILQ_CONCAT h1 h2 Q =
     (case tqh_first Q h2 of
        None \<Rightarrow> Q
      | Some f \<Rightarrow>
          let Q = tq_store (tqh_last Q h1) (tqh_first Q h2) Q;
              Q = set_tqe_prev f (tqh_last Q h1) Q;
              Q = set_tqh_last h1 (tqh_last Q h2) Q
          in TAILQ_INIT h2 Q)"

definition TAILQ_SWAP :: "nat \<Rightarrow> nat \<Rightarrow> tailq \<Rightarrow> tailq" where
  "TAILQ_SWAP h1 h2 Q =
     (let swap_first = tqh_first Q h1;
          swap_last = tqh_last Q h1;
          Q = tq_store (HeadFirst h1) (tqh_first Q h2) Q;
          Q = set_tqh_last h1 (tqh_last Q h2) Q;
          Q = tq_store (HeadFirst h2) swap_first Q;
          Q = set_tqh_last h2 swap_last Q;
          Q = (case tqh_first Q h1 of
                 Some f \<Rightarrow> set_tqe_prev f (HeadFirst h1) Q
               | None \<Rightarrow> set_tqh_last h1 (HeadFirst h1) Q)
      in (case tqh_first Q h2 of
            Some f \<Rightarrow> set_tqe_prev f (HeadFirst h2) Q
          | None \<Rightarrow> set_tqh_last h2 (HeadFirst h2) Q))"

text \<open>\<open>TAILQ_FOREACH\<close> and \<open>TAILQ_FOREACH_REVERSE\<close>, as the list of the elements the loop
  visits, from the pointer it starts at.\<close>

partial_function (option) tq_foreach_from :: "tailq \<Rightarrow> ptr \<Rightarrow> addr list option" where
  "tq_foreach_from Q var =
     (case var of
        None \<Rightarrow> Some []
      | Some a \<Rightarrow> do { as \<leftarrow> tq_foreach_from Q (TAILQ_NEXT a Q); Some (a # as) })"

definition TAILQ_FOREACH :: "nat \<Rightarrow> tailq \<Rightarrow> addr list option" where
  "TAILQ_FOREACH q Q = tq_foreach_from Q (TAILQ_FIRST q Q)"

partial_function (option) tq_foreach_reverse_from :: "tailq \<Rightarrow> ptr \<Rightarrow> addr list option" where
  "tq_foreach_reverse_from Q var =
     (case var of
        None \<Rightarrow> Some []
      | Some a \<Rightarrow> do { as \<leftarrow> tq_foreach_reverse_from Q (TAILQ_PREV a Q); Some (a # as) })"

definition TAILQ_FOREACH_REVERSE :: "nat \<Rightarrow> tailq \<Rightarrow> addr list option" where
  "TAILQ_FOREACH_REVERSE q Q = tq_foreach_reverse_from Q (TAILQ_LAST q Q)"

declare tq_foreach_from.simps [code] and tq_foreach_reverse_from.simps [code]

lemmas tq_defs =
  TAILQ_INIT_def TAILQ_EMPTY_def TAILQ_FIRST_def TAILQ_NEXT_def TAILQ_LAST_def TAILQ_PREV_def
  TAILQ_INSERT_TAIL_def TAILQ_INSERT_HEAD_def TAILQ_INSERT_AFTER_def TAILQ_INSERT_BEFORE_def
  TAILQ_REMOVE_def TAILQ_CONCAT_def TAILQ_SWAP_def

subsection \<open>A queue represents a list\<close>

text \<open>\<open>tq_part Q s xs s'\<close>: from slot \<open>s\<close> the links lead through \<open>xs\<close> to slot \<open>s'\<close>, and every
  element's \<open>tqe_prev\<close> is the slot that points at it.\<close>

fun tq_part :: "tailq \<Rightarrow> tq_slot \<Rightarrow> addr list \<Rightarrow> tq_slot \<Rightarrow> bool" where
  "tq_part Q s [] s' \<longleftrightarrow> s' = s"
| "tq_part Q s (x # xs) s' \<longleftrightarrow>
     tq_deref Q s = Some x \<and> tqe_prev Q x = s \<and> tq_part Q (NextOf x) xs s'"

definition tq_repr :: "tailq \<Rightarrow> nat \<Rightarrow> addr list \<Rightarrow> bool" where
  "tq_repr Q q xs \<longleftrightarrow>
     tq_part Q (HeadFirst q) xs (tqh_last Q q) \<and> tq_deref Q (tqh_last Q q) = NULL \<and> distinct xs"

definition tq_frame :: "nat set \<Rightarrow> addr set \<Rightarrow> tailq \<Rightarrow> tailq \<Rightarrow> bool" where
  "tq_frame qs A Q Q' \<longleftrightarrow>
     (\<forall>q. q \<notin> qs \<longrightarrow> tqh_first Q' q = tqh_first Q q \<and> tqh_last Q' q = tqh_last Q q) \<and>
     (\<forall>a. a \<notin> A \<longrightarrow> tqe_next Q' a = tqe_next Q a \<and> tqe_prev Q' a = tqe_prev Q a)"

definition tq_end :: "nat \<Rightarrow> addr list \<Rightarrow> tq_slot" where
  "tq_end q xs = (if xs = [] then HeadFirst q else NextOf (last xs))"

lemma tq_part_append [simp]:
  "tq_part Q s (xs @ ys) s' \<longleftrightarrow> (\<exists>m. tq_part Q s xs m \<and> tq_part Q m ys s')"
  by (induction xs arbitrary: s) auto

lemma tq_part_end:
  "tq_part Q s xs s' \<Longrightarrow> s' = (if xs = [] then s else NextOf (last xs))"
  by (induction xs arbitrary: s) auto

lemma tq_part_cong:
  assumes "tq_part Q s xs s'"
    and "xs \<noteq> [] \<Longrightarrow> tq_deref Q' s = tq_deref Q s"
    and "\<And>x. x \<in> set (butlast xs) \<Longrightarrow> tqe_next Q' x = tqe_next Q x"
    and "\<And>x. x \<in> set xs \<Longrightarrow> tqe_prev Q' x = tqe_prev Q x"
  shows "tq_part Q' s xs s'"
  using assms
proof (induction xs arbitrary: s)
  case (Cons x xs)
  have nxt: "tqe_next Q' y = tqe_next Q y" if "xs \<noteq> []" "y \<in> insert x (set (butlast xs))" for y
    using Cons.prems(3) [of y] that by simp
  have "tq_part Q' (NextOf x) xs s'"
  proof (rule Cons.IH)
    show "tqe_next Q' y = tqe_next Q y" if "y \<in> set (butlast xs)" for y
      using nxt [of y] that by (cases xs) auto
  qed (use Cons.prems nxt in auto)
  with Cons.prems show ?case by auto
qed simp

lemma tq_repr_last: "tq_repr Q q xs \<Longrightarrow> tqh_last Q q = tq_end q xs"
  by (auto simp: tq_repr_def tq_end_def dest: tq_part_end)

lemma tq_repr_first: "tq_repr Q q xs \<Longrightarrow> tqh_first Q q = (case xs of [] \<Rightarrow> NULL | x # _ \<Rightarrow> Some x)"
  by (cases xs) (auto simp: tq_repr_def dest: sym)

lemma tq_repr_distinct: "tq_repr Q q xs \<Longrightarrow> distinct xs"
  by (simp add: tq_repr_def)

text \<open>The links at a position of the list.\<close>

lemma tq_repr_at:
  assumes "tq_repr Q q (xs @ a # ys)"
  shows "tqe_prev Q a = tq_end q xs"
    and "tqe_next Q a = (case ys of [] \<Rightarrow> NULL | y # _ \<Rightarrow> Some y)"
    and "tq_part Q (HeadFirst q) xs (tq_end q xs)"
    and "tq_part Q (NextOf a) ys (tqh_last Q q)"
    and "tq_deref Q (tq_end q xs) = Some a"
proof -
  from assms obtain m where m: "tq_part Q (HeadFirst q) xs m" "tq_deref Q m = Some a"
      "tqe_prev Q a = m" "tq_part Q (NextOf a) ys (tqh_last Q q)"
      and nl: "tq_deref Q (tqh_last Q q) = NULL"
    by (auto simp: tq_repr_def)
  have "m = tq_end q xs" using tq_part_end [OF m(1)] by (simp add: tq_end_def)
  with m show "tqe_prev Q a = tq_end q xs" "tq_part Q (HeadFirst q) xs (tq_end q xs)"
    "tq_part Q (NextOf a) ys (tqh_last Q q)" "tq_deref Q (tq_end q xs) = Some a" by auto
  show "tqe_next Q a = (case ys of [] \<Rightarrow> NULL | y # _ \<Rightarrow> Some y)"
    using m(4) nl by (cases ys) (auto dest: sym)
qed

text \<open>The representation is unique, and a queue is untouched by what happens elsewhere.\<close>

lemma tq_part_unique:
  assumes "tq_part Q s xs e" "tq_deref Q e = NULL" "tq_part Q s ys e'" "tq_deref Q e' = NULL"
  shows "xs = ys"
  using assms
proof (induction xs arbitrary: s ys)
  case Nil
  then show ?case by (cases ys) auto
next
  case (Cons x xs)
  then show ?case by (cases ys) auto
qed

lemma tq_repr_unique: "tq_repr Q q xs \<Longrightarrow> tq_repr Q q ys \<Longrightarrow> xs = ys"
  using tq_part_unique unfolding tq_repr_def by blast

lemma tq_repr_frame:
  assumes "tq_repr Q q xs" "tq_frame qs A Q Q'" "q \<notin> qs" "set xs \<inter> A = {}"
  shows "tq_repr Q' q xs"
proof -
  have eq: "tqe_next Q' x = tqe_next Q x \<and> tqe_prev Q' x = tqe_prev Q x" if "x \<in> set xs" for x
    using assms(2,4) that by (auto simp: tq_frame_def)
  have hd: "tqh_first Q' q = tqh_first Q q" "tqh_last Q' q = tqh_last Q q"
    using assms(2,3) by (auto simp: tq_frame_def)
  have "tq_part Q' (HeadFirst q) xs (tqh_last Q q)"
    by (rule tq_part_cong [where Q = Q])
       (use assms(1) eq hd in \<open>auto simp: tq_repr_def dest: in_set_butlastD\<close>)
  moreover have "tq_deref Q' (tqh_last Q q) = NULL"
    using assms(1) eq hd tq_repr_last [OF assms(1)]
    by (auto simp: tq_repr_def tq_end_def split: if_splits)
  ultimately show ?thesis using assms(1) hd by (simp add: tq_repr_def)
qed

lemma tq_frame_refl [simp]: "tq_frame qs A Q Q"
  by (simp add: tq_frame_def)

lemma tq_frame_trans:
  "tq_frame qs A Q Q' \<Longrightarrow> tq_frame qs B Q' Q'' \<Longrightarrow> tq_frame qs (A \<union> B) Q Q''"
  by (auto simp: tq_frame_def)

lemma tq_frame_mono: "tq_frame qs A Q Q' \<Longrightarrow> qs \<subseteq> qs' \<Longrightarrow> A \<subseteq> B \<Longrightarrow> tq_frame qs' B Q Q'"
  by (auto simp: tq_frame_def)

lemma tq_end_simps [simp]:
  "tq_end q [] = HeadFirst q" "tq_end q (xs @ [x]) = NextOf x"
  by (simp_all add: tq_end_def)

text \<open>Rebuilding a representation from its two halves.\<close>

lemma tq_repr_splitI:
  assumes "tq_part Q (HeadFirst q) xs (tq_end q xs)" "tq_part Q (tq_end q xs) ys (tqh_last Q q)"
    "tq_deref Q (tqh_last Q q) = NULL" "distinct (xs @ ys)"
  shows "tq_repr Q q (xs @ ys)"
  using assms by (auto simp: tq_repr_def)

subsection \<open>What each macro does to the list\<close>

lemma TAILQ_INIT_repr: "tq_repr (TAILQ_INIT q Q) q []"
  by (simp add: TAILQ_INIT_def tq_repr_def)

lemma TAILQ_EMPTY_repr: "tq_repr Q q xs \<Longrightarrow> TAILQ_EMPTY q Q \<longleftrightarrow> xs = []"
  by (auto simp: TAILQ_EMPTY_def tq_repr_first split: list.split)

lemma TAILQ_FIRST_repr: "tq_repr Q q xs \<Longrightarrow> TAILQ_FIRST q Q = (case xs of [] \<Rightarrow> NULL | x # _ \<Rightarrow> Some x)"
  by (simp add: TAILQ_FIRST_def tq_repr_first)

lemma TAILQ_INSERT_TAIL_repr:
  assumes r: "tq_repr Q q xs" and new: "elm \<notin> set xs"
  shows "tq_repr (TAILQ_INSERT_TAIL q elm Q) q (xs @ [elm])"
proof (rule tq_repr_splitI)
  let ?Q = "TAILQ_INSERT_TAIL q elm Q"
  have old: "tq_part Q (HeadFirst q) xs (tq_end q xs)" "distinct xs" "tqh_last Q q = tq_end q xs"
    using r tq_repr_last [OF r] by (auto simp: tq_repr_def)
  show "tq_part ?Q (HeadFirst q) xs (tq_end q xs)"
    by (rule tq_part_cong [OF old(1)])
       (use old new in \<open>cases xs rule: rev_cases, auto simp: TAILQ_INSERT_TAIL_def Let_def\<close>)+
  show "tq_part ?Q (tq_end q xs) [elm] (tqh_last ?Q q)"
    using old new by (cases xs rule: rev_cases) (auto simp: TAILQ_INSERT_TAIL_def Let_def)
  show "tq_deref ?Q (tqh_last ?Q q) = NULL"
    using old new by (cases xs rule: rev_cases) (auto simp: TAILQ_INSERT_TAIL_def Let_def)
  show "distinct (xs @ [elm])" using old new by simp
qed

lemma TAILQ_INSERT_TAIL_frame:
  assumes "tq_repr Q q xs"
  shows "tq_frame {q} (insert elm (set xs)) Q (TAILQ_INSERT_TAIL q elm Q)"
  using tq_repr_last [OF assms]
  by (cases xs rule: rev_cases) (auto simp: TAILQ_INSERT_TAIL_def Let_def tq_frame_def)

lemma TAILQ_REMOVE_repr:
  assumes r: "tq_repr Q q (xs @ elm # ys)"
  shows "tq_repr (TAILQ_REMOVE q elm Q) q (xs @ ys)"
proof (rule tq_repr_splitI)
  let ?Q = "TAILQ_REMOVE q elm Q"
  note at = tq_repr_at [OF r]
  have d: "distinct (xs @ elm # ys)" and lst: "tqh_last Q q = tq_end q (xs @ elm # ys)"
    and nul: "tq_deref Q (tqh_last Q q) = NULL"
    using r tq_repr_last [OF r] by (auto simp: tq_repr_def)
  show "tq_part ?Q (HeadFirst q) xs (tq_end q xs)"
    by (rule tq_part_cong [OF at(3)])
       (use at d in \<open>cases xs rule: rev_cases; cases ys; auto simp: TAILQ_REMOVE_def\<close>)+
  show "tq_part ?Q (tq_end q xs) ys (tqh_last ?Q q)"
  proof (cases ys)
    case Nil
    then show ?thesis using at by (cases xs rule: rev_cases) (auto simp: TAILQ_REMOVE_def)
  next
    case (Cons y ys')
    have "tq_part Q (NextOf y) ys' (tqh_last Q q)" using at(4) Cons by simp
    then have "tq_part ?Q (NextOf y) ys' (tqh_last Q q)"
      by (rule tq_part_cong)
         (use at d Cons in \<open>cases xs rule: rev_cases; auto simp: TAILQ_REMOVE_def dest: in_set_butlastD\<close>)+
    then show ?thesis
      using at d Cons by (cases xs rule: rev_cases) (auto simp: TAILQ_REMOVE_def)
  qed
  show "tq_deref ?Q (tqh_last ?Q q) = NULL"
    using at d lst nul
    by (cases xs rule: rev_cases; cases ys rule: rev_cases)
       (auto simp: TAILQ_REMOVE_def tq_end_def split: list.splits option.splits if_splits)
  show "distinct (xs @ ys)" using d by simp
qed

lemma TAILQ_REMOVE_frame:
  assumes "tq_repr Q q xs" "elm \<in> set xs"
  shows "tq_frame {q} (set xs) Q (TAILQ_REMOVE q elm Q)"
proof -
  from assms(2) obtain us vs where xs: "xs = us @ elm # vs" by (auto simp: in_set_conv_decomp)
  show ?thesis
    using tq_repr_at(1,2) [OF assms(1) [unfolded xs]] xs
    by (cases us rule: rev_cases; cases vs) (auto simp: TAILQ_REMOVE_def tq_frame_def)
qed

text \<open>\<open>TAILQ_INSERT_BEFORE\<close> and \<open>TAILQ_INSERT_AFTER\<close> an element of the list; an insertion at the
  head needs no such element.\<close>

lemma TAILQ_INSERT_BEFORE_repr:
  assumes r: "tq_repr Q q (xs @ a # ys)" and new: "elm \<notin> set (xs @ a # ys)"
  shows "tq_repr (TAILQ_INSERT_BEFORE a elm Q) q (xs @ elm # a # ys)"
proof (rule tq_repr_splitI)
  let ?Q = "TAILQ_INSERT_BEFORE a elm Q"
  note at = tq_repr_at [OF r]
  have d: "distinct (xs @ a # ys)" and lst: "tqh_last Q q = tq_end q (xs @ a # ys)"
    and nul: "tq_deref Q (tqh_last Q q) = NULL"
    using r tq_repr_last [OF r] by (auto simp: tq_repr_def)
  show "tq_part ?Q (HeadFirst q) xs (tq_end q xs)"
    by (rule tq_part_cong [OF at(3)])
       (use at d new in \<open>cases xs rule: rev_cases; auto simp: TAILQ_INSERT_BEFORE_def Let_def\<close>)+
  have "tq_part ?Q (NextOf a) ys (tqh_last Q q)"
    by (rule tq_part_cong [OF at(4)])
       (use at d new in \<open>cases xs rule: rev_cases;
          auto simp: TAILQ_INSERT_BEFORE_def Let_def dest: in_set_butlastD\<close>)+
  then show "tq_part ?Q (tq_end q xs) (elm # a # ys) (tqh_last ?Q q)"
    using at d new by (cases xs rule: rev_cases) (auto simp: TAILQ_INSERT_BEFORE_def Let_def)
  show "tq_deref ?Q (tqh_last ?Q q) = NULL"
    using at d lst nul new
    by (cases xs rule: rev_cases; cases ys rule: rev_cases)
       (auto simp: TAILQ_INSERT_BEFORE_def Let_def tq_end_def)
  show "distinct (xs @ elm # a # ys)" using d new by auto
qed

lemma TAILQ_INSERT_AFTER_repr:
  assumes r: "tq_repr Q q (xs @ a # ys)" and new: "elm \<notin> set (xs @ a # ys)"
  shows "tq_repr (TAILQ_INSERT_AFTER q a elm Q) q (xs @ a # elm # ys)"
proof -
  let ?Q = "TAILQ_INSERT_AFTER q a elm Q"
  note at = tq_repr_at [OF r]
  have d: "distinct (xs @ a # ys)" and lst: "tqh_last Q q = tq_end q (xs @ a # ys)"
    and nul: "tq_deref Q (tqh_last Q q) = NULL"
    using r tq_repr_last [OF r] by (auto simp: tq_repr_def)
  have pre: "tq_part Q (HeadFirst q) (xs @ [a]) (tq_end q (xs @ [a]))"
    using at by auto
  have tl: "tq_part ?Q (NextOf y) ys' (tqh_last Q q)" if "ys = y # ys'" for y ys'
    by (rule tq_part_cong [where Q = Q])
       (use at d new that in \<open>auto simp: TAILQ_INSERT_AFTER_def Let_def dest: in_set_butlastD\<close>)
  have "tq_repr ?Q q ((xs @ [a]) @ elm # ys)"
  proof (rule tq_repr_splitI)
    show "tq_part ?Q (HeadFirst q) (xs @ [a]) (tq_end q (xs @ [a]))"
      by (rule tq_part_cong [OF pre])
         (use at d new in \<open>cases ys; auto simp: TAILQ_INSERT_AFTER_def Let_def\<close>)+
    show "tq_part ?Q (tq_end q (xs @ [a])) (elm # ys) (tqh_last ?Q q)"
      using at d new tl by (cases ys) (auto simp: TAILQ_INSERT_AFTER_def Let_def)
    show "tq_deref ?Q (tqh_last ?Q q) = NULL"
      using at d lst nul new
      by (cases ys rule: rev_cases)
         (auto simp: TAILQ_INSERT_AFTER_def tq_end_def split: list.splits)
  qed (use d new in auto)
  then show ?thesis by simp
qed

lemma TAILQ_INSERT_HEAD_repr:
  assumes r: "tq_repr Q q xs" and new: "elm \<notin> set xs"
  shows "tq_repr (TAILQ_INSERT_HEAD q elm Q) q (elm # xs)"
proof (cases xs)
  case Nil
  then have "tqh_first Q q = NULL" "tqh_last Q q = HeadFirst q"
    using tq_repr_first [OF r] tq_repr_last [OF r] by simp_all
  with Nil show ?thesis by (simp add: tq_repr_def TAILQ_INSERT_HEAD_def)
next
  case (Cons x ys)
  let ?Q = "TAILQ_INSERT_HEAD q elm Q"
  have r': "tq_repr Q q ([] @ x # ys)" using r Cons by simp
  note at = tq_repr_at [OF r']
  have d: "distinct xs" and lst: "tqh_last Q q = tq_end q xs"
    and nul: "tq_deref Q (tqh_last Q q) = NULL"
    using r tq_repr_last [OF r] by (auto simp: tq_repr_def)
  have "tq_part ?Q (NextOf x) ys (tqh_last Q q)"
    by (rule tq_part_cong [OF at(4)])
       (use at d new Cons in \<open>auto simp: TAILQ_INSERT_HEAD_def Let_def dest: in_set_butlastD\<close>)
  then show ?thesis
    using at d lst nul new Cons
    by (auto simp: TAILQ_INSERT_HEAD_def Let_def tq_repr_def tq_end_def)
qed

subsection \<open>Traversal, in both directions\<close>

lemma tq_foreach_simps [simp]:
  "tq_foreach_from Q NULL = Some []"
  "tq_foreach_from Q (Some a) = do { as \<leftarrow> tq_foreach_from Q (TAILQ_NEXT a Q); Some (a # as) }"
  "tq_foreach_reverse_from Q NULL = Some []"
  "tq_foreach_reverse_from Q (Some a) =
     do { as \<leftarrow> tq_foreach_reverse_from Q (TAILQ_PREV a Q); Some (a # as) }"
  by (simp_all add: tq_foreach_from.simps tq_foreach_reverse_from.simps)

lemma tq_foreach_part:
  "tq_part Q s xs e \<Longrightarrow> tq_deref Q e = NULL \<Longrightarrow> tq_foreach_from Q (tq_deref Q s) = Some xs"
proof (induction xs arbitrary: s)
  case (Cons x xs)
  then have "tq_foreach_from Q (TAILQ_NEXT x Q) = Some xs"
    using Cons.IH [of "NextOf x"] by (simp add: TAILQ_NEXT_def)
  with Cons.prems show ?case by simp
qed simp

lemma TAILQ_FOREACH_repr: "tq_repr Q q xs \<Longrightarrow> TAILQ_FOREACH q Q = Some xs"
  using tq_foreach_part [of Q "HeadFirst q" xs "tqh_last Q q"]
  by (simp add: TAILQ_FOREACH_def TAILQ_FIRST_def tq_repr_def)

lemma tq_last_of_prefix:
  assumes "tq_repr Q q (xs @ ys)"
  shows "tq_deref Q (tq_as_head_last Q (tq_end q xs)) = (if xs = [] then tq_deref Q (tqh_last Q q) else Some (last xs))"
proof (cases xs rule: rev_cases)
  case (snoc us u)
  then show ?thesis using tq_repr_at(1,5) [of Q q us u ys] assms by simp
qed simp

lemma tq_repr_null: "tq_repr Q q xs \<Longrightarrow> tq_deref Q (tqh_last Q q) = NULL"
  by (simp add: tq_repr_def)

lemma TAILQ_LAST_repr:
  assumes "tq_repr Q q xs"
  shows "TAILQ_LAST q Q = (if xs = [] then NULL else Some (last xs))"
  unfolding TAILQ_LAST_def
  by (subst tq_repr_last [OF assms], subst tq_last_of_prefix [of _ _ _ "[]"])
     (simp_all add: assms tq_repr_null [OF assms])

lemma TAILQ_PREV_repr:
  assumes "tq_repr Q q (xs @ a # ys)"
  shows "TAILQ_PREV a Q = (if xs = [] then NULL else Some (last xs))"
  by (simp add: TAILQ_PREV_def tq_repr_at(1) [OF assms] tq_last_of_prefix [OF assms]
      tq_repr_null [OF assms])

lemma tq_foreach_reverse_prefix:
  "tq_repr Q q (xs @ ys) \<Longrightarrow>
   tq_foreach_reverse_from Q (if xs = [] then NULL else Some (last xs)) = Some (rev xs)"
proof (induction xs arbitrary: ys rule: rev_induct)
  case Nil
  then show ?case by simp
next
  case (snoc x xs)
  have "tq_foreach_reverse_from Q (TAILQ_PREV x Q) = Some (rev xs)"
    using snoc.IH [of "x # ys"] TAILQ_PREV_repr [of Q q xs x ys] snoc.prems by simp
  then show ?case by simp
qed

lemma TAILQ_FOREACH_REVERSE_repr: "tq_repr Q q xs \<Longrightarrow> TAILQ_FOREACH_REVERSE q Q = Some (rev xs)"
  using tq_foreach_reverse_prefix [of Q q xs "[]"]
  by (simp add: TAILQ_FOREACH_REVERSE_def TAILQ_LAST_repr)

subsection \<open>Two queues: concatenation and exchange\<close>

lemma TAILQ_CONCAT_repr:
  assumes r1: "tq_repr Q h1 xs" and r2: "tq_repr Q h2 ys"
    and disj: "h1 \<noteq> h2" "set xs \<inter> set ys = {}"
  shows "tq_repr (TAILQ_CONCAT h1 h2 Q) h1 (xs @ ys)" and "tq_repr (TAILQ_CONCAT h1 h2 Q) h2 []"
proof -
  let ?Q = "TAILQ_CONCAT h1 h2 Q"
  have l1: "tqh_last Q h1 = tq_end h1 xs" and l2: "tqh_last Q h2 = tq_end h2 ys"
    using tq_repr_last r1 r2 by blast+
  have f2: "tqh_first Q h2 = (case ys of [] \<Rightarrow> NULL | y # _ \<Rightarrow> Some y)"
    by (rule tq_repr_first [OF r2])
  have d: "distinct xs" "distinct ys" using r1 r2 by (auto simp: tq_repr_def)
  have p1: "tq_part Q (HeadFirst h1) xs (tq_end h1 xs)" using r1 l1 by (simp add: tq_repr_def)
  show "tq_repr ?Q h2 []"
  proof (cases ys)
    case Nil
    with f2 r2 show ?thesis by (simp add: TAILQ_CONCAT_def)
  qed (use f2 in \<open>simp add: TAILQ_CONCAT_def Let_def TAILQ_INIT_repr\<close>)
  show "tq_repr ?Q h1 (xs @ ys)"
  proof (cases ys)
    case Nil
    with f2 r1 show ?thesis by (simp add: TAILQ_CONCAT_def)
  next
    case (Cons y zs)
    have r2': "tq_repr Q h2 ([] @ y # zs)" using r2 Cons by simp
    note at = tq_repr_at [OF r2']
    have lq: "tqh_last ?Q h1 = tq_end h2 ys"
      using f2 Cons disj l1 l2
      by (cases xs rule: rev_cases) (auto simp: TAILQ_CONCAT_def Let_def TAILQ_INIT_def)
    show ?thesis
    proof (rule tq_repr_splitI)
      show "tq_part ?Q (HeadFirst h1) xs (tq_end h1 xs)"
        by (rule tq_part_cong [OF p1])
           (use f2 l1 d disj Cons in \<open>cases xs rule: rev_cases;
              auto simp: TAILQ_CONCAT_def Let_def TAILQ_INIT_def\<close>)+
      have "tq_part ?Q (NextOf y) zs (tqh_last Q h2)"
        by (rule tq_part_cong [OF at(4)])
           (use f2 l1 d disj Cons in \<open>cases xs rule: rev_cases;
              auto simp: TAILQ_CONCAT_def Let_def TAILQ_INIT_def dest: in_set_butlastD\<close>)+
      then show "tq_part ?Q (tq_end h1 xs) ys (tqh_last ?Q h1)"
        using f2 l1 l2 lq disj Cons
        by (cases xs rule: rev_cases) (auto simp: TAILQ_CONCAT_def Let_def TAILQ_INIT_def)
      show "tq_deref ?Q (tqh_last ?Q h1) = NULL"
        unfolding lq using tq_repr_null [OF r2, unfolded l2] f2 l1 disj Cons
        by (cases xs rule: rev_cases; cases zs rule: rev_cases)
           (auto simp: TAILQ_CONCAT_def Let_def TAILQ_INIT_def tq_end_def)
    qed (use d disj in auto)
  qed
qed

lemma TAILQ_SWAP_repr1:
  assumes r1: "tq_repr Q h1 xs" and r2: "tq_repr Q h2 ys"
    and disj: "h1 \<noteq> h2" "set xs \<inter> set ys = {}"
  shows "tq_repr (TAILQ_SWAP h1 h2 Q) h1 ys"
proof -
  let ?Q = "TAILQ_SWAP h1 h2 Q"
  have f1: "tqh_first Q h1 = (case xs of [] \<Rightarrow> NULL | y # _ \<Rightarrow> Some y)"
   and f2: "tqh_first Q h2 = (case ys of [] \<Rightarrow> NULL | y # _ \<Rightarrow> Some y)"
    using tq_repr_first r1 r2 by blast+
  have l2: "tqh_last Q h2 = tq_end h2 ys" by (rule tq_repr_last [OF r2])
  have d: "distinct ys" using r2 by (auto simp: tq_repr_def)
  show ?thesis
  proof (cases ys)
    case Nil
    then show ?thesis using f1 f2 disj
      by (cases xs) (auto simp: TAILQ_SWAP_def Let_def tq_repr_def)
  next
    case (Cons y zs)
    have r2': "tq_repr Q h2 ([] @ y # zs)" using r2 Cons by simp
    note at = tq_repr_at [OF r2']
    have lst: "tqh_last ?Q h1 = tqh_last Q h2" using f1 f2 disj Cons
      by (cases xs) (auto simp: TAILQ_SWAP_def Let_def)
    have "tq_part ?Q (NextOf y) zs (tqh_last Q h2)"
      by (rule tq_part_cong [OF at(4)])
         (use f1 f2 disj d Cons in \<open>cases xs;
            auto simp: TAILQ_SWAP_def Let_def dest: in_set_butlastD\<close>)+
    moreover have "tq_deref ?Q (tqh_last Q h2) = NULL"
      using tq_repr_null [OF r2] f1 f2 l2 disj Cons
      by (cases xs) (auto simp: TAILQ_SWAP_def Let_def tq_end_def)
    ultimately show ?thesis using f1 f2 disj d Cons unfolding tq_repr_def lst
      by (cases xs) (auto simp: TAILQ_SWAP_def Let_def)
  qed
qed

lemma TAILQ_SWAP_sym:
  assumes r1: "tq_repr Q h1 xs" and r2: "tq_repr Q h2 ys"
    and disj: "h1 \<noteq> h2" "set xs \<inter> set ys = {}"
  shows "TAILQ_SWAP h1 h2 Q = TAILQ_SWAP h2 h1 Q"
proof -
  have f: "tqh_first Q h1 = (case xs of [] \<Rightarrow> NULL | y # _ \<Rightarrow> Some y)"
     "tqh_first Q h2 = (case ys of [] \<Rightarrow> NULL | y # _ \<Rightarrow> Some y)"
    using tq_repr_first r1 r2 by blast+
  then show ?thesis using disj
    by (cases xs; cases ys) (auto simp: TAILQ_SWAP_def Let_def fun_upd_twist)
qed

lemma TAILQ_SWAP_repr2:
  assumes "tq_repr Q h1 xs" "tq_repr Q h2 ys" "h1 \<noteq> h2" "set xs \<inter> set ys = {}"
  shows "tq_repr (TAILQ_SWAP h1 h2 Q) h2 xs"
  using TAILQ_SWAP_repr1 [of Q h2 ys h1 xs] TAILQ_SWAP_sym [OF assms] assms by auto

subsection \<open>The interface the scheduler and the condition variables rely on\<close>

text \<open>A queue of distinct elements: what \<open>first\<close> returns, and what an insertion at the tail
  and the removal of a member do to the list it represents.\<close>

locale fifo_queue =
  fixes repr :: "'s \<Rightarrow> 'e list \<Rightarrow> bool"
    and first :: "'s \<Rightarrow> 'e option"
    and insert_tail :: "'e \<Rightarrow> 's \<Rightarrow> 's"
    and remove :: "'e \<Rightarrow> 's \<Rightarrow> 's"
  assumes repr_distinct: "repr s xs \<Longrightarrow> distinct xs"
    and first_law: "repr s xs \<Longrightarrow> first s = (case xs of [] \<Rightarrow> None | x # _ \<Rightarrow> Some x)"
    and insert_law: "repr s xs \<Longrightarrow> x \<notin> set xs \<Longrightarrow> repr (insert_tail x s) (xs @ [x])"
    and remove_law: "repr s xs \<Longrightarrow> x \<in> set xs \<Longrightarrow> repr (remove x s) (remove1 x xs)"
begin

lemma first_None: "repr s xs \<Longrightarrow> first s = None \<longleftrightarrow> xs = []"
  by (auto simp: first_law split: list.split)

lemma pop_front: "repr s (x # xs) \<Longrightarrow> first s = Some x \<and> repr (remove x s) xs"
  using remove_law [of s "x # xs" x] by (simp add: first_law)

lemma insert_all:
  "repr s xs \<Longrightarrow> distinct (xs @ ys) \<Longrightarrow> repr (fold insert_tail ys s) (xs @ ys)"
proof (induction ys arbitrary: s xs)
  case (Cons y ys)
  then have "repr (insert_tail y s) (xs @ [y])" by (auto intro: insert_law)
  with Cons.prems show ?case using Cons.IH [of "insert_tail y s" "xs @ [y]"] by simp
qed simp

lemma fifo:
  assumes "repr s []" "distinct (x # xs)"
  shows "first (fold insert_tail (x # xs) s) = Some x"
    and "repr (remove x (fold insert_tail (x # xs) s)) xs"
  using insert_all [of s "[]" "x # xs"] pop_front assms by auto

end

lemma TAILQ_REMOVE_remove1:
  assumes "tq_repr Q q xs" "x \<in> set xs"
  shows "tq_repr (TAILQ_REMOVE q x Q) q (remove1 x xs)"
proof -
  from assms(2) obtain us vs where xs: "xs = us @ x # vs" "x \<notin> set us"
    by (meson split_list_first)
  then show ?thesis using TAILQ_REMOVE_repr [of Q q us x vs] assms(1)
    by (simp add: remove1_middle)
qed

interpretation tq: fifo_queue "\<lambda>Q. tq_repr Q q" "TAILQ_FIRST q" "TAILQ_INSERT_TAIL q" "TAILQ_REMOVE q"
  for q
  by unfold_locales
     (simp_all add: tq_repr_distinct TAILQ_FIRST_repr TAILQ_INSERT_TAIL_repr TAILQ_REMOVE_remove1)

subsection \<open>Families of queues\<close>

text \<open>All the queues threaded through one link field: every queue of \<open>K\<close> represents its list and no
  element is in two of them.\<close>

definition tq_family :: "nat set \<Rightarrow> tailq \<Rightarrow> (nat \<Rightarrow> addr list) \<Rightarrow> bool" where
  "tq_family K Q F \<longleftrightarrow>
     (\<forall>q \<in> K. tq_repr Q q (F q)) \<and>
     (\<forall>q \<in> K. \<forall>q' \<in> K. q \<noteq> q' \<longrightarrow> set (F q) \<inter> set (F q') = {})"

lemma tq_family_repr: "tq_family K Q F \<Longrightarrow> q \<in> K \<Longrightarrow> tq_repr Q q (F q)"
  by (simp add: tq_family_def)

lemma tq_family_other: "tq_family K Q F \<Longrightarrow> q \<in> K \<Longrightarrow> q' \<in> K \<Longrightarrow> q \<noteq> q' \<Longrightarrow> set (F q) \<inter> set (F q') = {}"
  by (simp add: tq_family_def)

lemma tq_family_insert:
  assumes fam: "tq_family K Q F" and q: "q \<in> K" and new: "\<And>q'. q' \<in> K \<Longrightarrow> a \<notin> set (F q')"
  shows "tq_family K (TAILQ_INSERT_TAIL q a Q) (F(q := F q @ [a]))"
proof -
  have "tq_repr (TAILQ_INSERT_TAIL q a Q) q' (F q')" if "q' \<in> K" "q' \<noteq> q" for q'
    by (rule tq_repr_frame [OF tq_family_repr [OF fam that(1)]
          TAILQ_INSERT_TAIL_frame [OF tq_family_repr [OF fam q]]])
       (use new [OF that(1)] tq_family_other [OF fam q that(1)] that in auto)
  then show ?thesis
    using TAILQ_INSERT_TAIL_repr [OF tq_family_repr [OF fam q] new [OF q]] fam q new
    by (auto simp: tq_family_def)
qed

lemma tq_family_remove:
  assumes fam: "tq_family K Q F" and q: "q \<in> K" and mem: "a \<in> set (F q)"
  shows "tq_family K (TAILQ_REMOVE q a Q) (F(q := remove1 a (F q)))"
proof -
  have "tq_repr (TAILQ_REMOVE q a Q) q' (F q')" if "q' \<in> K" "q' \<noteq> q" for q'
    by (rule tq_repr_frame [OF tq_family_repr [OF fam that(1)]
          TAILQ_REMOVE_frame [OF tq_family_repr [OF fam q] mem]])
       (use tq_family_other [OF fam q that(1)] that in auto)
  moreover have "set (remove1 a (F q)) \<inter> set (F q') = {}" if "q' \<in> K" "q' \<noteq> q" for q'
    using set_remove1_subset [of a "F q"] tq_family_other [OF fam q that(1)] that(2) by blast
  ultimately show ?thesis
    using TAILQ_REMOVE_remove1 [OF tq_family_repr [OF fam q] mem] fam q
    by (auto simp: tq_family_def Int_commute)
qed

definition tq_zero :: tailq where
  "tq_zero = \<lparr>tqh_first = (\<lambda>_. NULL), tqh_last = HeadFirst, tqe_next = (\<lambda>_. NULL),
     tqe_prev = (\<lambda>_. HeadFirst 0)\<rparr>"

lemma tq_zero_repr [simp]: "tq_repr tq_zero q []"
  by (simp add: tq_zero_def tq_repr_def)

subsection \<open>Properties\<close>

text \<open>\<open>TAILQ_INSERT_TAIL\<close> of an element that is not in the queue appends it to the list the
  queue represents, and every other queue threaded through the same link field whose
  elements are not involved keeps its list.\<close>

theorem insert_tail_refines_append:
  assumes "tq_repr Q q xs" "elm \<notin> set xs"
    and "tq_repr Q q' ys" "q' \<noteq> q" "set ys \<inter> insert elm (set xs) = {}"
  shows "tq_repr (TAILQ_INSERT_TAIL q elm Q) q (xs @ [elm]) \<and>
         tq_repr (TAILQ_INSERT_TAIL q elm Q) q' ys"
  using TAILQ_INSERT_TAIL_repr TAILQ_INSERT_TAIL_frame tq_repr_frame assms by blast

theorem insert_tail_refines_append_witness:
  "tq_repr (TAILQ_INSERT_TAIL 0 7 tq_zero) 0 ([] @ [7]) \<and>
   tq_repr (TAILQ_INSERT_TAIL 0 7 tq_zero) 1 []"
  by (rule insert_tail_refines_append) simp_all

text \<open>\<open>TAILQ_REMOVE\<close> of a member removes it from the list the queue represents, wherever it
  stands, and leaves every other queue of the field with its list.\<close>

theorem remove_refines_remove1:
  assumes "tq_repr Q q xs" "elm \<in> set xs"
    and "tq_repr Q q' ys" "q' \<noteq> q" "set ys \<inter> set xs = {}"
  shows "tq_repr (TAILQ_REMOVE q elm Q) q (remove1 elm xs) \<and>
         tq_repr (TAILQ_REMOVE q elm Q) q' ys"
  using tq.remove_law TAILQ_REMOVE_frame tq_repr_frame assms by blast

theorem remove_refines_remove1_witness:
  "tq_repr (TAILQ_REMOVE 0 7 (TAILQ_INSERT_TAIL 0 7 tq_zero)) 0 (remove1 7 [7]) \<and>
   tq_repr (TAILQ_REMOVE 0 7 (TAILQ_INSERT_TAIL 0 7 tq_zero)) 1 []"
  by (rule remove_refines_remove1)
     (use tq.insert_law [of tq_zero 0 "[]" 7] in \<open>simp_all add: tq_repr_def tq_zero_def TAILQ_INSERT_TAIL_def\<close>)

text \<open>A queue is first-in first-out: after initialisation and insertions at the tail, the
  first element is the one inserted first, a forward traversal terminates and visits the elements
  in the order of insertion, a backward traversal in the opposite order, and removing the first
  leaves the others in order.\<close>

theorem tailq_is_fifo:
  assumes "distinct (x # xs)"
  shows "TAILQ_FIRST q (fold (TAILQ_INSERT_TAIL q) (x # xs) (TAILQ_INIT q Q)) = Some x \<and>
    TAILQ_FOREACH q (fold (TAILQ_INSERT_TAIL q) (x # xs) (TAILQ_INIT q Q)) = Some (x # xs) \<and>
    TAILQ_FOREACH_REVERSE q (fold (TAILQ_INSERT_TAIL q) (x # xs) (TAILQ_INIT q Q)) = Some (rev xs @ [x]) \<and>
    TAILQ_FOREACH q (TAILQ_REMOVE q x (fold (TAILQ_INSERT_TAIL q) (x # xs) (TAILQ_INIT q Q))) = Some xs"
proof -
  have r: "tq_repr (fold (TAILQ_INSERT_TAIL q) (x # xs) (TAILQ_INIT q Q)) q (x # xs)"
    using tq.insert_all [OF TAILQ_INIT_repr, of "x # xs" q Q] assms by simp
  show ?thesis
    using TAILQ_FOREACH_repr [OF r] TAILQ_FOREACH_REVERSE_repr [OF r] tq.pop_front [OF r]
      TAILQ_FOREACH_repr by simp
qed

theorem tailq_is_fifo_witness:
  "TAILQ_FIRST 0 (fold (TAILQ_INSERT_TAIL 0) [4, 9, 2] (TAILQ_INIT 0 tq_zero)) = Some 4 \<and>
   TAILQ_FOREACH 0 (fold (TAILQ_INSERT_TAIL 0) [4, 9, 2] (TAILQ_INIT 0 tq_zero)) = Some [4, 9, 2] \<and>
   TAILQ_FOREACH 0 (TAILQ_REMOVE 0 4 (fold (TAILQ_INSERT_TAIL 0) [4, 9, 2] (TAILQ_INIT 0 tq_zero))) = Some [9, 2]"
  using tailq_is_fifo [of 4 "[9, 2]" 0 tq_zero] by simp

end
