(* ===== verification/Linked.thy ===== *)
theory Linked
  imports Tailq
begin

section \<open>Loops over the lists of \<^verbatim>\<open>queue.h\<close>\<close>

text \<open>
  The four kinds of lists of \<open>src/src/queue.h\<close> have the same loops, \<open>FOREACH\<close> and \<open>FOREACH_SAFE\<close>, over their own \<open>FIRST\<close> and
  \<open>NEXT\<close>. The locale \<open>linked_list\<close> has the laws of the operations they share; the loops are treated once in it and used for
  every kind. The tail queues come first; they also have the loops from the end and the consistency checks.
\<close>

text \<open>The elements a loop visits whose body does not change the list.\<close>

partial_function (option) foreach_from :: "(addr \<Rightarrow> 's \<Rightarrow> ptr) \<Rightarrow> ptr \<Rightarrow> 's \<Rightarrow> addr list option" where
  "foreach_from nxt var s =
     (case var of
        None \<Rightarrow> Some []
      | Some a \<Rightarrow> do { as \<leftarrow> foreach_from nxt (nxt a s) s; Some (a # as) })"

text \<open>The variants \<open>_SAFE\<close> fetch the next element before the body runs: the body may remove the current one.\<close>

partial_function (option) foreach_safe_from ::
  "(addr \<Rightarrow> 's \<Rightarrow> ptr) \<Rightarrow> (addr \<Rightarrow> 's \<Rightarrow> 's option) \<Rightarrow> ptr \<Rightarrow> 's \<Rightarrow> 's option" where
  "foreach_safe_from nxt body var s =
     (case var of
        None \<Rightarrow> Some s
      | Some a \<Rightarrow> (let tvar = nxt a s in do { s \<leftarrow> body a s; foreach_safe_from nxt body tvar s }))"

declare foreach_from.simps [code] and foreach_safe_from.simps [code]

lemma foreach_simps [simp]:
  "foreach_from nxt NULL s = Some []"
  "foreach_from nxt (Some a) s = do { as \<leftarrow> foreach_from nxt (nxt a s) s; Some (a # as) }"
  "foreach_safe_from nxt body NULL s = Some s"
  "foreach_safe_from nxt body (Some a) s = do { s' \<leftarrow> body a s; foreach_safe_from nxt body (nxt a s) s' }"
     apply (subst foreach_from.simps, simp)
    apply (subst foreach_from.simps, simp)
   apply (subst foreach_safe_from.simps, simp)
  apply (subst foreach_safe_from.simps, simp add: Let_def)
  done

definition head_of :: "addr list \<Rightarrow> ptr" where
  "head_of xs = (case xs of [] \<Rightarrow> NULL | x # _ \<Rightarrow> Some x)"

lemma head_of_simps [simp]: "head_of [] = NULL" "head_of (x # xs) = Some x"
  by (simp_all add: head_of_def)

text \<open>The body of a loop that removes the elements with a property.\<close>

definition remove_if :: "(addr \<Rightarrow> bool) \<Rightarrow> (addr \<Rightarrow> 's \<Rightarrow> 's option) \<Rightarrow> addr \<Rightarrow> 's \<Rightarrow> 's option" where
  "remove_if P remove a s = (if P a then remove a s else Some s)"

locale linked_list =
  fixes repr :: "'s \<Rightarrow> addr list \<Rightarrow> bool"
    and first :: "'s \<Rightarrow> ptr"
    and nxt :: "addr \<Rightarrow> 's \<Rightarrow> ptr"
    and insert_head :: "addr \<Rightarrow> 's \<Rightarrow> 's"
    and insert_after :: "addr \<Rightarrow> addr \<Rightarrow> 's \<Rightarrow> 's"
    and remove :: "addr \<Rightarrow> 's \<Rightarrow> 's option"
  assumes repr_distinct: "repr s xs \<Longrightarrow> distinct xs"
    and first_law: "repr s xs \<Longrightarrow> first s = head_of xs"
    and next_law: "repr s (xs @ a # ys) \<Longrightarrow> nxt a s = head_of ys"
    and head_law: "repr s xs \<Longrightarrow> a \<notin> set xs \<Longrightarrow> repr (insert_head a s) (a # xs)"
    and after_law: "repr s (xs @ a # ys) \<Longrightarrow> b \<notin> set (xs @ a # ys) \<Longrightarrow> repr (insert_after a b s) (xs @ a # b # ys)"
    and remove_law: "repr s xs \<Longrightarrow> a \<in> set xs \<Longrightarrow> \<exists>s'. remove a s = Some s' \<and> repr s' (remove1 a xs)"
begin

lemma foreach_suffix: "repr s (xs @ ys) \<Longrightarrow> foreach_from nxt (head_of ys) s = Some ys"
proof (induction ys arbitrary: xs)
  case (Cons y ys)
  from Cons.IH [of "xs @ [y]"] Cons.prems next_law [OF Cons.prems] show ?case by simp
qed simp

lemma foreach_visits: "repr s xs \<Longrightarrow> foreach_from nxt (first s) s = Some xs"
  using foreach_suffix [of s "[]" xs] by (simp add: first_law)

lemma foreach_safe_suffix:
  "repr s (xs @ ys) \<Longrightarrow>
   \<exists>s'. foreach_safe_from nxt (remove_if P remove) (head_of ys) s = Some s' \<and> repr s' (xs @ filter (\<lambda>a. \<not> P a) ys)"
proof (induction ys arbitrary: xs s)
  case (Cons y ys)
  note n = next_law [OF Cons.prems]
  show ?case
  proof (cases "P y")
    case True
    obtain s' where s': "remove y s = Some s'" "repr s' (remove1 y (xs @ y # ys))"
      using remove_law [OF Cons.prems] by auto
    moreover have "y \<notin> set xs" using repr_distinct [OF Cons.prems] by simp
    ultimately have "repr s' (xs @ ys)" by (simp add: remove1_middle)
    from Cons.IH [OF this] True s'(1) n show ?thesis by (simp add: remove_if_def)
  next
    case False
    from Cons.IH [of s "xs @ [y]"] Cons.prems False n show ?thesis by (simp add: remove_if_def)
  qed
qed simp

lemma foreach_safe_filters:
  "repr s xs \<Longrightarrow> \<exists>s'. foreach_safe_from nxt (remove_if P remove) (first s) s = Some s' \<and> repr s' (filter (\<lambda>a. \<not> P a) xs)"
  using foreach_safe_suffix [of s "[]" xs P] by (simp add: first_law)

lemma insert_head_all: "repr s xs \<Longrightarrow> distinct (rev ys @ xs) \<Longrightarrow> repr (fold insert_head ys s) (rev ys @ xs)"
proof (induction ys arbitrary: s xs)
  case (Cons y ys)
  then have "repr (insert_head y s) (y # xs)" by (intro head_law) auto
  with Cons show ?case using Cons.IH [of "insert_head y s" "y # xs"] by simp
qed simp

end

subsection \<open>Tail queues\<close>

definition TAILQ_FOREACH_SAFE :: "(addr \<Rightarrow> tailq \<Rightarrow> tailq option) \<Rightarrow> nat \<Rightarrow> tailq \<Rightarrow> tailq option" where
  "TAILQ_FOREACH_SAFE body q Q = foreach_safe_from TAILQ_NEXT body (TAILQ_FIRST q Q) Q"

definition TAILQ_FOREACH_REVERSE_SAFE :: "(addr \<Rightarrow> tailq \<Rightarrow> tailq option) \<Rightarrow> nat \<Rightarrow> tailq \<Rightarrow> tailq option" where
  "TAILQ_FOREACH_REVERSE_SAFE body q Q = foreach_safe_from TAILQ_PREV body (TAILQ_LAST q Q) Q"

text \<open>The consistency checks of the kernel build; a check that fails is a \<open>panic\<close>.\<close>

definition QMD_TAILQ_CHECK_HEAD :: "nat \<Rightarrow> tailq \<Rightarrow> bool" where
  "QMD_TAILQ_CHECK_HEAD q Q \<longleftrightarrow> (case TAILQ_FIRST q Q of Some f \<Rightarrow> tqe_prev Q f = HeadFirst q | None \<Rightarrow> True)"

definition QMD_TAILQ_CHECK_TAIL :: "nat \<Rightarrow> tailq \<Rightarrow> bool" where
  "QMD_TAILQ_CHECK_TAIL q Q \<longleftrightarrow> tq_deref Q (tqh_last Q q) = NULL"

definition QMD_TAILQ_CHECK_NEXT :: "addr \<Rightarrow> tailq \<Rightarrow> bool" where
  "QMD_TAILQ_CHECK_NEXT elm Q \<longleftrightarrow> (case TAILQ_NEXT elm Q of Some n \<Rightarrow> tqe_prev Q n = NextOf elm | None \<Rightarrow> True)"

definition QMD_TAILQ_CHECK_PREV :: "addr \<Rightarrow> tailq \<Rightarrow> bool" where
  "QMD_TAILQ_CHECK_PREV elm Q \<longleftrightarrow> tq_deref Q (tqe_prev Q elm) = Some elm"

interpretation tql: linked_list "\<lambda>Q. tq_repr Q q" "TAILQ_FIRST q" TAILQ_NEXT "TAILQ_INSERT_HEAD q" "TAILQ_INSERT_AFTER q"
  "\<lambda>a Q. Some (TAILQ_REMOVE q a Q)" for q
proof unfold_locales
  fix Q xs a ys assume "tq_repr Q q (xs @ a # ys)"
  then show "TAILQ_NEXT a Q = head_of ys" by (simp add: TAILQ_NEXT_def tq_repr_at(2) head_of_def)
qed (simp_all add: tq_repr_distinct TAILQ_FIRST_repr head_of_def TAILQ_INSERT_HEAD_repr TAILQ_INSERT_AFTER_repr TAILQ_REMOVE_remove1)

lemma reverse_safe_prefix:
  "tq_repr Q q (xs @ ys) \<Longrightarrow>
   \<exists>Q'. foreach_safe_from TAILQ_PREV (remove_if P (\<lambda>a Q. Some (TAILQ_REMOVE q a Q))) (if xs = [] then NULL else Some (last xs)) Q = Some Q' \<and>
     tq_repr Q' q (filter (\<lambda>a. \<not> P a) xs @ ys)"
proof (induction xs arbitrary: ys Q rule: rev_induct)
  case (snoc x xs)
  have p: "TAILQ_PREV x Q = (if xs = [] then NULL else Some (last xs))" using TAILQ_PREV_repr [of Q q xs x ys] snoc.prems by simp
  show ?case
  proof (cases "P x")
    case True
    have "tq_repr (TAILQ_REMOVE q x Q) q (xs @ ys)" using TAILQ_REMOVE_repr [of Q q xs x ys] snoc.prems by simp
    from snoc.IH [OF this] True p show ?thesis by (simp add: remove_if_def)
  next
    case False
    from snoc.IH [of Q "x # ys"] snoc.prems False p show ?thesis by (simp add: remove_if_def)
  qed
qed simp

lemma tailq_checks:
  assumes "tq_repr Q q xs"
  shows "QMD_TAILQ_CHECK_HEAD q Q" "QMD_TAILQ_CHECK_TAIL q Q"
    "a \<in> set xs \<Longrightarrow> QMD_TAILQ_CHECK_NEXT a Q" "a \<in> set xs \<Longrightarrow> QMD_TAILQ_CHECK_PREV a Q"
proof -
  show "QMD_TAILQ_CHECK_HEAD q Q"
    using assms tq_repr_at(1) [of Q q "[]"] by (cases xs) (auto simp: QMD_TAILQ_CHECK_HEAD_def TAILQ_FIRST_repr)
  show "QMD_TAILQ_CHECK_TAIL q Q" using assms by (simp add: QMD_TAILQ_CHECK_TAIL_def tq_repr_null)
  assume "a \<in> set xs"
  then obtain us vs where xs: "xs = us @ a # vs" by (auto simp: in_set_conv_decomp)
  note at = tq_repr_at [OF assms [unfolded xs]]
  show "QMD_TAILQ_CHECK_PREV a Q" using at(1,5) by (simp add: QMD_TAILQ_CHECK_PREV_def)
  show "QMD_TAILQ_CHECK_NEXT a Q"
  proof (cases vs)
    case Nil
    then show ?thesis using at(2) by (simp add: QMD_TAILQ_CHECK_NEXT_def TAILQ_NEXT_def)
  next
    case (Cons v ws)
    then have "tq_repr Q q ((us @ [a]) @ v # ws)" using assms xs by simp
    from tq_repr_at(1) [OF this] at(2) Cons show ?thesis by (simp add: QMD_TAILQ_CHECK_NEXT_def TAILQ_NEXT_def)
  qed
qed

subsection \<open>Properties\<close>

text \<open>Removing while looping is safe: \<open>TAILQ_FOREACH_SAFE\<close> and \<open>TAILQ_FOREACH_REVERSE_SAFE\<close> with a body that removes some of the
  elements end and leave exactly the other ones, in their order.\<close>

theorem tailq_remove_in_loop:
  assumes "tq_repr Q q xs" "body = remove_if P (\<lambda>a Q. Some (TAILQ_REMOVE q a Q))"
  shows "(\<exists>Q'. TAILQ_FOREACH_SAFE body q Q = Some Q' \<and> tq_repr Q' q (filter (\<lambda>a. \<not> P a) xs)) \<and>
    (\<exists>Q'. TAILQ_FOREACH_REVERSE_SAFE body q Q = Some Q' \<and> tq_repr Q' q (filter (\<lambda>a. \<not> P a) xs))"
  using tql.foreach_safe_filters [OF assms(1), of P] reverse_safe_prefix [of Q q xs "[]" P] assms
  by (simp add: TAILQ_FOREACH_SAFE_def TAILQ_FOREACH_REVERSE_SAFE_def TAILQ_LAST_repr)

theorem tailq_remove_in_loop_witness:
  "\<exists>Q'. TAILQ_FOREACH_SAFE (remove_if even (\<lambda>a Q. Some (TAILQ_REMOVE 0 a Q))) 0 (fold (TAILQ_INSERT_HEAD 0) [4, 7, 9] tq_zero) = Some Q' \<and>
     tq_repr Q' 0 [9, 7]"
proof -
  have "tq_repr (fold (TAILQ_INSERT_HEAD 0) [4, 7, 9] tq_zero) 0 [9, 7, 4]"
    using tql.insert_head_all [of tq_zero 0 "[]" "[4, 7, 9]"] by simp
  from tailq_remove_in_loop [OF this refl, of even] show ?thesis by simp
qed

text \<open>The consistency checks that the kernel build of the header compiles in never fire on a well-formed queue.\<close>

theorem tailq_checks_pass:
  assumes "tq_repr Q q xs" "a \<in> set xs"
  shows "QMD_TAILQ_CHECK_HEAD q Q \<and> QMD_TAILQ_CHECK_TAIL q Q \<and> QMD_TAILQ_CHECK_NEXT a Q \<and> QMD_TAILQ_CHECK_PREV a Q"
  using tailq_checks [OF assms(1)] assms(2) by blast

theorem tailq_checks_pass_witness:
  "QMD_TAILQ_CHECK_NEXT 7 (fold (TAILQ_INSERT_HEAD 0) [4, 7] tq_zero) \<and> QMD_TAILQ_CHECK_PREV 7 (fold (TAILQ_INSERT_HEAD 0) [4, 7] tq_zero)"
  using tailq_checks_pass [of _ 0 _ 7] tql.insert_head_all [of tq_zero 0 "[]" "[4, 7]"] by simp

end
