(* ===== verification/Blist.thy ===== *)
theory Blist
  imports Linked
begin

section \<open>The doubly linked lists of \<^verbatim>\<open>queue.h\<close>\<close>

text \<open>
  The \<open>LIST\<close> macros of \<open>src/src/queue.h\<close>: a head without a tail pointer, and elements with the address of the cell that
  points at them. A list with a made-up tail pointer is a tail queue, and every \<open>LIST\<close> macro does to it what the \<open>TAILQ\<close> macro
  of the same name does, so the lemmas on tail queues give those on lists.
\<close>

record blist =
  lh_first :: "nat \<Rightarrow> ptr"
  le_next  :: "addr \<Rightarrow> ptr"
  le_prev  :: "addr \<Rightarrow> tq_slot"

fun l_deref :: "blist \<Rightarrow> tq_slot \<Rightarrow> ptr" where
  "l_deref L (HeadFirst q) = lh_first L q"
| "l_deref L (NextOf a) = le_next L a"

fun l_store :: "tq_slot \<Rightarrow> ptr \<Rightarrow> blist \<Rightarrow> blist" where
  "l_store (HeadFirst q) p L = L\<lparr>lh_first := (lh_first L)(q := p)\<rparr>"
| "l_store (NextOf a) p L = L\<lparr>le_next := (le_next L)(a := p)\<rparr>"

abbreviation set_le_next :: "addr \<Rightarrow> ptr \<Rightarrow> blist \<Rightarrow> blist" where
  "set_le_next a p L \<equiv> L\<lparr>le_next := (le_next L)(a := p)\<rparr>"

abbreviation set_le_prev :: "addr \<Rightarrow> tq_slot \<Rightarrow> blist \<Rightarrow> blist" where
  "set_le_prev a s L \<equiv> L\<lparr>le_prev := (le_prev L)(a := s)\<rparr>"

subsection \<open>The macros\<close>

definition LIST_EMPTY :: "nat \<Rightarrow> blist \<Rightarrow> bool" where
  "LIST_EMPTY q L \<longleftrightarrow> lh_first L q = NULL"

definition LIST_FIRST :: "nat \<Rightarrow> blist \<Rightarrow> ptr" where
  "LIST_FIRST q L = lh_first L q"

definition LIST_NEXT :: "addr \<Rightarrow> blist \<Rightarrow> ptr" where
  "LIST_NEXT a L = le_next L a"

definition LIST_INIT :: "nat \<Rightarrow> blist \<Rightarrow> blist" where
  "LIST_INIT q L = l_store (HeadFirst q) NULL L"

definition LIST_INSERT_AFTER :: "addr \<Rightarrow> addr \<Rightarrow> blist \<Rightarrow> blist" where
  "LIST_INSERT_AFTER listelm elm L =
     (let L = set_le_next elm (LIST_NEXT listelm L) L;
          L = (case LIST_NEXT elm L of
                 None \<Rightarrow> L
               | Some _ \<Rightarrow> (case LIST_NEXT listelm L of Some n \<Rightarrow> set_le_prev n (NextOf elm) L | None \<Rightarrow> L));
          L = set_le_next listelm (Some elm) L
      in set_le_prev elm (NextOf listelm) L)"

definition LIST_INSERT_BEFORE :: "addr \<Rightarrow> addr \<Rightarrow> blist \<Rightarrow> blist" where
  "LIST_INSERT_BEFORE listelm elm L =
     (let L = set_le_prev elm (le_prev L listelm) L;
          L = set_le_next elm (Some listelm) L;
          L = l_store (le_prev L listelm) (Some elm) L
      in set_le_prev listelm (NextOf elm) L)"

definition LIST_INSERT_HEAD :: "nat \<Rightarrow> addr \<Rightarrow> blist \<Rightarrow> blist" where
  "LIST_INSERT_HEAD q elm L =
     (let L = set_le_next elm (LIST_FIRST q L) L;
          L = (case LIST_NEXT elm L of
                 None \<Rightarrow> L
               | Some _ \<Rightarrow> (case LIST_FIRST q L of Some f \<Rightarrow> set_le_prev f (NextOf elm) L | None \<Rightarrow> L));
          L = l_store (HeadFirst q) (Some elm) L
      in set_le_prev elm (HeadFirst q) L)"

definition LIST_REMOVE :: "addr \<Rightarrow> blist \<Rightarrow> blist" where
  "LIST_REMOVE elm L =
     (let L = (case LIST_NEXT elm L of
                 Some n \<Rightarrow> set_le_prev n (le_prev L elm) L
               | None \<Rightarrow> L)
      in l_store (le_prev L elm) (LIST_NEXT elm L) L)"

definition LIST_SWAP :: "nat \<Rightarrow> nat \<Rightarrow> blist \<Rightarrow> blist" where
  "LIST_SWAP h1 h2 L =
     (let swap_tmp = LIST_FIRST h1 L;
          L = l_store (HeadFirst h1) (LIST_FIRST h2 L) L;
          L = l_store (HeadFirst h2) swap_tmp L;
          L = (case LIST_FIRST h1 L of Some f \<Rightarrow> set_le_prev f (HeadFirst h1) L | None \<Rightarrow> L)
      in (case LIST_FIRST h2 L of Some f \<Rightarrow> set_le_prev f (HeadFirst h2) L | None \<Rightarrow> L))"

definition LIST_FOREACH :: "nat \<Rightarrow> blist \<Rightarrow> addr list option" where
  "LIST_FOREACH q L = foreach_from LIST_NEXT (LIST_FIRST q L) L"

definition LIST_FOREACH_SAFE :: "(addr \<Rightarrow> blist \<Rightarrow> blist option) \<Rightarrow> nat \<Rightarrow> blist \<Rightarrow> blist option" where
  "LIST_FOREACH_SAFE body q L = foreach_safe_from LIST_NEXT body (LIST_FIRST q L) L"

text \<open>The consistency checks of the kernel build.\<close>

definition QMD_LIST_CHECK_HEAD :: "nat \<Rightarrow> blist \<Rightarrow> bool" where
  "QMD_LIST_CHECK_HEAD q L \<longleftrightarrow> (case LIST_FIRST q L of Some f \<Rightarrow> le_prev L f = HeadFirst q | None \<Rightarrow> True)"

definition QMD_LIST_CHECK_NEXT :: "addr \<Rightarrow> blist \<Rightarrow> bool" where
  "QMD_LIST_CHECK_NEXT elm L \<longleftrightarrow> (case LIST_NEXT elm L of Some n \<Rightarrow> le_prev L n = NextOf elm | None \<Rightarrow> True)"

definition QMD_LIST_CHECK_PREV :: "addr \<Rightarrow> blist \<Rightarrow> bool" where
  "QMD_LIST_CHECK_PREV elm L \<longleftrightarrow> l_deref L (le_prev L elm) = Some elm"

lemmas list_defs = LIST_EMPTY_def LIST_FIRST_def LIST_NEXT_def LIST_INIT_def LIST_INSERT_AFTER_def LIST_INSERT_BEFORE_def
  LIST_INSERT_HEAD_def LIST_REMOVE_def LIST_SWAP_def

subsection \<open>A list as a tail queue\<close>

definition drop_tail :: "tailq \<Rightarrow> blist" where
  "drop_tail Q = \<lparr>lh_first = tqh_first Q, le_next = tqe_next Q, le_prev = tqe_prev Q\<rparr>"

definition l_repr :: "blist \<Rightarrow> nat \<Rightarrow> addr list \<Rightarrow> bool" where
  "l_repr L q xs \<longleftrightarrow> (\<exists>Q. drop_tail Q = L \<and> tq_repr Q q xs)"

lemma drop_tail_sel [simp]:
  "lh_first (drop_tail Q) = tqh_first Q" "le_next (drop_tail Q) = tqe_next Q" "le_prev (drop_tail Q) = tqe_prev Q"
  "l_deref (drop_tail Q) s = tq_deref Q s" "l_store s p (drop_tail Q) = drop_tail (tq_store s p Q)"
  by (cases s; simp add: drop_tail_def)+

lemma drop_tail_upd [simp]:
  "set_le_next a p (drop_tail Q) = drop_tail (set_tqe_next a p Q)" "set_le_prev a s (drop_tail Q) = drop_tail (set_tqe_prev a s Q)"
  "drop_tail (set_tqh_last q s Q) = drop_tail Q"
  by (simp_all add: drop_tail_def)

text \<open>Each macro does what the one for tail queues does.\<close>

lemma drop_tail_ops:
  "LIST_INIT q (drop_tail Q) = drop_tail (TAILQ_INIT q Q)"
  "listelm \<noteq> elm \<Longrightarrow> LIST_INSERT_AFTER listelm elm (drop_tail Q) = drop_tail (TAILQ_INSERT_AFTER q listelm elm Q)"
  "LIST_INSERT_BEFORE listelm elm (drop_tail Q) = drop_tail (TAILQ_INSERT_BEFORE listelm elm Q)"
  "LIST_INSERT_HEAD q elm (drop_tail Q) = drop_tail (TAILQ_INSERT_HEAD q elm Q)"
  "LIST_REMOVE elm (drop_tail Q) = drop_tail (TAILQ_REMOVE q elm Q)"
  "LIST_SWAP h1 h2 (drop_tail Q) = drop_tail (TAILQ_SWAP h1 h2 Q)"
  unfolding tq_defs list_defs Let_def
       apply (auto split: option.split simp: drop_tail_def) [2]
     apply (cases "tqe_prev Q listelm"; simp add: drop_tail_def)
    apply (auto split: option.split simp: drop_tail_def) [1]
   apply (cases "tqe_prev Q elm"; simp add: drop_tail_def split: option.split)
  apply (auto split: option.split simp: drop_tail_def)
  done

lemma l_repr_first: "l_repr L q xs \<Longrightarrow> LIST_FIRST q L = (case xs of [] \<Rightarrow> NULL | x # _ \<Rightarrow> Some x)"
  by (auto simp: l_repr_def LIST_FIRST_def tq_repr_first)

lemma l_repr_distinct: "l_repr L q xs \<Longrightarrow> distinct xs"
  by (auto simp: l_repr_def dest: tq_repr_distinct)

lemma LIST_INIT_repr: "l_repr (LIST_INIT q L) q []"
proof -
  have "drop_tail \<lparr>tqh_first = lh_first L, tqh_last = HeadFirst, tqe_next = le_next L, tqe_prev = le_prev L\<rparr> = L"
    by (simp add: drop_tail_def)
  from this [symmetric] show ?thesis using TAILQ_INIT_repr unfolding l_repr_def by (metis drop_tail_ops(1))
qed

lemma LIST_INSERT_HEAD_repr: "l_repr L q xs \<Longrightarrow> elm \<notin> set xs \<Longrightarrow> l_repr (LIST_INSERT_HEAD q elm L) q (elm # xs)"
  unfolding l_repr_def by (metis drop_tail_ops(4) TAILQ_INSERT_HEAD_repr)

lemma LIST_INSERT_AFTER_repr:
  "l_repr L q (xs @ a # ys) \<Longrightarrow> elm \<notin> set (xs @ a # ys) \<Longrightarrow> l_repr (LIST_INSERT_AFTER a elm L) q (xs @ a # elm # ys)"
  unfolding l_repr_def using drop_tail_ops(2) [of a elm _ q] TAILQ_INSERT_AFTER_repr by fastforce

lemma LIST_INSERT_BEFORE_repr:
  "l_repr L q (xs @ a # ys) \<Longrightarrow> elm \<notin> set (xs @ a # ys) \<Longrightarrow> l_repr (LIST_INSERT_BEFORE a elm L) q (xs @ elm # a # ys)"
  unfolding l_repr_def by (metis drop_tail_ops(3) TAILQ_INSERT_BEFORE_repr)

lemma LIST_REMOVE_repr: "l_repr L q xs \<Longrightarrow> elm \<in> set xs \<Longrightarrow> l_repr (LIST_REMOVE elm L) q (remove1 elm xs)"
  unfolding l_repr_def by (metis drop_tail_ops(5) TAILQ_REMOVE_remove1)

interpretation ll: linked_list "\<lambda>L. l_repr L q" "LIST_FIRST q" LIST_NEXT "LIST_INSERT_HEAD q" LIST_INSERT_AFTER "\<lambda>a L. Some (LIST_REMOVE a L)"
  for q
proof unfold_locales
  fix L xs a ys assume "l_repr L q (xs @ a # ys)"
  then show "LIST_NEXT a L = head_of ys" by (auto simp: l_repr_def LIST_NEXT_def tq_repr_at(2) head_of_def)
qed (simp_all add: l_repr_distinct l_repr_first head_of_def LIST_INSERT_HEAD_repr LIST_INSERT_AFTER_repr LIST_REMOVE_repr)

text \<open>Two lists at once.\<close>

lemma l_repr_both:
  assumes "l_repr L h1 xs" "l_repr L h2 ys" "h1 \<noteq> h2"
  obtains Q where "drop_tail Q = L" "tq_repr Q h1 xs" "tq_repr Q h2 ys"
proof -
  obtain Q1 Q2 where Q1: "drop_tail Q1 = L" "tq_repr Q1 h1 xs" and Q2: "drop_tail Q2 = L" "tq_repr Q2 h2 ys"
    using assms(1,2) by (auto simp: l_repr_def)
  let ?Q = "set_tqh_last h2 (tqh_last Q2 h2) Q1"
  have same: "tqh_first Q1 = tqh_first Q2" "tqe_next Q1 = tqe_next Q2" "tqe_prev Q1 = tqe_prev Q2"
    using Q1(1) Q2(1) by (auto simp: drop_tail_def)
  have "tq_repr ?Q h1 xs" by (rule tq_repr_frame [OF Q1(2), of "{h2}" "{}"]) (use assms(3) in \<open>auto simp: tq_frame_def\<close>)
  moreover have "tq_repr ?Q h2 ys" by (rule tq_repr_frame [OF Q2(2), of "- {h2}" "{}"]) (use same in \<open>auto simp: tq_frame_def\<close>)
  ultimately show ?thesis using that [of ?Q] Q1(1) by simp
qed

lemma LIST_SWAP_repr:
  assumes "l_repr L h1 xs" "l_repr L h2 ys" "h1 \<noteq> h2" "set xs \<inter> set ys = {}"
  shows "l_repr (LIST_SWAP h1 h2 L) h1 ys \<and> l_repr (LIST_SWAP h1 h2 L) h2 xs"
proof -
  obtain Q where Q: "drop_tail Q = L" "tq_repr Q h1 xs" "tq_repr Q h2 ys" using l_repr_both [OF assms(1-3)] by blast
  have "LIST_SWAP h1 h2 L = drop_tail (TAILQ_SWAP h1 h2 Q)" using drop_tail_ops(6) Q(1) by metis
  with TAILQ_SWAP_repr1 [OF Q(2,3) assms(3,4)] TAILQ_SWAP_repr2 [OF Q(2,3) assms(3,4)] show ?thesis by (auto simp: l_repr_def)
qed

text \<open>Removing from one list does not change another one.\<close>

lemma LIST_REMOVE_other:
  assumes "l_repr L h1 xs" "l_repr L h2 ys" "h1 \<noteq> h2" "set xs \<inter> set ys = {}" "a \<in> set xs"
  shows "l_repr (LIST_REMOVE a L) h2 ys"
proof -
  obtain Q where Q: "drop_tail Q = L" "tq_repr Q h1 xs" "tq_repr Q h2 ys" using l_repr_both [OF assms(1-3)] by blast
  have "tq_repr (TAILQ_REMOVE h1 a Q) h2 ys"
    by (rule tq_repr_frame [OF Q(3) TAILQ_REMOVE_frame [OF Q(2) assms(5)]]) (use assms(3,4) in auto)
  moreover have "LIST_REMOVE a L = drop_tail (TAILQ_REMOVE h1 a Q)" using drop_tail_ops(5) Q(1) by metis
  ultimately show ?thesis by (auto simp: l_repr_def)
qed

lemma drop_tail_checks:
  "QMD_LIST_CHECK_HEAD q (drop_tail Q) \<longleftrightarrow> QMD_TAILQ_CHECK_HEAD q Q"
  "QMD_LIST_CHECK_NEXT a (drop_tail Q) \<longleftrightarrow> QMD_TAILQ_CHECK_NEXT a Q"
  "QMD_LIST_CHECK_PREV a (drop_tail Q) \<longleftrightarrow> QMD_TAILQ_CHECK_PREV a Q"
  by (simp_all add: QMD_LIST_CHECK_HEAD_def QMD_TAILQ_CHECK_HEAD_def QMD_LIST_CHECK_NEXT_def QMD_TAILQ_CHECK_NEXT_def
      QMD_LIST_CHECK_PREV_def QMD_TAILQ_CHECK_PREV_def LIST_FIRST_def TAILQ_FIRST_def LIST_NEXT_def TAILQ_NEXT_def split: option.split)

lemma list_checks:
  assumes "l_repr L q xs"
  shows "QMD_LIST_CHECK_HEAD q L" "a \<in> set xs \<Longrightarrow> QMD_LIST_CHECK_NEXT a L" "a \<in> set xs \<Longrightarrow> QMD_LIST_CHECK_PREV a L"
proof -
  obtain Q where Q: "drop_tail Q = L" "tq_repr Q q xs" using assms by (auto simp: l_repr_def)
  from tailq_checks [OF Q(2)]
  show "QMD_LIST_CHECK_HEAD q L" "a \<in> set xs \<Longrightarrow> QMD_LIST_CHECK_NEXT a L" "a \<in> set xs \<Longrightarrow> QMD_LIST_CHECK_PREV a L"
    by (simp_all add: drop_tail_checks flip: Q(1))
qed

definition blist_zero :: blist where
  "blist_zero = \<lparr>lh_first = (\<lambda>_. NULL), le_next = (\<lambda>_. NULL), le_prev = (\<lambda>_. HeadFirst 0)\<rparr>"

lemma blist_zero_repr: "l_repr blist_zero q []"
  unfolding l_repr_def by (rule exI [of _ tq_zero]) (simp add: blist_zero_def drop_tail_def tq_zero_def tq_repr_def)

subsection \<open>Properties\<close>

text \<open>(C24) \<open>LIST_REMOVE\<close> keeps lists well formed: the element leaves its list, the other list of the same link field is not
  changed, and after it the three consistency checks of the kernel build hold for the head and for every element.\<close>

theorem LIST_REMOVE_well_formed:
  assumes "l_repr L h1 xs" "l_repr L h2 ys" "h1 \<noteq> h2" "set xs \<inter> set ys = {}" "a \<in> set xs" "b \<in> set (remove1 a xs)"
  shows "l_repr (LIST_REMOVE a L) h1 (remove1 a xs) \<and> l_repr (LIST_REMOVE a L) h2 ys \<and> QMD_LIST_CHECK_HEAD h1 (LIST_REMOVE a L) \<and>
    QMD_LIST_CHECK_NEXT b (LIST_REMOVE a L) \<and> QMD_LIST_CHECK_PREV b (LIST_REMOVE a L)"
  using LIST_REMOVE_repr [OF assms(1,5)] LIST_REMOVE_other [OF assms(1-5)] list_checks assms(6) by blast

theorem LIST_REMOVE_well_formed_witness:
  "l_repr (LIST_REMOVE 7 (fold (LIST_INSERT_HEAD 0) [4, 7, 9] blist_zero)) 0 [9, 4] \<and>
   QMD_LIST_CHECK_PREV 4 (LIST_REMOVE 7 (fold (LIST_INSERT_HEAD 0) [4, 7, 9] blist_zero))"
proof -
  have "l_repr (fold (LIST_INSERT_HEAD 0) [4, 7, 9] blist_zero) 0 [9, 7, 4]"
    using ll.insert_head_all [OF blist_zero_repr, of "[4, 7, 9]" 0] by simp
  moreover have "l_repr (fold (LIST_INSERT_HEAD 0) [4, 7, 9] blist_zero) 1 []"
    unfolding l_repr_def
    by (rule exI [of _ "fold (TAILQ_INSERT_HEAD 0) [4, 7, 9] tq_zero"])
       (simp add: blist_zero_def tq_zero_def drop_tail_def tq_defs list_defs tq_repr_def)
  ultimately show ?thesis using LIST_REMOVE_well_formed [of _ 0 "[9, 7, 4]" 1 "[]" 7 4] by simp
qed

text \<open>The \<open>LIST\<close> macros refine operations on lists: insertion at the head, after and before an element, removal; \<open>LIST_FOREACH\<close> ends
  and visits the elements in order, and \<open>LIST_FOREACH_SAFE\<close> with a body that removes some of them leaves exactly the others.\<close>

theorem LIST_macros_refine:
  assumes "l_repr L q (xs @ a # ys)" "elm \<notin> set (xs @ a # ys)"
  shows "l_repr (LIST_INSERT_HEAD q elm L) q (elm # xs @ a # ys) \<and> l_repr (LIST_INSERT_AFTER a elm L) q (xs @ a # elm # ys) \<and>
    l_repr (LIST_INSERT_BEFORE a elm L) q (xs @ elm # a # ys) \<and> l_repr (LIST_REMOVE a L) q (xs @ ys) \<and>
    LIST_FOREACH q L = Some (xs @ a # ys) \<and>
    (\<exists>L'. LIST_FOREACH_SAFE (remove_if P (\<lambda>a L. Some (LIST_REMOVE a L))) q L = Some L' \<and> l_repr L' q (filter (\<lambda>a. \<not> P a) (xs @ a # ys)))"
proof -
  have "a \<notin> set xs" using l_repr_distinct [OF assms(1)] by simp
  then have "l_repr (LIST_REMOVE a L) q (xs @ ys)" using LIST_REMOVE_repr [OF assms(1), of a] by (simp add: remove1_middle)
  then show ?thesis
    using ll.foreach_visits [OF assms(1)] ll.foreach_safe_filters [OF assms(1), of P] LIST_INSERT_HEAD_repr [OF assms]
      LIST_INSERT_AFTER_repr [OF assms] LIST_INSERT_BEFORE_repr [OF assms]
    by (simp add: LIST_FOREACH_def LIST_FOREACH_SAFE_def)
qed

theorem LIST_macros_refine_witness:
  "l_repr (LIST_INSERT_BEFORE 7 5 (fold (LIST_INSERT_HEAD 0) [4, 7, 9] blist_zero)) 0 [9, 5, 7, 4] \<and>
   LIST_FOREACH 0 (fold (LIST_INSERT_HEAD 0) [4, 7, 9] blist_zero) = Some [9, 7, 4]"
  using LIST_macros_refine [of _ 0 "[9]" 7 "[4]" 5] ll.insert_head_all [OF blist_zero_repr, of "[4, 7, 9]" 0] by simp

end
