(* ===== verification/Stailq.thy ===== *)
theory Stailq
  imports Linked
begin

section \<open>The singly linked tail queues of \<^verbatim>\<open>queue.h\<close>\<close>

text \<open>
  The \<open>STAILQ\<close> macros of \<open>src/src/queue.h\<close>: a head with a tail pointer, elements with a next pointer only. Removal walks along the
  list to the predecessor. A tail queue without its back pointers is such a queue.
\<close>

record stailq =
  stqh_first :: "nat \<Rightarrow> ptr"
  stqh_last  :: "nat \<Rightarrow> tq_slot"
  stqe_next  :: "addr \<Rightarrow> ptr"

fun sq_store :: "tq_slot \<Rightarrow> ptr \<Rightarrow> stailq \<Rightarrow> stailq" where
  "sq_store (HeadFirst q) p Q = Q\<lparr>stqh_first := (stqh_first Q)(q := p)\<rparr>"
| "sq_store (NextOf a) p Q = Q\<lparr>stqe_next := (stqe_next Q)(a := p)\<rparr>"

abbreviation set_stqh_last :: "nat \<Rightarrow> tq_slot \<Rightarrow> stailq \<Rightarrow> stailq" where
  "set_stqh_last q s Q \<equiv> Q\<lparr>stqh_last := (stqh_last Q)(q := s)\<rparr>"

subsection \<open>The macros\<close>

definition STAILQ_EMPTY :: "nat \<Rightarrow> stailq \<Rightarrow> bool" where
  "STAILQ_EMPTY q Q \<longleftrightarrow> stqh_first Q q = NULL"

definition STAILQ_FIRST :: "nat \<Rightarrow> stailq \<Rightarrow> ptr" where
  "STAILQ_FIRST q Q = stqh_first Q q"

definition STAILQ_NEXT :: "addr \<Rightarrow> stailq \<Rightarrow> ptr" where
  "STAILQ_NEXT a Q = stqe_next Q a"

definition STAILQ_INIT :: "nat \<Rightarrow> stailq \<Rightarrow> stailq" where
  "STAILQ_INIT q Q = set_stqh_last q (HeadFirst q) (sq_store (HeadFirst q) NULL Q)"

definition STAILQ_CONCAT :: "nat \<Rightarrow> nat \<Rightarrow> stailq \<Rightarrow> stailq" where
  "STAILQ_CONCAT h1 h2 Q =
     (if \<not> STAILQ_EMPTY h2 Q then
        let Q = sq_store (stqh_last Q h1) (stqh_first Q h2) Q;
            Q = set_stqh_last h1 (stqh_last Q h2) Q
        in STAILQ_INIT h2 Q
      else Q)"

definition STAILQ_INSERT_AFTER :: "nat \<Rightarrow> addr \<Rightarrow> addr \<Rightarrow> stailq \<Rightarrow> stailq" where
  "STAILQ_INSERT_AFTER q tqelm elm Q =
     (let Q = sq_store (NextOf elm) (STAILQ_NEXT tqelm Q) Q;
          Q = (if STAILQ_NEXT elm Q = NULL then set_stqh_last q (NextOf elm) Q else Q)
      in sq_store (NextOf tqelm) (Some elm) Q)"

definition STAILQ_INSERT_HEAD :: "nat \<Rightarrow> addr \<Rightarrow> stailq \<Rightarrow> stailq" where
  "STAILQ_INSERT_HEAD q elm Q =
     (let Q = sq_store (NextOf elm) (STAILQ_FIRST q Q) Q;
          Q = (if STAILQ_NEXT elm Q = NULL then set_stqh_last q (NextOf elm) Q else Q)
      in sq_store (HeadFirst q) (Some elm) Q)"

definition STAILQ_INSERT_TAIL :: "nat \<Rightarrow> addr \<Rightarrow> stailq \<Rightarrow> stailq" where
  "STAILQ_INSERT_TAIL q elm Q =
     (let Q = sq_store (NextOf elm) NULL Q;
          Q = sq_store (stqh_last Q q) (Some elm) Q
      in set_stqh_last q (NextOf elm) Q)"

text \<open>\<open>STAILQ_LAST\<close> computes the element from the address of its next cell; \<open>None\<close> when the tail pointer is not such an address.\<close>

definition STAILQ_LAST :: "nat \<Rightarrow> stailq \<Rightarrow> ptr option" where
  "STAILQ_LAST q Q =
     (if STAILQ_EMPTY q Q then Some NULL
      else (case stqh_last Q q of NextOf a \<Rightarrow> Some (Some a) | HeadFirst _ \<Rightarrow> None))"

definition STAILQ_REMOVE_HEAD :: "nat \<Rightarrow> stailq \<Rightarrow> stailq option" where
  "STAILQ_REMOVE_HEAD q Q = do {
     f \<leftarrow> STAILQ_FIRST q Q;
     let Q = sq_store (HeadFirst q) (STAILQ_NEXT f Q) Q;
     Some (if STAILQ_FIRST q Q = NULL then set_stqh_last q (HeadFirst q) Q else Q)
   }"

definition STAILQ_REMOVE_AFTER :: "nat \<Rightarrow> addr \<Rightarrow> stailq \<Rightarrow> stailq option" where
  "STAILQ_REMOVE_AFTER q elm Q = do {
     n \<leftarrow> STAILQ_NEXT elm Q;
     let Q = sq_store (NextOf elm) (STAILQ_NEXT n Q) Q;
     Some (if STAILQ_NEXT elm Q = NULL then set_stqh_last q (NextOf elm) Q else Q)
   }"

text \<open>The loop of \<open>STAILQ_REMOVE\<close>; \<open>None\<close> is a step from \<open>NULL\<close> or no end.\<close>

partial_function (option) sq_predecessor :: "addr \<Rightarrow> ptr \<Rightarrow> stailq \<Rightarrow> addr option" where
  "sq_predecessor elm curelm Q =
     (case curelm of
        None \<Rightarrow> None
      | Some c \<Rightarrow> if STAILQ_NEXT c Q \<noteq> Some elm then sq_predecessor elm (STAILQ_NEXT c Q) Q else Some c)"

declare sq_predecessor.simps [code]

definition STAILQ_REMOVE :: "nat \<Rightarrow> addr \<Rightarrow> stailq \<Rightarrow> stailq option" where
  "STAILQ_REMOVE q elm Q =
     (if STAILQ_FIRST q Q = Some elm then STAILQ_REMOVE_HEAD q Q
      else do { curelm \<leftarrow> sq_predecessor elm (STAILQ_FIRST q Q) Q; STAILQ_REMOVE_AFTER q curelm Q })"

definition STAILQ_SWAP :: "nat \<Rightarrow> nat \<Rightarrow> stailq \<Rightarrow> stailq" where
  "STAILQ_SWAP h1 h2 Q =
     (let swap_first = STAILQ_FIRST h1 Q;
          swap_last = stqh_last Q h1;
          Q = sq_store (HeadFirst h1) (STAILQ_FIRST h2 Q) Q;
          Q = set_stqh_last h1 (stqh_last Q h2) Q;
          Q = sq_store (HeadFirst h2) swap_first Q;
          Q = set_stqh_last h2 swap_last Q;
          Q = (if STAILQ_EMPTY h1 Q then set_stqh_last h1 (HeadFirst h1) Q else Q)
      in (if STAILQ_EMPTY h2 Q then set_stqh_last h2 (HeadFirst h2) Q else Q))"

definition STAILQ_FOREACH :: "nat \<Rightarrow> stailq \<Rightarrow> addr list option" where
  "STAILQ_FOREACH q Q = foreach_from STAILQ_NEXT (STAILQ_FIRST q Q) Q"

definition STAILQ_FOREACH_SAFE :: "(addr \<Rightarrow> stailq \<Rightarrow> stailq option) \<Rightarrow> nat \<Rightarrow> stailq \<Rightarrow> stailq option" where
  "STAILQ_FOREACH_SAFE body q Q = foreach_safe_from STAILQ_NEXT body (STAILQ_FIRST q Q) Q"

lemmas stailq_defs = STAILQ_EMPTY_def STAILQ_FIRST_def STAILQ_NEXT_def STAILQ_INIT_def STAILQ_CONCAT_def STAILQ_INSERT_AFTER_def
  STAILQ_INSERT_HEAD_def STAILQ_INSERT_TAIL_def STAILQ_SWAP_def

subsection \<open>A tail queue without its back pointers\<close>

definition drop_prev :: "tailq \<Rightarrow> stailq" where
  "drop_prev T = \<lparr>stqh_first = tqh_first T, stqh_last = tqh_last T, stqe_next = tqe_next T\<rparr>"

definition sq_repr :: "stailq \<Rightarrow> nat \<Rightarrow> addr list \<Rightarrow> bool" where
  "sq_repr Q q xs \<longleftrightarrow> (\<exists>T. drop_prev T = Q \<and> tq_repr T q xs)"

lemma drop_prev_sel [simp]:
  "stqh_first (drop_prev T) = tqh_first T" "stqh_last (drop_prev T) = tqh_last T" "stqe_next (drop_prev T) = tqe_next T"
  "sq_store s p (drop_prev T) = drop_prev (tq_store s p T)" "set_stqh_last q s (drop_prev T) = drop_prev (set_tqh_last q s T)"
  "drop_prev (set_tqe_prev a s T) = drop_prev T"
  by (cases s; simp add: drop_prev_def)+

lemma drop_prev_ops:
  "STAILQ_INIT q (drop_prev T) = drop_prev (TAILQ_INIT q T)"
  "STAILQ_INSERT_AFTER q tqelm elm (drop_prev T) = drop_prev (TAILQ_INSERT_AFTER q tqelm elm T)"
  "STAILQ_INSERT_HEAD q elm (drop_prev T) = drop_prev (TAILQ_INSERT_HEAD q elm T)"
  "STAILQ_SWAP h1 h2 (drop_prev T) = drop_prev (TAILQ_SWAP h1 h2 T)"
  unfolding tq_defs stailq_defs Let_def by (auto split: option.split simp: drop_prev_def)

lemma drop_prev_tail: "STAILQ_INSERT_TAIL q elm (drop_prev T) = drop_prev (TAILQ_INSERT_TAIL q elm T)"
  unfolding tq_defs stailq_defs Let_def by (cases "tqh_last T q") (auto simp: drop_prev_def)

lemma drop_prev_concat: "STAILQ_CONCAT h1 h2 (drop_prev T) = drop_prev (TAILQ_CONCAT h1 h2 T)"
  unfolding tq_defs stailq_defs Let_def by (cases "tqh_last T h1"; cases "tqh_first T h2") (auto simp: drop_prev_def)

lemma sq_predecessor_at:
  "tq_repr T q (us @ c # vs @ a # ys) \<Longrightarrow> sq_predecessor a (Some c) (drop_prev T) = Some (last (c # vs))"
proof (induction vs arbitrary: us c)
  case Nil
  then have "tqe_next T c = Some a" using tq_repr_at(2) [of T q us c "a # ys"] by simp
  then show ?case by (simp add: sq_predecessor.simps STAILQ_NEXT_def)
next
  case (Cons v vs)
  have n: "tqe_next T c = Some v" using tq_repr_at(2) [of T q us c "v # vs @ a # ys"] Cons.prems by simp
  have "v \<noteq> a" using tq_repr_distinct [OF Cons.prems] by auto
  with n Cons.IH [of "us @ [c]" v] Cons.prems show ?case
    by (subst sq_predecessor.simps) (simp add: STAILQ_NEXT_def)
qed

lemma drop_prev_remove:
  assumes r: "tq_repr T q (xs @ a # ys)"
  shows "STAILQ_REMOVE q a (drop_prev T) = Some (drop_prev (TAILQ_REMOVE q a T))"
proof -
  note at = tq_repr_at [OF r] and d = tq_repr_distinct [OF r] and f = tq_repr_first [OF r]
  show ?thesis
  proof (cases xs rule: rev_cases)
    case Nil
    with at(1,2) f show ?thesis
      by (cases ys) (auto simp: STAILQ_REMOVE_def STAILQ_REMOVE_HEAD_def TAILQ_REMOVE_def stailq_defs drop_prev_def)
  next
    case (snoc us p)
    have "xs \<noteq> []" using snoc by simp
    then obtain c vs where cv: "xs = c # vs" by (cases xs) auto
    have pred: "sq_predecessor a (Some c) (drop_prev T) = Some p"
    proof -
      have "last (c # vs) = p" using cv snoc by (metis last_snoc)
      with sq_predecessor_at [of T q "[]" c vs a ys] r cv show ?thesis by simp
    qed
    have "tqe_next T p = Some a" using tq_repr_at(2) [of T q us p "a # ys"] r snoc by simp
    moreover have "c \<noteq> a" "tqh_first T q = Some c" using d f cv by auto
    moreover have "p \<noteq> a" "tqe_prev T a = NextOf p" using d at(1) snoc by auto
    ultimately show ?thesis using at(2) pred
      by (cases ys) (auto simp: STAILQ_REMOVE_def STAILQ_REMOVE_AFTER_def TAILQ_REMOVE_def stailq_defs drop_prev_def tq_end_def)
  qed
qed

lemma sq_repr_first: "sq_repr Q q xs \<Longrightarrow> STAILQ_FIRST q Q = head_of xs"
  by (auto simp: sq_repr_def STAILQ_FIRST_def tq_repr_first head_of_def)

lemma STAILQ_REMOVE_repr:
  assumes "sq_repr Q q xs" "a \<in> set xs"
  shows "\<exists>Q'. STAILQ_REMOVE q a Q = Some Q' \<and> sq_repr Q' q (remove1 a xs)"
proof -
  obtain T where T: "drop_prev T = Q" "tq_repr T q xs" using assms(1) by (auto simp: sq_repr_def)
  obtain us vs where xs: "xs = us @ a # vs" using assms(2) by (auto simp: in_set_conv_decomp)
  have "STAILQ_REMOVE q a Q = Some (drop_prev (TAILQ_REMOVE q a T))" using drop_prev_remove [of T q us a vs] T xs by simp
  with TAILQ_REMOVE_remove1 [OF T(2) assms(2)] show ?thesis by (auto simp: sq_repr_def)
qed

lemma STAILQ_inserts_repr:
  "sq_repr Q q xs \<Longrightarrow> a \<notin> set xs \<Longrightarrow> sq_repr (STAILQ_INSERT_HEAD q a Q) q (a # xs)"
  "sq_repr Q q xs \<Longrightarrow> a \<notin> set xs \<Longrightarrow> sq_repr (STAILQ_INSERT_TAIL q a Q) q (xs @ [a])"
  "sq_repr Q q (xs @ b # ys) \<Longrightarrow> a \<notin> set (xs @ b # ys) \<Longrightarrow> sq_repr (STAILQ_INSERT_AFTER q b a Q) q (xs @ b # a # ys)"
  unfolding sq_repr_def
  by (metis drop_prev_ops(3) TAILQ_INSERT_HEAD_repr, metis drop_prev_tail TAILQ_INSERT_TAIL_repr,
      metis drop_prev_ops(2) TAILQ_INSERT_AFTER_repr)

interpretation sql: linked_list "\<lambda>Q. sq_repr Q q" "STAILQ_FIRST q" STAILQ_NEXT "STAILQ_INSERT_HEAD q" "STAILQ_INSERT_AFTER q" "STAILQ_REMOVE q"
  for q
proof unfold_locales
  fix Q xs a ys assume "sq_repr Q q (xs @ a # ys)"
  then show "STAILQ_NEXT a Q = head_of ys" by (auto simp: sq_repr_def STAILQ_NEXT_def tq_repr_at(2) head_of_def)
qed (auto simp: sq_repr_first sq_repr_def dest: tq_repr_distinct intro: STAILQ_inserts_repr STAILQ_REMOVE_repr [unfolded sq_repr_def] STAILQ_inserts_repr [unfolded sq_repr_def])

lemma STAILQ_REMOVE_HEAD_repr: "sq_repr Q q (x # xs) \<Longrightarrow> \<exists>Q'. STAILQ_REMOVE_HEAD q Q = Some Q' \<and> sq_repr Q' q xs"
  using STAILQ_REMOVE_repr [of Q q "x # xs" x] sq_repr_first [of Q q "x # xs"] by (simp add: STAILQ_REMOVE_def)

lemma STAILQ_LAST_repr: "sq_repr Q q xs \<Longrightarrow> STAILQ_LAST q Q = Some (if xs = [] then NULL else Some (last xs))"
  by (cases xs rule: rev_cases)
    (auto simp: sq_repr_def STAILQ_LAST_def STAILQ_EMPTY_def tq_repr_first tq_repr_last split: list.splits)

text \<open>Two queues at once; the back pointers of the two are put together.\<close>

lemma sq_repr_both:
  assumes "sq_repr Q h1 xs" "sq_repr Q h2 ys" "set xs \<inter> set ys = {}"
  obtains T where "drop_prev T = Q" "tq_repr T h1 xs" "tq_repr T h2 ys"
proof -
  obtain T1 T2 where T1: "drop_prev T1 = Q" "tq_repr T1 h1 xs" and T2: "drop_prev T2 = Q" "tq_repr T2 h2 ys"
    using assms(1,2) by (auto simp: sq_repr_def)
  let ?T = "T1\<lparr>tqe_prev := (\<lambda>a. if a \<in> set ys then tqe_prev T2 a else tqe_prev T1 a)\<rparr>"
  have same: "tqh_first T1 = tqh_first T2" "tqe_next T1 = tqe_next T2" "tqh_last T1 = tqh_last T2"
    using T1(1) T2(1) by (auto simp: drop_prev_def)
  have "tq_repr ?T h1 xs" by (rule tq_repr_frame [OF T1(2), of "{}" "set ys"]) (use assms(3) in \<open>auto simp: tq_frame_def\<close>)
  moreover have "tq_repr ?T h2 ys" by (rule tq_repr_frame [OF T2(2), of "{}" "- set ys"]) (use same in \<open>auto simp: tq_frame_def\<close>)
  moreover have "drop_prev ?T = Q" using T1(1) by (simp add: drop_prev_def)
  ultimately show ?thesis using that by blast
qed

lemma STAILQ_two_repr:
  assumes "sq_repr Q h1 xs" "sq_repr Q h2 ys" "h1 \<noteq> h2" "set xs \<inter> set ys = {}"
  shows "sq_repr (STAILQ_CONCAT h1 h2 Q) h1 (xs @ ys)" "sq_repr (STAILQ_CONCAT h1 h2 Q) h2 []"
    "sq_repr (STAILQ_SWAP h1 h2 Q) h1 ys" "sq_repr (STAILQ_SWAP h1 h2 Q) h2 xs"
proof -
  obtain T where T: "drop_prev T = Q" "tq_repr T h1 xs" "tq_repr T h2 ys" using sq_repr_both [OF assms(1,2,4)] by blast
  have "STAILQ_CONCAT h1 h2 Q = drop_prev (TAILQ_CONCAT h1 h2 T)" "STAILQ_SWAP h1 h2 Q = drop_prev (TAILQ_SWAP h1 h2 T)"
    using drop_prev_concat drop_prev_ops(4) T(1) by metis+
  with TAILQ_CONCAT_repr [OF T(2,3) assms(3,4)] TAILQ_SWAP_repr1 [OF T(2,3) assms(3,4)] TAILQ_SWAP_repr2 [OF T(2,3) assms(3,4)]
  show "sq_repr (STAILQ_CONCAT h1 h2 Q) h1 (xs @ ys)" "sq_repr (STAILQ_CONCAT h1 h2 Q) h2 []"
    "sq_repr (STAILQ_SWAP h1 h2 Q) h1 ys" "sq_repr (STAILQ_SWAP h1 h2 Q) h2 xs" by (auto simp: sq_repr_def)
qed

definition stailq_zero :: stailq where
  "stailq_zero = drop_prev tq_zero"

lemma stailq_zero_repr [simp]: "sq_repr stailq_zero q []"
  unfolding sq_repr_def stailq_zero_def by (rule exI [of _ tq_zero]) simp

lemma insert_tail_all: "sq_repr Q q xs \<Longrightarrow> distinct (xs @ ys) \<Longrightarrow> sq_repr (fold (STAILQ_INSERT_TAIL q) ys Q) q (xs @ ys)"
proof (induction ys arbitrary: Q xs)
  case (Cons y ys)
  then have "sq_repr (STAILQ_INSERT_TAIL q y Q) q (xs @ [y])" by (intro STAILQ_inserts_repr) auto
  with Cons show ?case using Cons.IH [of "STAILQ_INSERT_TAIL q y Q" "xs @ [y]"] by simp
qed simp

subsection \<open>Properties\<close>

text \<open>(C25) The singly linked tail queue is a queue, also when it is empty: insertions at both ends and after an element, removal of the head and of any
  member by the search for its predecessor, which ends, the last element, and the complete traversal do to the list of elements what their
  names say.\<close>

theorem STAILQ_macros_refine:
  assumes Q: "sq_repr Q q zs" and elm: "elm \<notin> set zs"
  shows "sq_repr (STAILQ_INSERT_HEAD q elm Q) q (elm # zs) \<and> sq_repr (STAILQ_INSERT_TAIL q elm Q) q (zs @ [elm]) \<and>
    STAILQ_LAST q Q = Some (if zs = [] then NULL else Some (last zs)) \<and> STAILQ_FOREACH q Q = Some zs \<and>
    (zs \<noteq> [] \<longrightarrow> (\<exists>Q'. STAILQ_REMOVE_HEAD q Q = Some Q' \<and> sq_repr Q' q (tl zs))) \<and>
    (\<forall>xs a ys. zs = xs @ a # ys \<longrightarrow> sq_repr (STAILQ_INSERT_AFTER q a elm Q) q (xs @ a # elm # ys) \<and>
       (\<exists>Q'. STAILQ_REMOVE q a Q = Some Q' \<and> sq_repr Q' q (xs @ ys)))"
proof (intro conjI allI impI)
  show "sq_repr (STAILQ_INSERT_HEAD q elm Q) q (elm # zs)" "sq_repr (STAILQ_INSERT_TAIL q elm Q) q (zs @ [elm])"
    using STAILQ_inserts_repr(1,2) [OF Q elm] by simp_all
  show "STAILQ_LAST q Q = Some (if zs = [] then NULL else Some (last zs))" by (rule STAILQ_LAST_repr [OF Q])
  show "STAILQ_FOREACH q Q = Some zs" using sql.foreach_visits [OF Q] by (simp add: STAILQ_FOREACH_def)
  show "\<exists>Q'. STAILQ_REMOVE_HEAD q Q = Some Q' \<and> sq_repr Q' q (tl zs)" if "zs \<noteq> []"
    using that STAILQ_REMOVE_HEAD_repr [of Q q "hd zs" "tl zs"] Q by simp
next
  fix xs a ys assume zs: "zs = xs @ a # ys"
  show "sq_repr (STAILQ_INSERT_AFTER q a elm Q) q (xs @ a # elm # ys)"
    using STAILQ_inserts_repr(3) Q elm unfolding zs by blast
  have "a \<notin> set xs" using sql.repr_distinct [OF Q] zs by simp
  then show "\<exists>Q'. STAILQ_REMOVE q a Q = Some Q' \<and> sq_repr Q' q (xs @ ys)"
    using STAILQ_REMOVE_repr [OF Q, of a] zs by (simp add: remove1_middle)
qed

theorem STAILQ_macros_refine_witness:
  "(\<exists>Q'. STAILQ_REMOVE 0 7 (fold (STAILQ_INSERT_TAIL 0) [4, 7, 9] stailq_zero) = Some Q' \<and> sq_repr Q' 0 [4, 9]) \<and>
   sq_repr (STAILQ_INSERT_HEAD 0 5 stailq_zero) 0 [5]"
proof -
  have "sq_repr (fold (STAILQ_INSERT_TAIL 0) [4, 7, 9] stailq_zero) 0 ([4] @ 7 # [9])" and e: "sq_repr stailq_zero 0 []"
    using insert_tail_all [of stailq_zero 0 "[]" "[4, 7, 9]"] by simp_all
  from STAILQ_macros_refine [OF this(1), of 5, THEN conjunct2, THEN conjunct2, THEN conjunct2, THEN conjunct2, THEN conjunct2,
      THEN spec [of _ "[4]"], THEN spec [of _ 7], THEN spec [of _ "[9]"]] STAILQ_macros_refine [OF e, of 5]
  show ?thesis by simp
qed

text \<open>\<open>STAILQ_CONCAT\<close> moves the elements of the second queue to the end of the first and leaves it empty; \<open>STAILQ_SWAP\<close> exchanges
  two queues, also when one of them is empty.\<close>

theorem STAILQ_CONCAT_SWAP_refine:
  assumes "sq_repr Q h1 xs" "sq_repr Q h2 ys" "h1 \<noteq> h2" "set xs \<inter> set ys = {}"
  shows "sq_repr (STAILQ_CONCAT h1 h2 Q) h1 (xs @ ys) \<and> sq_repr (STAILQ_CONCAT h1 h2 Q) h2 [] \<and>
    sq_repr (STAILQ_SWAP h1 h2 Q) h1 ys \<and> sq_repr (STAILQ_SWAP h1 h2 Q) h2 xs"
  using STAILQ_two_repr [OF assms] by blast

theorem STAILQ_CONCAT_SWAP_refine_witness:
  "sq_repr (STAILQ_SWAP 0 1 (STAILQ_INSERT_TAIL 0 7 stailq_zero)) 1 [7]"
proof -
  have "sq_repr (STAILQ_INSERT_TAIL 0 7 stailq_zero) 0 [7]" using STAILQ_inserts_repr(2) [of stailq_zero 0 "[]" 7] by simp
  moreover have "sq_repr (STAILQ_INSERT_TAIL 0 7 stailq_zero) 1 []"
    unfolding sq_repr_def
    by (rule exI [of _ "TAILQ_INSERT_TAIL 0 7 tq_zero"]) (simp add: drop_prev_tail stailq_zero_def, simp add: tq_defs tq_repr_def tq_zero_def)
  ultimately show ?thesis using STAILQ_CONCAT_SWAP_refine [of _ 0 "[7]" 1 "[]"] by simp
qed

end
