(* ===== verification/Slist.thy ===== *)
theory Slist
  imports Linked
begin

section \<open>The singly linked lists of \<^verbatim>\<open>queue.h\<close>\<close>

text \<open>
  The \<open>SLIST\<close> macros of \<open>src/src/queue.h\<close>: one pointer in the head, one in every element. They are tail queues from which both the
  tail pointers and the back pointers are left out.
\<close>

record slist =
  slh_first :: "nat \<Rightarrow> ptr"
  sle_next  :: "addr \<Rightarrow> ptr"

fun sl_deref :: "slist \<Rightarrow> tq_slot \<Rightarrow> ptr" where
  "sl_deref S (HeadFirst q) = slh_first S q"
| "sl_deref S (NextOf a) = sle_next S a"

abbreviation set_sle_next :: "addr \<Rightarrow> ptr \<Rightarrow> slist \<Rightarrow> slist" where
  "set_sle_next a p S \<equiv> S\<lparr>sle_next := (sle_next S)(a := p)\<rparr>"

abbreviation set_slh_first :: "nat \<Rightarrow> ptr \<Rightarrow> slist \<Rightarrow> slist" where
  "set_slh_first q p S \<equiv> S\<lparr>slh_first := (slh_first S)(q := p)\<rparr>"

subsection \<open>The macros\<close>

definition SLIST_EMPTY :: "nat \<Rightarrow> slist \<Rightarrow> bool" where
  "SLIST_EMPTY q S \<longleftrightarrow> slh_first S q = NULL"

definition SLIST_FIRST :: "nat \<Rightarrow> slist \<Rightarrow> ptr" where
  "SLIST_FIRST q S = slh_first S q"

definition SLIST_NEXT :: "addr \<Rightarrow> slist \<Rightarrow> ptr" where
  "SLIST_NEXT a S = sle_next S a"

definition SLIST_INIT :: "nat \<Rightarrow> slist \<Rightarrow> slist" where
  "SLIST_INIT q S = set_slh_first q NULL S"

definition SLIST_INSERT_AFTER :: "addr \<Rightarrow> addr \<Rightarrow> slist \<Rightarrow> slist" where
  "SLIST_INSERT_AFTER slistelm elm S =
     (let S = set_sle_next elm (SLIST_NEXT slistelm S) S in set_sle_next slistelm (Some elm) S)"

definition SLIST_INSERT_HEAD :: "nat \<Rightarrow> addr \<Rightarrow> slist \<Rightarrow> slist" where
  "SLIST_INSERT_HEAD q elm S =
     (let S = set_sle_next elm (SLIST_FIRST q S) S in set_slh_first q (Some elm) S)"

definition SLIST_REMOVE_HEAD :: "nat \<Rightarrow> slist \<Rightarrow> slist option" where
  "SLIST_REMOVE_HEAD q S = do { f \<leftarrow> SLIST_FIRST q S; Some (set_slh_first q (SLIST_NEXT f S) S) }"

definition SLIST_REMOVE_AFTER :: "addr \<Rightarrow> slist \<Rightarrow> slist option" where
  "SLIST_REMOVE_AFTER elm S = do { n \<leftarrow> SLIST_NEXT elm S; Some (set_sle_next elm (SLIST_NEXT n S) S) }"

partial_function (option) sl_predecessor :: "addr \<Rightarrow> ptr \<Rightarrow> slist \<Rightarrow> addr option" where
  "sl_predecessor elm curelm S =
     (case curelm of
        None \<Rightarrow> None
      | Some c \<Rightarrow> if SLIST_NEXT c S \<noteq> Some elm then sl_predecessor elm (SLIST_NEXT c S) S else Some c)"

definition SLIST_REMOVE :: "nat \<Rightarrow> addr \<Rightarrow> slist \<Rightarrow> slist option" where
  "SLIST_REMOVE q elm S =
     (if SLIST_FIRST q S = Some elm then SLIST_REMOVE_HEAD q S
      else do { curelm \<leftarrow> sl_predecessor elm (SLIST_FIRST q S) S; SLIST_REMOVE_AFTER curelm S })"

definition SLIST_FOREACH :: "nat \<Rightarrow> slist \<Rightarrow> addr list option" where
  "SLIST_FOREACH q S = foreach_from SLIST_NEXT (SLIST_FIRST q S) S"

definition SLIST_FOREACH_SAFE :: "(addr \<Rightarrow> slist \<Rightarrow> slist option) \<Rightarrow> nat \<Rightarrow> slist \<Rightarrow> slist option" where
  "SLIST_FOREACH_SAFE body q S = foreach_safe_from SLIST_NEXT body (SLIST_FIRST q S) S"

text \<open>\<open>SLIST_FOREACH_PREVPTR\<close> goes along the cells that point at the elements; the pairs \<open>(var, varp)\<close> the body sees.\<close>

partial_function (option) sl_prevptr_from :: "tq_slot \<Rightarrow> slist \<Rightarrow> (addr \<times> tq_slot) list option" where
  "sl_prevptr_from varp S =
     (case sl_deref S varp of
        None \<Rightarrow> Some []
      | Some var \<Rightarrow> do { vs \<leftarrow> sl_prevptr_from (NextOf var) S; Some ((var, varp) # vs) })"

declare sl_predecessor.simps [code] and sl_prevptr_from.simps [code]

definition SLIST_FOREACH_PREVPTR :: "nat \<Rightarrow> slist \<Rightarrow> (addr \<times> tq_slot) list option" where
  "SLIST_FOREACH_PREVPTR q S = sl_prevptr_from (HeadFirst q) S"

lemmas slist_defs = SLIST_EMPTY_def SLIST_FIRST_def SLIST_NEXT_def SLIST_INIT_def SLIST_INSERT_AFTER_def SLIST_INSERT_HEAD_def

subsection \<open>A tail queue without tail and back pointers\<close>

definition only_next :: "tailq \<Rightarrow> slist" where
  "only_next T = \<lparr>slh_first = tqh_first T, sle_next = tqe_next T\<rparr>"

definition sl_repr :: "slist \<Rightarrow> nat \<Rightarrow> addr list \<Rightarrow> bool" where
  "sl_repr S q xs \<longleftrightarrow> (\<exists>T. only_next T = S \<and> tq_repr T q xs)"

lemma only_next_sel [simp]:
  "slh_first (only_next T) = tqh_first T" "sle_next (only_next T) = tqe_next T" "sl_deref (only_next T) s = tq_deref T s"
  by (cases s; simp add: only_next_def)+

lemma only_next_ops:
  "SLIST_INIT q (only_next T) = only_next (TAILQ_INIT q T)"
  "SLIST_INSERT_AFTER slistelm elm (only_next T) = only_next (TAILQ_INSERT_AFTER q slistelm elm T)"
  "SLIST_INSERT_HEAD q elm (only_next T) = only_next (TAILQ_INSERT_HEAD q elm T)"
  unfolding tq_defs slist_defs Let_def by (auto split: option.split simp: only_next_def)

lemma sl_predecessor_at:
  "tq_repr T q (us @ c # vs @ a # ys) \<Longrightarrow> sl_predecessor a (Some c) (only_next T) = Some (last (c # vs))"
proof (induction vs arbitrary: us c)
  case Nil
  then have "tqe_next T c = Some a" using tq_repr_at(2) [of T q us c "a # ys"] by simp
  then show ?case by (simp add: sl_predecessor.simps SLIST_NEXT_def)
next
  case (Cons v vs)
  have n: "tqe_next T c = Some v" using tq_repr_at(2) [of T q us c "v # vs @ a # ys"] Cons.prems by simp
  have "v \<noteq> a" using tq_repr_distinct [OF Cons.prems] by auto
  with n Cons.IH [of "us @ [c]" v] Cons.prems show ?case
    by (subst sl_predecessor.simps) (simp add: SLIST_NEXT_def)
qed

lemma only_next_remove:
  assumes r: "tq_repr T q (xs @ a # ys)"
  shows "SLIST_REMOVE q a (only_next T) = Some (only_next (TAILQ_REMOVE q a T))"
proof -
  note at = tq_repr_at [OF r] and d = tq_repr_distinct [OF r] and f = tq_repr_first [OF r]
  show ?thesis
  proof (cases xs rule: rev_cases)
    case Nil
    with at(1,2) f show ?thesis
      by (cases ys) (auto simp: SLIST_REMOVE_def SLIST_REMOVE_HEAD_def TAILQ_REMOVE_def slist_defs only_next_def)
  next
    case (snoc us p)
    have "xs \<noteq> []" using snoc by simp
    then obtain c vs where cv: "xs = c # vs" by (cases xs) auto
    have "last (c # vs) = p" using cv snoc by (metis last_snoc)
    with sl_predecessor_at [of T q "[]" c vs a ys] r cv have "sl_predecessor a (Some c) (only_next T) = Some p" by simp
    moreover have "tqe_next T p = Some a" using tq_repr_at(2) [of T q us p "a # ys"] r snoc by simp
    moreover have "c \<noteq> a" "tqh_first T q = Some c" using d f cv by auto
    moreover have "p \<noteq> a" "tqe_prev T a = NextOf p" using d at(1) snoc by auto
    ultimately show ?thesis using at(2)
      by (cases ys) (auto simp: SLIST_REMOVE_def SLIST_REMOVE_AFTER_def TAILQ_REMOVE_def slist_defs only_next_def)
  qed
qed

lemma SLIST_REMOVE_repr:
  assumes "sl_repr S q xs" "a \<in> set xs"
  shows "\<exists>S'. SLIST_REMOVE q a S = Some S' \<and> sl_repr S' q (remove1 a xs)"
proof -
  obtain T where T: "only_next T = S" "tq_repr T q xs" using assms(1) by (auto simp: sl_repr_def)
  obtain us vs where xs: "xs = us @ a # vs" using assms(2) by (auto simp: in_set_conv_decomp)
  have "SLIST_REMOVE q a S = Some (only_next (TAILQ_REMOVE q a T))" using only_next_remove [of T q us a vs] T xs by simp
  with TAILQ_REMOVE_remove1 [OF T(2) assms(2)] show ?thesis by (auto simp: sl_repr_def)
qed

lemma SLIST_inserts_repr:
  "sl_repr S q xs \<Longrightarrow> a \<notin> set xs \<Longrightarrow> sl_repr (SLIST_INSERT_HEAD q a S) q (a # xs)"
  "sl_repr S q (xs @ b # ys) \<Longrightarrow> a \<notin> set (xs @ b # ys) \<Longrightarrow> sl_repr (SLIST_INSERT_AFTER b a S) q (xs @ b # a # ys)"
  unfolding sl_repr_def by (metis only_next_ops(3) TAILQ_INSERT_HEAD_repr, metis only_next_ops(2) TAILQ_INSERT_AFTER_repr)

lemma sl_repr_first: "sl_repr S q xs \<Longrightarrow> SLIST_FIRST q S = head_of xs"
  by (auto simp: sl_repr_def SLIST_FIRST_def tq_repr_first head_of_def)

lemma sl_repr_distinct: "sl_repr S q xs \<Longrightarrow> distinct xs"
  by (auto simp: sl_repr_def dest: tq_repr_distinct)

interpretation sll: linked_list "\<lambda>S. sl_repr S q" "SLIST_FIRST q" SLIST_NEXT "SLIST_INSERT_HEAD q" SLIST_INSERT_AFTER "SLIST_REMOVE q"
  for q
proof unfold_locales
  fix S xs a ys assume "sl_repr S q (xs @ a # ys)"
  then show "SLIST_NEXT a S = head_of ys" by (auto simp: sl_repr_def SLIST_NEXT_def tq_repr_at(2) head_of_def)
qed (simp_all add: sl_repr_first sl_repr_distinct SLIST_inserts_repr SLIST_REMOVE_repr)

lemma sl_prevptr_part:
  "tq_part T s xs e \<Longrightarrow> tq_deref T e = NULL \<Longrightarrow> sl_prevptr_from s (only_next T) = Some (zip xs (s # map NextOf xs))"
proof (induction xs arbitrary: s)
  case Nil
  then show ?case by (subst sl_prevptr_from.simps) simp
next
  case (Cons x xs)
  from Cons.IH [of "NextOf x"] Cons.prems have "sl_prevptr_from (NextOf x) (only_next T) = Some (zip xs (NextOf x # map NextOf xs))" by simp
  then show ?case using Cons.prems by (subst sl_prevptr_from.simps) simp
qed

definition slist_zero :: slist where
  "slist_zero = only_next tq_zero"

lemma slist_zero_repr [simp]: "sl_repr slist_zero q []"
  unfolding sl_repr_def slist_zero_def by (rule exI [of _ tq_zero]) simp

subsection \<open>Properties\<close>

text \<open>The \<open>SLIST\<close> macros refine operations on lists: insertion at the head and after an element, removal of a member with the search for
  its predecessor, which ends, the traversal in order, and the traversal with the address of the cell that points at each element.\<close>

theorem SLIST_macros_refine:
  assumes "sl_repr S q (xs @ a # ys)" "elm \<notin> set (xs @ a # ys)"
  shows "sl_repr (SLIST_INSERT_HEAD q elm S) q (elm # xs @ a # ys) \<and> sl_repr (SLIST_INSERT_AFTER a elm S) q (xs @ a # elm # ys) \<and>
    (\<exists>S'. SLIST_REMOVE q a S = Some S' \<and> sl_repr S' q (xs @ ys)) \<and> SLIST_FOREACH q S = Some (xs @ a # ys) \<and>
    SLIST_FOREACH_PREVPTR q S = Some (zip (xs @ a # ys) (HeadFirst q # map NextOf (xs @ a # ys)))"
proof -
  have "a \<notin> set xs" using sl_repr_distinct [OF assms(1)] by simp
  then have "\<exists>S'. SLIST_REMOVE q a S = Some S' \<and> sl_repr S' q (xs @ ys)"
    using SLIST_REMOVE_repr [OF assms(1), of a] by (simp add: remove1_middle)
  moreover have "SLIST_FOREACH_PREVPTR q S = Some (zip (xs @ a # ys) (HeadFirst q # map NextOf (xs @ a # ys)))"
    using assms(1) sl_prevptr_part [of _ "HeadFirst q" "xs @ a # ys"] unfolding sl_repr_def tq_repr_def SLIST_FOREACH_PREVPTR_def by blast
  ultimately show ?thesis
    using SLIST_inserts_repr(1) [OF assms] SLIST_inserts_repr(2) [OF assms] sll.foreach_visits [OF assms(1)] by (simp add: SLIST_FOREACH_def)
qed

theorem SLIST_macros_refine_witness:
  "\<exists>S'. SLIST_REMOVE 0 7 (fold (SLIST_INSERT_HEAD 0) [4, 7, 9] slist_zero) = Some S' \<and> sl_repr S' 0 [9, 4]"
  using SLIST_macros_refine [of _ 0 "[9]" 7 "[4]" 5] sll.insert_head_all [of slist_zero 0 "[]" "[4, 7, 9]"] by simp

end
