(* ===== verification/Rbtree.thy ===== *)
theory Rbtree
  imports Prelude
begin

section \<open>The red-black trees of \<^verbatim>\<open>tree.h\<close>\<close>

text \<open>
  The functions \<open>RB_GENERATE\<close> of \<open>src/src/tree.h\<close> generates, pointer by pointer: rotations,
  the rebalancing loops after an insertion and a removal, insertion, removal, the two searches,
  the neighbours and the extremes. The entries (\<open>RB_ENTRY\<close>) of one link field are a heap
  \<open>rbn\<close>, the head is \<open>rbh_root\<close>. A pointer that is dereferenced is bound in the option
  monad, so the result \<open>None\<close> is a dereference of \<open>NULL\<close> or a loop that does not end. The
  comparison \<open>cmp(elm, _)\<close> of the macro's argument is the parameter \<open>cmp\<close>, already applied to
  the element looked for. \<open>RB_AUGMENT\<close> is the empty macro, as in the program.
\<close>

datatype rb_color = RB_BLACK | RB_RED

record rb_entry =
  rbe_left   :: ptr
  rbe_right  :: ptr
  rbe_parent :: ptr
  rbe_color  :: rb_color

record rbtree =
  rbh_root :: ptr
  rbn      :: "addr \<Rightarrow> rb_entry"

abbreviation RB_LEFT :: "addr \<Rightarrow> rbtree \<Rightarrow> ptr" where "RB_LEFT a t \<equiv> rbe_left (rbn t a)"
abbreviation RB_RIGHT :: "addr \<Rightarrow> rbtree \<Rightarrow> ptr" where "RB_RIGHT a t \<equiv> rbe_right (rbn t a)"
abbreviation RB_PARENT :: "addr \<Rightarrow> rbtree \<Rightarrow> ptr" where "RB_PARENT a t \<equiv> rbe_parent (rbn t a)"
abbreviation RB_COLOR :: "addr \<Rightarrow> rbtree \<Rightarrow> rb_color" where "RB_COLOR a t \<equiv> rbe_color (rbn t a)"
abbreviation RB_ROOT :: "rbtree \<Rightarrow> ptr" where "RB_ROOT t \<equiv> rbh_root t"

definition set_left :: "addr \<Rightarrow> ptr \<Rightarrow> rbtree \<Rightarrow> rbtree" where
  "set_left a p t = t\<lparr>rbn := (rbn t)(a := (rbn t a)\<lparr>rbe_left := p\<rparr>)\<rparr>"

definition set_right :: "addr \<Rightarrow> ptr \<Rightarrow> rbtree \<Rightarrow> rbtree" where
  "set_right a p t = t\<lparr>rbn := (rbn t)(a := (rbn t a)\<lparr>rbe_right := p\<rparr>)\<rparr>"

definition set_parent :: "addr \<Rightarrow> ptr \<Rightarrow> rbtree \<Rightarrow> rbtree" where
  "set_parent a p t = t\<lparr>rbn := (rbn t)(a := (rbn t a)\<lparr>rbe_parent := p\<rparr>)\<rparr>"

definition set_color :: "addr \<Rightarrow> rb_color \<Rightarrow> rbtree \<Rightarrow> rbtree" where
  "set_color a c t = t\<lparr>rbn := (rbn t)(a := (rbn t a)\<lparr>rbe_color := c\<rparr>)\<rparr>"

definition set_root :: "ptr \<Rightarrow> rbtree \<Rightarrow> rbtree" where
  "set_root p t = t\<lparr>rbh_root := p\<rparr>"

lemmas rb_set_defs [rb_simps] =
  set_left_def set_right_def set_parent_def set_color_def set_root_def

definition RB_INIT :: "rbtree \<Rightarrow> rbtree" where
  "RB_INIT t = set_root NULL t"

definition RB_EMPTY :: "rbtree \<Rightarrow> bool" where
  "RB_EMPTY t \<longleftrightarrow> RB_ROOT t = NULL"

definition RB_SET :: "addr \<Rightarrow> ptr \<Rightarrow> rbtree \<Rightarrow> rbtree" where
  "RB_SET elm parent t =
     (let t = set_parent elm parent t;
          t = set_right elm NULL t;
          t = set_left elm NULL t
      in set_color elm RB_RED t)"

definition RB_SET_BLACKRED :: "addr \<Rightarrow> addr \<Rightarrow> rbtree \<Rightarrow> rbtree" where
  "RB_SET_BLACKRED black red t = set_color red RB_RED (set_color black RB_BLACK t)"

text \<open>\<open>p && RB_COLOR(p) == RB_RED\<close> and \<open>p == NULL || RB_COLOR(p) == RB_BLACK\<close>.\<close>

definition is_red :: "ptr \<Rightarrow> rbtree \<Rightarrow> bool" where
  "is_red p t = (case p of None \<Rightarrow> False | Some a \<Rightarrow> RB_COLOR a t = RB_RED)"

definition is_black :: "ptr \<Rightarrow> rbtree \<Rightarrow> bool" where
  "is_black p t = (case p of None \<Rightarrow> True | Some a \<Rightarrow> RB_COLOR a t = RB_BLACK)"

subsection \<open>Rotations\<close>

definition RB_ROTATE_LEFT :: "addr \<Rightarrow> rbtree \<Rightarrow> rbtree option" where
  "RB_ROTATE_LEFT elm t = do {
     tmp \<leftarrow> RB_RIGHT elm t;
     let t = set_right elm (RB_LEFT tmp t) t;
     let t = (case RB_LEFT tmp t of Some b \<Rightarrow> set_parent b (Some elm) t | None \<Rightarrow> t);
     let t = set_parent tmp (RB_PARENT elm t) t;
     let t = (case RB_PARENT elm t of
                Some p \<Rightarrow> if RB_LEFT p t = Some elm then set_left p (Some tmp) t
                          else set_right p (Some tmp) t
              | None \<Rightarrow> set_root (Some tmp) t);
     let t = set_left tmp (Some elm) t;
     Some (set_parent elm (Some tmp) t)
   }"

definition RB_ROTATE_RIGHT :: "addr \<Rightarrow> rbtree \<Rightarrow> rbtree option" where
  "RB_ROTATE_RIGHT elm t = do {
     tmp \<leftarrow> RB_LEFT elm t;
     let t = set_left elm (RB_RIGHT tmp t) t;
     let t = (case RB_RIGHT tmp t of Some b \<Rightarrow> set_parent b (Some elm) t | None \<Rightarrow> t);
     let t = set_parent tmp (RB_PARENT elm t) t;
     let t = (case RB_PARENT elm t of
                Some p \<Rightarrow> if RB_LEFT p t = Some elm then set_left p (Some tmp) t
                          else set_right p (Some tmp) t
              | None \<Rightarrow> set_root (Some tmp) t);
     let t = set_right tmp (Some elm) t;
     Some (set_parent elm (Some tmp) t)
   }"

subsection \<open>Rebalancing after an insertion\<close>

partial_function (option) rb_insert_color_loop :: "addr \<Rightarrow> rbtree \<Rightarrow> rbtree option" where
  "rb_insert_color_loop elm t =
     (case RB_PARENT elm t of
        None \<Rightarrow> Some t
      | Some parent \<Rightarrow>
          if RB_COLOR parent t \<noteq> RB_RED then Some t
          else do {
            gparent \<leftarrow> RB_PARENT parent t;
            if RB_LEFT gparent t = Some parent then
              (if is_red (RB_RIGHT gparent t) t then do {
                 tmp \<leftarrow> RB_RIGHT gparent t;
                 rb_insert_color_loop gparent
                   (RB_SET_BLACKRED parent gparent (set_color tmp RB_BLACK t))
               }
               else do {
                 (elm, parent, t) \<leftarrow>
                   (if RB_RIGHT parent t = Some elm then do {
                      t \<leftarrow> RB_ROTATE_LEFT parent t;
                      Some (parent, elm, t)
                    } else Some (elm, parent, t));
                 t \<leftarrow> RB_ROTATE_RIGHT gparent (RB_SET_BLACKRED parent gparent t);
                 rb_insert_color_loop elm t
               })
            else
              (if is_red (RB_LEFT gparent t) t then do {
                 tmp \<leftarrow> RB_LEFT gparent t;
                 rb_insert_color_loop gparent
                   (RB_SET_BLACKRED parent gparent (set_color tmp RB_BLACK t))
               }
               else do {
                 (elm, parent, t) \<leftarrow>
                   (if RB_LEFT parent t = Some elm then do {
                      t \<leftarrow> RB_ROTATE_RIGHT parent t;
                      Some (parent, elm, t)
                    } else Some (elm, parent, t));
                 t \<leftarrow> RB_ROTATE_LEFT gparent (RB_SET_BLACKRED parent gparent t);
                 rb_insert_color_loop elm t
               })
          })"

definition RB_INSERT_COLOR :: "addr \<Rightarrow> rbtree \<Rightarrow> rbtree option" where
  "RB_INSERT_COLOR elm t = do {
     t \<leftarrow> rb_insert_color_loop elm t;
     r \<leftarrow> RB_ROOT t;
     Some (set_color r RB_BLACK t)
   }"

subsection \<open>Rebalancing after a removal\<close>

partial_function (option) rb_remove_color_loop ::
  "ptr \<Rightarrow> ptr \<Rightarrow> rbtree \<Rightarrow> (ptr \<times> rbtree) option" where
  "rb_remove_color_loop parent elm t =
     (if is_black elm t \<and> elm \<noteq> RB_ROOT t then do {
        p \<leftarrow> parent;
        if RB_LEFT p t = elm then do {
          tmp \<leftarrow> RB_RIGHT p t;
          (tmp, t) \<leftarrow>
            (if RB_COLOR tmp t = RB_RED then do {
               t \<leftarrow> RB_ROTATE_LEFT p (RB_SET_BLACKRED tmp p t);
               tmp \<leftarrow> RB_RIGHT p t;
               Some (tmp, t)
             } else Some (tmp, t));
          if is_black (RB_LEFT tmp t) t \<and> is_black (RB_RIGHT tmp t) t then
            rb_remove_color_loop (RB_PARENT p (set_color tmp RB_RED t)) (Some p)
              (set_color tmp RB_RED t)
          else do {
            (tmp, t) \<leftarrow>
              (if is_black (RB_RIGHT tmp t) t then do {
                 let t = (case RB_LEFT tmp t of
                            Some oleft \<Rightarrow> set_color oleft RB_BLACK t | None \<Rightarrow> t);
                 t \<leftarrow> RB_ROTATE_RIGHT tmp (set_color tmp RB_RED t);
                 tmp \<leftarrow> RB_RIGHT p t;
                 Some (tmp, t)
               } else Some (tmp, t));
            let t = set_color tmp (RB_COLOR p t) t;
            let t = set_color p RB_BLACK t;
            let t = (case RB_RIGHT tmp t of Some r \<Rightarrow> set_color r RB_BLACK t | None \<Rightarrow> t);
            t \<leftarrow> RB_ROTATE_LEFT p t;
            Some (RB_ROOT t, t)
          }
        }
        else do {
          tmp \<leftarrow> RB_LEFT p t;
          (tmp, t) \<leftarrow>
            (if RB_COLOR tmp t = RB_RED then do {
               t \<leftarrow> RB_ROTATE_RIGHT p (RB_SET_BLACKRED tmp p t);
               tmp \<leftarrow> RB_LEFT p t;
               Some (tmp, t)
             } else Some (tmp, t));
          if is_black (RB_LEFT tmp t) t \<and> is_black (RB_RIGHT tmp t) t then
            rb_remove_color_loop (RB_PARENT p (set_color tmp RB_RED t)) (Some p)
              (set_color tmp RB_RED t)
          else do {
            (tmp, t) \<leftarrow>
              (if is_black (RB_LEFT tmp t) t then do {
                 let t = (case RB_RIGHT tmp t of
                            Some oright \<Rightarrow> set_color oright RB_BLACK t | None \<Rightarrow> t);
                 t \<leftarrow> RB_ROTATE_LEFT tmp (set_color tmp RB_RED t);
                 tmp \<leftarrow> RB_LEFT p t;
                 Some (tmp, t)
               } else Some (tmp, t));
            let t = set_color tmp (RB_COLOR p t) t;
            let t = set_color p RB_BLACK t;
            let t = (case RB_LEFT tmp t of Some l \<Rightarrow> set_color l RB_BLACK t | None \<Rightarrow> t);
            t \<leftarrow> RB_ROTATE_RIGHT p t;
            Some (RB_ROOT t, t)
          }
        }
      }
      else Some (elm, t))"

definition RB_REMOVE_COLOR :: "ptr \<Rightarrow> ptr \<Rightarrow> rbtree \<Rightarrow> rbtree option" where
  "RB_REMOVE_COLOR parent elm t = do {
     (elm, t) \<leftarrow> rb_remove_color_loop parent elm t;
     Some (case elm of Some e \<Rightarrow> set_color e RB_BLACK t | None \<Rightarrow> t)
   }"

subsection \<open>Removal\<close>

text \<open>The statement \<open>if (parent) { if (RB_LEFT(parent) == elm) RB_LEFT(parent) = child; else
  RB_RIGHT(parent) = child; } else RB_ROOT(head) = child;\<close>, which \<open>RB_REMOVE\<close> contains three
  times.\<close>

definition rb_replace_child :: "ptr \<Rightarrow> addr \<Rightarrow> ptr \<Rightarrow> rbtree \<Rightarrow> rbtree" where
  "rb_replace_child parent elm child t =
     (case parent of
        Some p \<Rightarrow> if RB_LEFT p t = Some elm then set_left p child t else set_right p child t
      | None \<Rightarrow> set_root child t)"

partial_function (option) rb_leftmost :: "rbtree \<Rightarrow> addr \<Rightarrow> addr option" where
  "rb_leftmost t elm =
     (case RB_LEFT elm t of None \<Rightarrow> Some elm | Some left \<Rightarrow> rb_leftmost t left)"

definition rb_set_parent_of :: "ptr \<Rightarrow> ptr \<Rightarrow> rbtree \<Rightarrow> rbtree" where
  "rb_set_parent_of child parent t =
     (case child of Some c \<Rightarrow> set_parent c parent t | None \<Rightarrow> t)"

definition RB_REMOVE :: "addr \<Rightarrow> rbtree \<Rightarrow> (addr \<times> rbtree) option" where
  "RB_REMOVE old t =
     (if RB_LEFT old t = NULL \<or> RB_RIGHT old t = NULL then do {
        let child = (if RB_LEFT old t = NULL then RB_RIGHT old t else RB_LEFT old t);
        let parent = RB_PARENT old t;
        let color = RB_COLOR old t;
        let t = rb_set_parent_of child parent t;
        let t = rb_replace_child parent old child t;
        t \<leftarrow> (if color = RB_BLACK then RB_REMOVE_COLOR parent child t else Some t);
        Some (old, t)
      }
      else do {
        r \<leftarrow> RB_RIGHT old t;
        elm \<leftarrow> rb_leftmost t r;
        let child = RB_RIGHT elm t;
        let parent = RB_PARENT elm t;
        let color = RB_COLOR elm t;
        let t = rb_set_parent_of child parent t;
        let t = rb_replace_child parent elm child t;
        let parent = (if RB_PARENT elm t = Some old then Some elm else parent);
        let t = t\<lparr>rbn := (rbn t)(elm := rbn t old)\<rparr>;
        let t = rb_replace_child (RB_PARENT old t) old (Some elm) t;
        l \<leftarrow> RB_LEFT old t;
        let t = set_parent l (Some elm) t;
        let t = rb_set_parent_of (RB_RIGHT old t) (Some elm) t;
        t \<leftarrow> (if color = RB_BLACK then RB_REMOVE_COLOR parent child t else Some t);
        Some (old, t)
      })"

subsection \<open>Insertion\<close>

text \<open>The descent of \<open>RB_INSERT\<close>: \<open>Inl\<close> the node with an equal key, or \<open>Inr\<close> the last node
  visited and the last comparison.\<close>

partial_function (option) rb_insert_search ::
  "(addr \<Rightarrow> int) \<Rightarrow> rbtree \<Rightarrow> ptr \<Rightarrow> ptr \<Rightarrow> int \<Rightarrow> (addr + ptr \<times> int) option" where
  "rb_insert_search cmp t tmp parent cmpv =
     (case tmp of
        None \<Rightarrow> Some (Inr (parent, cmpv))
      | Some a \<Rightarrow>
          if cmp a < 0 then rb_insert_search cmp t (RB_LEFT a t) (Some a) (cmp a)
          else if cmp a > 0 then rb_insert_search cmp t (RB_RIGHT a t) (Some a) (cmp a)
          else Some (Inl a))"

definition RB_INSERT :: "(addr \<Rightarrow> int) \<Rightarrow> addr \<Rightarrow> rbtree \<Rightarrow> (ptr \<times> rbtree) option" where
  "RB_INSERT cmp elm t = do {
     found \<leftarrow> rb_insert_search cmp t (RB_ROOT t) NULL 0;
     (case found of
        Inl tmp \<Rightarrow> Some (Some tmp, t)
      | Inr (parent, cmpv) \<Rightarrow> do {
          let t = RB_SET elm parent t;
          let t = (case parent of
                     Some p \<Rightarrow> if cmpv < 0 then set_left p (Some elm) t
                               else set_right p (Some elm) t
                   | None \<Rightarrow> set_root (Some elm) t);
          t \<leftarrow> RB_INSERT_COLOR elm t;
          Some (NULL, t)
        })
   }"

subsection \<open>Searches, neighbours and extremes\<close>

partial_function (option) rb_find_from :: "(addr \<Rightarrow> int) \<Rightarrow> rbtree \<Rightarrow> ptr \<Rightarrow> ptr option" where
  "rb_find_from cmp t tmp =
     (case tmp of
        None \<Rightarrow> Some NULL
      | Some a \<Rightarrow>
          if cmp a < 0 then rb_find_from cmp t (RB_LEFT a t)
          else if cmp a > 0 then rb_find_from cmp t (RB_RIGHT a t)
          else Some (Some a))"

definition RB_FIND :: "(addr \<Rightarrow> int) \<Rightarrow> rbtree \<Rightarrow> ptr option" where
  "RB_FIND cmp t = rb_find_from cmp t (RB_ROOT t)"

partial_function (option) rb_nfind_from :: "(addr \<Rightarrow> int) \<Rightarrow> rbtree \<Rightarrow> ptr \<Rightarrow> ptr \<Rightarrow> ptr option" where
  "rb_nfind_from cmp t tmp res =
     (case tmp of
        None \<Rightarrow> Some res
      | Some a \<Rightarrow>
          if cmp a < 0 then rb_nfind_from cmp t (RB_LEFT a t) (Some a)
          else if cmp a > 0 then rb_nfind_from cmp t (RB_RIGHT a t) res
          else Some (Some a))"

definition RB_NFIND :: "(addr \<Rightarrow> int) \<Rightarrow> rbtree \<Rightarrow> ptr option" where
  "RB_NFIND cmp t = rb_nfind_from cmp t (RB_ROOT t) NULL"

partial_function (option) rb_rightmost :: "rbtree \<Rightarrow> addr \<Rightarrow> addr option" where
  "rb_rightmost t elm =
     (case RB_RIGHT elm t of None \<Rightarrow> Some elm | Some right \<Rightarrow> rb_rightmost t right)"

text \<open>The loops \<open>while (RB_PARENT(elm) && elm == RB_RIGHT(RB_PARENT(elm))) elm = RB_PARENT(elm)\<close>
  of \<open>RB_NEXT\<close> and its mirror image of \<open>RB_PREV\<close>.\<close>

partial_function (option) rb_climb_right :: "rbtree \<Rightarrow> addr \<Rightarrow> addr option" where
  "rb_climb_right t elm =
     (case RB_PARENT elm t of
        None \<Rightarrow> Some elm
      | Some p \<Rightarrow> if RB_RIGHT p t = Some elm then rb_climb_right t p else Some elm)"

partial_function (option) rb_climb_left :: "rbtree \<Rightarrow> addr \<Rightarrow> addr option" where
  "rb_climb_left t elm =
     (case RB_PARENT elm t of
        None \<Rightarrow> Some elm
      | Some p \<Rightarrow> if RB_LEFT p t = Some elm then rb_climb_left t p else Some elm)"

definition RB_NEXT :: "addr \<Rightarrow> rbtree \<Rightarrow> ptr option" where
  "RB_NEXT elm t =
     (case RB_RIGHT elm t of
        Some r \<Rightarrow> map_option Some (rb_leftmost t r)
      | None \<Rightarrow>
          if (case RB_PARENT elm t of None \<Rightarrow> False | Some p \<Rightarrow> RB_LEFT p t = Some elm)
          then Some (RB_PARENT elm t)
          else do { e \<leftarrow> rb_climb_right t elm; Some (RB_PARENT e t) })"

definition RB_PREV :: "addr \<Rightarrow> rbtree \<Rightarrow> ptr option" where
  "RB_PREV elm t =
     (case RB_LEFT elm t of
        Some l \<Rightarrow> map_option Some (rb_rightmost t l)
      | None \<Rightarrow>
          if (case RB_PARENT elm t of None \<Rightarrow> False | Some p \<Rightarrow> RB_RIGHT p t = Some elm)
          then Some (RB_PARENT elm t)
          else do { e \<leftarrow> rb_climb_left t elm; Some (RB_PARENT e t) })"

partial_function (option) rb_minmax_loop :: "int \<Rightarrow> rbtree \<Rightarrow> ptr \<Rightarrow> ptr \<Rightarrow> ptr option" where
  "rb_minmax_loop val t tmp parent =
     (case tmp of
        None \<Rightarrow> Some parent
      | Some a \<Rightarrow>
          rb_minmax_loop val t (if val < 0 then RB_LEFT a t else RB_RIGHT a t) (Some a))"

definition RB_MINMAX :: "int \<Rightarrow> rbtree \<Rightarrow> ptr option" where
  "RB_MINMAX val t = rb_minmax_loop val t (RB_ROOT t) NULL"

definition RB_MIN :: "rbtree \<Rightarrow> ptr option" where
  "RB_MIN t = RB_MINMAX (- 1) t"

definition RB_MAX :: "rbtree \<Rightarrow> ptr option" where
  "RB_MAX t = RB_MINMAX 1 t"

text \<open>\<open>RB_FOREACH\<close>, as the list of the elements the loop visits.\<close>

partial_function (option) rb_foreach_from :: "rbtree \<Rightarrow> ptr \<Rightarrow> addr list option" where
  "rb_foreach_from t x =
     (case x of
        None \<Rightarrow> Some []
      | Some a \<Rightarrow> do {
          x \<leftarrow> RB_NEXT a t;
          as \<leftarrow> rb_foreach_from t x;
          Some (a # as)
        })"

definition RB_FOREACH :: "rbtree \<Rightarrow> addr list option" where
  "RB_FOREACH t = do { x \<leftarrow> RB_MIN t; rb_foreach_from t x }"

declare
  rb_insert_color_loop.simps [code] and
  rb_remove_color_loop.simps [code] and
  rb_leftmost.simps [code] and
  rb_insert_search.simps [code] and
  rb_find_from.simps [code] and
  rb_nfind_from.simps [code] and
  rb_rightmost.simps [code] and
  rb_climb_right.simps [code] and
  rb_climb_left.simps [code] and
  rb_minmax_loop.simps [code] and
  rb_foreach_from.simps [code]

end
