(* ===== verification/Rbtree_Insert.thy ===== *)
theory Rbtree_Insert
  imports Rbtree_Proof
begin

section \<open>Red-black trees: insertion\<close>

text \<open>
  \<open>ins_fix\<close> is the rebalancing loop of \<open>RB_INSERT_COLOR\<close> as a function on positions;
  \<open>insert_loop_at\<close> shows that the pointer loop computes it. The descent of \<open>RB_INSERT\<close> is
  \<open>descend\<close>, the red-black invariant \<open>rb_tree\<close>, and \<open>RB_INSERT_at\<close> the whole insertion.
\<close>

fun paint :: "rb_color \<Rightarrow> rt \<Rightarrow> rt" where
  "paint c RLeaf = RLeaf"
| "paint c (RNode c' l a r) = RNode c l a r"

lemma paint_simps [simp]:
  "inord (paint c T) = inord T" "rootp (paint c T) = rootp T" "T \<noteq> RLeaf \<Longrightarrow> rcolor (paint c T) = c"
  by (cases T; simp)+

fun fcolor :: "rframe \<Rightarrow> rb_color" where
  "fcolor (LeftF c a r) = c"
| "fcolor (RightF c l a) = c"

definition top_black :: "rframe list \<Rightarrow> bool" where
  "top_black cs \<longleftrightarrow> (cs \<noteq> [] \<longrightarrow> fcolor (last cs) = RB_BLACK)"

fun ins_fix :: "rframe list \<Rightarrow> rt \<Rightarrow> rt" where
  "ins_fix (LeftF RB_RED p s # LeftF cg g u # cs) T =
     (if rcolor u = RB_RED
      then ins_fix cs (RNode RB_RED (RNode RB_BLACK T p s) g (paint RB_BLACK u))
      else plug cs (RNode RB_BLACK T p (RNode RB_RED s g u)))"
| "ins_fix (RightF RB_RED s p # LeftF cg g u # cs) T =
     (if rcolor u = RB_RED
      then ins_fix cs (RNode RB_RED (RNode RB_BLACK s p T) g (paint RB_BLACK u))
      else (case T of
              RNode c l x r \<Rightarrow> plug cs (RNode RB_BLACK (RNode RB_RED s p l) x (RNode RB_RED r g u))
            | RLeaf \<Rightarrow> plug cs (RNode cg (RNode RB_RED s p T) g u)))"
| "ins_fix (RightF RB_RED s p # RightF cg u g # cs) T =
     (if rcolor u = RB_RED
      then ins_fix cs (RNode RB_RED (paint RB_BLACK u) g (RNode RB_BLACK s p T))
      else plug cs (RNode RB_BLACK (RNode RB_RED u g s) p T))"
| "ins_fix (LeftF RB_RED p s # RightF cg u g # cs) T =
     (if rcolor u = RB_RED
      then ins_fix cs (RNode RB_RED (paint RB_BLACK u) g (RNode RB_BLACK T p s))
      else (case T of
              RNode c l x r \<Rightarrow> plug cs (RNode RB_BLACK (RNode RB_RED u g l) x (RNode RB_RED r p s))
            | RLeaf \<Rightarrow> plug cs (RNode cg u g (RNode RB_RED T p s))))"
| "ins_fix cs T = plug cs T"

lemma inord_ins_fix [simp]: "inord (ins_fix cs T) = inord (plug cs T)"
  by (induction cs T rule: ins_fix.induct) (auto simp: inord_plug split: rt.splits)

lemma rb_at_color_left:
  "rb_at t cs (RNode c (RNode c1 A x B) a r) \<Longrightarrow>
   rb_at (set_color x c' t) cs (RNode c (RNode c' A x B) a r)"
  using rb_at_color [of t "LeftF c a r # cs"] by simp

lemma rb_at_color_right:
  "rb_at t cs (RNode c l a (RNode c1 A x B)) \<Longrightarrow>
   rb_at (set_color x c' t) cs (RNode c l a (RNode c' A x B))"
  using rb_at_color [of t "RightF c l a # cs"] by simp

lemma rb_same_set_color [simp]: "a \<in> A \<Longrightarrow> rb_same A t (set_color a c t)"
  by (simp add: rb_same_def rb_simps)

lemma rb_same_blackred:
  "a \<in> A \<Longrightarrow> b \<in> A \<Longrightarrow> rb_same A t t' \<Longrightarrow> rb_same A t (RB_SET_BLACKRED a b t')"
  by (simp add: rb_same_def rb_simps RB_SET_BLACKRED_def)

lemma tree_in_parent: "tree_in h p T \<Longrightarrow> rootp T = Some x \<Longrightarrow> rbe_parent (h x) = p"
  by (cases T) auto

lemma loop_stops:
  assumes "rb_at t cs T" "rootp T = Some x" "\<And>f fs. cs = f # fs \<Longrightarrow> fcolor f = RB_BLACK"
  shows "rb_insert_color_loop x t = Some t"
proof -
  obtain c l r where T: "T = RNode c l x r" using assms(2) by (cases T) auto
  show ?thesis
    using assms(1,3) unfolding T
    by (cases cs rule: framep.cases)
       (auto simp: rb_insert_color_loop.simps [of x t] rb_at_def)
qed

text \<open>The two ways a step of the loop ends: the uncle is red, or it is black and the subtree at
  the grandparent is rebuilt by one or two rotations.\<close>

lemma recolour_left:
  assumes "rb_at t cs (RNode cg (RNode RB_RED A p B) g (RNode RB_RED C u D))"
  shows "rb_at (RB_SET_BLACKRED p g (set_color u RB_BLACK t)) cs
           (RNode RB_RED (RNode RB_BLACK A p B) g (RNode RB_BLACK C u D))"
  unfolding RB_SET_BLACKRED_def
  by (intro rb_at_color [where c = cg] rb_at_color_left [where ?c1.0 = RB_RED] rb_at_color_right [OF assms])

lemma recolour_right:
  assumes "rb_at t cs (RNode cg (RNode RB_RED C u D) g (RNode RB_RED A p B))"
  shows "rb_at (RB_SET_BLACKRED p g (set_color u RB_BLACK t)) cs
           (RNode RB_RED (RNode RB_BLACK C u D) g (RNode RB_BLACK A p B))"
  unfolding RB_SET_BLACKRED_def
  by (intro rb_at_color [where c = cg] rb_at_color_right [where ?c1.0 = RB_RED] rb_at_color_left [OF assms])

lemma rebuild_right:
  assumes "rb_at t cs (RNode cg (RNode cp A p B) g U)"
    and S: "S = set (inord (plug cs (RNode cg (RNode cp A p B) g U)))"
  shows "\<exists>t'. RB_ROTATE_RIGHT g (RB_SET_BLACKRED p g t) = Some t' \<and>
     rb_at t' cs (RNode RB_BLACK A p (RNode RB_RED B g U)) \<and> rb_same S t t'"
proof -
  have "rb_at (RB_SET_BLACKRED p g t) cs (RNode RB_RED (RNode RB_BLACK A p B) g U)"
    unfolding RB_SET_BLACKRED_def by (intro rb_at_color [where c = cg] rb_at_color_left [OF assms(1)])
  from RB_ROTATE_RIGHT_at [OF this] obtain t' where
    "RB_ROTATE_RIGHT g (RB_SET_BLACKRED p g t) = Some t'"
    "rb_at t' cs (RNode RB_BLACK A p (RNode RB_RED B g U))" "rb_same S (RB_SET_BLACKRED p g t) t'"
    using S by (auto simp: inord_plug)
  moreover have "rb_same S t (RB_SET_BLACKRED p g t)"
    using S by (intro rb_same_blackred) (auto simp: inord_plug)
  ultimately show ?thesis by (blast intro: rb_same_trans)
qed

lemma rebuild_left:
  assumes "rb_at t cs (RNode cg U g (RNode cp B p A))"
    and S: "S = set (inord (plug cs (RNode cg U g (RNode cp B p A))))"
  shows "\<exists>t'. RB_ROTATE_LEFT g (RB_SET_BLACKRED p g t) = Some t' \<and>
     rb_at t' cs (RNode RB_BLACK (RNode RB_RED U g B) p A) \<and> rb_same S t t'"
proof -
  have "rb_at (RB_SET_BLACKRED p g t) cs (RNode RB_RED U g (RNode RB_BLACK B p A))"
    unfolding RB_SET_BLACKRED_def by (intro rb_at_color [where c = cg] rb_at_color_right [OF assms(1)])
  from RB_ROTATE_LEFT_at [OF this] obtain t' where
    "RB_ROTATE_LEFT g (RB_SET_BLACKRED p g t) = Some t'"
    "rb_at t' cs (RNode RB_BLACK (RNode RB_RED U g B) p A)" "rb_same S (RB_SET_BLACKRED p g t) t'"
    using S by (auto simp: inord_plug)
  moreover have "rb_same S t (RB_SET_BLACKRED p g t)"
    using S by (intro rb_same_blackred) (auto simp: inord_plug)
  ultimately show ?thesis by (blast intro: rb_same_trans)
qed

lemma ins_fix_LL:
  assumes at: "rb_at t cs (RNode cg (RNode RB_RED T p s) g u)" and x: "rootp T = Some x"
    and black: "rcolor u = RB_BLACK"
    and S: "S = set (inord (plug cs (RNode cg (RNode RB_RED T p s) g u)))"
  shows "\<exists>t'. rb_insert_color_loop x t = Some t' \<and>
     rb_at t' cs (RNode RB_BLACK T p (RNode RB_RED s g u)) \<and> rb_same S t t'"
proof -
  obtain c l r where T: "T = RNode c l x r" using x by (cases T) auto
  obtain t' where t': "RB_ROTATE_RIGHT g (RB_SET_BLACKRED p g t) = Some t'"
    "rb_at t' cs (RNode RB_BLACK T p (RNode RB_RED s g u))" "rb_same S t t'"
    using rebuild_right [OF at S] by blast
  have "rb_insert_color_loop x t' = Some t'"
    by (rule loop_stops [of t' "LeftF RB_BLACK p (RNode RB_RED s g u) # cs" T]) (use t' x in auto)
  then show ?thesis
    using t' at black unfolding T
    by (auto simp: rb_insert_color_loop.simps [of x t] rb_at_def)
qed

lemma ins_fix_LR:
  assumes at: "rb_at t cs (RNode cg (RNode RB_RED s p (RNode RB_RED l x r)) g u)"
    and black: "rcolor u = RB_BLACK"
    and S: "S = set (inord (plug cs (RNode cg (RNode RB_RED s p (RNode RB_RED l x r)) g u)))"
  shows "\<exists>t'. rb_insert_color_loop x t = Some t' \<and>
     rb_at t' cs (RNode RB_BLACK (RNode RB_RED s p l) x (RNode RB_RED r g u)) \<and> rb_same S t t'"
proof -
  obtain t1 where t1: "RB_ROTATE_LEFT p t = Some t1"
    "rb_at t1 cs (RNode cg (RNode RB_RED (RNode RB_RED s p l) x r) g u)" "rb_same S t t1"
    using RB_ROTATE_LEFT_at [of t "LeftF cg g u # cs" RB_RED s p RB_RED l x r] at S by auto
  obtain t' where t': "RB_ROTATE_RIGHT g (RB_SET_BLACKRED x g t1) = Some t'"
    "rb_at t' cs (RNode RB_BLACK (RNode RB_RED s p l) x (RNode RB_RED r g u))" "rb_same S t1 t'"
    using rebuild_right [OF t1(2), of S] S by (auto simp: inord_plug)
  have "rb_insert_color_loop p t' = Some t'"
    by (rule loop_stops [of t' "LeftF RB_BLACK x (RNode RB_RED r g u) # cs" "RNode RB_RED s p l"])
       (use t' in auto)
  moreover have "rb_same S t t'" using t1 t' by (blast intro: rb_same_trans)
  ultimately show ?thesis
    using t' t1 at black
    by (auto simp: rb_insert_color_loop.simps [of x t] rb_at_def)
qed

lemma ins_fix_RR:
  assumes at: "rb_at t cs (RNode cg u g (RNode RB_RED s p T))" and x: "rootp T = Some x"
    and black: "rcolor u = RB_BLACK"
    and S: "S = set (inord (plug cs (RNode cg u g (RNode RB_RED s p T))))"
  shows "\<exists>t'. rb_insert_color_loop x t = Some t' \<and>
     rb_at t' cs (RNode RB_BLACK (RNode RB_RED u g s) p T) \<and> rb_same S t t'"
proof -
  obtain c l r where T: "T = RNode c l x r" using x by (cases T) auto
  obtain t' where t': "RB_ROTATE_LEFT g (RB_SET_BLACKRED p g t) = Some t'"
    "rb_at t' cs (RNode RB_BLACK (RNode RB_RED u g s) p T)" "rb_same S t t'"
    using rebuild_left [OF at S] by blast
  have "rb_insert_color_loop x t' = Some t'"
    by (rule loop_stops [of t' "RightF RB_BLACK (RNode RB_RED u g s) p # cs" T]) (use t' x in auto)
  then show ?thesis
    using t' at black unfolding T
    by (auto simp: rb_insert_color_loop.simps [of x t] rb_at_def)
qed

lemma ins_fix_RL:
  assumes at: "rb_at t cs (RNode cg u g (RNode RB_RED (RNode RB_RED l x r) p s))"
    and black: "rcolor u = RB_BLACK"
    and S: "S = set (inord (plug cs (RNode cg u g (RNode RB_RED (RNode RB_RED l x r) p s))))"
  shows "\<exists>t'. rb_insert_color_loop x t = Some t' \<and>
     rb_at t' cs (RNode RB_BLACK (RNode RB_RED u g l) x (RNode RB_RED r p s)) \<and> rb_same S t t'"
proof -
  obtain t1 where t1: "RB_ROTATE_RIGHT p t = Some t1"
    "rb_at t1 cs (RNode cg u g (RNode RB_RED l x (RNode RB_RED r p s)))" "rb_same S t t1"
    using RB_ROTATE_RIGHT_at [of t "RightF cg u g # cs" RB_RED RB_RED l x r p s] at S by auto
  obtain t' where t': "RB_ROTATE_LEFT g (RB_SET_BLACKRED x g t1) = Some t'"
    "rb_at t' cs (RNode RB_BLACK (RNode RB_RED u g l) x (RNode RB_RED r p s))" "rb_same S t1 t'"
    using rebuild_left [OF t1(2), of S] S by (auto simp: inord_plug)
  have "rb_insert_color_loop p t' = Some t'"
    by (rule loop_stops [of t' "RightF RB_BLACK (RNode RB_RED u g l) x # cs" "RNode RB_RED r p s"])
       (use t' in auto)
  moreover have "rb_same S t t'" using t1 t' by (blast intro: rb_same_trans)
  ultimately show ?thesis
    using t' t1 at black
    by (auto simp: rb_insert_color_loop.simps [of x t] rb_at_def)
qed

text \<open>With a red uncle the loop goes on at the grandparent of the recoloured tree.\<close>

lemma ins_fix_recolour_left:
  assumes at: "rb_at t cs (RNode cg (RNode RB_RED A p B) g u)"
    and elm: "rootp A = Some x \<or> rootp B = Some x" "rcolor u = RB_RED"
    and S: "S = set (inord (plug cs (RNode cg (RNode RB_RED A p B) g u)))"
  shows "\<exists>t1. rb_insert_color_loop x t = rb_insert_color_loop g t1 \<and>
     rb_at t1 cs (RNode RB_RED (RNode RB_BLACK A p B) g (paint RB_BLACK u)) \<and> rb_same S t t1"
proof -
  obtain C v D where u: "u = RNode RB_RED C v D" using elm(2) by (cases u) auto
  let ?t1 = "RB_SET_BLACKRED p g (set_color v RB_BLACK t)"
  have "rb_at ?t1 cs (RNode RB_RED (RNode RB_BLACK A p B) g (paint RB_BLACK u))"
    using recolour_left at unfolding u by simp
  moreover have "rb_same S t ?t1"
    using S u by (intro rb_same_blackred rb_same_set_color) (auto simp: inord_plug)
  moreover have rd: "rbn t g = entry (Some p) (Some v) (framep cs) cg"
      "rbn t p = entry (rootp A) (rootp B) (Some g) RB_RED" "rbe_color (rbn t v) = RB_RED"
    using at unfolding u by (simp_all add: rb_at_def)
  moreover have "tree_in (rbn t) (Some p) A" "tree_in (rbn t) (Some p) B"
    using at by (simp_all add: rb_at_def)
  then have px: "rbe_parent (rbn t x) = Some p" using elm(1) tree_in_parent by blast
  moreover have "rb_insert_color_loop x t = rb_insert_color_loop g ?t1"
    by (simp add: rb_insert_color_loop.simps [of x t] rd px is_red_def)
  ultimately show ?thesis by blast
qed

lemma ins_fix_recolour_right:
  assumes at: "rb_at t cs (RNode cg u g (RNode RB_RED A p B))"
    and elm: "rootp A = Some x \<or> rootp B = Some x" "rcolor u = RB_RED"
    and S: "S = set (inord (plug cs (RNode cg u g (RNode RB_RED A p B))))"
  shows "\<exists>t1. rb_insert_color_loop x t = rb_insert_color_loop g t1 \<and>
     rb_at t1 cs (RNode RB_RED (paint RB_BLACK u) g (RNode RB_BLACK A p B)) \<and> rb_same S t t1"
proof -
  obtain C v D where u: "u = RNode RB_RED C v D" using elm(2) by (cases u) auto
  let ?t1 = "RB_SET_BLACKRED p g (set_color v RB_BLACK t)"
  have "rb_at ?t1 cs (RNode RB_RED (paint RB_BLACK u) g (RNode RB_BLACK A p B))"
    using recolour_right at unfolding u by simp
  moreover have "rb_same S t ?t1"
    using S u by (intro rb_same_blackred rb_same_set_color) (auto simp: inord_plug)
  moreover have rd: "rbn t g = entry (Some v) (Some p) (framep cs) cg" "v \<noteq> p"
      "rbn t p = entry (rootp A) (rootp B) (Some g) RB_RED" "rbe_color (rbn t v) = RB_RED"
    using at unfolding u by (auto simp: rb_at_def)
  moreover have "tree_in (rbn t) (Some p) A" "tree_in (rbn t) (Some p) B"
    using at by (simp_all add: rb_at_def)
  then have px: "rbe_parent (rbn t x) = Some p" using elm(1) tree_in_parent by blast
  moreover have "rb_insert_color_loop x t = rb_insert_color_loop g ?t1"
    by (simp add: rb_insert_color_loop.simps [of x t] rd px is_red_def)
  ultimately show ?thesis by blast
qed

lemma not_red [simp]: "c \<noteq> RB_RED \<longleftrightarrow> c = RB_BLACK"
  by (cases c) auto

lemma top_black_step: "top_black (f # f' # cs) \<Longrightarrow> top_black cs"
  by (auto simp: top_black_def split: if_splits)

lemma top_black_one: "top_black [f] \<longleftrightarrow> fcolor f = RB_BLACK"
  by (simp add: top_black_def)

lemma insert_loop_trans:
  assumes "rb_insert_color_loop x t = rb_insert_color_loop g t1" "rb_same S t t1"
    and "\<exists>t'. rb_insert_color_loop g t1 = Some t' \<and> rb_at t' [] U \<and> rb_same S t1 t'"
  shows "\<exists>t'. rb_insert_color_loop x t = Some t' \<and> rb_at t' [] U \<and> rb_same S t t'"
  using assms by (auto intro: rb_same_trans)

lemma insert_loop_done:
  assumes "rb_at t cs T" "rootp T = Some x" "\<forall>f fs. cs = f # fs \<longrightarrow> fcolor f = RB_BLACK"
  shows "\<exists>t'. rb_insert_color_loop x t = Some t' \<and> rb_at t' [] (plug cs T) \<and> rb_same S t t'"
  using loop_stops [OF assms(1,2)] rb_at_plug [of t cs T] assms by auto

lemma insert_loop_at:
  assumes "rb_at t cs T" "rcolor T = RB_RED" "rootp T = Some x" "top_black cs"
    "S = set (inord (plug cs T))"
  shows "\<exists>t'. rb_insert_color_loop x t = Some t' \<and> rb_at t' [] (ins_fix cs T) \<and> rb_same S t t'"
  using assms
proof (induction cs T arbitrary: t x rule: ins_fix.induct)
  case (1 p s cg g u cs T)
  show ?case
  proof (cases "rcolor u = RB_RED")
    case True
    obtain t1 where t1: "rb_insert_color_loop x t = rb_insert_color_loop g t1"
      "rb_at t1 cs (RNode RB_RED (RNode RB_BLACK T p s) g (paint RB_BLACK u))" "rb_same S t t1"
      using ins_fix_recolour_left [of t cs cg T p s g u x S] "1.prems" True by auto
    show ?thesis using insert_loop_trans [OF t1(1,3) "1.IH" [OF True t1(2)]] "1.prems" True
      by (simp add: inord_plug top_black_step)
  next
    case False
    with "1.prems" ins_fix_LL [of t cs cg T p s g u x S] show ?thesis
      by (simp add: rb_at_plug [of _ cs] not_red)
  qed
next
  case (2 s p cg g u cs T)
  show ?case
  proof (cases "rcolor u = RB_RED")
    case True
    obtain t1 where t1: "rb_insert_color_loop x t = rb_insert_color_loop g t1"
      "rb_at t1 cs (RNode RB_RED (RNode RB_BLACK s p T) g (paint RB_BLACK u))" "rb_same S t t1"
      using ins_fix_recolour_left [of t cs cg s p T g u x S] "2.prems" True by auto
    show ?thesis using insert_loop_trans [OF t1(1,3) "2.IH" [OF True t1(2)]] "2.prems" True
      by (simp add: inord_plug top_black_step)
  next
    case False
    from "2.prems" obtain l r where "T = RNode RB_RED l x r" by (cases T) auto
    with False "2.prems" ins_fix_LR [of t cs cg s p l x r g u S] show ?thesis
      by (simp add: rb_at_plug [of _ cs] not_red)
  qed
next
  case (3 s p cg u g cs T)
  show ?case
  proof (cases "rcolor u = RB_RED")
    case True
    obtain t1 where t1: "rb_insert_color_loop x t = rb_insert_color_loop g t1"
      "rb_at t1 cs (RNode RB_RED (paint RB_BLACK u) g (RNode RB_BLACK s p T))" "rb_same S t t1"
      using ins_fix_recolour_right [of t cs cg u g s p T x S] "3.prems" True by auto
    show ?thesis using insert_loop_trans [OF t1(1,3) "3.IH" [OF True t1(2)]] "3.prems" True
      by (simp add: inord_plug top_black_step)
  next
    case False
    with "3.prems" ins_fix_RR [of t cs cg u g s p T x S] show ?thesis
      by (simp add: rb_at_plug [of _ cs] not_red)
  qed
next
  case (4 p s cg u g cs T)
  show ?case
  proof (cases "rcolor u = RB_RED")
    case True
    obtain t1 where t1: "rb_insert_color_loop x t = rb_insert_color_loop g t1"
      "rb_at t1 cs (RNode RB_RED (paint RB_BLACK u) g (RNode RB_BLACK T p s))" "rb_same S t t1"
      using ins_fix_recolour_right [of t cs cg u g T p s x S] "4.prems" True by auto
    show ?thesis using insert_loop_trans [OF t1(1,3) "4.IH" [OF True t1(2)]] "4.prems" True
      by (simp add: inord_plug top_black_step)
  next
    case False
    from "4.prems" obtain l r where "T = RNode RB_RED l x r" by (cases T) auto
    with False "4.prems" ins_fix_RL [of t cs cg u g l x r p s S] show ?thesis
      by (simp add: rb_at_plug [of _ cs] not_red)
  qed
qed (simp only: ins_fix.simps, rule insert_loop_done, assumption+, simp add: top_black_def)+

subsection \<open>The red-black invariant\<close>

fun bheight :: "rt \<Rightarrow> nat" where
  "bheight RLeaf = 0"
| "bheight (RNode c l a r) = bheight l + (if c = RB_BLACK then 1 else 0)"

fun invh :: "rt \<Rightarrow> bool" where
  "invh RLeaf = True"
| "invh (RNode c l a r) \<longleftrightarrow> bheight l = bheight r \<and> invh l \<and> invh r"

fun invc :: "rt \<Rightarrow> bool" where
  "invc RLeaf = True"
| "invc (RNode c l a r) \<longleftrightarrow>
     (c = RB_RED \<longrightarrow> rcolor l = RB_BLACK \<and> rcolor r = RB_BLACK) \<and> invc l \<and> invc r"

definition rb_tree :: "rt \<Rightarrow> bool" where
  "rb_tree T \<longleftrightarrow> invc T \<and> invh T \<and> rcolor T = RB_BLACK"

text \<open>What the frames above a position contribute: \<open>path_h cs n\<close> for a subtree of black height
  \<open>n\<close> in the hole, \<open>path_c cs\<close> whatever the colour in the hole, \<open>path_color cs\<close> the colour of
  the node above the hole.\<close>

fun path_h :: "rframe list \<Rightarrow> nat \<Rightarrow> bool" where
  "path_h [] n = True"
| "path_h (LeftF c a r # cs) n \<longleftrightarrow>
     bheight r = n \<and> invh r \<and> path_h cs (n + (if c = RB_BLACK then 1 else 0))"
| "path_h (RightF c l a # cs) n \<longleftrightarrow>
     bheight l = n \<and> invh l \<and> path_h cs (n + (if c = RB_BLACK then 1 else 0))"

fun path_color :: "rframe list \<Rightarrow> rb_color" where
  "path_color [] = RB_BLACK"
| "path_color (f # cs) = fcolor f"

fun path_c :: "rframe list \<Rightarrow> bool" where
  "path_c [] = True"
| "path_c (LeftF c a r # cs) \<longleftrightarrow>
     (c = RB_RED \<longrightarrow> rcolor r = RB_BLACK \<and> path_color cs = RB_BLACK) \<and> invc r \<and> path_c cs"
| "path_c (RightF c l a # cs) \<longleftrightarrow>
     (c = RB_RED \<longrightarrow> rcolor l = RB_BLACK \<and> path_color cs = RB_BLACK) \<and> invc l \<and> path_c cs"

lemma invh_plug: "invh (plug cs T) \<longleftrightarrow> invh T \<and> path_h cs (bheight T)"
  by (induction cs T rule: plug.induct) auto

lemma invc_plug:
  "invc (plug cs T) \<longleftrightarrow> invc T \<and> path_c cs \<and> (path_color cs = RB_RED \<longrightarrow> rcolor T = RB_BLACK)"
  by (induction cs T rule: plug.induct) auto

lemma rcolor_plug: "rcolor (plug cs T) = (if cs = [] then rcolor T else fcolor (last cs))"
  by (induction cs T rule: plug.induct) auto

lemma top_black_plug: "rcolor (plug cs T) = RB_BLACK \<Longrightarrow> top_black cs"
  by (simp add: top_black_def rcolor_plug split: if_splits)

lemma invh_paint [simp]: "invh (paint c T) = invh T"
  by (cases T) auto

lemma invc_paint_black: "invc T \<Longrightarrow> invc (paint RB_BLACK T)"
  by (cases T) auto

lemma rcolor_paint_black [simp]: "rcolor (paint RB_BLACK T) = RB_BLACK"
  by (cases T) auto

lemma bheight_paint: "rcolor T = RB_RED \<Longrightarrow> bheight (paint RB_BLACK T) = Suc (bheight T)"
  by (cases T) auto

lemma invh_ins_fix:
  "invh (plug cs T) \<Longrightarrow> path_c cs \<Longrightarrow> rcolor T = RB_RED \<Longrightarrow> invh (ins_fix cs T)"
  by (induction cs T rule: ins_fix.induct)
     (auto simp: invh_plug bheight_paint split: rt.splits)

lemma invc_ins_fix:
  "path_c cs \<Longrightarrow> invc T \<Longrightarrow> rcolor T = RB_RED \<Longrightarrow> top_black cs \<Longrightarrow>
   invc (paint RB_BLACK (ins_fix cs T))"
  by (induction cs T rule: ins_fix.induct)
     (auto simp: invc_plug invc_paint_black top_black_one dest: top_black_step split: rt.splits)

lemma rb_tree_ins_fix:
  assumes "rb_tree (plug cs RLeaf)"
  shows "rb_tree (paint RB_BLACK (ins_fix cs (RNode RB_RED RLeaf x RLeaf)))"
  using assms invh_ins_fix [of cs "RNode RB_RED RLeaf x RLeaf"]
    invc_ins_fix [of cs "RNode RB_RED RLeaf x RLeaf"] top_black_plug [of cs RLeaf]
  by (simp add: rb_tree_def invh_plug invc_plug)

subsection \<open>The descent and the new leaf\<close>

fun descend :: "(addr \<Rightarrow> int) \<Rightarrow> rframe list \<Rightarrow> rt \<Rightarrow> addr + rframe list" where
  "descend cmp cs RLeaf = Inr cs"
| "descend cmp cs (RNode c l a r) =
     (if cmp a < 0 then descend cmp (LeftF c a r # cs) l
      else if cmp a > 0 then descend cmp (RightF c l a # cs) r
      else Inl a)"

text \<open>The comparison the loop ends with tells on which side of the last node the hole is.\<close>

fun side_ok :: "int \<Rightarrow> rframe list \<Rightarrow> bool" where
  "side_ok v [] = True"
| "side_ok v (LeftF c a r # cs) = (v < 0)"
| "side_ok v (RightF c l a # cs) = (v > 0)"

lemma descend_plug: "descend cmp cs T = Inr cs' \<Longrightarrow> plug cs' RLeaf = plug cs T"
  by (induction cmp cs T rule: descend.induct) (auto split: if_splits)

lemma rb_insert_search_Some [simp]:
  "rb_insert_search cmp t NULL parent v = Some (Inr (parent, v))"
  "rb_insert_search cmp t (Some a) parent v =
     (if cmp a < 0 then rb_insert_search cmp t (RB_LEFT a t) (Some a) (cmp a)
      else if cmp a > 0 then rb_insert_search cmp t (RB_RIGHT a t) (Some a) (cmp a)
      else Some (Inl a))"
  by (subst rb_insert_search.simps, simp)+

lemma rb_insert_search_at:
  assumes "rb_at t cs T" "side_ok v cs"
  shows "\<exists>v'. rb_insert_search cmp t (rootp T) (framep cs) v =
            Some (case descend cmp cs T of Inl a \<Rightarrow> Inl a | Inr cs' \<Rightarrow> Inr (framep cs', v')) \<and>
          (\<forall>cs'. descend cmp cs T = Inr cs' \<longrightarrow> side_ok v' cs')"
  using assms
proof (induction T arbitrary: cs v)
  case (RNode c l a r)
  have nd: "rbn t a = entry (rootp l) (rootp r) (framep cs) c"
    by (rule rb_at_node [OF RNode.prems(1)])
  show ?case
    using RNode.IH(1) [of "LeftF c a r # cs" "cmp a"] RNode.IH(2) [of "RightF c l a # cs" "cmp a"]
      RNode.prems(1) nd
    by (cases "cmp a < 0"; cases "cmp a > 0") auto
qed auto

definition rb_link :: "addr \<Rightarrow> ptr \<Rightarrow> int \<Rightarrow> rbtree \<Rightarrow> rbtree" where
  "rb_link elm parent v t =
     (case parent of
        Some p \<Rightarrow> if v < 0 then set_left p (Some elm) (RB_SET elm parent t)
                  else set_right p (Some elm) (RB_SET elm parent t)
      | None \<Rightarrow> set_root (Some elm) (RB_SET elm parent t))"

lemma rb_link_at:
  assumes "rb_at t cs RLeaf" "elm \<notin> set (inord (plug cs RLeaf))" "side_ok v cs"
  shows "rb_at (rb_link elm (framep cs) v t) cs (RNode RB_RED RLeaf elm RLeaf)"
  using assms
  by (cases cs rule: framep.cases)
     (auto simp: rb_link_def rb_at_def rb_simps RB_SET_def inord_plug Let_def entry_def)

lemma rb_link_same:
  assumes "elm \<in> S" "\<And>p. parent = Some p \<Longrightarrow> p \<in> S"
  shows "rb_same S t (rb_link elm parent v t)"
  using assms by (auto simp: rb_link_def rb_same_def rb_simps RB_SET_def Let_def split: option.split)

lemma framep_in: "framep cs = Some p \<Longrightarrow> p \<in> set (before cs) \<union> set (after cs)"
  by (cases cs rule: framep.cases) auto

lemma RB_INSERT_COLOR_at:
  assumes "rb_at t cs (RNode RB_RED RLeaf elm RLeaf)" "top_black cs"
    "S = set (inord (plug cs (RNode RB_RED RLeaf elm RLeaf)))"
  shows "\<exists>t'. RB_INSERT_COLOR elm t = Some t' \<and>
     rb_at t' [] (paint RB_BLACK (ins_fix cs (RNode RB_RED RLeaf elm RLeaf))) \<and> rb_same S t t'"
proof -
  let ?U = "ins_fix cs (RNode RB_RED RLeaf elm RLeaf)"
  obtain t1 where t1: "rb_insert_color_loop elm t = Some t1" "rb_at t1 [] ?U" "rb_same S t t1"
    using insert_loop_at [OF assms(1) _ _ assms(2), of elm S] assms(3) by auto
  have "elm \<in> set (inord ?U)" by (simp add: inord_plug)
  then obtain c l a r where U: "?U = RNode c l a r" by (cases ?U) auto
  have "a \<in> S" using arg_cong [OF U, of "\<lambda>T. set (inord T)"] assms(3) by auto
  then have "rb_same S t (set_color a RB_BLACK t1)"
    using t1(3) by (blast intro: rb_same_trans rb_same_set_color)
  moreover have "rb_at (set_color a RB_BLACK t1) [] (paint RB_BLACK ?U)"
    using rb_at_color [of t1 "[]" c l a r RB_BLACK] t1(2) U by simp
  moreover have "rbh_root t1 = Some a" using t1(2) U by (simp add: rb_at_def)
  ultimately show ?thesis using t1(1) by (simp add: RB_INSERT_COLOR_def)
qed

lemma RB_INSERT_unfold:
  "RB_INSERT cmp elm t =
     Option.bind (rb_insert_search cmp t (RB_ROOT t) NULL 0)
       (\<lambda>found. case found of
          Inl tmp \<Rightarrow> Some (Some tmp, t)
        | Inr (parent, v) \<Rightarrow> map_option (\<lambda>t. (NULL, t)) (RB_INSERT_COLOR elm (rb_link elm parent v t)))"
  by (auto simp: RB_INSERT_def rb_link_def Let_def map_conv_bind_option intro!: bind_option_cong
      split: sum.split option.split)

lemma RB_INSERT_at:
  assumes at: "rb_at t [] T" and rb: "rb_tree T"
  shows "descend cmp [] T = Inl a \<Longrightarrow> RB_INSERT cmp elm t = Some (Some a, t)"
    and "descend cmp [] T = Inr cs \<Longrightarrow> elm \<notin> set (inord T) \<Longrightarrow>
      \<exists>t' T'. RB_INSERT cmp elm t = Some (NULL, t') \<and> rb_at t' [] T' \<and> rb_tree T' \<and>
        inord T' = before cs @ elm # after cs \<and> rb_same (insert elm (set (inord T))) t t'"
proof -
  have root: "RB_ROOT t = rootp T" using at by (simp add: rb_at_def)
  obtain v where s: "rb_insert_search cmp t (rootp T) NULL 0 =
      Some (case descend cmp [] T of Inl a \<Rightarrow> Inl a | Inr cs' \<Rightarrow> Inr (framep cs', v))"
    and side: "\<And>cs'. descend cmp [] T = Inr cs' \<Longrightarrow> side_ok v cs'"
    using rb_insert_search_at [OF at, of 0 cmp] by auto
  show "descend cmp [] T = Inl a \<Longrightarrow> RB_INSERT cmp elm t = Some (Some a, t)"
    using s by (simp add: RB_INSERT_unfold root)
  show "\<exists>t' T'. RB_INSERT cmp elm t = Some (NULL, t') \<and> rb_at t' [] T' \<and> rb_tree T' \<and>
        inord T' = before cs @ elm # after cs \<and> rb_same (insert elm (set (inord T))) t t'"
    if d: "descend cmp [] T = Inr cs" and new: "elm \<notin> set (inord T)"
  proof -
    let ?N = "RNode RB_RED RLeaf elm RLeaf" and ?S = "insert elm (set (inord T))"
    let ?t1 = "rb_link elm (framep cs) v t"
    have pl: "plug cs RLeaf = T" using descend_plug [OF d] by simp
    have io: "inord T = before cs @ after cs" using arg_cong [OF pl, of inord] by (simp add: inord_plug)
    have t1: "rb_at ?t1 cs ?N"
      using rb_link_at [of t cs elm v] at rb_at_plug [of t cs RLeaf] pl new side [OF d] by simp
    have S: "?S = set (inord (plug cs ?N))" using io by (auto simp: inord_plug)
    have tb: "top_black cs" using top_black_plug [of cs RLeaf] pl rb by (simp add: rb_tree_def)
    from RB_INSERT_COLOR_at [OF t1 tb S] obtain t' where
      t': "RB_INSERT_COLOR elm ?t1 = Some t'" "rb_at t' [] (paint RB_BLACK (ins_fix cs ?N))"
      "rb_same ?S ?t1 t'" by blast
    have "rb_same ?S t ?t1"
      using framep_in [of cs] io by (intro rb_link_same) auto
    with t'(3) have "rb_same ?S t t'" by (blast intro: rb_same_trans)
    moreover have "rb_tree (paint RB_BLACK (ins_fix cs ?N))"
      using rb_tree_ins_fix [of cs elm] pl rb by simp
    ultimately show ?thesis
      using t' s d by (auto simp: RB_INSERT_unfold root inord_plug)
  qed
qed

end
