(* ===== verification/Rbtree_Remove.thy ===== *)
theory Rbtree_Remove
  imports Rbtree_Insert
begin

section \<open>Red-black trees: removal\<close>

text \<open>
  \<open>RB_REMOVE\<close> and its rebalancing loop \<open>RB_REMOVE_COLOR\<close>. The loop, started at a hole that lacks
  one black node, is shown to compute the function \<open>del_fix\<close> on positions; \<open>del_fix\<close> restores
  the red-black invariant and keeps the in-order list. The unlinking of a node with at most one
  child and of one with two children (whose successor takes its place) then give
  \<open>RB_REMOVE_at\<close>.
\<close>

text \<open>The sibling of a left (right) hole is black and has a red child: the subtree after the
  rotations; \<open>None\<close> when both its children are black.\<close>

fun del_rot_left :: "rb_color \<Rightarrow> rt \<Rightarrow> addr \<Rightarrow> rt \<Rightarrow> rt option" where
  "del_rot_left cp T p (RNode c sl y sr) =
     (if rcolor sr = RB_RED then Some (RNode cp (RNode RB_BLACK T p sl) y (paint RB_BLACK sr))
      else (case sl of
              RNode RB_RED l z r \<Rightarrow> Some (RNode cp (RNode RB_BLACK T p l) z (RNode RB_BLACK r y sr))
            | _ \<Rightarrow> None))"
| "del_rot_left cp T p RLeaf = None"

fun del_rot_right :: "rb_color \<Rightarrow> rt \<Rightarrow> addr \<Rightarrow> rt \<Rightarrow> rt option" where
  "del_rot_right cp T p (RNode c sl y sr) =
     (if rcolor sl = RB_RED then Some (RNode cp (paint RB_BLACK sl) y (RNode RB_BLACK sr p T))
      else (case sr of
              RNode RB_RED l z r \<Rightarrow> Some (RNode cp (RNode RB_BLACK sl y l) z (RNode RB_BLACK r p T))
            | _ \<Rightarrow> None))"
| "del_rot_right cp T p RLeaf = None"

fun del_fix :: "rframe list \<Rightarrow> rt \<Rightarrow> rt" where
  "del_fix [] T = paint RB_BLACK T"
| "del_fix (LeftF cp p s # cs) T =
     (if rcolor T = RB_RED then plug (LeftF cp p s # cs) (paint RB_BLACK T)
      else (case s of
              RLeaf \<Rightarrow> plug (LeftF cp p s # cs) T
            | RNode RB_RED a w b \<Rightarrow>
                (case del_rot_left RB_RED T p a of
                   Some U \<Rightarrow> paint RB_BLACK (plug cs (RNode RB_BLACK U w b))
                 | None \<Rightarrow> plug cs (RNode RB_BLACK (RNode RB_BLACK T p (paint RB_RED a)) w b))
            | RNode RB_BLACK a w b \<Rightarrow>
                (case del_rot_left cp T p s of
                   Some U \<Rightarrow> paint RB_BLACK (plug cs U)
                 | None \<Rightarrow> del_fix cs (RNode cp T p (paint RB_RED s)))))"
| "del_fix (RightF cp s p # cs) T =
     (if rcolor T = RB_RED then plug (RightF cp s p # cs) (paint RB_BLACK T)
      else (case s of
              RLeaf \<Rightarrow> plug (RightF cp s p # cs) T
            | RNode RB_RED a w b \<Rightarrow>
                (case del_rot_right RB_RED T p b of
                   Some U \<Rightarrow> paint RB_BLACK (plug cs (RNode RB_BLACK a w U))
                 | None \<Rightarrow> plug cs (RNode RB_BLACK a w (RNode RB_BLACK (paint RB_RED b) p T)))
            | RNode RB_BLACK a w b \<Rightarrow>
                (case del_rot_right cp T p s of
                   Some U \<Rightarrow> paint RB_BLACK (plug cs U)
                 | None \<Rightarrow> del_fix cs (RNode cp (paint RB_RED s) p T))))"

lemma inord_del_rot_left: "del_rot_left cp T p s = Some U \<Longrightarrow> inord U = inord T @ p # inord s"
  by (induction cp T p s rule: del_rot_left.induct) (auto split: if_splits rt.splits rb_color.splits)

lemma inord_del_rot_right: "del_rot_right cp T p s = Some U \<Longrightarrow> inord U = inord s @ p # inord T"
  by (induction cp T p s rule: del_rot_right.induct) (auto split: if_splits rt.splits rb_color.splits)

lemma inord_del_fix [simp]: "inord (del_fix cs T) = inord (plug cs T)"
  by (induction cs T rule: del_fix.induct)
     (auto simp: inord_plug inord_del_rot_left inord_del_rot_right split: rt.splits rb_color.splits option.splits)

subsection \<open>The invariant after rebalancing\<close>

lemma del_rot_left_inv:
  assumes "del_rot_left cp T p s = Some U" "rcolor s = RB_BLACK" "invh T" "invh s" "bheight s = Suc (bheight T)"
  shows "invh U \<and> bheight U = bheight s + (if cp = RB_BLACK then 1 else 0)"
  using assms
  by (induction cp T p s rule: del_rot_left.induct)
     (auto simp: bheight_paint split: if_splits rt.splits rb_color.splits)

lemma del_rot_left_invc:
  assumes "del_rot_left cp T p s = Some U" "invc T" "invc s" "rcolor T = RB_BLACK"
  shows "invc U \<and> rcolor U = cp"
  using assms
  by (induction cp T p s rule: del_rot_left.induct)
     (auto simp: invc_paint_black split: if_splits rt.splits rb_color.splits)

lemma del_rot_right_inv:
  assumes "del_rot_right cp T p s = Some U" "rcolor s = RB_BLACK" "invh T" "invh s" "bheight s = Suc (bheight T)"
  shows "invh U \<and> bheight U = bheight s + (if cp = RB_BLACK then 1 else 0)"
  using assms
  by (induction cp T p s rule: del_rot_right.induct)
     (auto simp: bheight_paint split: if_splits rt.splits rb_color.splits)

lemma del_rot_right_invc:
  assumes "del_rot_right cp T p s = Some U" "invc T" "invc s" "rcolor T = RB_BLACK"
  shows "invc U \<and> rcolor U = cp"
  using assms
  by (induction cp T p s rule: del_rot_right.induct)
     (auto simp: invc_paint_black split: if_splits rt.splits rb_color.splits)

lemma del_rot_None:
  "del_rot_left cp T p (RNode c sl y sr) = None \<longleftrightarrow> rcolor sl = RB_BLACK \<and> rcolor sr = RB_BLACK"
  "del_rot_right cp T p (RNode c sl y sr) = None \<longleftrightarrow> rcolor sl = RB_BLACK \<and> rcolor sr = RB_BLACK"
  by (auto split: if_splits rt.splits rb_color.splits)

text \<open>A red sibling of a hole that lacks one black node has two black children that are not
  leaves.\<close>

lemma red_sibling:
  assumes "invc (RNode RB_RED a w b)" "invh (RNode RB_RED a w b)" "bheight (RNode RB_RED a w b) = Suc n"
  shows "\<exists>al x ar bl y br. a = RNode RB_BLACK al x ar \<and> b = RNode RB_BLACK bl y br"
  using assms by (cases a; cases b) auto

lemma invh_del_fix:
  "invh T \<Longrightarrow> path_h cs (Suc (bheight T)) \<Longrightarrow> path_c cs \<Longrightarrow> invh (del_fix cs T)"
proof (induction cs T rule: del_fix.induct)
  case (2 cp p s cs T)
  show ?case
  proof (cases "rcolor T = RB_RED")
    case True
    with "2.prems" show ?thesis by (simp add: invh_plug bheight_paint)
  next
    case False
    from "2.prems" obtain c a w b where s: "s = RNode c a w b" by (cases s) auto
    show ?thesis
    proof (cases c)
      case RB_RED
      obtain al x ar where a: "a = RNode RB_BLACK al x ar"
        using red_sibling [of a w b] "2.prems" RB_RED s by auto
      show ?thesis
        using "2.prems" False s RB_RED a del_rot_left_inv [of RB_RED T p a]
        by (cases "del_rot_left RB_RED T p a") (auto simp: invh_plug)
    next
      case RB_BLACK
      show ?thesis
        using "2.prems" "2.IH" False s RB_BLACK del_rot_left_inv [of cp T p s]
        by (cases "del_rot_left cp T p s") (auto simp: invh_plug simp del: del_rot_left.simps)
    qed
  qed
next
  case (3 cp s p cs T)
  show ?case
  proof (cases "rcolor T = RB_RED")
    case True
    with "3.prems" show ?thesis by (simp add: invh_plug bheight_paint)
  next
    case False
    from "3.prems" obtain c a w b where s: "s = RNode c a w b" by (cases s) auto
    show ?thesis
    proof (cases c)
      case RB_RED
      obtain bl x br where b: "b = RNode RB_BLACK bl x br"
        using red_sibling [of a w b] "3.prems" RB_RED s by auto
      show ?thesis
        using "3.prems" False s RB_RED b del_rot_right_inv [of RB_RED T p b]
        by (cases "del_rot_right RB_RED T p b") (auto simp: invh_plug)
    next
      case RB_BLACK
      show ?thesis
        using "3.prems" "3.IH" False s RB_BLACK del_rot_right_inv [of cp T p s]
        by (cases "del_rot_right cp T p s") (auto simp: invh_plug simp del: del_rot_right.simps)
    qed
  qed
qed simp

lemma invc_paint_red:
  "invc s \<Longrightarrow> del_rot_left cp T p s = None \<Longrightarrow> invc (paint RB_RED s)"
  "invc s \<Longrightarrow> del_rot_right cp T p s = None \<Longrightarrow> invc (paint RB_RED s)"
  by (cases s; simp add: del_rot_None del: del_rot_left.simps del_rot_right.simps)+

lemma invc_of_black: "invc (paint RB_BLACK T) \<Longrightarrow> rcolor T = RB_BLACK \<Longrightarrow> invc T"
  by (cases T) auto

lemma invc_plug_same:
  assumes "path_c cs" "invc U" "rcolor U = cp" "cp = RB_RED \<longrightarrow> path_color cs = RB_BLACK"
  shows "invc (plug cs U)"
  using assms by (cases "path_color cs") (auto simp: invc_plug)

lemma invc_del_fix:
  "invc (paint RB_BLACK T) \<Longrightarrow> path_c cs \<Longrightarrow> invc (del_fix cs T)"
proof (induction cs T rule: del_fix.induct)
  case (2 cp p s cs T)
  note rot = del_rot_left_invc [where T = T and p = p] and none = invc_paint_red(1) [where T = T and p = p]
  show ?case
  proof (cases "rcolor T = RB_RED")
    case True
    with "2.prems" show ?thesis by (cases cp) (auto simp: invc_plug)
  next
    case False
    then have T: "rcolor T = RB_BLACK" "invc T" using "2.prems"(1) invc_of_black by auto
    show ?thesis
    proof (cases s rule: rcolor.cases)
      case (2 c a w b)
      show ?thesis
      proof (cases c)
        case RB_RED
        with 2 T "2.prems" show ?thesis
          using rot [of RB_RED a] none [of a RB_RED]
          by (cases "del_rot_left RB_RED T p a") (auto simp: invc_plug intro!: invc_paint_black)
      next
        case RB_BLACK
        with 2 T "2.prems" "2.IH" show ?thesis
          using rot [of cp s] none [of s cp]
          by (cases "del_rot_left cp T p s")
             (auto intro!: invc_paint_black invc_plug_same simp del: del_rot_left.simps)
      qed
    qed (use "2.prems" T in \<open>cases cp; auto simp: invc_plug\<close>)
  qed
next
  case (3 cp s p cs T)
  note rot = del_rot_right_invc [where T = T and p = p] and none = invc_paint_red(2) [where T = T and p = p]
  show ?case
  proof (cases "rcolor T = RB_RED")
    case True
    with "3.prems" show ?thesis by (cases cp) (auto simp: invc_plug)
  next
    case False
    then have T: "rcolor T = RB_BLACK" "invc T" using "3.prems"(1) invc_of_black by auto
    show ?thesis
    proof (cases s rule: rcolor.cases)
      case (2 c a w b)
      show ?thesis
      proof (cases c)
        case RB_RED
        with 2 T "3.prems" show ?thesis
          using rot [of RB_RED b] none [of b RB_RED]
          by (cases "del_rot_right RB_RED T p b") (auto simp: invc_plug intro!: invc_paint_black)
      next
        case RB_BLACK
        with 2 T "3.prems" "3.IH" show ?thesis
          using rot [of cp s] none [of s cp]
          by (cases "del_rot_right cp T p s")
             (auto intro!: invc_paint_black invc_plug_same simp del: del_rot_right.simps)
      qed
    qed (use "3.prems" T in \<open>cases cp; auto simp: invc_plug\<close>)
  qed
qed simp

lemma rcolor_del_fix: "top_black cs \<Longrightarrow> rcolor (del_fix cs T) = RB_BLACK"
  by (induction cs T rule: del_fix.induct)
     (auto simp: rcolor_plug top_black_def split: rt.splits rb_color.splits option.splits if_splits)

subsection \<open>The rebalancing loop\<close>

text \<open>The end of an iteration, after a sibling with a red child is found.\<close>

definition rm_left_tail :: "addr \<Rightarrow> addr \<Rightarrow> rbtree \<Rightarrow> (ptr \<times> rbtree) option" where
  "rm_left_tail p tmp t = do {
     (tmp, t) \<leftarrow>
       (if is_black (RB_RIGHT tmp t) t then do {
          let t = (case RB_LEFT tmp t of
                     Some oleft \<Rightarrow> set_color oleft RB_BLACK t | None \<Rightarrow> t);
          t \<leftarrow> RB_ROTATE_RIGHT tmp (set_color tmp RB_RED t);
          tmp \<leftarrow> RB_RIGHT p t;
          Some (tmp, t)
        } else Some (tmp, t));
     let t = set_color tmp (RB_COLOR p t) t;
     let t = set_color p RB_BLACK t;
     let t = (case RB_RIGHT tmp t of Some r \<Rightarrow> set_color r RB_BLACK t | None \<Rightarrow> t);
     t \<leftarrow> RB_ROTATE_LEFT p t;
     Some (RB_ROOT t, t)
   }"

definition rm_right_tail :: "addr \<Rightarrow> addr \<Rightarrow> rbtree \<Rightarrow> (ptr \<times> rbtree) option" where
  "rm_right_tail p tmp t = do {
     (tmp, t) \<leftarrow>
       (if is_black (RB_LEFT tmp t) t then do {
          let t = (case RB_RIGHT tmp t of
                     Some oright \<Rightarrow> set_color oright RB_BLACK t | None \<Rightarrow> t);
          t \<leftarrow> RB_ROTATE_LEFT tmp (set_color tmp RB_RED t);
          tmp \<leftarrow> RB_LEFT p t;
          Some (tmp, t)
        } else Some (tmp, t));
     let t = set_color tmp (RB_COLOR p t) t;
     let t = set_color p RB_BLACK t;
     let t = (case RB_LEFT tmp t of Some l \<Rightarrow> set_color l RB_BLACK t | None \<Rightarrow> t);
     t \<leftarrow> RB_ROTATE_RIGHT p t;
     Some (RB_ROOT t, t)
   }"

text \<open>The left (right) half of an iteration, from the sibling on.\<close>

definition rm_left_half :: "addr \<Rightarrow> addr \<Rightarrow> rbtree \<Rightarrow> (ptr \<times> rbtree) option" where
  "rm_left_half p tmp t =
     (if is_black (RB_LEFT tmp t) t \<and> is_black (RB_RIGHT tmp t) t
      then rb_remove_color_loop (RB_PARENT p (set_color tmp RB_RED t)) (Some p) (set_color tmp RB_RED t)
      else rm_left_tail p tmp t)"

definition rm_right_half :: "addr \<Rightarrow> addr \<Rightarrow> rbtree \<Rightarrow> (ptr \<times> rbtree) option" where
  "rm_right_half p tmp t =
     (if is_black (RB_LEFT tmp t) t \<and> is_black (RB_RIGHT tmp t) t
      then rb_remove_color_loop (RB_PARENT p (set_color tmp RB_RED t)) (Some p) (set_color tmp RB_RED t)
      else rm_right_tail p tmp t)"

lemma remove_loop_exit:
  "\<not> is_black elm t \<or> elm = RB_ROOT t \<Longrightarrow> rb_remove_color_loop parent elm t = Some (elm, t)"
  by (subst rb_remove_color_loop.simps) auto

lemma remove_loop_left:
  assumes "is_black elm t" "elm \<noteq> RB_ROOT t" "RB_LEFT p t = elm" "RB_RIGHT p t = Some tmp"
  shows "rb_remove_color_loop (Some p) elm t =
    (if RB_COLOR tmp t = RB_RED
     then Option.bind (RB_ROTATE_LEFT p (RB_SET_BLACKRED tmp p t))
            (\<lambda>t. Option.bind (RB_RIGHT p t) (\<lambda>tmp. rm_left_half p tmp t))
     else rm_left_half p tmp t)"
  using assms
  by (subst rb_remove_color_loop.simps)
     (simp add: rm_left_half_def rm_left_tail_def split: Option.bind_split)

lemma remove_loop_right:
  assumes "is_black elm t" "elm \<noteq> RB_ROOT t" "RB_LEFT p t \<noteq> elm" "RB_LEFT p t = Some tmp"
  shows "rb_remove_color_loop (Some p) elm t =
    (if RB_COLOR tmp t = RB_RED
     then Option.bind (RB_ROTATE_RIGHT p (RB_SET_BLACKRED tmp p t))
            (\<lambda>t. Option.bind (RB_LEFT p t) (\<lambda>tmp. rm_right_half p tmp t))
     else rm_right_half p tmp t)"
  using assms
  by (subst rb_remove_color_loop.simps)
     (simp add: rm_right_half_def rm_right_tail_def split: Option.bind_split)

lemma rb_at_color_rr:
  "rb_at t cs (RNode c l a (RNode c1 A x (RNode c2 B y D))) \<Longrightarrow>
   rb_at (set_color y c' t) cs (RNode c l a (RNode c1 A x (RNode c' B y D)))"
  using rb_at_color [of t "RightF c1 A x # RightF c l a # cs"] by simp

lemma rb_at_color_ll:
  "rb_at t cs (RNode c (RNode c1 (RNode c2 B y D) x A) a r) \<Longrightarrow>
   rb_at (set_color y c' t) cs (RNode c (RNode c1 (RNode c' B y D) x A) a r)"
  using rb_at_color [of t "LeftF c1 x A # LeftF c a r # cs"] by simp

lemma rb_at_color_rl:
  "rb_at t cs (RNode c l a (RNode c1 (RNode c2 B y D) x A)) \<Longrightarrow>
   rb_at (set_color y c' t) cs (RNode c l a (RNode c1 (RNode c' B y D) x A))"
  using rb_at_color [of t "LeftF c1 x A # RightF c l a # cs"] by simp

lemma rb_at_color_lr:
  "rb_at t cs (RNode c (RNode c1 A x (RNode c2 B y D)) a r) \<Longrightarrow>
   rb_at (set_color y c' t) cs (RNode c (RNode c1 A x (RNode c' B y D)) a r)"
  using rb_at_color [of t "RightF c1 A x # LeftF c a r # cs"] by simp

text \<open>The last rotation, which both kinds of sibling end with.\<close>

definition rm_left_finish :: "addr \<Rightarrow> addr \<Rightarrow> rbtree \<Rightarrow> (ptr \<times> rbtree) option" where
  "rm_left_finish p tmp t = do {
     let t = set_color tmp (RB_COLOR p t) t;
     let t = set_color p RB_BLACK t;
     let t = (case RB_RIGHT tmp t of Some r \<Rightarrow> set_color r RB_BLACK t | None \<Rightarrow> t);
     t \<leftarrow> RB_ROTATE_LEFT p t;
     Some (RB_ROOT t, t)
   }"

definition rm_right_finish :: "addr \<Rightarrow> addr \<Rightarrow> rbtree \<Rightarrow> (ptr \<times> rbtree) option" where
  "rm_right_finish p tmp t = do {
     let t = set_color tmp (RB_COLOR p t) t;
     let t = set_color p RB_BLACK t;
     let t = (case RB_LEFT tmp t of Some l \<Rightarrow> set_color l RB_BLACK t | None \<Rightarrow> t);
     t \<leftarrow> RB_ROTATE_RIGHT p t;
     Some (RB_ROOT t, t)
   }"

lemma rm_left_finish_at:
  assumes at: "rb_at t cs (RNode cp T p (RNode c sl y (RNode c2 A z B)))"
    and S: "S = set (inord (plug cs (RNode cp T p (RNode c sl y (RNode c2 A z B)))))"
  shows "\<exists>t'. rm_left_finish p y t = Some (RB_ROOT t', t') \<and>
     rb_at t' cs (RNode cp (RNode RB_BLACK T p sl) y (RNode RB_BLACK A z B)) \<and> rb_same S t t'"
proof -
  let ?t2 = "set_color p RB_BLACK (set_color y cp t)" and ?t3 = "set_color z RB_BLACK (set_color p RB_BLACK (set_color y cp t))"
  have cp: "RB_COLOR p t = cp" using rb_at_node [OF at] by simp
  have t2: "rb_at ?t2 cs (RNode RB_BLACK T p (RNode cp sl y (RNode c2 A z B)))"
    by (intro rb_at_color [where c = cp] rb_at_color_right [OF at])
  have t3: "rb_at ?t3 cs (RNode RB_BLACK T p (RNode cp sl y (RNode RB_BLACK A z B)))"
    by (rule rb_at_color_rr [OF t2])
  have rz: "RB_RIGHT y ?t2 = Some z" using t2 by (simp add: rb_at_def)
  obtain t' where t': "RB_ROTATE_LEFT p ?t3 = Some t'"
    "rb_at t' cs (RNode cp (RNode RB_BLACK T p sl) y (RNode RB_BLACK A z B))" "rb_same S ?t3 t'"
    using RB_ROTATE_LEFT_at [OF t3] S by (auto simp: inord_plug)
  have "rb_same S t ?t3" using S by (auto simp: rb_same_def rb_simps inord_plug)
  with t' have "rb_same S t t'" by (blast intro: rb_same_trans)
  with t' show ?thesis by (simp add: rm_left_finish_def cp rz)
qed

lemma rm_right_finish_at:
  assumes at: "rb_at t cs (RNode cp (RNode c (RNode c2 A z B) y sr) p T)"
    and S: "S = set (inord (plug cs (RNode cp (RNode c (RNode c2 A z B) y sr) p T)))"
  shows "\<exists>t'. rm_right_finish p y t = Some (RB_ROOT t', t') \<and>
     rb_at t' cs (RNode cp (RNode RB_BLACK A z B) y (RNode RB_BLACK sr p T)) \<and> rb_same S t t'"
proof -
  let ?t2 = "set_color p RB_BLACK (set_color y cp t)" and ?t3 = "set_color z RB_BLACK (set_color p RB_BLACK (set_color y cp t))"
  have cp: "RB_COLOR p t = cp" using rb_at_node [OF at] by simp
  have t2: "rb_at ?t2 cs (RNode RB_BLACK (RNode cp (RNode c2 A z B) y sr) p T)"
    by (intro rb_at_color [where c = cp] rb_at_color_left [OF at])
  have t3: "rb_at ?t3 cs (RNode RB_BLACK (RNode cp (RNode RB_BLACK A z B) y sr) p T)"
    by (rule rb_at_color_ll [OF t2])
  have lz: "RB_LEFT y ?t2 = Some z" using t2 by (simp add: rb_at_def)
  obtain t' where t': "RB_ROTATE_RIGHT p ?t3 = Some t'"
    "rb_at t' cs (RNode cp (RNode RB_BLACK A z B) y (RNode RB_BLACK sr p T))" "rb_same S ?t3 t'"
    using RB_ROTATE_RIGHT_at [OF t3] S by (auto simp: inord_plug)
  have "rb_same S t ?t3" using S by (auto simp: rb_same_def rb_simps inord_plug)
  with t' have "rb_same S t t'" by (blast intro: rb_same_trans)
  with t' show ?thesis by (simp add: rm_right_finish_def cp lz)
qed

lemma rm_left_tail_at:
  assumes at: "rb_at t cs (RNode cp T p (RNode c sl y sr))"
    and rot: "del_rot_left cp T p (RNode c sl y sr) = Some U"
    and S: "S = set (inord (plug cs (RNode cp T p (RNode c sl y sr))))"
  shows "\<exists>t'. rm_left_tail p y t = Some (RB_ROOT t', t') \<and> rb_at t' cs U \<and> rb_same S t t'"
proof (cases "rcolor sr = RB_RED")
  case True
  then obtain A z B where sr: "sr = RNode RB_RED A z B" by (cases sr) auto
  have "\<not> is_black (RB_RIGHT y t) t" using at sr by (simp add: rb_at_def is_black_def)
  then have "rm_left_tail p y t = rm_left_finish p y t"
    by (simp add: rm_left_tail_def rm_left_finish_def)
  with rm_left_finish_at [OF at [unfolded sr], of S] S rot sr show ?thesis by auto
next
  case False
  with rot obtain l z r where sl: "sl = RNode RB_RED l z r"
    and U: "U = RNode cp (RNode RB_BLACK T p l) z (RNode RB_BLACK r y sr)"
    by (auto split: rt.splits rb_color.splits)
  have rd: "rbn t y = entry (Some z) (rootp sr) (Some p) c" "tree_in (rbn t) (Some y) sr"
    using at sl by (simp_all add: rb_at_def)
  let ?t1 = "set_color y RB_RED (set_color z RB_BLACK t)"
  have "rb_at ?t1 cs (RNode cp T p (RNode RB_RED (RNode RB_BLACK l z r) y sr))"
    by (intro rb_at_color_right [where ?c1.0 = c] rb_at_color_rl [where ?c2.0 = RB_RED]) (use at sl in simp)
  then obtain t2 where t2: "RB_ROTATE_RIGHT y ?t1 = Some t2"
    "rb_at t2 cs (RNode cp T p (RNode RB_BLACK l z (RNode RB_RED r y sr)))" "rb_same S ?t1 t2"
    using RB_ROTATE_RIGHT_at [of ?t1 "RightF cp T p # cs" RB_RED RB_BLACK l z r y sr] S sl
    by (auto simp: inord_plug)
  have "RB_RIGHT p t2 = Some z" using rb_at_node [OF t2(2)] by simp
  then have "rm_left_tail p y t = rm_left_finish p z t2"
    using False rd t2(1) by (simp add: rm_left_tail_def rm_left_finish_def)
  moreover have "rb_same S t t2"
    using S sl t2(3) by (auto simp: rb_same_def rb_simps inord_plug)
  ultimately show ?thesis
    using rm_left_finish_at [OF t2(2), of S] S U sl by (auto simp: inord_plug intro: rb_same_trans)
qed

lemma rm_right_tail_at:
  assumes at: "rb_at t cs (RNode cp (RNode c sl y sr) p T)"
    and rot: "del_rot_right cp T p (RNode c sl y sr) = Some U"
    and S: "S = set (inord (plug cs (RNode cp (RNode c sl y sr) p T)))"
  shows "\<exists>t'. rm_right_tail p y t = Some (RB_ROOT t', t') \<and> rb_at t' cs U \<and> rb_same S t t'"
proof (cases "rcolor sl = RB_RED")
  case True
  then obtain A z B where sl: "sl = RNode RB_RED A z B" by (cases sl) auto
  have "\<not> is_black (RB_LEFT y t) t" using at sl by (simp add: rb_at_def is_black_def)
  then have "rm_right_tail p y t = rm_right_finish p y t"
    by (simp add: rm_right_tail_def rm_right_finish_def)
  with rm_right_finish_at [OF at [unfolded sl], of S] S rot sl show ?thesis by auto
next
  case False
  with rot obtain l z r where sr: "sr = RNode RB_RED l z r"
    and U: "U = RNode cp (RNode RB_BLACK sl y l) z (RNode RB_BLACK r p T)"
    by (auto split: rt.splits rb_color.splits)
  have rd: "rbn t y = entry (rootp sl) (Some z) (Some p) c" "tree_in (rbn t) (Some y) sl"
    using at sr by (simp_all add: rb_at_def)
  let ?t1 = "set_color y RB_RED (set_color z RB_BLACK t)"
  have "rb_at ?t1 cs (RNode cp (RNode RB_RED sl y (RNode RB_BLACK l z r)) p T)"
    by (intro rb_at_color_left [where ?c1.0 = c] rb_at_color_lr [where ?c2.0 = RB_RED]) (use at sr in simp)
  then obtain t2 where t2: "RB_ROTATE_LEFT y ?t1 = Some t2"
    "rb_at t2 cs (RNode cp (RNode RB_BLACK (RNode RB_RED sl y l) z r) p T)" "rb_same S ?t1 t2"
    using RB_ROTATE_LEFT_at [of ?t1 "LeftF cp p T # cs" RB_RED sl y RB_BLACK l z r] S sr
    by (auto simp: inord_plug)
  have "RB_LEFT p t2 = Some z" using rb_at_node [OF t2(2)] by simp
  then have "rm_right_tail p y t = rm_right_finish p z t2"
    using False rd t2(1) by (simp add: rm_right_tail_def rm_right_finish_def)
  moreover have "rb_same S t t2"
    using S sr t2(3) by (auto simp: rb_same_def rb_simps inord_plug)
  ultimately show ?thesis
    using rm_right_finish_at [OF t2(2), of S] S U sr by (auto simp: inord_plug intro: rb_same_trans)
qed

lemma rm_left_half_at:
  assumes at: "rb_at t cs (RNode cp T p (RNode c sl y sr))"
    and S: "S = set (inord (plug cs (RNode cp T p (RNode c sl y sr))))"
  shows "del_rot_left cp T p (RNode c sl y sr) = Some U \<Longrightarrow>
      \<exists>t'. rm_left_half p y t = Some (RB_ROOT t', t') \<and> rb_at t' cs U \<and> rb_same S t t'"
    and "del_rot_left cp T p (RNode c sl y sr) = None \<Longrightarrow>
      rm_left_half p y t = rb_remove_color_loop (framep cs) (Some p) (set_color y RB_RED t) \<and>
      rb_at (set_color y RB_RED t) cs (RNode cp T p (RNode RB_RED sl y sr)) \<and>
      rb_same S t (set_color y RB_RED t)"
proof -
  have rd: "rbn t y = entry (rootp sl) (rootp sr) (Some p) c" "rbn t p = entry (rootp T) (Some y) (framep cs) cp"
    "tree_in (rbn t) (Some y) sl" "tree_in (rbn t) (Some y) sr" "p \<noteq> y" "y \<in> S"
    using at S by (auto simp: rb_at_def inord_plug)
  then have both: "is_black (RB_LEFT y t) t \<and> is_black (RB_RIGHT y t) t \<longleftrightarrow> del_rot_left cp T p (RNode c sl y sr) = None"
    unfolding del_rot_None by simp
  show "\<exists>t'. rm_left_half p y t = Some (RB_ROOT t', t') \<and> rb_at t' cs U \<and> rb_same S t t'"
    if "del_rot_left cp T p (RNode c sl y sr) = Some U"
    using rm_left_tail_at [OF at that S] both that unfolding rm_left_half_def by (simp only: option.simps if_False)
  show "rm_left_half p y t = rb_remove_color_loop (framep cs) (Some p) (set_color y RB_RED t) \<and>
      rb_at (set_color y RB_RED t) cs (RNode cp T p (RNode RB_RED sl y sr)) \<and>
      rb_same S t (set_color y RB_RED t)"
    if "del_rot_left cp T p (RNode c sl y sr) = None"
  proof -
    have "RB_PARENT p (set_color y RB_RED t) = framep cs" using rd by (simp add: rb_simps)
    then show ?thesis
      using both that rb_at_color_right [OF at] rd(6) unfolding rm_left_half_def by simp
  qed
qed

lemma rm_right_half_at:
  assumes at: "rb_at t cs (RNode cp (RNode c sl y sr) p T)"
    and S: "S = set (inord (plug cs (RNode cp (RNode c sl y sr) p T)))"
  shows "del_rot_right cp T p (RNode c sl y sr) = Some U \<Longrightarrow>
      \<exists>t'. rm_right_half p y t = Some (RB_ROOT t', t') \<and> rb_at t' cs U \<and> rb_same S t t'"
    and "del_rot_right cp T p (RNode c sl y sr) = None \<Longrightarrow>
      rm_right_half p y t = rb_remove_color_loop (framep cs) (Some p) (set_color y RB_RED t) \<and>
      rb_at (set_color y RB_RED t) cs (RNode cp (RNode RB_RED sl y sr) p T) \<and>
      rb_same S t (set_color y RB_RED t)"
proof -
  have rd: "rbn t y = entry (rootp sl) (rootp sr) (Some p) c" "rbn t p = entry (Some y) (rootp T) (framep cs) cp"
    "tree_in (rbn t) (Some y) sl" "tree_in (rbn t) (Some y) sr" "p \<noteq> y" "y \<in> S"
    using at S by (auto simp: rb_at_def inord_plug)
  then have both: "is_black (RB_LEFT y t) t \<and> is_black (RB_RIGHT y t) t \<longleftrightarrow> del_rot_right cp T p (RNode c sl y sr) = None"
    unfolding del_rot_None by simp
  show "\<exists>t'. rm_right_half p y t = Some (RB_ROOT t', t') \<and> rb_at t' cs U \<and> rb_same S t t'"
    if "del_rot_right cp T p (RNode c sl y sr) = Some U"
    using rm_right_tail_at [OF at that S] both that unfolding rm_right_half_def by (simp only: option.simps if_False)
  show "rm_right_half p y t = rb_remove_color_loop (framep cs) (Some p) (set_color y RB_RED t) \<and>
      rb_at (set_color y RB_RED t) cs (RNode cp (RNode RB_RED sl y sr) p T) \<and>
      rb_same S t (set_color y RB_RED t)"
    if "del_rot_right cp T p (RNode c sl y sr) = None"
  proof -
    have "RB_PARENT p (set_color y RB_RED t) = framep cs" using rd by (simp add: rb_simps)
    then show ?thesis
      using both that rb_at_color_left [OF at] rd(6) unfolding rm_right_half_def by simp
  qed
qed

text \<open>The loop's result is painted black.\<close>

definition blacken :: "ptr \<Rightarrow> rbtree \<Rightarrow> rbtree" where
  "blacken e t = (case e of Some a \<Rightarrow> set_color a RB_BLACK t | None \<Rightarrow> t)"

lemma RB_REMOVE_COLOR_loop:
  "rb_remove_color_loop parent elm t = Some (e, t') \<Longrightarrow> RB_REMOVE_COLOR parent elm t = Some (blacken e t')"
  "rb_remove_color_loop parent elm t = rb_remove_color_loop parent' elm' t'' \<Longrightarrow>
   RB_REMOVE_COLOR parent elm t = RB_REMOVE_COLOR parent' elm' t''"
  by (simp_all add: RB_REMOVE_COLOR_def blacken_def)

lemma blacken_at: "rb_at t cs T \<Longrightarrow> rb_at (blacken (rootp T) t) cs (paint RB_BLACK T)"
  by (cases T) (auto simp: blacken_def rb_at_color)

lemma blacken_same: "e = rootp T \<Longrightarrow> set (inord T) \<subseteq> S \<Longrightarrow> rb_same S t (blacken e t)"
  by (cases T) (auto simp: blacken_def)

lemma blacken_root_at:
  assumes "rb_at t cs U" "S = set (inord (plug cs U))"
  shows "rb_at (blacken (RB_ROOT t) t) [] (paint RB_BLACK (plug cs U)) \<and> rb_same S t (blacken (RB_ROOT t) t)"
proof -
  have at: "rb_at t [] (plug cs U)" using assms rb_at_plug by blast
  then have "RB_ROOT t = rootp (plug cs U)" by (simp add: rb_at_def)
  with blacken_at [OF at] blacken_same [of _ "plug cs U" S t] assms show ?thesis by simp
qed

text \<open>The three outcomes of one iteration at a hole on the left: done after rotations, or on to
  the parent, or (below a red sibling) done by recolouring.\<close>

abbreviation rm_ok :: "ptr \<Rightarrow> ptr \<Rightarrow> rbtree \<Rightarrow> addr set \<Rightarrow> rt \<Rightarrow> bool" where
  "rm_ok parent elm t S U \<equiv>
     \<exists>t'. RB_REMOVE_COLOR parent elm t = Some t' \<and> rb_at t' [] U \<and> rb_same S t t'"

lemma rm_ok_done:
  assumes "rb_remove_color_loop parent elm t = Some (RB_ROOT t', t')" "rb_at t' cs U" "rb_same S t t'"
    and "S = set (inord (plug cs U))"
  shows "rm_ok parent elm t S (paint RB_BLACK (plug cs U))"
  using RB_REMOVE_COLOR_loop(1) [OF assms(1)] blacken_root_at [OF assms(2,4)] assms(3)
  by (auto intro: rb_same_trans)

lemma rm_ok_exit:
  assumes "rb_remove_color_loop parent elm t = Some (rootp T, t')" "rb_at t' cs T" "rb_same S t t'"
    and "S = set (inord (plug cs T))"
  shows "rm_ok parent elm t S (plug cs (paint RB_BLACK T))"
  using RB_REMOVE_COLOR_loop(1) [OF assms(1)] blacken_at [OF assms(2)] assms(3,4)
    blacken_same [of "rootp T" T S t'] rb_at_plug [of _ cs "paint RB_BLACK T"]
  by (auto simp: inord_plug intro: rb_same_trans)

lemma rm_ok_trans:
  assumes "rb_remove_color_loop parent elm t = rb_remove_color_loop parent' elm' t1" "rb_same S t t1"
    and "rm_ok parent' elm' t1 S U"
  shows "rm_ok parent elm t S U"
  using RB_REMOVE_COLOR_loop(2) [OF assms(1)] assms(2,3) by (auto intro: rb_same_trans)

lemma top_root_frame:
  "\<exists>q. top_root cs (Some a) = Some q \<and> q \<in> insert a (set (before cs) \<union> set (after cs))"
proof (induction cs arbitrary: a)
  case (Cons f cs)
  then show ?case by (cases f) fastforce+
qed simp

lemma not_at_root:
  assumes "rb_at t (f # cs) T"
  shows "rootp T \<noteq> RB_ROOT t"
proof -
  obtain p where p: "framep (f # cs) = Some p" "top_root (f # cs) (rootp T) = top_root cs (Some p)"
    "p \<in> set (before (f # cs)) \<union> set (after (f # cs))"
    "set (before cs) \<union> set (after cs) \<subseteq> set (before (f # cs)) \<union> set (after (f # cs))"
    by (cases f) auto
  from top_root_frame [of cs p] obtain q where
    q: "top_root cs (Some p) = Some q" "q \<in> insert p (set (before cs) \<union> set (after cs))" by blast
  have "RB_ROOT t = Some q" "distinct (before (f # cs) @ inord T @ after (f # cs))"
    using assms p(2) q(1) unfolding rb_at_def by auto
  with q(2) p(3,4) have "q \<notin> set (inord T)" by (auto simp: disjoint_iff)
  with \<open>RB_ROOT t = Some q\<close> show ?thesis by simp
qed

lemma remove_color_left:
  assumes at: "rb_at t (LeftF cp p (RNode RB_BLACK a w b) # cs) T" and T: "rcolor T = RB_BLACK"
    and S: "S = set (inord (plug (LeftF cp p (RNode RB_BLACK a w b) # cs) T))"
    and IH: "\<And>t1. del_rot_left cp T p (RNode RB_BLACK a w b) = None \<Longrightarrow>
      rb_at t1 cs (RNode cp T p (RNode RB_RED a w b)) \<Longrightarrow>
      rm_ok (framep cs) (Some p) t1 S (del_fix cs (RNode cp T p (RNode RB_RED a w b)))"
  shows "rm_ok (Some p) (rootp T) t S (del_fix (LeftF cp p (RNode RB_BLACK a w b) # cs) T)"
proof -
  let ?s = "RNode RB_BLACK a w b"
  have at': "rb_at t cs (RNode cp T p ?s)" using at by simp
  have rd: "rbn t p = entry (rootp T) (Some w) (framep cs) cp" "rbe_color (rbn t w) = RB_BLACK"
    "is_black (rootp T) t"
    using at' T by (auto simp: rb_at_def)
  have lp: "rb_remove_color_loop (Some p) (rootp T) t = rm_left_half p w t"
    using remove_loop_left [of "rootp T" t p w] not_at_root [OF at] rd by simp
  have S': "S = set (inord (plug cs (RNode cp T p ?s)))" using S by simp
  show ?thesis
  proof (cases "del_rot_left cp T p ?s")
    case None
    note h = rm_left_half_at(2) [OF at' S' None]
    have "rm_ok (Some p) (rootp T) t S (del_fix cs (RNode cp T p (RNode RB_RED a w b)))"
      by (rule rm_ok_trans [OF trans [OF lp h [THEN conjunct1]] h [THEN conjunct2, THEN conjunct2]
            IH [OF None h [THEN conjunct2, THEN conjunct1]]])
    with None T show ?thesis by (simp del: del_rot_left.simps)
  next
    case (Some U)
    obtain t' where t': "rm_left_half p w t = Some (RB_ROOT t', t')" "rb_at t' cs U" "rb_same S t t'"
      using rm_left_half_at(1) [OF at' S' Some] by blast
    have "S = set (inord (plug cs U))" using S' inord_del_rot_left [OF Some] by (simp add: inord_plug)
    with rm_ok_done [of "Some p" "rootp T" t t' cs U S] t' lp Some T show ?thesis
      by (simp del: del_rot_left.simps)
  qed
qed

lemma remove_color_right:
  assumes at: "rb_at t (RightF cp (RNode RB_BLACK a w b) p # cs) T" and T: "rcolor T = RB_BLACK"
    and S: "S = set (inord (plug (RightF cp (RNode RB_BLACK a w b) p # cs) T))"
    and IH: "\<And>t1. del_rot_right cp T p (RNode RB_BLACK a w b) = None \<Longrightarrow>
      rb_at t1 cs (RNode cp (RNode RB_RED a w b) p T) \<Longrightarrow>
      rm_ok (framep cs) (Some p) t1 S (del_fix cs (RNode cp (RNode RB_RED a w b) p T))"
  shows "rm_ok (Some p) (rootp T) t S (del_fix (RightF cp (RNode RB_BLACK a w b) p # cs) T)"
proof -
  let ?s = "RNode RB_BLACK a w b"
  have at': "rb_at t cs (RNode cp ?s p T)" using at by simp
  have rd: "rbn t p = entry (Some w) (rootp T) (framep cs) cp" "rbe_color (rbn t w) = RB_BLACK"
    "is_black (rootp T) t" "rootp T \<noteq> Some w"
    using at' T by (auto simp: rb_at_def)
  have lp: "rb_remove_color_loop (Some p) (rootp T) t = rm_right_half p w t"
    using remove_loop_right [of "rootp T" t p w] not_at_root [OF at] rd by simp
  have S': "S = set (inord (plug cs (RNode cp ?s p T)))" using S by simp
  show ?thesis
  proof (cases "del_rot_right cp T p ?s")
    case None
    note h = rm_right_half_at(2) [OF at' S' None]
    have "rm_ok (Some p) (rootp T) t S (del_fix cs (RNode cp (RNode RB_RED a w b) p T))"
      by (rule rm_ok_trans [OF trans [OF lp h [THEN conjunct1]] h [THEN conjunct2, THEN conjunct2]
            IH [OF None h [THEN conjunct2, THEN conjunct1]]])
    with None T show ?thesis by (simp del: del_rot_right.simps)
  next
    case (Some U)
    obtain t' where t': "rm_right_half p w t = Some (RB_ROOT t', t')" "rb_at t' cs U" "rb_same S t t'"
      using rm_right_half_at(1) [OF at' S' Some] by blast
    have "S = set (inord (plug cs U))" using S' inord_del_rot_right [OF Some] by (simp add: inord_plug)
    with rm_ok_done [of "Some p" "rootp T" t t' cs U S] t' lp Some T show ?thesis
      by (simp del: del_rot_right.simps)
  qed
qed

text \<open>Below a red sibling: one rotation makes a black node the sibling.\<close>

lemma remove_color_left_red:
  assumes at: "rb_at t (LeftF cp p (RNode RB_RED (RNode RB_BLACK al x ar) w b) # cs) T" and T: "rcolor T = RB_BLACK"
    and S: "S = set (inord (plug (LeftF cp p (RNode RB_RED (RNode RB_BLACK al x ar) w b) # cs) T))"
  shows "rm_ok (Some p) (rootp T) t S
           (del_fix (LeftF cp p (RNode RB_RED (RNode RB_BLACK al x ar) w b) # cs) T)"
proof -
  let ?a = "RNode RB_BLACK al x ar" and ?cs = "LeftF RB_BLACK w b # cs"
  let ?t1 = "RB_SET_BLACKRED w p t"
  have at': "rb_at t cs (RNode cp T p (RNode RB_RED ?a w b))" using at by simp
  have rd: "rbn t p = entry (rootp T) (Some w) (framep cs) cp" "rbe_color (rbn t w) = RB_RED"
    "is_black (rootp T) t" using at' T by (auto simp: rb_at_def)
  have "rb_at ?t1 cs (RNode RB_RED T p (RNode RB_BLACK ?a w b))"
    unfolding RB_SET_BLACKRED_def by (intro rb_at_color [where c = cp] rb_at_color_right [OF at'])
  from RB_ROTATE_LEFT_at [OF this] obtain t2 where t2: "RB_ROTATE_LEFT p ?t1 = Some t2"
    "rb_at t2 ?cs (RNode RB_RED T p ?a)" "rb_same S ?t1 t2"
    using S by (auto simp: inord_plug)
  have "rb_same S t ?t1" using S by (intro rb_same_blackred) (auto simp: inord_plug)
  with t2(3) have sm: "rb_same S t t2" by (blast intro: rb_same_trans)
  have "RB_RIGHT p t2 = Some x" using rb_at_node [OF t2(2)] by simp
  then have lp: "rb_remove_color_loop (Some p) (rootp T) t = rm_left_half p x t2"
    using remove_loop_left [of "rootp T" t p w] not_at_root [OF at] rd t2(1) by simp
  have S': "S = set (inord (plug ?cs (RNode RB_RED T p ?a)))" using S by (simp add: inord_plug)
  show ?thesis
  proof (cases "del_rot_left RB_RED T p ?a")
    case None
    let ?t3 = "set_color x RB_RED t2" and ?T = "RNode RB_RED T p (RNode RB_RED al x ar)"
    note h = rm_left_half_at(2) [OF t2(2) S' None]
    have at3: "rb_at ?t3 ?cs ?T" using h by blast
    then have "\<not> is_black (rootp ?T) ?t3" using rb_at_node [OF at3] by (simp add: is_black_def)
    then have "rb_remove_color_loop (Some p) (rootp T) t = Some (rootp ?T, ?t3)"
      using remove_loop_exit lp h by simp
    moreover have "rb_same S t ?t3" using sm h rb_same_trans by blast
    ultimately have "rm_ok (Some p) (rootp T) t S (plug ?cs (paint RB_BLACK ?T))"
      by (rule rm_ok_exit [OF _ at3]) (use S' in \<open>simp add: inord_plug\<close>)
    with None T show ?thesis by (simp del: del_rot_left.simps)
  next
    case (Some U)
    obtain t' where t': "rm_left_half p x t2 = Some (RB_ROOT t', t')" "rb_at t' ?cs U" "rb_same S t2 t'"
      using rm_left_half_at(1) [OF t2(2) S' Some] by blast
    have "S = set (inord (plug ?cs U))" using S' inord_del_rot_left [OF Some] by (simp add: inord_plug)
    with rm_ok_done [of "Some p" "rootp T" t t' ?cs U S] t' lp Some T rb_same_trans [OF sm t'(3)]
    show ?thesis by (simp del: del_rot_left.simps)
  qed
qed

lemma remove_color_right_red:
  assumes at: "rb_at t (RightF cp (RNode RB_RED a w (RNode RB_BLACK bl x br)) p # cs) T" and T: "rcolor T = RB_BLACK"
    and S: "S = set (inord (plug (RightF cp (RNode RB_RED a w (RNode RB_BLACK bl x br)) p # cs) T))"
  shows "rm_ok (Some p) (rootp T) t S
           (del_fix (RightF cp (RNode RB_RED a w (RNode RB_BLACK bl x br)) p # cs) T)"
proof -
  let ?b = "RNode RB_BLACK bl x br" and ?cs = "RightF RB_BLACK a w # cs"
  let ?t1 = "RB_SET_BLACKRED w p t"
  have at': "rb_at t cs (RNode cp (RNode RB_RED a w ?b) p T)" using at by simp
  have rd: "rbn t p = entry (Some w) (rootp T) (framep cs) cp" "rbe_color (rbn t w) = RB_RED"
    "is_black (rootp T) t" "rootp T \<noteq> Some w" using at' T by (auto simp: rb_at_def)
  have "rb_at ?t1 cs (RNode RB_RED (RNode RB_BLACK a w ?b) p T)"
    unfolding RB_SET_BLACKRED_def by (intro rb_at_color [where c = cp] rb_at_color_left [OF at'])
  from RB_ROTATE_RIGHT_at [OF this] obtain t2 where t2: "RB_ROTATE_RIGHT p ?t1 = Some t2"
    "rb_at t2 ?cs (RNode RB_RED ?b p T)" "rb_same S ?t1 t2"
    using S by (auto simp: inord_plug)
  have "rb_same S t ?t1" using S by (intro rb_same_blackred) (auto simp: inord_plug)
  with t2(3) have sm: "rb_same S t t2" by (blast intro: rb_same_trans)
  have "RB_LEFT p t2 = Some x" using rb_at_node [OF t2(2)] by simp
  then have lp: "rb_remove_color_loop (Some p) (rootp T) t = rm_right_half p x t2"
    using remove_loop_right [of "rootp T" t p w] not_at_root [OF at] rd t2(1) by simp
  have S': "S = set (inord (plug ?cs (RNode RB_RED ?b p T)))" using S by (simp add: inord_plug)
  show ?thesis
  proof (cases "del_rot_right RB_RED T p ?b")
    case None
    let ?t3 = "set_color x RB_RED t2" and ?T = "RNode RB_RED (RNode RB_RED bl x br) p T"
    note h = rm_right_half_at(2) [OF t2(2) S' None]
    have at3: "rb_at ?t3 ?cs ?T" using h by blast
    then have "\<not> is_black (rootp ?T) ?t3" using rb_at_node [OF at3] by (simp add: is_black_def)
    then have "rb_remove_color_loop (Some p) (rootp T) t = Some (rootp ?T, ?t3)"
      using remove_loop_exit lp h by simp
    moreover have "rb_same S t ?t3" using sm h rb_same_trans by blast
    ultimately have "rm_ok (Some p) (rootp T) t S (plug ?cs (paint RB_BLACK ?T))"
      by (rule rm_ok_exit [OF _ at3]) (use S' in \<open>simp add: inord_plug\<close>)
    with None T show ?thesis by (simp del: del_rot_right.simps)
  next
    case (Some U)
    obtain t' where t': "rm_right_half p x t2 = Some (RB_ROOT t', t')" "rb_at t' ?cs U" "rb_same S t2 t'"
      using rm_right_half_at(1) [OF t2(2) S' Some] by blast
    have "S = set (inord (plug ?cs U))" using S' inord_del_rot_right [OF Some] by (simp add: inord_plug)
    with rm_ok_done [of "Some p" "rootp T" t t' ?cs U S] t' lp Some T rb_same_trans [OF sm t'(3)]
    show ?thesis by (simp del: del_rot_right.simps)
  qed
qed

lemma remove_color_frame_left:
  assumes prems: "rb_at t (LeftF cp p s # cs) T" "invh T" "path_h (LeftF cp p s # cs) (Suc (bheight T))"
      "path_c (LeftF cp p s # cs)" and S: "S = set (inord (plug (LeftF cp p s # cs) T))"
    and IH: "\<And>T t. rb_at t cs T \<Longrightarrow> invh T \<Longrightarrow> path_h cs (Suc (bheight T)) \<Longrightarrow> path_c cs \<Longrightarrow>
      S = set (inord (plug cs T)) \<Longrightarrow> rm_ok (framep cs) (rootp T) t S (del_fix cs T)"
  shows "rm_ok (Some p) (rootp T) t S (del_fix (LeftF cp p s # cs) T)"
proof (cases "rcolor T = RB_RED")
  case True
  then have "\<not> is_black (rootp T) t" using prems(1) by (auto simp: rb_at_def)
  then have "rb_remove_color_loop (Some p) (rootp T) t = Some (rootp T, t)" by (simp add: remove_loop_exit)
  from rm_ok_exit [OF this prems(1) rb_same_refl S] True show ?thesis by simp
next
  case False
  from prems(3) obtain c a w b where s: "s = RNode c a w b" by (cases s) auto
  show ?thesis
  proof (cases c)
    case RB_RED
    then obtain al x ar where a: "a = RNode RB_BLACK al x ar"
      using red_sibling [of a w b "bheight T"] prems s by auto
    show ?thesis unfolding s RB_RED a
      by (rule remove_color_left_red) (use prems(1) S False s RB_RED a in simp_all)
  next
    case RB_BLACK
    show ?thesis unfolding s RB_BLACK
    proof (rule remove_color_left)
      fix t1
      assume n: "del_rot_left cp T p (RNode RB_BLACK a w b) = None"
        and t1: "rb_at t1 cs (RNode cp T p (RNode RB_RED a w b))"
      have "rm_ok (framep cs) (rootp (RNode cp T p (RNode RB_RED a w b))) t1 S (del_fix cs (RNode cp T p (RNode RB_RED a w b)))"
        by (rule IH [OF t1]) (use prems S s RB_BLACK in \<open>auto simp: inord_plug\<close>)
      then show "rm_ok (framep cs) (Some p) t1 S (del_fix cs (RNode cp T p (RNode RB_RED a w b)))" by simp
    qed (use prems(1) S False s RB_BLACK in simp_all)
  qed
qed

lemma remove_color_frame_right:
  assumes prems: "rb_at t (RightF cp s p # cs) T" "invh T" "path_h (RightF cp s p # cs) (Suc (bheight T))"
      "path_c (RightF cp s p # cs)" and S: "S = set (inord (plug (RightF cp s p # cs) T))"
    and IH: "\<And>T t. rb_at t cs T \<Longrightarrow> invh T \<Longrightarrow> path_h cs (Suc (bheight T)) \<Longrightarrow> path_c cs \<Longrightarrow>
      S = set (inord (plug cs T)) \<Longrightarrow> rm_ok (framep cs) (rootp T) t S (del_fix cs T)"
  shows "rm_ok (Some p) (rootp T) t S (del_fix (RightF cp s p # cs) T)"
proof (cases "rcolor T = RB_RED")
  case True
  then have "\<not> is_black (rootp T) t" using prems(1) by (auto simp: rb_at_def)
  then have "rb_remove_color_loop (Some p) (rootp T) t = Some (rootp T, t)" by (simp add: remove_loop_exit)
  from rm_ok_exit [OF this prems(1) rb_same_refl S] True show ?thesis by simp
next
  case False
  from prems(3) obtain c a w b where s: "s = RNode c a w b" by (cases s) auto
  show ?thesis
  proof (cases c)
    case RB_RED
    then obtain bl x br where b: "b = RNode RB_BLACK bl x br"
      using red_sibling [of a w b "bheight T"] prems s by auto
    show ?thesis unfolding s RB_RED b
      by (rule remove_color_right_red) (use prems(1) S False s RB_RED b in simp_all)
  next
    case RB_BLACK
    show ?thesis unfolding s RB_BLACK
    proof (rule remove_color_right)
      fix t1
      assume n: "del_rot_right cp T p (RNode RB_BLACK a w b) = None"
        and t1: "rb_at t1 cs (RNode cp (RNode RB_RED a w b) p T)"
      have "rm_ok (framep cs) (rootp (RNode cp (RNode RB_RED a w b) p T)) t1 S (del_fix cs (RNode cp (RNode RB_RED a w b) p T))"
        by (rule IH [OF t1]) (use prems S s RB_BLACK in \<open>auto simp: inord_plug\<close>)
      then show "rm_ok (framep cs) (Some p) t1 S (del_fix cs (RNode cp (RNode RB_RED a w b) p T))" by simp
    qed (use prems(1) S False s RB_BLACK in simp_all)
  qed
qed

lemma RB_REMOVE_COLOR_at:
  assumes "rb_at t cs T" "invh T" "path_h cs (Suc (bheight T))" "path_c cs" "S = set (inord (plug cs T))"
  shows "rm_ok (framep cs) (rootp T) t S (del_fix cs T)"
  using assms
proof (induction cs arbitrary: T t)
  case Nil
  then have "rootp T = RB_ROOT t" by (simp add: rb_at_def)
  then have "rb_remove_color_loop NULL (rootp T) t = Some (rootp T, t)" by (simp add: remove_loop_exit)
  from rm_ok_exit [OF this Nil.prems(1) rb_same_refl Nil.prems(5)] show ?case by simp
next
  case (Cons f cs)
  show ?case
  proof (cases f)
    case (LeftF c a r)
    with remove_color_frame_left [OF _ _ _ _ _ Cons.IH] Cons.prems show ?thesis by simp
  next
    case (RightF c l a)
    with remove_color_frame_right [OF _ _ _ _ _ Cons.IH] Cons.prems show ?thesis by simp
  qed
qed

subsection \<open>Unlinking a node\<close>

lemma splice_at:
  assumes at: "rb_at t cs (RNode c l a r)" and one: "l = RLeaf \<and> C = r \<or> r = RLeaf \<and> C = l"
  shows "rb_at (rb_replace_child (framep cs) a (rootp C) (rb_set_parent_of (rootp C) (framep cs) t)) cs C"
proof -
  have h: "rbh_root t = top_root cs (Some a)" "path_in (rbn t) cs (Some a)" "tree_in (rbn t) (Some a) C"
    "distinct (before cs @ inord C @ after cs)" "a \<notin> set (before cs)" "a \<notin> set (inord C)" "a \<notin> set (after cs)"
    using at one by (auto simp: rb_at_def)
  show ?thesis
  proof (cases C)
    case RLeaf
    with h show ?thesis
      by (cases cs rule: framep.cases)
         (auto simp: rb_at_def rb_replace_child_def rb_set_parent_of_def rb_simps)
  next
    case (RNode c1 A x B)
    with h show ?thesis
      by (cases cs rule: framep.cases)
         (auto simp: rb_at_def rb_replace_child_def rb_set_parent_of_def rb_simps)
  qed
qed

lemma splice_touches:
  "child \<noteq> Some y \<Longrightarrow> parent \<noteq> Some y \<Longrightarrow>
   rbn (rb_replace_child parent a child (rb_set_parent_of child parent t)) y = rbn t y"
  by (auto simp: rb_replace_child_def rb_set_parent_of_def rb_simps split: option.split)

lemma splice_same:
  assumes at: "rb_at t cs (RNode c l a r)" and one: "l = RLeaf \<and> C = r \<or> r = RLeaf \<and> C = l"
    and S: "S = set (inord (plug cs (RNode c l a r)))"
  shows "rb_same S t (rb_replace_child (framep cs) a (rootp C) (rb_set_parent_of (rootp C) (framep cs) t))"
    and "rbn (rb_replace_child (framep cs) a (rootp C) (rb_set_parent_of (rootp C) (framep cs) t)) a = rbn t a"
proof -
  have sub: "set (inord C) \<subseteq> S" "set (before cs) \<union> set (after cs) \<subseteq> S" and a: "a \<notin> set (inord C)"
    and cs: "a \<notin> set (before cs) \<union> set (after cs)"
    using at one S by (auto simp: inord_plug rb_at_def)
  have untouched: "rootp C \<noteq> Some y \<and> framep cs \<noteq> Some y"
    if "y \<notin> set (inord C)" "y \<notin> set (before cs) \<union> set (after cs)" for y
    using that framep_in [of cs y] by auto
  show "rb_same S t (rb_replace_child (framep cs) a (rootp C) (rb_set_parent_of (rootp C) (framep cs) t))"
    unfolding rb_same_def using untouched sub splice_touches by blast
  show "rbn (rb_replace_child (framep cs) a (rootp C) (rb_set_parent_of (rootp C) (framep cs) t)) a = rbn t a"
    using untouched [OF a cs] splice_touches by blast
qed

lemma leftmost_at:
  assumes "rb_at t cs T" "rootp T = Some a"
  shows "\<exists>fs c elm r. T = plug fs (RNode c RLeaf elm r) \<and> rb_leftmost t a = Some elm \<and>
     (\<forall>f \<in> set fs. \<exists>c x s. f = LeftF c x s)"
  using assms
proof (induction T arbitrary: cs a)
  case (RNode c l x r)
  have nd: "rbn t x = entry (rootp l) (rootp r) (framep cs) c" by (rule rb_at_node [OF RNode.prems(1)])
  show ?case
  proof (cases "rootp l")
    case None
    then have "l = RLeaf" by simp
    with nd RNode.prems show ?thesis
      by (intro exI [of _ "[]"]) (simp add: rb_leftmost.simps)
  next
    case (Some b)
    obtain fs c' elm r' where "l = plug fs (RNode c' RLeaf elm r')" "rb_leftmost t b = Some elm"
      "\<forall>f \<in> set fs. \<exists>c x s. f = LeftF c x s"
      using RNode.IH(1) [of "LeftF c x r # cs" b] RNode.prems(1) Some by auto
    moreover have "rb_leftmost t x = rb_leftmost t b" using nd Some by (subst rb_leftmost.simps) simp
    ultimately show ?thesis using RNode.prems
      by (intro exI [of _ "fs @ [LeftF c x r]"] exI [of _ c'] exI [of _ elm] exI [of _ r']) auto
  qed
qed simp

text \<open>The successor takes the place of the removed node.\<close>

definition rb_take_place :: "addr \<Rightarrow> addr \<Rightarrow> rbtree \<Rightarrow> rbtree option" where
  "rb_take_place old elm t = do {
     let t = t\<lparr>rbn := (rbn t)(elm := rbn t old)\<rparr>;
     let t = rb_replace_child (RB_PARENT old t) old (Some elm) t;
     l \<leftarrow> RB_LEFT old t;
     let t = set_parent l (Some elm) t;
     Some (rb_set_parent_of (RB_RIGHT old t) (Some elm) t)
   }"

lemma take_place_at:
  assumes at: "rb_at t cs (RNode c (RNode c1 A y B) old r)"
    and new: "elm \<notin> set (inord (plug cs (RNode c (RNode c1 A y B) old r)))"
    and S: "S = insert elm (set (inord (plug cs (RNode c (RNode c1 A y B) old r))))"
  shows "\<exists>t'. rb_take_place old elm t = Some t' \<and> rb_at t' cs (RNode c (RNode c1 A y B) elm r) \<and> rb_same S t t'"
proof -
  have h: "rbh_root t = top_root cs (Some old)" "path_in (rbn t) cs (Some old)"
    "rbn t old = entry (Some y) (rootp r) (framep cs) c" "tree_in (rbn t) (Some old) (RNode c1 A y B)"
    "tree_in (rbn t) (Some old) r"
    using at by (auto simp: rb_at_def)
  have d: "distinct (before cs @ (inord A @ y # inord B) @ elm # inord r @ after cs)"
    "old \<notin> set (before cs) \<union> set (inord A) \<union> set (inord B) \<union> set (inord r) \<union> set (after cs)" "old \<noteq> y" "old \<noteq> elm"
    using at new by (auto simp: rb_at_def inord_plug)
  show ?thesis unfolding S
  using h d
  by (cases cs rule: framep.cases; cases r)
     (auto simp: rb_at_def rb_take_place_def rb_same_def rb_replace_child_def rb_set_parent_of_def rb_simps
        inord_plug Let_def)
qed


text \<open>Conditions under which a subtree \<open>C\<close> may take the place of a removed node of colour \<open>c\<close>.\<close>

definition rm_pre :: "rframe list \<Rightarrow> rb_color \<Rightarrow> rt \<Rightarrow> bool" where
  "rm_pre cs c C \<longleftrightarrow>
     invc C \<and> invh C \<and> path_c cs \<and> top_black cs \<and>
     path_h cs (bheight C + (if c = RB_BLACK then 1 else 0)) \<and>
     (c = RB_RED \<longrightarrow> rcolor C = RB_BLACK \<and> path_color cs = RB_BLACK)"

lemma rm_preI:
  assumes "rb_tree (plug cs (RNode c l a r))" "l = RLeaf \<and> C = r \<or> r = RLeaf \<and> C = l"
  shows "rm_pre cs c C"
proof -
  have inv: "invc (plug cs (RNode c l a r))" "invh (plug cs (RNode c l a r))" "top_black cs"
    using assms(1) top_black_plug by (auto simp: rb_tree_def)
  then have "path_color cs = RB_BLACK" if "c = RB_RED"
    using that by (cases "path_color cs") (auto simp: invc_plug)
  with inv assms(2) show ?thesis by (auto simp: rm_pre_def invc_plug invh_plug)
qed

lemma remove_finish:
  assumes at: "rb_at t cs C" and pre: "rm_pre cs c C" and S: "S = set (inord (plug cs C))"
  shows "\<exists>t' T'. (if c = RB_BLACK then RB_REMOVE_COLOR (framep cs) (rootp C) t else Some t) = Some t' \<and>
     rb_at t' [] T' \<and> rb_tree T' \<and> inord T' = inord (plug cs C) \<and> rb_same S t t'"
proof (cases c)
  case RB_BLACK
  have "rb_tree (del_fix cs C)"
    using pre RB_BLACK invh_del_fix [of C cs] invc_del_fix [of C cs] rcolor_del_fix [of cs C]
    by (simp add: rm_pre_def rb_tree_def invc_paint_black)
  moreover have "rm_ok (framep cs) (rootp C) t S (del_fix cs C)"
    by (rule RB_REMOVE_COLOR_at [OF at _ _ _ S]) (use pre RB_BLACK in \<open>auto simp: rm_pre_def\<close>)
  ultimately show ?thesis using RB_BLACK inord_del_fix [of cs C] by (auto simp del: inord_del_fix)
next
  case RB_RED
  have "rb_tree (plug cs C)"
    using pre RB_RED by (auto simp: rm_pre_def rb_tree_def invc_plug invh_plug rcolor_plug top_black_def)
  with RB_RED at rb_at_plug [of t cs C] show ?thesis by auto
qed

lemma focus_exists: "a \<in> set (inord T) \<Longrightarrow> \<exists>cs c l r. T = plug cs (RNode c l a r)"
proof (induction T)
  case (RNode c l x r)
  consider "a = x" | "a \<in> set (inord l)" | "a \<in> set (inord r)" using RNode.prems by auto
  then show ?case
  proof cases
    case 1
    then show ?thesis by (intro exI [of _ "[]"]) auto
  next
    case 2
    then obtain cs c' l' r' where "l = plug cs (RNode c' l' a r')" using RNode.IH by blast
    then show ?thesis by (intro exI [of _ "cs @ [LeftF c x r]"]) auto
  next
    case 3
    then obtain cs c' l' r' where "r = plug cs (RNode c' l' a r')" using RNode.IH by blast
    then show ?thesis by (intro exI [of _ "cs @ [RightF c l x]"]) auto
  qed
qed simp

lemma RB_REMOVE_one_child:
  assumes at: "rb_at t cs (RNode c l old r)" and rb: "rb_tree (plug cs (RNode c l old r))"
    and one: "l = RLeaf \<or> r = RLeaf" and S: "S = set (inord (plug cs (RNode c l old r)))"
  shows "\<exists>t' T'. RB_REMOVE old t = Some (old, t') \<and> rb_at t' [] T' \<and> rb_tree T' \<and>
     inord T' = before cs @ inord l @ inord r @ after cs \<and> rb_same S t t'"
proof -
  define C where "C = (if l = RLeaf then r else l)"
  have C: "l = RLeaf \<and> C = r \<or> r = RLeaf \<and> C = l" using one by (auto simp: C_def)
  let ?t1 = "rb_replace_child (framep cs) old (rootp C) (rb_set_parent_of (rootp C) (framep cs) t)"
  have nd: "rbn t old = entry (rootp l) (rootp r) (framep cs) c" by (rule rb_at_node [OF at])
  obtain t' T' where f: "(if c = RB_BLACK then RB_REMOVE_COLOR (framep cs) (rootp C) ?t1 else Some ?t1) = Some t'"
    "rb_at t' [] T'" "rb_tree T'" "inord T' = inord (plug cs C)" "rb_same (set (inord (plug cs C))) ?t1 t'"
    using remove_finish [OF splice_at [OF at C] rm_preI [OF rb C] refl] by blast
  have "set (inord (plug cs C)) \<subseteq> S" using S C by (auto simp: inord_plug)
  then have "rb_same S ?t1 t'" using f(5) by (auto simp: rb_same_def)
  then have "rb_same S t t'" using splice_same(1) [OF at C S] rb_same_trans by blast
  moreover have "inord T' = before cs @ inord l @ inord r @ after cs" using f(4) C by (auto simp: inord_plug)
  moreover have "(if RB_LEFT old t = NULL then RB_RIGHT old t else RB_LEFT old t) = rootp C"
    using nd C_def by simp
  ultimately show ?thesis using f nd one by (auto simp: RB_REMOVE_def Let_def)
qed


lemma rm_pre_rename:
  assumes "rm_pre (fs @ RightF c l a # cs) c2 C"
  shows "rm_pre (fs @ RightF c l b # cs) c2 C"
proof -
  have pc: "path_color (fs @ RightF c l b # cs) = path_color (fs @ RightF c l a # cs)"
    for fs by (cases fs rule: framep.cases) auto
  have "path_h (fs @ RightF c l b # cs) n = path_h (fs @ RightF c l a # cs) n" for n
    by (induction fs arbitrary: n rule: before.induct) auto
  moreover have "path_c (fs @ RightF c l b # cs) = path_c (fs @ RightF c l a # cs)"
    by (induction fs rule: before.induct) (auto simp: pc)
  moreover have "top_black (fs @ RightF c l b # cs) = top_black (fs @ RightF c l a # cs)"
    by (cases "rev cs") (auto simp: top_black_def)
  ultimately show ?thesis using assms by (simp add: rm_pre_def pc)
qed

lemma RB_REMOVE_successor:
  assumes "RB_LEFT old t = Some y" "RB_RIGHT old t = Some r" "rb_leftmost t r = Some elm"
    and "t1 = rb_replace_child (RB_PARENT elm t) elm (RB_RIGHT elm t)
           (rb_set_parent_of (RB_RIGHT elm t) (RB_PARENT elm t) t)"
  shows "RB_REMOVE old t =
    Option.bind (rb_take_place old elm t1)
      (\<lambda>t2. Option.bind
        (if RB_COLOR elm t = RB_BLACK
         then RB_REMOVE_COLOR (if RB_PARENT elm t1 = Some old then Some elm else RB_PARENT elm t)
                (RB_RIGHT elm t) t2
         else Some t2)
        (\<lambda>t'. Some (old, t')))"
  using assms by (simp add: RB_REMOVE_def rb_take_place_def Let_def split: Option.bind_split)

lemma RB_REMOVE_two_children:
  assumes at: "rb_at t cs (RNode c l old r)" and rb: "rb_tree (plug cs (RNode c l old r))"
    and two: "l \<noteq> RLeaf" "r \<noteq> RLeaf" and S: "S = set (inord (plug cs (RNode c l old r)))"
  shows "\<exists>t' T'. RB_REMOVE old t = Some (old, t') \<and> rb_at t' [] T' \<and> rb_tree T' \<and>
     inord T' = before cs @ inord l @ inord r @ after cs \<and> rb_same S t t'"
proof -
  obtain c1 A y B where l: "l = RNode c1 A y B" using two(1) by (cases l) auto
  then have y: "rootp l = Some y" by simp
  obtain ra where ra: "rootp r = Some ra" using two(2) by (cases r) auto
  obtain fs c2 elm rr where r: "r = plug fs (RNode c2 RLeaf elm rr)" "rb_leftmost t ra = Some elm"
    "\<forall>f \<in> set fs. \<exists>c x s. f = LeftF c x s"
    using leftmost_at [of t "RightF c l old # cs" r ra] at ra by auto
  have fs: "before fs = []" using r(3) by (induction fs rule: before.induct) auto
  let ?ps = "fs @ RightF c l old # cs" and ?qs = "fs @ RightF c l elm # cs"
  have at0: "rb_at t ?ps (RNode c2 RLeaf elm rr)"
    using at r by (simp add: rb_at_plug [of t ?ps] rb_at_plug [of t cs])
  have old: "rbn t old = entry (rootp l) (rootp r) (framep cs) c" by (rule rb_at_node [OF at])
  have elm: "rbn t elm = entry NULL (rootp rr) (framep ?ps) c2" using rb_at_node [OF at0] by simp
  have C: "RLeaf = RLeaf \<and> rr = rr \<or> rr = RLeaf \<and> rr = RLeaf" by simp
  let ?t1 = "rb_replace_child (framep ?ps) elm (rootp rr) (rb_set_parent_of (rootp rr) (framep ?ps) t)"
  have S': "S = set (inord (plug ?ps (RNode c2 RLeaf elm rr)))" using S r by simp
  note same1 = splice_same [OF at0 C S']
  have at1: "rb_at ?t1 cs (RNode c l old (plug fs rr))"
    using splice_at [OF at0 C] by (simp add: rb_at_plug [of _ ?ps] rb_at_plug [of _ cs])
  have d: "distinct (inord (plug cs (RNode c l old r)))" by (rule rb_at_distinct [OF at])
  have new: "elm \<notin> set (inord (plug cs (RNode c l old (plug fs rr))))"
    and S1: "S = insert elm (set (inord (plug cs (RNode c l old (plug fs rr)))))"
    using d S r(1) by (auto simp: inord_plug)
  obtain t2 where t2: "rb_take_place old elm ?t1 = Some t2" "rb_at t2 cs (RNode c l elm (plug fs rr))"
    "rb_same S ?t1 t2"
    using take_place_at [of ?t1 cs c c1 A y B old "plug fs rr" elm S] at1 new S1 l by auto
  have at2: "rb_at t2 ?qs rr" using t2(2) by (simp add: rb_at_plug [of _ ?qs] rb_at_plug [of _ cs])
  have "rm_pre ?qs c2 rr"
    by (rule rm_pre_rename [of fs c l old]) (rule rm_preI [of _ _ RLeaf elm rr], use rb r in simp_all)
  from remove_finish [OF at2 this refl] obtain t' T' where
    f: "(if c2 = RB_BLACK then RB_REMOVE_COLOR (framep ?qs) (rootp rr) t2 else Some t2) = Some t'"
    "rb_at t' [] T'" "rb_tree T'" "inord T' = inord (plug ?qs rr)" "rb_same (set (inord (plug ?qs rr))) t2 t'"
    by blast
  have ord: "inord T' = before cs @ inord l @ inord r @ after cs" using f(4) r(1) fs by (simp add: inord_plug)
  then have "set (inord (plug ?qs rr)) \<subseteq> S" using f(4) S by (auto simp: inord_plug)
  then have "rb_same S t2 t'" using f(5) by (auto simp: rb_same_def)
  then have same: "rb_same S t t'" using same1(1) t2(3) rb_same_trans by blast
  have par: "(if framep ?ps = Some old then Some elm else framep ?ps) = framep ?qs"
    using d r(1) by (cases fs rule: framep.cases) (auto simp: inord_plug)
  have "RB_REMOVE old t = Option.bind (if c2 = RB_BLACK
      then RB_REMOVE_COLOR (framep ?qs) (rootp rr) t2 else Some t2) (\<lambda>t'. Some (old, t'))"
    using RB_REMOVE_successor [of t old y ra elm ?t1] old elm r(2) ra y t2(1) par same1(2) by (cases c2; cases "framep ?ps = Some old") simp_all
  with f ord same show ?thesis by auto
qed

lemma RB_REMOVE_at:
  assumes "rb_at t [] T" "rb_tree T" "old \<in> set (inord T)"
  shows "\<exists>t' T'. RB_REMOVE old t = Some (old, t') \<and> rb_at t' [] T' \<and> rb_tree T' \<and>
     inord T' = remove1 old (inord T) \<and> rb_same (set (inord T)) t t'"
proof -
  obtain cs c l r where T: "T = plug cs (RNode c l old r)" using focus_exists [OF assms(3)] by blast
  have at: "rb_at t cs (RNode c l old r)" using assms(1) T by (simp add: rb_at_plug [of _ cs])
  have "distinct (inord T)" using rb_at_distinct [OF assms(1)] by simp
  then have "remove1 old (inord T) = before cs @ inord l @ inord r @ after cs"
    using T remove1_middle [of old "before cs @ inord l" "inord r @ after cs"] by (simp add: inord_plug)
  then show ?thesis
    using RB_REMOVE_one_child [OF at _ _ refl] RB_REMOVE_two_children [OF at _ _ _ refl] assms(2) T by metis
qed

end
