(* ===== verification/Rbtree_Spec.thy ===== *)
theory Rbtree_Spec
  imports Rbtree_Remove
begin

section \<open>Red-black trees: searches, traversal and the interface of a keyed tree\<close>

text \<open>
  The searches, the extremes, the neighbours and the traversal of \<open>tree.h\<close> on a represented tree, the
  logarithmic bound on its height, and the contract a client relies on (\<open>keyed_tree\<close>), which is
  interpreted on the routines of \<open>tree.h\<close>. The scheduler and the poller use the tree
  through this contract only.
\<close>

definition hd_ptr :: "addr list \<Rightarrow> ptr" where
  "hd_ptr xs = (case xs of [] \<Rightarrow> NULL | x # _ \<Rightarrow> Some x)"

definition last_ptr :: "addr list \<Rightarrow> ptr" where
  "last_ptr xs = (if xs = [] then NULL else Some (last xs))"

lemma hd_ptr_simps [simp]:
  "hd_ptr [] = NULL" "hd_ptr (x # xs) = Some x" "hd_ptr (xs @ ys) = (if xs = [] then hd_ptr ys else hd_ptr xs)"
  by (simp_all add: hd_ptr_def split: list.split)

lemma last_ptr_simps [simp]:
  "last_ptr [] = NULL" "last_ptr (xs @ [x]) = Some x" "last_ptr (xs @ ys) = (if ys = [] then last_ptr xs else last_ptr ys)"
  "last_ptr (x # xs) = (if xs = [] then Some x else last_ptr xs)"
  by (simp_all add: last_ptr_def)

lemma inord_Nil [simp]: "inord T = [] \<longleftrightarrow> T = RLeaf"
  by (cases T) auto

subsection \<open>Extremes\<close>

lemma rb_minmax_simps [simp]:
  "rb_minmax_loop v t NULL parent = Some parent"
  "rb_minmax_loop v t (Some a) parent =
     rb_minmax_loop v t (if v < 0 then RB_LEFT a t else RB_RIGHT a t) (Some a)"
  by (subst rb_minmax_loop.simps, simp)+

lemma rb_min_loop_at:
  "rb_at t cs T \<Longrightarrow> rb_minmax_loop (- 1) t (rootp T) q = Some (if T = RLeaf then q else hd_ptr (inord T))"
proof (induction T arbitrary: cs q)
  case (RNode c l a r)
  then show ?case
    using RNode.IH(1) [of "LeftF c a r # cs" "Some a"] rb_at_node [OF RNode.prems] by auto
qed simp

lemma rb_max_loop_at:
  "rb_at t cs T \<Longrightarrow> rb_minmax_loop 1 t (rootp T) q = Some (if T = RLeaf then q else last_ptr (inord T))"
proof (induction T arbitrary: cs q)
  case (RNode c l a r)
  then show ?case
    using RNode.IH(2) [of "RightF c l a # cs" "Some a"] rb_at_node [OF RNode.prems] by auto
qed simp

lemma rb_at_root: "rb_at t [] T \<Longrightarrow> rbh_root t = rootp T"
  by (simp add: rb_at_def)

lemma RB_MIN_at: "rb_at t [] T \<Longrightarrow> RB_MIN t = Some (hd_ptr (inord T))"
  using rb_min_loop_at [of t "[]" T NULL] by (auto simp: RB_MIN_def RB_MINMAX_def rb_at_root)

lemma RB_MAX_at: "rb_at t [] T \<Longrightarrow> RB_MAX t = Some (last_ptr (inord T))"
  using rb_max_loop_at [of t "[]" T NULL] by (auto simp: RB_MAX_def RB_MINMAX_def rb_at_root)

subsection \<open>Neighbours and traversal\<close>

lemma rb_leftmost_at:
  assumes "rb_at t cs T" "rootp T = Some a"
  shows "map_option Some (rb_leftmost t a) = Some (hd_ptr (inord T))"
  using assms
proof (induction T arbitrary: cs a)
  case (RNode c l x r)
  show ?case
  proof (cases "rootp l")
    case None
    then show ?thesis using RNode.prems rb_at_node [OF RNode.prems(1)] by (auto simp: rb_leftmost.simps)
  next
    case (Some b)
    then have "rb_leftmost t x = rb_leftmost t b"
      using rb_at_node [OF RNode.prems(1)] by (subst rb_leftmost.simps) simp
    with Some show ?thesis using RNode.IH(1) [of "LeftF c x r # cs" b] RNode.prems by auto
  qed
qed simp

lemma rb_rightmost_at:
  assumes "rb_at t cs T" "rootp T = Some a"
  shows "map_option Some (rb_rightmost t a) = Some (last_ptr (inord T))"
  using assms
proof (induction T arbitrary: cs a)
  case (RNode c l x r)
  show ?case
  proof (cases "rootp r")
    case None
    then show ?thesis using RNode.prems rb_at_node [OF RNode.prems(1)] by (auto simp: rb_rightmost.simps)
  next
    case (Some b)
    then have "rb_rightmost t x = rb_rightmost t b"
      using rb_at_node [OF RNode.prems(1)] by (subst rb_rightmost.simps) simp
    with Some show ?thesis using RNode.IH(2) [of "RightF c l x # cs" b] RNode.prems by auto
  qed
qed simp

text \<open>The node above a position, and on which side of it the position is.\<close>

lemma rb_at_parent:
  assumes "rb_at t cs T" "rootp T = Some a"
  shows "rbe_parent (rbn t a) = framep cs"
    and "cs = LeftF c p s # cs' \<Longrightarrow> rbe_left (rbn t p) = Some a \<and> rbe_right (rbn t p) \<noteq> Some a"
    and "cs = RightF c s p # cs' \<Longrightarrow> rbe_right (rbn t p) = Some a \<and> rbe_left (rbn t p) \<noteq> Some a"
  using assms by (cases T; auto simp: rb_at_def)+

lemma rb_climb_right_at:
  assumes "rb_at t cs T" "rootp T = Some a"
  shows "\<exists>e. rb_climb_right t a = Some e \<and> RB_PARENT e t = hd_ptr (after cs)"
  using assms
proof (induction cs arbitrary: T a)
  case Nil
  then show ?case using rb_at_parent(1) [OF Nil.prems] by (subst rb_climb_right.simps) simp
next
  case (Cons f cs)
  note par = rb_at_parent(1) [OF Cons.prems]
  show ?case
  proof (cases f)
    case (LeftF c p s)
    with par rb_at_parent(2) [OF Cons.prems, of c p s cs] show ?thesis by (subst rb_climb_right.simps) simp
  next
    case (RightF c s p)
    with par rb_at_parent(3) [OF Cons.prems, of c s p cs] have "rb_climb_right t a = rb_climb_right t p"
      by (subst rb_climb_right.simps) simp
    with RightF Cons.IH [of "RNode c s p T" p] Cons.prems show ?thesis by simp
  qed
qed

lemma rb_climb_left_at:
  assumes "rb_at t cs T" "rootp T = Some a"
  shows "\<exists>e. rb_climb_left t a = Some e \<and> RB_PARENT e t = last_ptr (before cs)"
  using assms
proof (induction cs arbitrary: T a)
  case Nil
  then show ?case using rb_at_parent(1) [OF Nil.prems] by (subst rb_climb_left.simps) simp
next
  case (Cons f cs)
  note par = rb_at_parent(1) [OF Cons.prems]
  show ?case
  proof (cases f)
    case (RightF c s p)
    with par rb_at_parent(3) [OF Cons.prems, of c s p cs] show ?thesis by (subst rb_climb_left.simps) simp
  next
    case (LeftF c p s)
    with par rb_at_parent(2) [OF Cons.prems, of c p s cs] have "rb_climb_left t a = rb_climb_left t p"
      by (subst rb_climb_left.simps) simp
    with LeftF Cons.IH [of "RNode c T p s" p] Cons.prems show ?thesis by simp
  qed
qed

lemma RB_NEXT_at:
  assumes at: "rb_at t cs (RNode c l a r)"
  shows "RB_NEXT a t = Some (hd_ptr (inord r @ after cs))"
proof (cases "rootp r")
  case (Some b)
  have "RB_NEXT a t = map_option Some (rb_leftmost t b)" using rb_at_node [OF at] Some by (simp add: RB_NEXT_def)
  also have "\<dots> = Some (hd_ptr (inord r))" by (rule rb_leftmost_at [of t "RightF c l a # cs"]) (use at Some in auto)
  finally show ?thesis using Some by auto
next
  case None
  obtain e where e: "rb_climb_right t a = Some e" "RB_PARENT e t = hd_ptr (after cs)"
    using rb_climb_right_at [OF at] by auto
  show ?thesis
    using None e rb_at_node [OF at] rb_at_parent [OF at]
    by (cases cs rule: framep.cases) (auto simp: RB_NEXT_def)
qed

lemma RB_PREV_at:
  assumes at: "rb_at t cs (RNode c l a r)"
  shows "RB_PREV a t = Some (last_ptr (before cs @ inord l))"
proof (cases "rootp l")
  case (Some b)
  have "RB_PREV a t = map_option Some (rb_rightmost t b)" using rb_at_node [OF at] Some by (simp add: RB_PREV_def)
  also have "\<dots> = Some (last_ptr (inord l))" by (rule rb_rightmost_at [of t "LeftF c a r # cs"]) (use at Some in auto)
  finally show ?thesis using Some by auto
next
  case None
  obtain e where e: "rb_climb_left t a = Some e" "RB_PARENT e t = last_ptr (before cs)"
    using rb_climb_left_at [OF at] by auto
  show ?thesis
    using None e rb_at_node [OF at] rb_at_parent [OF at]
    by (cases cs rule: framep.cases) (auto simp: RB_PREV_def)
qed

lemma RB_NEXT_split:
  assumes "rb_at t [] T" "inord T = xs @ a # ys"
  shows "RB_NEXT a t = Some (hd_ptr ys)" "RB_PREV a t = Some (last_ptr xs)"
proof -
  have "a \<in> set (inord T)" using assms(2) by simp
  then obtain cs c l r where T: "T = plug cs (RNode c l a r)" using focus_exists by blast
  have at: "rb_at t cs (RNode c l a r)" using assms(1) T by (simp add: rb_at_plug [of _ cs])
  have "a \<notin> set xs" "a \<notin> set ys" using rb_at_distinct [OF assms(1)] assms(2) by auto
  moreover have "xs @ a # ys = (before cs @ inord l) @ a # inord r @ after cs"
    using assms(2) T by (simp add: inord_plug)
  ultimately have "xs = before cs @ inord l \<and> ys = inord r @ after cs"
    using append_Cons_eq_iff [of a xs ys "before cs @ inord l" "inord r @ after cs"] by simp
  then show "RB_NEXT a t = Some (hd_ptr ys)" "RB_PREV a t = Some (last_ptr xs)"
    using RB_NEXT_at [OF at] RB_PREV_at [OF at] by simp_all
qed

lemma rb_foreach_from_at:
  assumes "rb_at t [] T" "inord T = xs @ ys"
  shows "rb_foreach_from t (hd_ptr ys) = Some ys"
  using assms(2)
proof (induction ys arbitrary: xs)
  case Nil
  then show ?case by (subst rb_foreach_from.simps) simp
next
  case (Cons y ys)
  then have "RB_NEXT y t = Some (hd_ptr ys)" "rb_foreach_from t (hd_ptr ys) = Some ys"
    using RB_NEXT_split(1) [OF assms(1)] Cons.IH [of "xs @ [y]"] by auto
  then show ?case by (subst rb_foreach_from.simps) simp
qed

lemma RB_FOREACH_at: "rb_at t [] T \<Longrightarrow> RB_FOREACH t = Some (inord T)"
  using rb_foreach_from_at [of t T "[]"] RB_MIN_at [of t T] by (simp add: RB_FOREACH_def)


subsection \<open>Height\<close>

fun rheight :: "rt \<Rightarrow> nat" where
  "rheight RLeaf = 0"
| "rheight (RNode c l a r) = Suc (max (rheight l) (rheight r))"

lemma bheight_size: "invh T \<Longrightarrow> 2 ^ bheight T \<le> length (inord T) + 1"
proof (induction T)
  case (RNode c l a r)
  then have "2 ^ bheight l \<le> length (inord l) + 1" "2 ^ bheight l \<le> length (inord r) + 1" by auto
  then show ?case by simp
qed simp

lemma rheight_bheight:
  "invc T \<Longrightarrow> invh T \<Longrightarrow> rheight T \<le> 2 * bheight T + (if rcolor T = RB_BLACK then 0 else 1)"
  by (induction T) (auto split: if_splits)

lemma rb_tree_height: "rb_tree T \<Longrightarrow> 2 ^ rheight T \<le> (length (inord T) + 1)\<^sup>2"
proof -
  assume rb: "rb_tree T"
  then have "rheight T \<le> 2 * bheight T" using rheight_bheight [of T] by (simp add: rb_tree_def)
  then have "(2::nat) ^ rheight T \<le> 2 ^ (2 * bheight T)" by (rule power_increasing) simp
  also have "\<dots> = (2 ^ bheight T)\<^sup>2" by (simp add: power_mult [symmetric] mult.commute)
  also have "\<dots> \<le> (length (inord T) + 1)\<^sup>2" using rb bheight_size by (simp add: rb_tree_def power_mono)
  finally show ?thesis .
qed

subsection \<open>Searches in a tree whose in-order list is sorted by a key\<close>

text \<open>The comparison functions of the library compare two structures by a key and return -1, 0 or 1.\<close>

definition cmp_by :: "(addr \<Rightarrow> 'k::linorder) \<Rightarrow> 'k \<Rightarrow> addr \<Rightarrow> int" where
  "cmp_by key k a = (if k < key a then - 1 else if k = key a then 0 else 1)"

definition sorted_by :: "(addr \<Rightarrow> 'k::linorder) \<Rightarrow> addr list \<Rightarrow> bool" where
  "sorted_by key xs \<longleftrightarrow> sorted (map key xs)"

lemma sorted_by_append [simp]:
  "sorted_by key (xs @ ys) \<longleftrightarrow> sorted_by key xs \<and> sorted_by key ys \<and> (\<forall>x \<in> set xs. \<forall>y \<in> set ys. key x \<le> key y)"
  "sorted_by key (x # xs) \<longleftrightarrow> (\<forall>y \<in> set xs. key x \<le> key y) \<and> sorted_by key xs"
  "sorted_by key []"
  by (auto simp: sorted_by_def sorted_append)

lemma descend_found:
  "descend (cmp_by key k) cs T = Inl a \<Longrightarrow> a \<in> set (inord T) \<and> key a = k"
  by (induction T arbitrary: cs) (auto simp: cmp_by_def split: if_splits)

lemma descend_hole:
  assumes "descend (cmp_by key k) cs T = Inr cs'" "sorted_by key (inord (plug cs T))"
    "\<forall>x \<in> set (before cs). key x < k" "\<forall>x \<in> set (after cs). k < key x"
  shows "(\<forall>x \<in> set (before cs'). key x < k) \<and> (\<forall>x \<in> set (after cs'). k < key x)"
  using assms
proof (induction T arbitrary: cs)
  case (RNode c l a r)
  show ?case
  proof (cases "k < key a")
    case True
    with RNode.prems show ?thesis
      by (intro RNode.IH(1) [of "LeftF c a r # cs"]) (auto simp: cmp_by_def inord_plug dest: less_le_trans)
  next
    case False
    with RNode.prems show ?thesis
      by (intro RNode.IH(2) [of "RightF c l a # cs"])
         (auto simp: cmp_by_def inord_plug dest: le_less_trans split: if_splits)
  qed
qed simp

lemma rb_find_simps [simp]:
  "rb_find_from cmp t NULL = Some NULL"
  "rb_find_from cmp t (Some a) =
     (if cmp a < 0 then rb_find_from cmp t (RB_LEFT a t)
      else if cmp a > 0 then rb_find_from cmp t (RB_RIGHT a t) else Some (Some a))"
  by (subst rb_find_from.simps, simp)+

lemma rb_find_from_at:
  "rb_at t cs T \<Longrightarrow>
   rb_find_from cmp t (rootp T) = Some (case descend cmp cs T of Inl a \<Rightarrow> Some a | Inr _ \<Rightarrow> NULL)"
proof (induction T arbitrary: cs)
  case (RNode c l a r)
  show ?case
    using RNode.IH(1) [of "LeftF c a r # cs"] RNode.IH(2) [of "RightF c l a # cs"] RNode.prems
      rb_at_node [OF RNode.prems] by auto
qed simp

lemma RB_FIND_at:
  assumes at: "rb_at t [] T" and srt: "sorted_by key (inord T)"
  shows "k \<notin> key ` set (inord T) \<Longrightarrow> RB_FIND (cmp_by key k) t = Some NULL"
    and "k \<in> key ` set (inord T) \<Longrightarrow> \<exists>a \<in> set (inord T). key a = k \<and> RB_FIND (cmp_by key k) t = Some (Some a)"
proof -
  have f: "RB_FIND (cmp_by key k) t = Some (case descend (cmp_by key k) [] T of Inl a \<Rightarrow> Some a | Inr _ \<Rightarrow> NULL)"
    using rb_find_from_at [OF at] at by (simp add: RB_FIND_def rb_at_root)
  have hole: "k \<notin> key ` set (inord T)" if d: "descend (cmp_by key k) [] T = Inr cs" for cs
  proof -
    have "set (inord T) = set (before cs) \<union> set (after cs)"
      using arg_cong [OF descend_plug [OF d], of "\<lambda>T. set (inord T)"] by (simp add: inord_plug)
    with descend_hole [OF d] srt show ?thesis by auto
  qed
  show "k \<notin> key ` set (inord T) \<Longrightarrow> RB_FIND (cmp_by key k) t = Some NULL"
    using f descend_found [of key k "[]" T] by (auto split: sum.splits)
  show "k \<in> key ` set (inord T) \<Longrightarrow> \<exists>a \<in> set (inord T). key a = k \<and> RB_FIND (cmp_by key k) t = Some (Some a)"
    using f hole descend_found [of key k "[]" T] by (auto split: sum.splits)
qed

lemma rb_nfind_simps [simp]:
  "rb_nfind_from cmp t NULL res = Some res"
  "rb_nfind_from cmp t (Some a) res =
     (if cmp a < 0 then rb_nfind_from cmp t (RB_LEFT a t) (Some a)
      else if cmp a > 0 then rb_nfind_from cmp t (RB_RIGHT a t) res else Some (Some a))"
  by (subst rb_nfind_from.simps, simp)+

text \<open>The first element whose key is not below \<open>k\<close>.\<close>

definition first_from :: "(addr \<Rightarrow> 'k::linorder) \<Rightarrow> 'k \<Rightarrow> addr list \<Rightarrow> ptr" where
  "first_from key k xs = find (\<lambda>a. k \<le> key a) xs"

lemma find_append_if: "find P (xs @ ys) = (if \<exists>x \<in> set xs. P x then find P xs else find P ys)"
  by (induction xs) auto

lemma find_None_all: "\<forall>x \<in> set xs. \<not> P x \<Longrightarrow> find P xs = None"
  by (simp add: find_None_iff)

lemma rb_nfind_from_at:
  assumes "rb_at t cs T" "sorted_wrt (\<lambda>a b. key a < key b) (inord T)"
  shows "rb_nfind_from (cmp_by key k) t (rootp T) res =
    Some (case first_from key k (inord T) of None \<Rightarrow> res | Some a \<Rightarrow> Some a)"
  using assms
proof (induction T arbitrary: cs res)
  case (RNode c l a r)
  note nd = rb_at_node [OF RNode.prems(1)]
  have below: "key x < key a" if "x \<in> set (inord l)" for x
    using RNode.prems(2) that by (auto simp: sorted_wrt_append)
  consider (lt) "k < key a" | (eq) "k = key a" | (gt) "key a < k" by fastforce
  then show ?case
  proof cases
    case lt
    with RNode.IH(1) [of "LeftF c a r # cs" "Some a"] RNode.prems nd show ?thesis
      by (auto simp: cmp_by_def first_from_def find_append_if find_None_all find_None_iff sorted_wrt_append split: option.splits)
  next
    case eq
    with below have "\<forall>x \<in> set (inord l). \<not> k \<le> key x" by fastforce
    with eq nd show ?thesis by (auto simp: cmp_by_def first_from_def find_append_if)
  next
    case gt
    with below have "\<forall>x \<in> set (inord l). \<not> k \<le> key x" by fastforce
    with gt RNode.IH(2) [of "RightF c l a # cs" res] RNode.prems nd show ?thesis
      by (auto simp: cmp_by_def first_from_def find_append_if sorted_wrt_append)
  qed
qed (simp add: first_from_def)

lemma RB_NFIND_at:
  assumes "rb_at t [] T" "sorted_wrt (\<lambda>a b. key a < key b) (inord T)"
  shows "RB_NFIND (cmp_by key k) t = Some (first_from key k (inord T))"
  using rb_nfind_from_at [OF assms, of k NULL] assms(1)
  by (simp add: RB_NFIND_def rb_at_root split: option.splits)


subsection \<open>The contract of a keyed tree\<close>

text \<open>
  \<open>repr t xs\<close>: the tree \<open>t\<close> holds the elements \<open>xs\<close>, in order. Keys live outside of the tree
  (a field of the element), so the order of \<open>xs\<close> is a hypothesis of the laws. The law of
  \<open>ins\<close> for a key that occurs already is the collision a caller has to handle.
\<close>

locale keyed_tree =
  fixes repr :: "'t \<Rightarrow> addr list \<Rightarrow> bool"
    and ins :: "(addr \<Rightarrow> int) \<Rightarrow> addr \<Rightarrow> 't \<Rightarrow> (ptr \<times> 't) option"
    and del :: "addr \<Rightarrow> 't \<Rightarrow> (addr \<times> 't) option"
    and min :: "'t \<Rightarrow> ptr option"
    and lookup :: "(addr \<Rightarrow> int) \<Rightarrow> 't \<Rightarrow> ptr option"
    and key :: "addr \<Rightarrow> 'k::linorder"
  assumes distinct: "repr t xs \<Longrightarrow> distinct xs"
    and ins_new: "repr t xs \<Longrightarrow> sorted_by key xs \<Longrightarrow> a \<notin> set xs \<Longrightarrow> key a \<notin> key ` set xs \<Longrightarrow>
      \<exists>t'. ins (cmp_by key (key a)) a t = Some (NULL, t') \<and> repr t' (insort_key key a xs)"
    and ins_collision: "repr t xs \<Longrightarrow> sorted_by key xs \<Longrightarrow> key a \<in> key ` set xs \<Longrightarrow>
      \<exists>b \<in> set xs. key b = key a \<and> ins (cmp_by key (key a)) a t = Some (Some b, t)"
    and del_member: "repr t xs \<Longrightarrow> a \<in> set xs \<Longrightarrow> \<exists>t'. del a t = Some (a, t') \<and> repr t' (remove1 a xs)"
    and min_first: "repr t xs \<Longrightarrow> min t = Some (hd_ptr xs)"
    and lookup_member: "repr t xs \<Longrightarrow> sorted_by key xs \<Longrightarrow> a \<in> set xs \<Longrightarrow> inj_on key (set xs) \<Longrightarrow>
      lookup (cmp_by key (key a)) t = Some (Some a)"
    and lookup_none: "repr t xs \<Longrightarrow> sorted_by key xs \<Longrightarrow> k \<notin> key ` set xs \<Longrightarrow>
      lookup (cmp_by key k) t = Some NULL"
begin

lemma ins_sorted:
  assumes "repr t xs" "sorted_by key xs" "a \<notin> set xs" "key a \<notin> key ` set xs"
    "ins (cmp_by key (key a)) a t = Some (NULL, t')"
  shows "\<exists>ys. repr t' ys \<and> sorted_by key ys \<and> set ys = insert a (set xs)"
  using ins_new [OF assms(1-4)] assms(2,5) by (auto simp: sorted_by_def sorted_insort_key set_insort_key)

lemma ins_iff_fresh:
  assumes "repr t xs" "sorted_by key xs" "a \<notin> set xs"
  shows "(\<exists>t'. ins (cmp_by key (key a)) a t = Some (NULL, t')) \<longleftrightarrow> key a \<notin> key ` set xs"
  using ins_new [OF assms] ins_collision [OF assms(1,2), of a] by fastforce

lemma ins_then_lookup:
  assumes "repr t xs" "sorted_by key xs" "a \<notin> set xs" "key a \<notin> key ` set xs" "inj_on key (set xs)"
  shows "\<exists>t'. ins (cmp_by key (key a)) a t = Some (NULL, t') \<and> lookup (cmp_by key (key a)) t' = Some (Some a)"
proof -
  obtain t' where t': "ins (cmp_by key (key a)) a t = Some (NULL, t')" "repr t' (insort_key key a xs)"
    using ins_new [OF assms(1-4)] by blast
  have "lookup (cmp_by key (key a)) t' = Some (Some a)"
    by (rule lookup_member [OF t'(2)])
       (use assms in \<open>auto simp: sorted_by_def sorted_insort_key set_insort_key\<close>)
  with t'(1) show ?thesis by blast
qed

lemma ins_then_del:
  assumes "repr t xs" "sorted_by key xs" "a \<notin> set xs" "key a \<notin> key ` set xs"
  shows "\<exists>t' t''. ins (cmp_by key (key a)) a t = Some (NULL, t') \<and> del a t' = Some (a, t'') \<and> repr t'' xs"
proof -
  obtain t' where t': "ins (cmp_by key (key a)) a t = Some (NULL, t')" "repr t' (insort_key key a xs)"
    using ins_new [OF assms] by blast
  with del_member [OF t'(2), of a] assms(3) show ?thesis by (auto simp: remove1_insort_key set_insort_key)
qed

lemma min_least:
  assumes "repr t xs" "sorted_by key xs" "min t = Some (Some a)"
  shows "a \<in> set xs \<and> (\<forall>b \<in> set xs. key a \<le> key b)"
  using min_first [OF assms(1)] assms(2,3) by (cases xs) auto

lemma min_empty: "repr t xs \<Longrightarrow> min t = Some NULL \<longleftrightarrow> xs = []"
  using min_first by (cases xs) auto

end

text \<open>The routines of \<open>tree.h\<close> keep the contract, for every key. \<open>rb_repr\<close> is the abstraction
  relation: a red-black tree of the heap whose in-order list is \<open>xs\<close>.\<close>

definition rb_repr :: "rbtree \<Rightarrow> addr list \<Rightarrow> bool" where
  "rb_repr t xs \<longleftrightarrow> (\<exists>T. rb_at t [] T \<and> rb_tree T \<and> inord T = xs)"

lemma insort_key_split:
  assumes "\<forall>x \<in> set xs. key x < key a" "\<forall>y \<in> set ys. key a < key y"
  shows "insort_key key a (xs @ ys) = xs @ a # ys"
proof -
  have "insort_key key a ys = a # ys" using assms(2) by (cases ys) auto
  with assms(1) show ?thesis by (induction xs) auto
qed

lemma rb_insert_new:
  assumes "rb_repr t xs" "sorted_by key xs" "a \<notin> set xs" "key a \<notin> key ` set xs"
  shows "\<exists>t'. RB_INSERT (cmp_by key (key a)) a t = Some (NULL, t') \<and> rb_repr t' (insort_key key a xs) \<and>
     rb_same (insert a (set xs)) t t'"
proof -
  from assms(1) obtain T where T: "rb_at t [] T" "rb_tree T" "inord T = xs" by (auto simp: rb_repr_def)
  obtain cs where d: "descend (cmp_by key (key a)) [] T = Inr cs"
  proof (cases "descend (cmp_by key (key a)) [] T")
    case (Inl b)
    with descend_found [OF Inl] assms(4) T(3) show ?thesis by (metis imageI)
  qed
  have xs: "xs = before cs @ after cs"
    using arg_cong [OF descend_plug [OF d], of inord] T(3) by (simp add: inord_plug)
  have "insort_key key a xs = before cs @ a # after cs"
    unfolding xs by (rule insort_key_split) (use descend_hole [OF d] assms(2) T(3) in auto)
  with RB_INSERT_at(2) [OF T(1,2) d, of a] assms(3) T(3) show ?thesis unfolding rb_repr_def by auto
qed

lemma rb_insert_collision:
  assumes "rb_repr t xs" "sorted_by key xs" "key a \<in> key ` set xs"
  shows "\<exists>b \<in> set xs. key b = key a \<and> RB_INSERT (cmp_by key (key a)) a t = Some (Some b, t)"
proof -
  from assms(1) obtain T where T: "rb_at t [] T" "rb_tree T" "inord T = xs" by (auto simp: rb_repr_def)
  obtain b where d: "descend (cmp_by key (key a)) [] T = Inl b"
  proof (cases "descend (cmp_by key (key a)) [] T")
    case (Inr cs)
    have "set xs = set (before cs) \<union> set (after cs)"
      using arg_cong [OF descend_plug [OF Inr], of "\<lambda>T. set (inord T)"] T(3) by (simp add: inord_plug)
    with descend_hole [OF Inr] assms(2,3) T(3) show ?thesis by auto
  qed
  with RB_INSERT_at(1) [OF T(1,2) d] descend_found [OF d] T(3) show ?thesis by auto
qed

lemma rb_remove_member:
  assumes "rb_repr t xs" "a \<in> set xs"
  shows "\<exists>t'. RB_REMOVE a t = Some (a, t') \<and> rb_repr t' (remove1 a xs) \<and> rb_same (set xs) t t'"
  using assms RB_REMOVE_at by (fastforce simp: rb_repr_def)

lemma rb_repr_min: "rb_repr t xs \<Longrightarrow> RB_MIN t = Some (hd_ptr xs)"
  by (auto simp: rb_repr_def RB_MIN_at)

lemma rb_repr_distinct: "rb_repr t xs \<Longrightarrow> distinct xs"
  using rb_at_distinct by (fastforce simp: rb_repr_def)

lemma rb_repr_frame:
  assumes "rb_repr t xs" "rb_same A t t'" "rbh_root t' = rbh_root t" "set xs \<inter> A = {}"
  shows "rb_repr t' xs"
  using assms rb_at_frame by (fastforce simp: rb_repr_def)

interpretation rb: keyed_tree rb_repr RB_INSERT RB_REMOVE RB_MIN RB_FIND key for key :: "addr \<Rightarrow> 'k::linorder"
proof
  fix t xs a and k :: 'k
  assume r: "rb_repr t xs"
  show "distinct xs" by (rule rb_repr_distinct [OF r])
  show "RB_MIN t = Some (hd_ptr xs)" by (rule rb_repr_min [OF r])
  show "\<exists>t'. RB_REMOVE a t = Some (a, t') \<and> rb_repr t' (remove1 a xs)" if "a \<in> set xs"
    using rb_remove_member [OF r that] by blast
  assume s: "sorted_by key xs"
  show "\<exists>t'. RB_INSERT (cmp_by key (key a)) a t = Some (NULL, t') \<and> rb_repr t' (insort_key key a xs)"
    if "a \<notin> set xs" "key a \<notin> key ` set xs"
    using rb_insert_new [OF r s that] by blast
  show "\<exists>b \<in> set xs. key b = key a \<and> RB_INSERT (cmp_by key (key a)) a t = Some (Some b, t)"
    if "key a \<in> key ` set xs"
    using rb_insert_collision [OF r s that] .
  show "RB_FIND (cmp_by key (key a)) t = Some (Some a)" if "a \<in> set xs" "inj_on key (set xs)"
    using that r s RB_FIND_at(2) [of t _ key "key a"] by (metis imageI inj_on_def rb_repr_def)
  show "RB_FIND (cmp_by key k) t = Some NULL" if "k \<notin> key ` set xs"
    using that r s RB_FIND_at(1) [of t _ key k] by (auto simp: rb_repr_def)
qed


subsection \<open>Families of trees\<close>

text \<open>All the trees threaded through one link field: \<open>root k\<close> is the root of the tree \<open>k\<close>, \<open>n\<close> the entries
  of the field. No element is in two trees.\<close>

definition rb_family :: "nat set \<Rightarrow> (nat \<Rightarrow> ptr) \<Rightarrow> (addr \<Rightarrow> rb_entry) \<Rightarrow> (nat \<Rightarrow> addr list) \<Rightarrow> bool" where
  "rb_family K root n F \<longleftrightarrow>
     (\<forall>k \<in> K. rb_repr \<lparr>rbh_root = root k, rbn = n\<rparr> (F k)) \<and>
     (\<forall>k \<in> K. \<forall>k' \<in> K. k \<noteq> k' \<longrightarrow> set (F k) \<inter> set (F k') = {})"

lemma rb_family_repr: "rb_family K root n F \<Longrightarrow> k \<in> K \<Longrightarrow> rb_repr \<lparr>rbh_root = root k, rbn = n\<rparr> (F k)"
  by (simp add: rb_family_def)

lemma rb_family_update:
  assumes fam: "rb_family K root n F" and k: "k \<in> K"
    and new: "rb_repr t xs" "rb_same A \<lparr>rbh_root = root k, rbn = n\<rparr> t" "set xs \<subseteq> A"
    and other: "\<And>k'. k' \<in> K \<Longrightarrow> k' \<noteq> k \<Longrightarrow> set (F k') \<inter> A = {}"
  shows "rb_family K (root(k := rbh_root t)) (rbn t) (F(k := xs))"
proof -
  have "rb_repr \<lparr>rbh_root = root k', rbn = rbn t\<rparr> (F k')" if "k' \<in> K" "k' \<noteq> k" for k'
    by (rule rb_repr_frame [OF rb_family_repr [OF fam that(1)]])
       (use new(2) other [OF that] in \<open>auto simp: rb_same_def\<close>)
  moreover have "set xs \<inter> set (F k') = {}" if "k' \<in> K" "k' \<noteq> k" for k'
    using new(3) other [OF that] by blast
  moreover have "rb_repr \<lparr>rbh_root = rbh_root t, rbn = rbn t\<rparr> xs" using new(1) by (cases t) simp
  ultimately show ?thesis
    using fam unfolding rb_family_def by (auto simp: Int_commute)
qed

subsection \<open>Properties of the tree routines\<close>

text \<open>A tree of three nodes, for the instances below.\<close>

definition tree3 :: rbtree where
  "tree3 = \<lparr>rbh_root = Some 2,
     rbn = (\<lambda>_. entry NULL NULL NULL RB_BLACK)
       (1 := entry NULL NULL (Some 2) RB_RED, 2 := entry (Some 1) (Some 3) NULL RB_BLACK,
        3 := entry NULL NULL (Some 2) RB_RED)\<rparr>"

lemma tree3_at:
  "rb_at tree3 [] (RNode RB_BLACK (RNode RB_RED RLeaf 1 RLeaf) 2 (RNode RB_RED RLeaf 3 RLeaf))"
  "rb_tree (RNode RB_BLACK (RNode RB_RED RLeaf 1 RLeaf) 2 (RNode RB_RED RLeaf 3 RLeaf))"
  by (simp_all add: rb_at_def tree3_def rb_tree_def)

lemma tree3_repr: "rb_repr tree3 [1, 2, 3]"
  unfolding rb_repr_def using tree3_at by force

text \<open>(C14) \<open>RB_INSERT\<close> into a sorted tree: when the key of the element is taken, the node that has it is
  returned and the tree is untouched; otherwise \<open>NULL\<close> is returned, the result is again a red-black
  tree, its in-order list is the sorted insertion of the element, and no entry outside of the tree
  is written.\<close>

theorem RB_INSERT_refines_insort:
  assumes "rb_repr t xs" "sorted_by key xs" "a \<notin> set xs"
  shows "if key a \<in> key ` set xs
    then \<exists>b \<in> set xs. key b = key a \<and> RB_INSERT (cmp_by key (key a)) a t = Some (Some b, t)
    else \<exists>t'. RB_INSERT (cmp_by key (key a)) a t = Some (NULL, t') \<and> rb_repr t' (insort_key key a xs) \<and>
      rb_same (insert a (set xs)) t t'"
  using rb_insert_new [OF assms] rb_insert_collision [OF assms(1,2), of a] by auto

theorem RB_INSERT_refines_insort_witness:
  "\<exists>t'. RB_INSERT (cmp_by (\<lambda>x. x) 0) 0 tree3 = Some (NULL, t') \<and> rb_repr t' [0, 1, 2, 3]"
  using RB_INSERT_refines_insort [OF tree3_repr, of "\<lambda>x. x" 0] by auto

text \<open>(C11) \<open>RB_REMOVE\<close> of a member returns the member and leaves a red-black tree with the other elements
  in the same order; no entry outside of the tree is written.\<close>

theorem RB_REMOVE_refines_remove1:
  assumes "rb_repr t xs" "a \<in> set xs"
  shows "\<exists>t'. RB_REMOVE a t = Some (a, t') \<and> rb_repr t' (remove1 a xs) \<and> rb_same (set xs) t t'"
  by (rule rb_remove_member [OF assms])

theorem RB_REMOVE_refines_remove1_witness:
  "\<exists>t'. RB_REMOVE 2 tree3 = Some (2, t') \<and> rb_repr t' [1, 3]"
  using RB_REMOVE_refines_remove1 [OF tree3_repr, of 2] by auto

text \<open>An insertion followed by the removal of the same element gives back the same ordered
  contents, and between the two \<open>RB_FIND\<close> returns the element.\<close>

theorem RB_insert_find_remove:
  assumes "rb_repr t xs" "sorted_by key xs" "a \<notin> set xs" "key a \<notin> key ` set xs" "inj_on key (set xs)"
  shows "\<exists>t' t''. RB_INSERT (cmp_by key (key a)) a t = Some (NULL, t') \<and>
     RB_FIND (cmp_by key (key a)) t' = Some (Some a) \<and> RB_REMOVE a t' = Some (a, t'') \<and> rb_repr t'' xs"
  using rb.ins_then_lookup [OF assms] rb.ins_then_del [OF assms(1-4)] by fastforce

theorem RB_insert_find_remove_witness:
  "\<exists>t' t''. RB_INSERT (cmp_by (\<lambda>x. x) 7) 7 tree3 = Some (NULL, t') \<and>
     RB_FIND (cmp_by (\<lambda>x. x) 7) t' = Some (Some 7) \<and> RB_REMOVE 7 t' = Some (7, t'') \<and> rb_repr t'' [1, 2, 3]"
  using RB_insert_find_remove [OF tree3_repr, of "\<lambda>x. x" 7] by auto

text \<open>\<open>RB_FOREACH\<close>, which starts at \<open>RB_MIN\<close> and follows \<open>RB_NEXT\<close>, ends and visits every element once,
  in order; \<open>RB_MIN\<close> and \<open>RB_MAX\<close> are the ends of the list, \<open>RB_PREV\<close> is the inverse of \<open>RB_NEXT\<close>.\<close>

theorem RB_FOREACH_in_order:
  assumes "rb_repr t xs"
  shows "RB_FOREACH t = Some xs \<and> RB_MIN t = Some (hd_ptr xs) \<and> RB_MAX t = Some (last_ptr xs) \<and>
    (\<forall>us a vs. xs = us @ a # vs \<longrightarrow> RB_NEXT a t = Some (hd_ptr vs) \<and> RB_PREV a t = Some (last_ptr us))"
  using assms RB_FOREACH_at RB_MIN_at RB_MAX_at RB_NEXT_split unfolding rb_repr_def by metis

theorem RB_FOREACH_in_order_witness:
  "RB_FOREACH tree3 = Some [1, 2, 3] \<and> RB_NEXT 2 tree3 = Some (Some 3) \<and> RB_PREV 1 tree3 = Some NULL"
proof -
  note p = RB_FOREACH_in_order [OF tree3_repr]
  have "RB_NEXT 2 tree3 = Some (Some 3)" using p by (auto dest!: spec [of _ "[1]"])
  moreover have "RB_PREV 1 tree3 = Some NULL" using p by (auto dest!: spec [of _ "[]"])
  ultimately show ?thesis using p by simp
qed

text \<open>(C26) Right after an insertion every path of the tree, which then has \<open>n\<close> elements, has at most \<open>2 * log2 (n + 1)\<close> nodes: the bound \<open>tree.h\<close> announces for the cost of its operations.\<close>

theorem RB_INSERT_height:
  assumes "rb_at t [] T" "rb_tree T" "elm \<notin> set (inord T)" "RB_INSERT cmp elm t = Some (NULL, t')"
  shows "\<exists>T'. rb_at t' [] T' \<and> length (inord T') = length (inord T) + 1 \<and>
    2 ^ rheight T' \<le> (length (inord T) + 2)\<^sup>2"
proof (cases "descend cmp [] T")
  case (Inl b)
  with RB_INSERT_at(1) [OF assms(1,2) Inl, of elm] assms(4) show ?thesis by simp
next
  case (Inr cs)
  have "length (inord T) = length (before cs) + length (after cs)"
    using arg_cong [OF descend_plug [OF Inr], of "\<lambda>T. length (inord T)"] by (simp add: inord_plug)
  with RB_INSERT_at(2) [OF assms(1,2) Inr assms(3)] assms(4) rb_tree_height show ?thesis
    by (fastforce simp: numeral_2_eq_2)
qed

theorem RB_INSERT_height_witness:
  "\<exists>t' T'. RB_INSERT (cmp_by (\<lambda>x. x) 7) 7 tree3 = Some (NULL, t') \<and> rb_at t' [] T' \<and>
    length (inord T') = 4 \<and> 2 ^ rheight T' \<le> (25::nat)"
proof -
  obtain t' where ins: "RB_INSERT (cmp_by (\<lambda>x. x) 7) 7 tree3 = Some (NULL, t')"
    using rb.ins_new [OF tree3_repr, of "\<lambda>x. x" 7] by auto
  obtain T' where "rb_at t' [] T'" "length (inord T') = 4" "2 ^ rheight T' \<le> (25::nat)"
    using RB_INSERT_height [OF tree3_at _ ins] by (auto simp: power2_eq_square)
  with ins show ?thesis by blast
qed

end
