(* ===== verification/Rb_Loops.thy ===== *)
theory Rb_Loops
  imports Rbtree_Spec
begin

section \<open>Loops over red-black trees\<close>

text \<open>
  The remaining loops of \<open>src/src/tree.h\<close>: from a given element, backwards, and the variants \<open>_SAFE\<close>, which fetch the neighbour before
  the body runs, so that the body may remove the current element. The body is an argument. A loop backwards is a loop forwards over the
  reversed list; the locale \<open>tree_walk\<close> treats both.
\<close>

partial_function (option) rb_safe_from ::
  "(addr \<Rightarrow> rbtree \<Rightarrow> ptr option) \<Rightarrow> (addr \<Rightarrow> rbtree \<Rightarrow> rbtree option) \<Rightarrow> ptr \<Rightarrow> rbtree \<Rightarrow> rbtree option" where
  "rb_safe_from nxt body x t =
     (case x of
        None \<Rightarrow> Some t
      | Some a \<Rightarrow> do { y \<leftarrow> nxt a t; t \<leftarrow> body a t; rb_safe_from nxt body y t })"

definition RB_FOREACH_FROM :: "(addr \<Rightarrow> rbtree \<Rightarrow> rbtree option) \<Rightarrow> ptr \<Rightarrow> rbtree \<Rightarrow> rbtree option" where
  "RB_FOREACH_FROM body y t = rb_safe_from RB_NEXT body y t"

definition RB_FOREACH_SAFE :: "(addr \<Rightarrow> rbtree \<Rightarrow> rbtree option) \<Rightarrow> rbtree \<Rightarrow> rbtree option" where
  "RB_FOREACH_SAFE body t = do { x \<leftarrow> RB_MIN t; rb_safe_from RB_NEXT body x t }"

partial_function (option) rb_foreach_reverse_from :: "rbtree \<Rightarrow> ptr \<Rightarrow> addr list option" where
  "rb_foreach_reverse_from t x =
     (case x of
        None \<Rightarrow> Some []
      | Some a \<Rightarrow> do { x \<leftarrow> RB_PREV a t; as \<leftarrow> rb_foreach_reverse_from t x; Some (a # as) })"

definition RB_FOREACH_REVERSE :: "rbtree \<Rightarrow> addr list option" where
  "RB_FOREACH_REVERSE t = do { x \<leftarrow> RB_MAX t; rb_foreach_reverse_from t x }"

definition RB_FOREACH_REVERSE_FROM :: "(addr \<Rightarrow> rbtree \<Rightarrow> rbtree option) \<Rightarrow> ptr \<Rightarrow> rbtree \<Rightarrow> rbtree option" where
  "RB_FOREACH_REVERSE_FROM body y t = rb_safe_from RB_PREV body y t"

definition RB_FOREACH_REVERSE_SAFE :: "(addr \<Rightarrow> rbtree \<Rightarrow> rbtree option) \<Rightarrow> rbtree \<Rightarrow> rbtree option" where
  "RB_FOREACH_REVERSE_SAFE body t = do { x \<leftarrow> RB_MAX t; rb_safe_from RB_PREV body x t }"

declare rb_safe_from.simps [code] and rb_foreach_reverse_from.simps [code]

lemma rb_safe_simps [simp]:
  "rb_safe_from nxt body NULL t = Some t"
  "rb_safe_from nxt body (Some a) t = do { y \<leftarrow> nxt a t; t' \<leftarrow> body a t; rb_safe_from nxt body y t' }"
  by (subst rb_safe_from.simps, simp)+

text \<open>The body that removes the elements with a property.\<close>

definition prune :: "(addr \<Rightarrow> bool) \<Rightarrow> addr \<Rightarrow> rbtree \<Rightarrow> rbtree option" where
  "prune P a t = (if P a then map_option snd (RB_REMOVE a t) else Some t)"

locale tree_walk =
  fixes repr :: "rbtree \<Rightarrow> addr list \<Rightarrow> bool"
    and nxt :: "addr \<Rightarrow> rbtree \<Rightarrow> ptr option"
  assumes next_law: "repr t (xs @ a # ys) \<Longrightarrow> nxt a t = Some (hd_ptr ys)"
    and remove_law: "repr t (xs @ a # ys) \<Longrightarrow> \<exists>t'. RB_REMOVE a t = Some (a, t') \<and> repr t' (xs @ ys)"
begin

lemma prune_law: "repr t (xs @ a # ys) \<Longrightarrow> \<exists>t'. prune P a t = Some t' \<and> repr t' (xs @ filter (\<lambda>a. \<not> P a) [a] @ ys)"
  using remove_law unfolding prune_def by fastforce

lemma prune_from:
  "repr t (xs @ ys) \<Longrightarrow> \<exists>t'. rb_safe_from nxt (prune P) (hd_ptr ys) t = Some t' \<and> repr t' (xs @ filter (\<lambda>a. \<not> P a) ys)"
proof (induction ys arbitrary: t xs)
  case (Cons a ys)
  obtain t1 where t1: "prune P a t = Some t1" "repr t1 ((xs @ filter (\<lambda>a. \<not> P a) [a]) @ ys)"
    using prune_law [OF Cons.prems] by auto
  from Cons.IH [OF t1(2)] next_law [OF Cons.prems] t1(1) show ?case by auto
qed simp

end

lemma rb_repr_next:
  assumes "rb_repr t (xs @ a # ys)"
  shows "RB_NEXT a t = Some (hd_ptr ys)" "RB_PREV a t = Some (last_ptr xs)"
  using assms RB_NEXT_split unfolding rb_repr_def by blast+

lemma rb_repr_remove:
  assumes "rb_repr t (xs @ a # ys)"
  shows "\<exists>t'. RB_REMOVE a t = Some (a, t') \<and> rb_repr t' (xs @ ys)"
  using rb_remove_member [OF assms, of a] rb_repr_distinct [OF assms] by (auto simp: remove1_middle)

lemma last_ptr_rev: "last_ptr (rev xs) = hd_ptr xs"
  by (cases xs) (simp_all add: last_ptr_def)

interpretation forwards: tree_walk rb_repr RB_NEXT
  by unfold_locales (simp_all add: rb_repr_next rb_repr_remove)

interpretation backwards: tree_walk "\<lambda>t xs. rb_repr t (rev xs)" RB_PREV
  by unfold_locales (use rb_repr_next(2) rb_repr_remove in \<open>auto simp: last_ptr_rev\<close>)

lemma rb_repr_max: "rb_repr t xs \<Longrightarrow> RB_MAX t = Some (last_ptr xs)"
  by (auto simp: rb_repr_def RB_MAX_at)

lemma rb_foreach_reverse_prefix: "rb_repr t (xs @ ys) \<Longrightarrow> rb_foreach_reverse_from t (last_ptr xs) = Some (rev xs)"
proof (induction xs arbitrary: ys rule: rev_induct)
  case Nil
  then show ?case by (subst rb_foreach_reverse_from.simps) (simp add: last_ptr_def)
next
  case (snoc a xs)
  from snoc.IH [of "a # ys"] snoc.prems have "rb_foreach_reverse_from t (last_ptr xs) = Some (rev xs)" by simp
  then show ?case using rb_repr_next(2) [of t xs a ys] snoc.prems by (subst rb_foreach_reverse_from.simps) (simp add: last_ptr_def)
qed

lemma RB_FOREACH_REVERSE_repr: "rb_repr t xs \<Longrightarrow> RB_FOREACH_REVERSE t = Some (rev xs)"
  using rb_foreach_reverse_prefix [of t xs "[]"] by (simp add: RB_FOREACH_REVERSE_def rb_repr_max)

lemma RB_FOREACH_REVERSE_SAFE_repr:
  assumes "rb_repr t zs"
  shows "\<exists>t'. RB_FOREACH_REVERSE_SAFE (prune P) t = Some t' \<and> rb_repr t' (filter (\<lambda>a. \<not> P a) zs)"
  using backwards.prune_from [of t "[]" "rev zs" P] rb_repr_max [OF assms] assms last_ptr_rev [of "rev zs"]
  by (simp add: RB_FOREACH_REVERSE_SAFE_def rev_filter)

subsection \<open>Properties\<close>

text \<open>(C22) Removing elements of a tree while looping over it is safe. \<open>RB_FOREACH_SAFE\<close> and \<open>RB_FOREACH_REVERSE_SAFE\<close> with a body that
  removes the elements with some property end and leave exactly the other ones; \<open>RB_FOREACH_FROM\<close> and
  \<open>RB_FOREACH_REVERSE_FROM\<close> do so from the given element on, and \<open>RB_FOREACH_REVERSE\<close> visits all elements from the largest to the smallest.\<close>

theorem RB_remove_in_loop:
  assumes "rb_repr t (xs @ a # ys)"
  shows "(\<exists>t'. RB_FOREACH_SAFE (prune P) t = Some t' \<and> rb_repr t' (filter (\<lambda>a. \<not> P a) (xs @ a # ys))) \<and>
    (\<exists>t'. RB_FOREACH_REVERSE_SAFE (prune P) t = Some t' \<and> rb_repr t' (filter (\<lambda>a. \<not> P a) (xs @ a # ys))) \<and>
    (\<exists>t'. RB_FOREACH_FROM (prune P) (Some a) t = Some t' \<and> rb_repr t' (xs @ filter (\<lambda>a. \<not> P a) (a # ys))) \<and>
    (\<exists>t'. RB_FOREACH_REVERSE_FROM (prune P) (Some a) t = Some t' \<and> rb_repr t' (filter (\<lambda>a. \<not> P a) (xs @ [a]) @ ys)) \<and>
    RB_FOREACH_REVERSE t = Some (rev (xs @ a # ys))"
proof (intro conjI)
  let ?zs = "xs @ a # ys" and ?F = "filter (\<lambda>a. \<not> P a)"
  show "\<exists>t'. RB_FOREACH_SAFE (prune P) t = Some t' \<and> rb_repr t' (?F ?zs)"
    using forwards.prune_from [of t "[]" ?zs P] rb_repr_min [OF assms] assms by (simp add: RB_FOREACH_SAFE_def)
  show "\<exists>t'. RB_FOREACH_REVERSE_SAFE (prune P) t = Some t' \<and> rb_repr t' (?F ?zs)"
    by (rule RB_FOREACH_REVERSE_SAFE_repr [OF assms])
  show "\<exists>t'. RB_FOREACH_FROM (prune P) (Some a) t = Some t' \<and> rb_repr t' (xs @ ?F (a # ys))"
    using forwards.prune_from [OF assms, of P] by (simp add: RB_FOREACH_FROM_def)
  show "\<exists>t'. RB_FOREACH_REVERSE_FROM (prune P) (Some a) t = Some t' \<and> rb_repr t' (?F (xs @ [a]) @ ys)"
    using backwards.prune_from [of t "rev ys" "a # rev xs" P] assms by (simp add: RB_FOREACH_REVERSE_FROM_def rev_filter split: if_splits)
  show "RB_FOREACH_REVERSE t = Some (rev ?zs)" by (rule RB_FOREACH_REVERSE_repr [OF assms])
qed

theorem RB_remove_in_loop_witness:
  "(\<exists>t'. RB_FOREACH_SAFE (prune even) tree3 = Some t' \<and> rb_repr t' [1, 3]) \<and>
   (\<exists>t'. RB_FOREACH_FROM (prune odd) (Some 2) tree3 = Some t' \<and> rb_repr t' [1, 2])"
  using RB_remove_in_loop [of tree3 "[1]" 2 "[3]" even] RB_remove_in_loop [of tree3 "[1]" 2 "[3]" odd] tree3_repr by simp

end
