(* ===== verification/Splay.thy ===== *)
theory Splay
  imports "HOL-Library.Tree" Rbtree_Spec
begin

section \<open>The splay trees of \<^verbatim>\<open>tree.h\<close>\<close>

text \<open>
  The \<open>SPLAY\<close> macros of \<open>src/src/tree.h\<close>: binary search trees whose searches bring the element found to the root, by a top-down
  loop that takes the tree apart along the search path and assembles it again. Elements have two pointers and no parent. The local
  variable \<open>__node\<close> of the C functions is an element too, whose address is the argument \<open>node\<close>. The comparison function is the argument \<open>cmp\<close>.
\<close>

record splay =
  sph_root  :: ptr
  spe_left  :: "addr \<Rightarrow> ptr"
  spe_right :: "addr \<Rightarrow> ptr"

abbreviation SPLAY_LEFT :: "addr \<Rightarrow> splay \<Rightarrow> ptr" where "SPLAY_LEFT a t \<equiv> spe_left t a"
abbreviation SPLAY_RIGHT :: "addr \<Rightarrow> splay \<Rightarrow> ptr" where "SPLAY_RIGHT a t \<equiv> spe_right t a"
abbreviation SPLAY_ROOT :: "splay \<Rightarrow> ptr" where "SPLAY_ROOT t \<equiv> sph_root t"

abbreviation set_spe_left :: "addr \<Rightarrow> ptr \<Rightarrow> splay \<Rightarrow> splay" where
  "set_spe_left a p t \<equiv> t\<lparr>spe_left := (spe_left t)(a := p)\<rparr>"

abbreviation set_spe_right :: "addr \<Rightarrow> ptr \<Rightarrow> splay \<Rightarrow> splay" where
  "set_spe_right a p t \<equiv> t\<lparr>spe_right := (spe_right t)(a := p)\<rparr>"

subsection \<open>Rotations, links and assembly\<close>

definition SPLAY_INIT :: "splay \<Rightarrow> splay" where
  "SPLAY_INIT t = t\<lparr>sph_root := NULL\<rparr>"

definition SPLAY_EMPTY :: "splay \<Rightarrow> bool" where
  "SPLAY_EMPTY t \<longleftrightarrow> SPLAY_ROOT t = NULL"

definition SPLAY_ROTATE_RIGHT :: "addr \<Rightarrow> splay \<Rightarrow> splay option" where
  "SPLAY_ROTATE_RIGHT tmp t = do {
     root \<leftarrow> SPLAY_ROOT t;
     let t = set_spe_left root (SPLAY_RIGHT tmp t) t;
     let t = set_spe_right tmp (Some root) t;
     Some (t\<lparr>sph_root := Some tmp\<rparr>)
   }"

definition SPLAY_ROTATE_LEFT :: "addr \<Rightarrow> splay \<Rightarrow> splay option" where
  "SPLAY_ROTATE_LEFT tmp t = do {
     root \<leftarrow> SPLAY_ROOT t;
     let t = set_spe_right root (SPLAY_LEFT tmp t) t;
     let t = set_spe_left tmp (Some root) t;
     Some (t\<lparr>sph_root := Some tmp\<rparr>)
   }"

text \<open>The link macros assign to their argument \<open>tmp\<close>, the last element of one of the two parts that are taken off; the new value is returned.\<close>

definition SPLAY_LINKLEFT :: "addr \<Rightarrow> splay \<Rightarrow> (addr \<times> splay) option" where
  "SPLAY_LINKLEFT tmp t = do {
     root \<leftarrow> SPLAY_ROOT t;
     let t = set_spe_left tmp (Some root) t;
     Some (root, t\<lparr>sph_root := SPLAY_LEFT root t\<rparr>)
   }"

definition SPLAY_LINKRIGHT :: "addr \<Rightarrow> splay \<Rightarrow> (addr \<times> splay) option" where
  "SPLAY_LINKRIGHT tmp t = do {
     root \<leftarrow> SPLAY_ROOT t;
     let t = set_spe_right tmp (Some root) t;
     Some (root, t\<lparr>sph_root := SPLAY_RIGHT root t\<rparr>)
   }"

definition SPLAY_ASSEMBLE :: "addr \<Rightarrow> addr \<Rightarrow> addr \<Rightarrow> splay \<Rightarrow> splay option" where
  "SPLAY_ASSEMBLE node lpart rpart t = do {
     root \<leftarrow> SPLAY_ROOT t;
     let t = set_spe_right lpart (SPLAY_LEFT root t) t;
     let t = set_spe_left rpart (SPLAY_RIGHT root t) t;
     let t = set_spe_left root (SPLAY_RIGHT node t) t;
     Some (set_spe_right root (SPLAY_LEFT node t) t)
   }"

subsection \<open>The splay loop\<close>

partial_function (option) splay_loop :: "(addr \<Rightarrow> int) \<Rightarrow> addr \<Rightarrow> addr \<Rightarrow> splay \<Rightarrow> (addr \<times> addr \<times> splay) option" where
  "splay_loop cmp lpart rpart t = do {
     root \<leftarrow> SPLAY_ROOT t;
     let cmpr = cmp root;
     if cmpr = 0 then Some (lpart, rpart, t)
     else if cmpr < 0 then
       (case SPLAY_LEFT root t of
          None \<Rightarrow> Some (lpart, rpart, t)
        | Some tmp \<Rightarrow> do {
            t \<leftarrow> (if cmp tmp < 0 then SPLAY_ROTATE_RIGHT tmp t else Some t);
            root \<leftarrow> SPLAY_ROOT t;
            if cmp tmp < 0 \<and> SPLAY_LEFT root t = NULL then Some (lpart, rpart, t)
            else do {
              (rpart, t) \<leftarrow> SPLAY_LINKLEFT rpart t;
              splay_loop cmp lpart rpart t
            }
          })
     else
       (case SPLAY_RIGHT root t of
          None \<Rightarrow> Some (lpart, rpart, t)
        | Some tmp \<Rightarrow> do {
            t \<leftarrow> (if cmp tmp > 0 then SPLAY_ROTATE_LEFT tmp t else Some t);
            root \<leftarrow> SPLAY_ROOT t;
            if cmp tmp > 0 \<and> SPLAY_RIGHT root t = NULL then Some (lpart, rpart, t)
            else do {
              (lpart, t) \<leftarrow> SPLAY_LINKRIGHT lpart t;
              splay_loop cmp lpart rpart t
            }
          })
   }"

definition SPLAY :: "addr \<Rightarrow> (addr \<Rightarrow> int) \<Rightarrow> splay \<Rightarrow> splay option" where
  "SPLAY node cmp t = do {
     let t = set_spe_left node NULL (set_spe_right node NULL t);
     (lpart, rpart, t) \<leftarrow> splay_loop cmp node node t;
     SPLAY_ASSEMBLE node lpart rpart t
   }"

text \<open>\<open>SPLAY_MINMAX\<close> is the same loop with one answer of the comparison for all elements; for the answer 0 it would not end.\<close>

partial_function (option) splay_minmax_loop :: "int \<Rightarrow> addr \<Rightarrow> addr \<Rightarrow> splay \<Rightarrow> (addr \<times> addr \<times> splay) option" where
  "splay_minmax_loop cmpr lpart rpart t =
     (if cmpr < 0 then do {
        root \<leftarrow> SPLAY_ROOT t;
        (case SPLAY_LEFT root t of
           None \<Rightarrow> Some (lpart, rpart, t)
         | Some tmp \<Rightarrow> do {
             t \<leftarrow> SPLAY_ROTATE_RIGHT tmp t;
             root \<leftarrow> SPLAY_ROOT t;
             if SPLAY_LEFT root t = NULL then Some (lpart, rpart, t)
             else do {
               (rpart, t) \<leftarrow> SPLAY_LINKLEFT rpart t;
               splay_minmax_loop cmpr lpart rpart t
             }
           })
      }
      else if cmpr > 0 then do {
        root \<leftarrow> SPLAY_ROOT t;
        (case SPLAY_RIGHT root t of
           None \<Rightarrow> Some (lpart, rpart, t)
         | Some tmp \<Rightarrow> do {
             t \<leftarrow> SPLAY_ROTATE_LEFT tmp t;
             root \<leftarrow> SPLAY_ROOT t;
             if SPLAY_RIGHT root t = NULL then Some (lpart, rpart, t)
             else do {
               (lpart, t) \<leftarrow> SPLAY_LINKRIGHT lpart t;
               splay_minmax_loop cmpr lpart rpart t
             }
           })
      }
      else splay_minmax_loop cmpr lpart rpart t)"

definition SPLAY_MINMAX :: "addr \<Rightarrow> int \<Rightarrow> splay \<Rightarrow> splay option" where
  "SPLAY_MINMAX node cmpr t = do {
     let t = set_spe_left node NULL (set_spe_right node NULL t);
     (lpart, rpart, t) \<leftarrow> splay_minmax_loop cmpr node node t;
     SPLAY_ASSEMBLE node lpart rpart t
   }"

subsection \<open>The operations\<close>

definition SPLAY_FIND :: "addr \<Rightarrow> (addr \<Rightarrow> int) \<Rightarrow> splay \<Rightarrow> (ptr \<times> splay) option" where
  "SPLAY_FIND node cmp t =
     (if SPLAY_EMPTY t then Some (NULL, t)
      else do {
        t \<leftarrow> SPLAY node cmp t;
        root \<leftarrow> SPLAY_ROOT t;
        Some (if cmp root = 0 then (Some root, t) else (NULL, t))
      })"

partial_function (option) splay_leftmost :: "addr \<Rightarrow> splay \<Rightarrow> addr option" where
  "splay_leftmost elm t =
     (case SPLAY_LEFT elm t of
        None \<Rightarrow> Some elm
      | Some l \<Rightarrow> splay_leftmost l t)"

definition SPLAY_NEXT :: "addr \<Rightarrow> (addr \<Rightarrow> int) \<Rightarrow> addr \<Rightarrow> splay \<Rightarrow> (ptr \<times> splay) option" where
  "SPLAY_NEXT node cmp elm t = do {
     t \<leftarrow> SPLAY node cmp t;
     (case SPLAY_RIGHT elm t of
        Some r \<Rightarrow> do { elm \<leftarrow> splay_leftmost r t; Some (Some elm, t) }
      | None \<Rightarrow> Some (NULL, t))
   }"

definition SPLAY_MIN_MAX :: "addr \<Rightarrow> int \<Rightarrow> splay \<Rightarrow> (ptr \<times> splay) option" where
  "SPLAY_MIN_MAX node val t = do { t \<leftarrow> SPLAY_MINMAX node val t; Some (SPLAY_ROOT t, t) }"

definition SPLAY_MIN :: "addr \<Rightarrow> splay \<Rightarrow> (ptr \<times> splay) option" where
  "SPLAY_MIN node t = (if SPLAY_EMPTY t then Some (NULL, t) else SPLAY_MIN_MAX node (- 1) t)"

definition SPLAY_MAX :: "addr \<Rightarrow> splay \<Rightarrow> (ptr \<times> splay) option" where
  "SPLAY_MAX node t = (if SPLAY_EMPTY t then Some (NULL, t) else SPLAY_MIN_MAX node 1 t)"

definition SPLAY_INSERT :: "addr \<Rightarrow> (addr \<Rightarrow> int) \<Rightarrow> addr \<Rightarrow> splay \<Rightarrow> (ptr \<times> splay) option" where
  "SPLAY_INSERT node cmp elm t =
     (if SPLAY_EMPTY t
      then Some (NULL, (set_spe_left elm NULL (set_spe_right elm NULL t))\<lparr>sph_root := Some elm\<rparr>)
      else do {
        t \<leftarrow> SPLAY node cmp t;
        root \<leftarrow> SPLAY_ROOT t;
        let cmpr = cmp root;
        if cmpr < 0 then
          (let t = set_spe_left elm (SPLAY_LEFT root t) t;
               t = set_spe_right elm (Some root) t;
               t = set_spe_left root NULL t
           in Some (NULL, t\<lparr>sph_root := Some elm\<rparr>))
        else if cmpr > 0 then
          (let t = set_spe_right elm (SPLAY_RIGHT root t) t;
               t = set_spe_left elm (Some root) t;
               t = set_spe_right root NULL t
           in Some (NULL, t\<lparr>sph_root := Some elm\<rparr>))
        else Some (Some root, t)
      })"

definition SPLAY_REMOVE :: "addr \<Rightarrow> (addr \<Rightarrow> int) \<Rightarrow> addr \<Rightarrow> splay \<Rightarrow> (ptr \<times> splay) option" where
  "SPLAY_REMOVE node cmp elm t =
     (if SPLAY_EMPTY t then Some (NULL, t)
      else do {
        t \<leftarrow> SPLAY node cmp t;
        root \<leftarrow> SPLAY_ROOT t;
        if cmp root = 0 then
          (if SPLAY_LEFT root t = NULL then Some (Some elm, t\<lparr>sph_root := SPLAY_RIGHT root t\<rparr>)
           else do {
             let tmp = SPLAY_RIGHT root t;
             t \<leftarrow> SPLAY node cmp (t\<lparr>sph_root := SPLAY_LEFT root t\<rparr>);
             root \<leftarrow> SPLAY_ROOT t;
             Some (Some elm, set_spe_right root tmp t)
           })
        else Some (NULL, t)
      })"

text \<open>\<open>SPLAY_FOREACH\<close> with a body that does not change the tree: the elements it visits, and the tree, which every step rearranges.\<close>

partial_function (option) splay_foreach_from ::
  "addr \<Rightarrow> (addr \<Rightarrow> addr \<Rightarrow> int) \<Rightarrow> ptr \<Rightarrow> splay \<Rightarrow> (addr list \<times> splay) option" where
  "splay_foreach_from node cmp x t =
     (case x of
        None \<Rightarrow> Some ([], t)
      | Some a \<Rightarrow> do {
          (y, t) \<leftarrow> SPLAY_NEXT node (cmp a) a t;
          (as, t) \<leftarrow> splay_foreach_from node cmp y t;
          Some (a # as, t)
        })"

definition SPLAY_FOREACH :: "addr \<Rightarrow> (addr \<Rightarrow> addr \<Rightarrow> int) \<Rightarrow> splay \<Rightarrow> (addr list \<times> splay) option" where
  "SPLAY_FOREACH node cmp t = do { (x, t) \<leftarrow> SPLAY_MIN node t; splay_foreach_from node cmp x t }"

declare splay_loop.simps [code] and splay_minmax_loop.simps [code] and splay_leftmost.simps [code] and splay_foreach_from.simps [code]

subsection \<open>Trees and parts in the heap\<close>

text \<open>\<open>spine L R n fs e\<close>: from \<open>n\<close> a chain of elements along \<open>R\<close>, each with a tree at \<open>L\<close>, up to \<open>e\<close>, whose own pointer \<open>R\<close> is open. The
  part with the smaller elements that a splay takes off is such a chain from \<open>__node\<close>, and so is the other one with the fields exchanged.\<close>

fun sp_tree :: "(addr \<Rightarrow> ptr) \<Rightarrow> (addr \<Rightarrow> ptr) \<Rightarrow> ptr \<Rightarrow> addr tree \<Rightarrow> bool" where
  "sp_tree L R p Leaf \<longleftrightarrow> p = NULL"
| "sp_tree L R p (Node l a r) \<longleftrightarrow> p = Some a \<and> sp_tree L R (L a) l \<and> sp_tree L R (R a) r"

fun spine :: "(addr \<Rightarrow> ptr) \<Rightarrow> (addr \<Rightarrow> ptr) \<Rightarrow> addr \<Rightarrow> (addr \<times> addr tree) list \<Rightarrow> addr \<Rightarrow> bool" where
  "spine L R n [] e \<longleftrightarrow> e = n"
| "spine L R n ((a, T) # fs) e \<longleftrightarrow> R n = Some a \<and> sp_tree L R (L a) T \<and> spine L R a fs e"

fun parts :: "(addr \<times> addr tree) list \<Rightarrow> addr list" where
  "parts [] = []"
| "parts ((a, T) # fs) = inorder T @ a # parts fs"

fun graft :: "(addr \<times> addr tree) list \<Rightarrow> addr tree \<Rightarrow> addr tree" where
  "graft [] T = T"
| "graft ((a, S) # fs) T = Node S a (graft fs T)"

lemma inorder_graft [simp]: "inorder (graft fs T) = parts fs @ inorder T"
  by (induction fs) auto

lemma parts_append [simp]: "parts (fs @ gs) = parts fs @ parts gs"
  by (induction fs rule: parts.induct) auto

lemma sp_tree_upd [simp]:
  "a \<notin> set_tree T \<Longrightarrow> sp_tree (L(a := q)) R p T = sp_tree L R p T"
  "a \<notin> set_tree T \<Longrightarrow> sp_tree L (R(a := q)) p T = sp_tree L R p T"
  by (induction T arbitrary: p) auto

lemma spine_upd [simp]:
  "a \<notin> set (parts fs) \<Longrightarrow> spine (L(a := q)) R n fs e = spine L R n fs e"
  "a \<noteq> n \<Longrightarrow> a \<notin> set (parts fs) \<Longrightarrow> spine L (R(a := q)) n fs e = spine L R n fs e"
  by (induction fs arbitrary: n rule: parts.induct) (auto simp del: fun_upd_apply simp: fun_upd_other)

lemma spine_end: "spine L R n fs e \<Longrightarrow> e = n \<or> e \<in> set (parts fs)"
  by (induction fs arbitrary: n rule: parts.induct) auto

lemma sp_tree_mirror [simp]: "sp_tree R L p (mirror T) = sp_tree L R p T"
  by (induction T arbitrary: p) auto

lemma set_tree_mirror [simp]: "set_tree (mirror T) = set_tree T"
  by (induction T) auto

lemma spine_link:
  assumes "spine L R n fs e" "distinct (n # parts fs)" "sp_tree L R (L a) T" "e \<notin> set_tree T"
  shows "spine L (R(e := Some a)) n (fs @ [(a, T)]) a"
  using assms
proof (induction fs arbitrary: n rule: parts.induct)
  case (2 b S fs)
  then have e: "e \<noteq> n" "e \<notin> set_tree S" using spine_end [of L R b fs e] by auto
  with 2 show ?case by (simp del: fun_upd_apply add: fun_upd_other)
qed simp

lemma spine_graft:
  assumes "spine L R n fs e" "distinct (n # parts fs)" "sp_tree L R p T" "e \<notin> set_tree T"
  shows "sp_tree L (R(e := p)) ((R(e := p)) n) (graft fs T)"
  using assms
proof (induction fs arbitrary: n rule: parts.induct)
  case (2 b S fs)
  then have e: "e \<noteq> n" "e \<notin> set_tree S" using spine_end [of L R b fs e] by auto
  with 2 show ?case by (simp del: fun_upd_apply add: fun_upd_other)
qed simp

subsection \<open>The state of the loop\<close>

definition sp_at :: "splay \<Rightarrow> addr \<Rightarrow> (addr \<times> addr tree) list \<Rightarrow> (addr \<times> addr tree) list \<Rightarrow> addr tree \<Rightarrow> addr \<Rightarrow> addr \<Rightarrow> bool" where
  "sp_at t node ls rs T lpart rpart \<longleftrightarrow>
     spine (spe_left t) (spe_right t) node ls lpart \<and> spine (spe_right t) (spe_left t) node rs rpart \<and>
     sp_tree (spe_left t) (spe_right t) (sph_root t) T \<and> distinct (node # parts ls @ inorder T @ parts rs)"

definition sp_same :: "addr set \<Rightarrow> splay \<Rightarrow> splay \<Rightarrow> bool" where
  "sp_same A t t' \<longleftrightarrow> (\<forall>y. y \<notin> A \<longrightarrow> spe_left t' y = spe_left t y \<and> spe_right t' y = spe_right t y)"

lemma sp_same_refl [simp]: "sp_same A t t"
  by (simp add: sp_same_def)

lemma sp_same_trans: "sp_same A t t' \<Longrightarrow> sp_same A t' t'' \<Longrightarrow> sp_same A t t''"
  by (simp add: sp_same_def)

definition mir :: "splay \<Rightarrow> splay" where
  "mir t = \<lparr>sph_root = sph_root t, spe_left = spe_right t, spe_right = spe_left t\<rparr>"

lemma mir_sel [simp]: "sph_root (mir t) = sph_root t" "spe_left (mir t) = spe_right t" "spe_right (mir t) = spe_left t"
  by (simp_all add: mir_def)

lemma mir_mir [simp]: "mir (mir t) = t"
  by (simp add: mir_def)

lemma sp_same_mir [simp]: "sp_same A (mir t) (mir t') = sp_same A t t'"
  by (auto simp: sp_same_def)

lemma sp_at_mir: "sp_at (mir t) node rs ls (mirror T) r l \<longleftrightarrow> sp_at t node ls rs T l r"
  by (auto simp: sp_at_def inorder_mirror)

lemma mir_ops:
  "SPLAY_ROTATE_RIGHT tmp (mir t) = map_option mir (SPLAY_ROTATE_LEFT tmp t)"
  "SPLAY_LINKLEFT tmp (mir t) = map_option (apsnd mir) (SPLAY_LINKRIGHT tmp t)"
  by (cases "sph_root t"; simp add: SPLAY_ROTATE_RIGHT_def SPLAY_ROTATE_LEFT_def SPLAY_LINKLEFT_def SPLAY_LINKRIGHT_def mir_def)+

lemma rotate_right_at:
  assumes "sp_at t node ls rs (Node (Node a x b) y c) l r"
  shows "\<exists>t'. SPLAY_ROTATE_RIGHT x t = Some t' \<and> sp_at t' node ls rs (Node a x (Node b y c)) l r \<and> sp_same {x, y} t t'"
proof -
  have "SPLAY_ROOT t = Some y" using assms by (simp add: sp_at_def)
  with assms show ?thesis
    unfolding SPLAY_ROTATE_RIGHT_def sp_at_def sp_same_def by (auto simp: Let_def)
qed

lemma link_left_at:
  assumes "sp_at t node ls rs (Node a x b) l r"
  shows "\<exists>t'. SPLAY_LINKLEFT r t = Some (x, t') \<and> sp_at t' node ls (rs @ [(x, mirror b)]) a l x \<and> sp_same {r} t t'"
proof -
  let ?L = "(spe_left t)(r := Some x)"
  have root: "SPLAY_ROOT t = Some x" and d: "distinct (node # parts ls @ inorder (Node a x b) @ parts rs)"
    and rs: "spine (spe_right t) (spe_left t) node rs r" and ls: "spine (spe_left t) (spe_right t) node ls l"
    and a: "sp_tree (spe_left t) (spe_right t) (spe_left t x) a" and b: "sp_tree (spe_left t) (spe_right t) (spe_right t x) b"
    using assms by (simp_all add: sp_at_def)
  have r: "r = node \<or> r \<in> set (parts rs)" by (rule spine_end [OF rs])
  with d have out: "r \<notin> set_tree a" "r \<notin> set_tree b" "r \<noteq> x" "r \<notin> set (parts ls)" by auto
  have "spine (spe_right t) ?L node (rs @ [(x, mirror b)]) x"
    by (rule spine_link [OF rs]) (use d b out in auto)
  then have "sp_at (t\<lparr>spe_left := ?L, sph_root := spe_left t x\<rparr>) node ls (rs @ [(x, mirror b)]) a l x"
    using ls a out d unfolding sp_at_def by (auto simp: inorder_mirror)
  with root out show ?thesis by (auto simp: SPLAY_LINKLEFT_def sp_same_def Let_def)
qed

lemma rotate_left_at:
  assumes "sp_at t node ls rs (Node a y (Node b x c)) l r"
  shows "\<exists>t'. SPLAY_ROTATE_LEFT x t = Some t' \<and> sp_at t' node ls rs (Node (Node a y b) x c) l r \<and> sp_same {x, y} t t'"
proof -
  have "sp_at (mir t) node rs ls (Node (Node (mirror c) x (mirror b)) y (mirror a)) r l"
    using assms sp_at_mir [of t node rs ls "Node a y (Node b x c)"] by simp
  from rotate_right_at [OF this] obtain t' where t': "SPLAY_ROTATE_RIGHT x (mir t) = Some t'"
    "sp_at t' node rs ls (Node (mirror c) x (Node (mirror b) y (mirror a))) r l" "sp_same {x, y} (mir t) t'" by blast
  have "sp_at (mir t') node ls rs (Node (Node a y b) x c) l r"
    using t'(2) sp_at_mir [of "mir t'" node rs ls "Node (Node a y b) x c"] by simp
  moreover from t'(1) have "SPLAY_ROTATE_LEFT x t = Some (mir t')" by (auto simp: mir_ops)
  moreover have "sp_same {x, y} t (mir t')" using t'(3) sp_same_mir [of _ t "mir t'"] by simp
  ultimately show ?thesis by blast
qed

lemma link_right_at:
  assumes "sp_at t node ls rs (Node a x b) l r"
  shows "\<exists>t'. SPLAY_LINKRIGHT l t = Some (x, t') \<and> sp_at t' node (ls @ [(x, a)]) rs b x r \<and> sp_same {l} t t'"
proof -
  have "sp_at (mir t) node rs ls (Node (mirror b) x (mirror a)) r l"
    using assms sp_at_mir [of t node rs ls "Node a x b"] by simp
  from link_left_at [OF this] obtain t' where t': "SPLAY_LINKLEFT l (mir t) = Some (x, t')"
    "sp_at t' node rs (ls @ [(x, a)]) (mirror b) r x" "sp_same {l} (mir t) t'" by (auto simp: mirror_mirror)
  have "sp_at (mir t') node (ls @ [(x, a)]) rs b x r" using t'(2) sp_at_mir [of "mir t'" node rs "ls @ [(x, a)]" b] by simp
  moreover from t'(1) have "SPLAY_LINKRIGHT l t = Some (x, mir t')" by (auto simp: mir_ops)
  moreover have "sp_same {l} t (mir t')" using t'(3) sp_same_mir [of _ t "mir t'"] by simp
  ultimately show ?thesis by blast
qed

subsection \<open>The loop ends with the searched element at the root\<close>

text \<open>The elements are ordered for a comparison: the answers are first positive, then at most once 0, then negative.\<close>

definition in_order :: "(addr \<Rightarrow> int) \<Rightarrow> addr list \<Rightarrow> bool" where
  "in_order cmp xs \<longleftrightarrow> sorted_wrt (\<lambda>x y. cmp x \<le> 0 \<longrightarrow> cmp y < 0) xs"

lemma in_order_append [simp]:
  "in_order cmp (xs @ ys) \<longleftrightarrow> in_order cmp xs \<and> in_order cmp ys \<and> (\<forall>x \<in> set xs. \<forall>y \<in> set ys. cmp x \<le> 0 \<longrightarrow> cmp y < 0)"
  by (simp add: in_order_def sorted_wrt_append)

lemma in_order_Cons [simp]:
  "in_order cmp (x # xs) \<longleftrightarrow> in_order cmp xs \<and> (\<forall>y \<in> set xs. cmp x \<le> 0 \<longrightarrow> cmp y < 0)" "in_order cmp []"
  by (auto simp: in_order_def)

definition stopped :: "(addr \<Rightarrow> int) \<Rightarrow> addr tree \<Rightarrow> addr \<Rightarrow> addr tree \<Rightarrow> bool" where
  "stopped cmp a x b \<longleftrightarrow> cmp x = 0 \<or> cmp x < 0 \<and> a = Leaf \<or> cmp x > 0 \<and> b = Leaf"

definition sides :: "(addr \<Rightarrow> int) \<Rightarrow> addr list \<Rightarrow> (addr \<times> addr tree) list \<Rightarrow> (addr \<times> addr tree) list \<Rightarrow> bool" where
  "sides cmp zs ls rs \<longleftrightarrow> (in_order cmp zs \<longrightarrow> (\<forall>x \<in> set (parts ls). cmp x > 0) \<and> (\<forall>x \<in> set (parts rs). cmp x < 0))"

definition splay_ends :: "(addr \<Rightarrow> int) \<Rightarrow> addr \<Rightarrow> addr list \<Rightarrow> addr \<Rightarrow> addr \<Rightarrow> splay \<Rightarrow> bool" where
  "splay_ends cmp node zs l r t \<longleftrightarrow> (\<exists>l' r' t' ls rs a x b. splay_loop cmp l r t = Some (l', r', t') \<and>
     sp_at t' node ls rs (Node a x b) l' r' \<and> parts ls @ inorder (Node a x b) @ rev (parts rs) = zs \<and> stopped cmp a x b \<and>
     sides cmp zs ls rs \<and> sp_same (insert node (set zs)) t t')"

lemma splay_ends_stop:
  assumes "splay_loop cmp l r t = Some (l, r, t')" "sp_at t' node ls rs (Node a x b) l r" "stopped cmp a x b"
    and "parts ls @ inorder (Node a x b) @ rev (parts rs) = zs" "sides cmp zs ls rs" "sp_same (insert node (set zs)) t t'"
  shows "splay_ends cmp node zs l r t"
  using assms unfolding splay_ends_def by blast

lemma splay_ends_step:
  assumes "splay_loop cmp l r t = splay_loop cmp l1 r1 t1" "splay_ends cmp node zs l1 r1 t1" "sp_same A t t1" "A \<subseteq> insert node (set zs)"
  shows "splay_ends cmp node zs l r t"
proof -
  have "sp_same (insert node (set zs)) t t1" using assms(3,4) by (auto simp: sp_same_def)
  with assms(1,2) show ?thesis unfolding splay_ends_def using sp_same_trans by metis
qed

lemma sp_at_root: "sp_at t node ls rs (Node a x b) l r \<Longrightarrow> SPLAY_ROOT t = Some x \<and> sp_tree (spe_left t) (spe_right t) (SPLAY_LEFT x t) a \<and>
    sp_tree (spe_left t) (spe_right t) (SPLAY_RIGHT x t) b"
  by (simp add: sp_at_def)

lemma sp_tree_NULL: "sp_tree L R p T \<Longrightarrow> p = NULL \<longleftrightarrow> T = Leaf"
  by (cases T) auto

lemma sp_at_ends:
  assumes "sp_at t node ls rs T l r"
  shows "l \<in> insert node (set (parts ls))" "r \<in> insert node (set (parts rs))"
  using assms spine_end unfolding sp_at_def by blast+

lemma splay_left_zig:
  assumes at: "sp_at t node ls rs (Node a x b) l r" and x: "cmp x < 0" and a: "a = Node c y d" "\<not> cmp y < 0"
    and zs: "zs = parts ls @ inorder (Node a x b) @ rev (parts rs)" and side: "sides cmp zs ls rs"
    and IH: "\<And>t'. sp_at t' node ls (rs @ [(x, mirror b)]) a l x \<Longrightarrow> sides cmp zs ls (rs @ [(x, mirror b)]) \<Longrightarrow> splay_ends cmp node zs l x t'"
  shows "splay_ends cmp node zs l r t"
proof -
  obtain t' where t': "SPLAY_LINKLEFT r t = Some (x, t')" "sp_at t' node ls (rs @ [(x, mirror b)]) a l x" "sp_same {r} t t'"
    using link_left_at [OF at] by blast
  have "splay_loop cmp l r t = splay_loop cmp l x t'"
    using sp_at_root [OF at] x a t'(1) by (subst splay_loop.simps) simp
  moreover have "sides cmp zs ls (rs @ [(x, mirror b)])" using side x unfolding sides_def zs by auto
  ultimately show ?thesis by (rule splay_ends_step [OF _ IH [OF t'(2)] t'(3)]) (use sp_at_ends(2) [OF at] zs in auto)
qed

lemma splay_left_zigzig:
  assumes at: "sp_at t node ls rs (Node a x b) l r" and x: "cmp x < 0" and a: "a = Node c y d" "cmp y < 0"
    and zs: "zs = parts ls @ inorder (Node a x b) @ rev (parts rs)" and side: "sides cmp zs ls rs"
    and IH: "\<And>t'. c \<noteq> Leaf \<Longrightarrow> sp_at t' node ls (rs @ [(y, mirror (Node d x b))]) c l y \<Longrightarrow> sides cmp zs ls (rs @ [(y, mirror (Node d x b))]) \<Longrightarrow> splay_ends cmp node zs l y t'"
  shows "splay_ends cmp node zs l r t"
proof -
  obtain t1 where t1: "SPLAY_ROTATE_RIGHT y t = Some t1" "sp_at t1 node ls rs (Node c y (Node d x b)) l r" "sp_same {y, x} t t1"
    using rotate_right_at at a(1) by blast
  note root = sp_at_root [OF at] sp_at_root [OF t1(2)]
  show ?thesis
  proof (cases "c = Leaf")
    case True
    then have "splay_loop cmp l r t = Some (l, r, t1)" using root x a t1(1) by (subst splay_loop.simps) simp
    then show ?thesis
      by (rule splay_ends_stop [OF _ t1(2)]) (use True a zs side t1(3) in \<open>auto simp: stopped_def sp_same_def\<close>)
  next
    case False
    obtain t2 where t2: "SPLAY_LINKLEFT r t1 = Some (y, t2)" "sp_at t2 node ls (rs @ [(y, mirror (Node d x b))]) c l y" "sp_same {r} t1 t2"
      using link_left_at [OF t1(2)] by blast
    have "SPLAY_LEFT y t1 \<noteq> NULL" using root(2) sp_tree_NULL False by blast
    then have "splay_loop cmp l r t = splay_loop cmp l y t2" using root x a t1(1) t2(1) by (subst splay_loop.simps) auto
    moreover have "sp_same {x, y, r} t t2" using t1(3) t2(3) by (auto simp: sp_same_def)
    moreover have "sides cmp zs ls (rs @ [(y, mirror (Node d x b))])" using side x a unfolding sides_def zs by auto
    ultimately show ?thesis
      using splay_ends_step [OF _ IH [OF False t2(2)]] sp_at_ends(2) [OF at] zs a by auto
  qed
qed

lemma splay_right_zig:
  assumes at: "sp_at t node ls rs (Node a x b) l r" and x: "cmp x > 0" and b: "b = Node c y d" "\<not> cmp y > 0"
    and zs: "zs = parts ls @ inorder (Node a x b) @ rev (parts rs)" and side: "sides cmp zs ls rs"
    and IH: "\<And>t'. sp_at t' node (ls @ [(x, a)]) rs b x r \<Longrightarrow> sides cmp zs (ls @ [(x, a)]) rs \<Longrightarrow> splay_ends cmp node zs x r t'"
  shows "splay_ends cmp node zs l r t"
proof -
  obtain t' where t': "SPLAY_LINKRIGHT l t = Some (x, t')" "sp_at t' node (ls @ [(x, a)]) rs b x r" "sp_same {l} t t'"
    using link_right_at [OF at] by blast
  have "splay_loop cmp l r t = splay_loop cmp x r t'"
    using sp_at_root [OF at] x b t'(1) by (subst splay_loop.simps) simp
  moreover have "sides cmp zs (ls @ [(x, a)]) rs" using side x unfolding sides_def zs by fastforce
  ultimately show ?thesis by (rule splay_ends_step [OF _ IH [OF t'(2)] t'(3)]) (use sp_at_ends(1) [OF at] zs in auto)
qed

lemma splay_right_zigzig:
  assumes at: "sp_at t node ls rs (Node a x b) l r" and x: "cmp x > 0" and b: "b = Node c y d" "cmp y > 0"
    and zs: "zs = parts ls @ inorder (Node a x b) @ rev (parts rs)" and side: "sides cmp zs ls rs"
    and IH: "\<And>t'. d \<noteq> Leaf \<Longrightarrow> sp_at t' node (ls @ [(y, Node a x c)]) rs d y r \<Longrightarrow> sides cmp zs (ls @ [(y, Node a x c)]) rs \<Longrightarrow> splay_ends cmp node zs y r t'"
  shows "splay_ends cmp node zs l r t"
proof -
  obtain t1 where t1: "SPLAY_ROTATE_LEFT y t = Some t1" "sp_at t1 node ls rs (Node (Node a x c) y d) l r" "sp_same {y, x} t t1"
    using rotate_left_at at b(1) by blast
  note root = sp_at_root [OF at] sp_at_root [OF t1(2)]
  show ?thesis
  proof (cases "d = Leaf")
    case True
    then have "splay_loop cmp l r t = Some (l, r, t1)" using root x b t1(1) by (subst splay_loop.simps) simp
    then show ?thesis
      by (rule splay_ends_stop [OF _ t1(2)]) (use True b zs side t1(3) in \<open>auto simp: stopped_def sp_same_def\<close>)
  next
    case False
    obtain t2 where t2: "SPLAY_LINKRIGHT l t1 = Some (y, t2)" "sp_at t2 node (ls @ [(y, Node a x c)]) rs d y r" "sp_same {l} t1 t2"
      using link_right_at [OF t1(2)] by blast
    have "SPLAY_RIGHT y t1 \<noteq> NULL" using root(2) sp_tree_NULL False by blast
    then have "splay_loop cmp l r t = splay_loop cmp y r t2" using root x b t1(1) t2(1) by (subst splay_loop.simps) auto
    moreover have "sp_same {x, y, l} t t2" using t1(3) t2(3) by (auto simp: sp_same_def)
    moreover have "sides cmp zs (ls @ [(y, Node a x c)]) rs" using side x b unfolding sides_def zs by fastforce
    ultimately show ?thesis
      using splay_ends_step [OF _ IH [OF False t2(2)]] sp_at_ends(1) [OF at] zs b by auto
  qed
qed

lemma splay_loop_at:
  "sp_at t node ls rs T l r \<Longrightarrow> T \<noteq> Leaf \<Longrightarrow> zs = parts ls @ inorder T @ rev (parts rs) \<Longrightarrow> sides cmp zs ls rs \<Longrightarrow>
   splay_ends cmp node zs l r t"
proof (induction "size T" arbitrary: T t ls rs l r rule: less_induct)
  case less
  obtain a x b where T: "T = Node a x b" using less.prems(2) by (cases T) auto
  note at = less.prems(1) [unfolded T]
  note root = sp_at_root [OF at]
  consider "cmp x = 0 \<or> cmp x < 0 \<and> a = Leaf \<or> cmp x > 0 \<and> b = Leaf" | "cmp x < 0" "a \<noteq> Leaf" | "cmp x > 0" "b \<noteq> Leaf" by linarith
  then show ?case
  proof cases
    case 1
    then have "splay_loop cmp l r t = Some (l, r, t)" using root by (subst splay_loop.simps) auto
    with 1 at less.prems(3,4) show ?thesis unfolding T by (intro splay_ends_stop [of _ _ _ _ t]) (auto simp: stopped_def)
  next
    case 2
    then obtain c y d where a: "a = Node c y d" by (cases a) auto
    show ?thesis
      using less.hyps [of a] less.hyps [of c] less.prems(3,4) T a 2
        splay_left_zig [of t node ls rs a x b l r cmp c y d zs, OF at] splay_left_zigzig [of t node ls rs a x b l r cmp c y d zs, OF at]
      by (cases "cmp y < 0") (fastforce simp: inorder_mirror)+
  next
    case 3
    then obtain c y d where b: "b = Node c y d" by (cases b) auto
    show ?thesis
      using less.hyps [of b] less.hyps [of d] less.prems(3,4) T b 3
        splay_right_zig [of t node ls rs a x b l r cmp c y d zs, OF at] splay_right_zigzig [of t node ls rs a x b l r cmp c y d zs, OF at]
      by (cases "cmp y > 0") (fastforce simp: inorder_mirror)+
  qed
qed

subsection \<open>Assembly\<close>

definition sp_root :: "splay \<Rightarrow> addr tree \<Rightarrow> addr \<Rightarrow> addr tree \<Rightarrow> bool" where
  "sp_root t a x b \<longleftrightarrow> sp_tree (spe_left t) (spe_right t) (sph_root t) (Node a x b)"

lemma sp_rootD:
  assumes "sp_root t a x b"
  shows "sph_root t = Some x" "sp_tree (spe_left t) (spe_right t) (spe_left t x) a" "sp_tree (spe_left t) (spe_right t) (spe_right t x) b"
  using assms by (simp_all add: sp_root_def)

lemma assemble_at:
  assumes at: "sp_at t node ls rs (Node a x b) l r"
  shows "\<exists>t'. SPLAY_ASSEMBLE node l r t = Some t' \<and> sp_root t' (graft ls a) x (mirror (graft rs (mirror b))) \<and> sp_same {l, r, x} t t'"
proof -
  define L R where "L = spe_left t" and "R = spe_right t"
  have ls: "spine L R node ls l" and rs: "spine R L node rs r" and a: "sp_tree L R (L x) a" and b: "sp_tree L R (R x) b"
    and root: "sph_root t = Some x" and d: "distinct (node # parts ls @ inorder (Node a x b) @ parts rs)"
    using at by (simp_all add: sp_at_def L_def R_def)
  define L1 R1 where "L1 = L(r := R x)" and "R1 = R(l := L x)"
  note ends = sp_at_ends [OF at]
  have out: "l \<notin> set_tree a" "r \<notin> set_tree b" "l \<noteq> x" "r \<noteq> x" "node \<noteq> x" "x \<notin> set_tree (graft ls a)" "x \<notin> set_tree (graft rs (mirror b))"
    "r \<notin> set_tree (graft ls a)" "l \<notin> set_tree (graft rs (mirror b))"
    using ends d by (auto simp flip: set_inorder simp: inorder_mirror)
  have "sp_tree L R1 (R1 node) (graft ls a)" unfolding R1_def by (rule spine_graft [OF ls]) (use d a out in auto)
  then have 1: "sp_tree L1 R1 (R1 node) (graft ls a)" unfolding L1_def using out by simp
  have "sp_tree R L1 (L1 node) (graft rs (mirror b))" unfolding L1_def by (rule spine_graft [OF rs]) (use d b out in auto)
  then have "sp_tree R1 L1 (L1 node) (graft rs (mirror b))" unfolding R1_def using out by simp
  then have 2: "sp_tree L1 R1 (L1 node) (mirror (graft rs (mirror b)))" by simp
  have "SPLAY_ASSEMBLE node l r t = Some (t\<lparr>spe_left := L1(x := R1 node), spe_right := R1(x := L1 node)\<rparr>)"
    using root out unfolding L1_def R1_def L_def R_def by (simp add: SPLAY_ASSEMBLE_def Let_def fun_upd_twist)
  moreover have "sp_root (t\<lparr>spe_left := L1(x := R1 node), spe_right := R1(x := L1 node)\<rparr>) (graft ls a) x (mirror (graft rs (mirror b)))"
    using 1 2 root out by (simp add: sp_root_def)
  ultimately show ?thesis unfolding sp_same_def L1_def R1_def L_def R_def by simp
qed

definition sp_repr :: "splay \<Rightarrow> addr list \<Rightarrow> bool" where
  "sp_repr t xs \<longleftrightarrow> (\<exists>T. sp_tree (spe_left t) (spe_right t) (sph_root t) T \<and> inorder T = xs) \<and> distinct xs"

lemma sp_tree_cong: "\<forall>x \<in> set_tree T. L' x = L x \<and> R' x = R x \<Longrightarrow> sp_tree L' R' p T = sp_tree L R p T"
  by (induction T arbitrary: p) auto

text \<open>A tree after a splay: the elements are the same ones, the root splits them.\<close>

definition splayed :: "(addr \<Rightarrow> int) \<Rightarrow> addr set \<Rightarrow> addr list \<Rightarrow> splay \<Rightarrow> splay \<Rightarrow> addr tree \<Rightarrow> addr \<Rightarrow> addr tree \<Rightarrow> bool" where
  "splayed cmp A zs t t' a x b \<longleftrightarrow> sp_root t' a x b \<and> inorder (Node a x b) = zs \<and>
     (\<forall>y \<in> set_tree a. cmp y > 0) \<and> (\<forall>y \<in> set_tree b. cmp y < 0) \<and> sp_same A t t'"

lemma splay_start:
  assumes "sp_tree (spe_left t) (spe_right t) (sph_root t) T" "inorder T = zs" "distinct zs" "node \<notin> set zs"
  shows "sp_at (set_spe_left node NULL (set_spe_right node NULL t)) node [] [] T node node"
  using assms by (auto simp: sp_at_def)

lemma stopped_split:
  assumes "in_order cmp (inorder (Node a x b))" "stopped cmp a x b"
  shows "\<forall>y \<in> set_tree a. cmp y > 0" "\<forall>y \<in> set_tree b. cmp y < 0"
  using assms unfolding stopped_def by force+

lemma splay_assemble:
  assumes ends: "splay_ends cmp node zs node node (set_spe_left node NULL (set_spe_right node NULL t))" and ord: "in_order cmp zs"
  shows "\<exists>l r t1 t' a x b. splay_loop cmp node node (set_spe_left node NULL (set_spe_right node NULL t)) = Some (l, r, t1) \<and>
    SPLAY_ASSEMBLE node l r t1 = Some t' \<and> splayed cmp (insert node (set zs)) zs t t' a x b"
proof -
  obtain l r t1 ls rs a x b where t1: "splay_loop cmp node node (set_spe_left node NULL (set_spe_right node NULL t)) = Some (l, r, t1)"
    "sp_at t1 node ls rs (Node a x b) l r" "parts ls @ inorder (Node a x b) @ rev (parts rs) = zs" "stopped cmp a x b" "sides cmp zs ls rs"
    "sp_same (insert node (set zs)) (set_spe_left node NULL (set_spe_right node NULL t)) t1"
    using ends unfolding splay_ends_def by blast
  obtain t' where t': "SPLAY_ASSEMBLE node l r t1 = Some t'" "sp_root t' (graft ls a) x (mirror (graft rs (mirror b)))" "sp_same {l, r, x} t1 t'"
    using assemble_at [OF t1(2)] by blast
  have "sp_same (insert node (set zs)) t t'"
    using t1(6) t'(3) sp_at_ends [OF t1(2)] t1(3) by (auto simp: sp_same_def)
  moreover have "inorder (Node (graft ls a) x (mirror (graft rs (mirror b)))) = zs" using t1(3) by (simp add: inorder_mirror)
  moreover have "in_order cmp (inorder (Node a x b))" using ord unfolding t1(3) [symmetric] by simp
  note split = stopped_split [OF this t1(4)]
  have "\<forall>y \<in> set_tree (graft ls a). cmp y > 0" "\<forall>y \<in> set_tree (mirror (graft rs (mirror b))). cmp y < 0"
    using split t1(5) ord unfolding sides_def by (auto simp flip: set_inorder simp: inorder_mirror)
  ultimately show ?thesis using t1(1) t' unfolding splayed_def by blast
qed

lemma SPLAY_repr:
  assumes "sp_repr t zs" "zs \<noteq> []" "node \<notin> set zs" "in_order cmp zs"
  shows "\<exists>t' a x b. SPLAY node cmp t = Some t' \<and> splayed cmp (insert node (set zs)) zs t t' a x b"
proof -
  obtain T where T: "sp_tree (spe_left t) (spe_right t) (sph_root t) T" "inorder T = zs" "distinct zs"
    using assms(1) by (auto simp: sp_repr_def)
  have "T \<noteq> Leaf" using T(2) assms(2) by auto
  then have "splay_ends cmp node zs node node (set_spe_left node NULL (set_spe_right node NULL t))"
    by (rule splay_loop_at [OF splay_start [OF T assms(3)]]) (use T(2) in \<open>auto simp: sides_def\<close>)
  from splay_assemble [OF this assms(4)] show ?thesis by (simp add: SPLAY_def Let_def) fastforce
qed

lemma minmax_loop:
  "splay_loop cmp l r t = Some z \<Longrightarrow> cmp = (\<lambda>_. c) \<Longrightarrow> c \<noteq> 0 \<Longrightarrow> splay_minmax_loop c l r t = Some z"
proof (induction rule: splay_loop.raw_induct [rotated, consumes 1])
  case (1 loop cmp l r t z)
  note cmp = 1(3) and c = 1(4) and IH = 1(1) [OF _ 1(3,4)]
  obtain root where root: "SPLAY_ROOT t = Some root" using 1(2) by (auto split: Option.bind_splits)
  note body = 1(2) [unfolded root cmp, simplified, unfolded Let_def]
  show ?case
  proof (cases "c < 0")
    case True
    with body root show ?thesis
      by (subst splay_minmax_loop.simps) (auto split: option.splits Option.bind_splits if_splits intro!: IH [unfolded cmp])
  next
    case False
    with body root c show ?thesis
      by (subst splay_minmax_loop.simps) (auto split: option.splits Option.bind_splits if_splits intro!: IH [unfolded cmp])
  qed
qed

lemma SPLAY_MINMAX_repr:
  assumes "sp_repr t zs" "zs \<noteq> []" "node \<notin> set zs" "c \<noteq> 0"
  shows "\<exists>t' a x b. SPLAY_MINMAX node c t = Some t' \<and> splayed (\<lambda>_. c) (insert node (set zs)) zs t t' a x b"
proof -
  have ord: "in_order (\<lambda>_. c) zs" using assms(4) by (simp add: in_order_def sorted_wrt_iff_nth_less)
  obtain T where T: "sp_tree (spe_left t) (spe_right t) (sph_root t) T" "inorder T = zs" "distinct zs"
    using assms(1) by (auto simp: sp_repr_def)
  have "T \<noteq> Leaf" using T(2) assms(2) by auto
  then have "splay_ends (\<lambda>_. c) node zs node node (set_spe_left node NULL (set_spe_right node NULL t))"
    by (rule splay_loop_at [OF splay_start [OF T assms(3)]]) (use T(2) in \<open>auto simp: sides_def\<close>)
  from splay_assemble [OF this ord] show ?thesis using minmax_loop [OF _ refl assms(4)] by (fastforce simp: SPLAY_MINMAX_def Let_def)
qed

end
