(* ===== verification/Splay_Spec.thy ===== *)
theory Splay_Spec
  imports Splay
begin

subsection \<open>The operations on sorted lists\<close>

definition ascending :: "(addr \<Rightarrow> 'k::linorder) \<Rightarrow> addr list \<Rightarrow> bool" where
  "ascending key xs \<longleftrightarrow> sorted_wrt (\<lambda>a b. key a < key b) xs"

lemma ascending_append [simp]:
  "ascending key (xs @ ys) \<longleftrightarrow> ascending key xs \<and> ascending key ys \<and> (\<forall>x \<in> set xs. \<forall>y \<in> set ys. key x < key y)"
  by (simp add: ascending_def sorted_wrt_append)

lemma ascending_Cons [simp]: "ascending key []" "ascending key (x # xs) \<longleftrightarrow> ascending key xs \<and> (\<forall>y \<in> set xs. key x < key y)"
  by (auto simp: ascending_def)

lemma cmp_by_iff [simp]: "cmp_by key k a = 0 \<longleftrightarrow> k = key a" "cmp_by key k a < 0 \<longleftrightarrow> k < key a" "0 < cmp_by key k a \<longleftrightarrow> key a < k"
    "cmp_by key k a \<le> 0 \<longleftrightarrow> k \<le> key a"
  by (auto simp: cmp_by_def)

lemma ascending_in_order: "ascending key xs \<Longrightarrow> in_order (cmp_by key k) xs"
  by (induction xs) auto

lemma sp_reprI: "sp_root t a x b \<Longrightarrow> inorder (Node a x b) = xs \<Longrightarrow> distinct xs \<Longrightarrow> sp_repr t xs"
  unfolding sp_repr_def sp_root_def by blast

lemma sp_repr_empty: "sp_repr t xs \<Longrightarrow> SPLAY_EMPTY t \<longleftrightarrow> xs = []"
  unfolding sp_repr_def SPLAY_EMPTY_def using sp_tree_NULL by fastforce

lemma sp_repr_root: "sp_repr t xs \<Longrightarrow> sph_root t = NULL \<longleftrightarrow> xs = []"
  using sp_repr_empty by (simp add: SPLAY_EMPTY_def)

lemma splay_by:
  assumes "sp_repr t zs" "ascending key zs" "node \<notin> set zs" "zs \<noteq> []"
  obtains t' a x b where "SPLAY node (cmp_by key k) t = Some t'" "sp_root t' a x b" "inorder a @ x # inorder b = zs" "sp_repr t' zs"
    "\<forall>y \<in> set_tree a. key y < k" "\<forall>y \<in> set_tree b. k < key y" "sp_same (insert node (set zs)) t t'"
proof -
  obtain t' a x b where t': "SPLAY node (cmp_by key k) t = Some t'" "splayed (cmp_by key k) (insert node (set zs)) zs t t' a x b"
    using SPLAY_repr [OF assms(1,4,3) ascending_in_order [OF assms(2)]] by blast
  moreover have "sp_repr t' zs" by (rule sp_reprI) (use t' assms(1) in \<open>auto simp: splayed_def sp_repr_def\<close>)
  ultimately show thesis using that unfolding splayed_def by auto
qed

lemma SPLAY_FIND_repr:
  assumes "sp_repr t zs" "ascending key zs" "node \<notin> set zs"
  shows "\<exists>t'. SPLAY_FIND node (cmp_by key k) t = Some (find (\<lambda>a. key a = k) zs, t') \<and> sp_repr t' zs \<and> sp_same (insert node (set zs)) t t'"
proof (cases "zs = []")
  case True
  then show ?thesis using assms(1) sp_repr_empty [OF assms(1)] by (simp add: SPLAY_FIND_def)
next
  case False
  obtain t' a x b where t': "SPLAY node (cmp_by key k) t = Some t'" "sp_root t' a x b" "inorder a @ x # inorder b = zs" "sp_repr t' zs"
    "\<forall>y \<in> set_tree a. key y < k" "\<forall>y \<in> set_tree b. k < key y" "sp_same (insert node (set zs)) t t'"
    by (rule splay_by [OF assms False])
  have none: "find (\<lambda>a. key a = k) ys = None" if "\<forall>y \<in> set ys. key y \<noteq> k" for ys using that by (induction ys) auto
  have "find (\<lambda>a. key a = k) zs = (if key x = k then Some x else None)"
    using none [of "inorder a"] none [of "inorder b"] t'(5,6) unfolding t'(3) [symmetric] by (auto simp: find_append_if)
  with t' sp_repr_empty [OF assms(1)] False show ?thesis by (auto simp: SPLAY_FIND_def sp_rootD)
qed

lemma SPLAY_INSERT_new:
  assumes "sp_repr t zs" "ascending key zs" "node \<notin> set zs" "elm \<notin> set zs" "elm \<noteq> node" "key elm \<notin> key ` set zs"
  shows "\<exists>t'. SPLAY_INSERT node (cmp_by key (key elm)) elm t = Some (NULL, t') \<and> sp_repr t' (insort_key key elm zs) \<and>
    sp_same (insert node (insert elm (set zs))) t t'"
proof (cases "zs = []")
  case True
  then show ?thesis using assms(1) sp_repr_empty [OF assms(1)]
    by (auto simp: SPLAY_INSERT_def sp_same_def sp_repr_def intro!: exI [of _ "Node Leaf elm Leaf"])
next
  case False
  obtain t1 a x b where t1: "SPLAY node (cmp_by key (key elm)) t = Some t1" "sp_root t1 a x b" "inorder a @ x # inorder b = zs" "sp_repr t1 zs"
    "\<forall>y \<in> set_tree a. key y < key elm" "\<forall>y \<in> set_tree b. key elm < key y" "sp_same (insert node (set zs)) t t1"
    by (rule splay_by [OF assms(1-3) False])
  have d: "distinct (inorder a @ x # inorder b)" "elm \<notin> set (inorder a @ x # inorder b)" using assms(1,4) by (auto simp: t1(3) sp_repr_def)
  have ne: "key x \<noteq> key elm" using assms(6) t1(3) by force
  note root = sp_rootD [OF t1(2)]
  show ?thesis
  proof (cases "key elm < key x")
    case True
    let ?t = "(set_spe_left x NULL (set_spe_right elm (Some x) (set_spe_left elm (SPLAY_LEFT x t1) t1)))\<lparr>sph_root := Some elm\<rparr>"
    have "sp_root ?t a elm (Node Leaf x b)" using root d unfolding sp_root_def by auto
    moreover have "inorder (Node a elm (Node Leaf x b)) = insort_key key elm zs"
      unfolding t1(3) [symmetric] using insort_key_split [of "inorder a" key elm "x # inorder b"] True t1(5,6) by simp
    moreover have "distinct (insort_key key elm zs)" using assms(1,4) by (simp add: sp_repr_def distinct_insort)
    ultimately have "sp_repr ?t (insort_key key elm zs)" by (rule sp_reprI)
    moreover have "SPLAY_INSERT node (cmp_by key (key elm)) elm t = Some (NULL, ?t)"
      using t1(1) root True sp_repr_empty [OF assms(1)] False by (simp add: SPLAY_INSERT_def Let_def)
    moreover have "sp_same (insert node (insert elm (set zs))) t ?t" using t1(3,7) by (auto simp: sp_same_def)
    ultimately show ?thesis by blast
  next
    case False
    let ?t = "(set_spe_right x NULL (set_spe_left elm (Some x) (set_spe_right elm (SPLAY_RIGHT x t1) t1)))\<lparr>sph_root := Some elm\<rparr>"
    have "sp_root ?t (Node a x Leaf) elm b" using root d unfolding sp_root_def by auto
    moreover have "inorder (Node (Node a x Leaf) elm b) = insort_key key elm zs"
      unfolding t1(3) [symmetric] using insort_key_split [of "inorder a @ [x]" key elm "inorder b"] False ne t1(5,6) by force
    moreover have "distinct (insort_key key elm zs)" using assms(1,4) by (simp add: sp_repr_def distinct_insort)
    ultimately have "sp_repr ?t (insort_key key elm zs)" by (rule sp_reprI)
    moreover have "SPLAY_INSERT node (cmp_by key (key elm)) elm t = Some (NULL, ?t)"
      using t1(1) root False ne sp_repr_empty [OF assms(1)] \<open>zs \<noteq> []\<close> by (simp add: SPLAY_INSERT_def Let_def)
    moreover have "sp_same (insert node (insert elm (set zs))) t ?t" using t1(3,7) by (auto simp: sp_same_def)
    ultimately show ?thesis by blast
  qed
qed

lemma splay_hit:
  assumes "sp_repr t zs" "ascending key zs" "node \<notin> set zs" "c \<in> set zs"
  obtains t' a b where "SPLAY node (cmp_by key (key c)) t = Some t'" "sp_root t' a c b" "inorder a @ c # inorder b = zs" "sp_repr t' zs"
    "\<forall>y \<in> set_tree a. key y < key c" "\<forall>y \<in> set_tree b. key c < key y" "sp_same (insert node (set zs)) t t'"
proof -
  have "zs \<noteq> []" using assms(4) by auto
  then obtain t' a x b where t': "SPLAY node (cmp_by key (key c)) t = Some t'" "sp_root t' a x b" "inorder a @ x # inorder b = zs" "sp_repr t' zs"
    "\<forall>y \<in> set_tree a. key y < key c" "\<forall>y \<in> set_tree b. key c < key y" "sp_same (insert node (set zs)) t t'"
    by (rule splay_by [OF assms(1-3)])
  have "c = x" using assms(4) t'(5,6) unfolding t'(3) [symmetric] by auto
  with t' that show thesis by blast
qed

lemma SPLAY_INSERT_old:
  assumes "sp_repr t zs" "ascending key zs" "node \<notin> set zs" "c \<in> set zs" "key elm = key c"
  shows "\<exists>t'. SPLAY_INSERT node (cmp_by key (key elm)) elm t = Some (Some c, t') \<and> sp_repr t' zs \<and> sp_same (insert node (set zs)) t t'"
proof -
  obtain t' a b where t': "SPLAY node (cmp_by key (key c)) t = Some t'" "sp_root t' a c b" "sp_repr t' zs" "sp_same (insert node (set zs)) t t'"
    by (rule splay_hit [OF assms(1-4)])
  with assms(4,5) sp_repr_empty [OF assms(1)] show ?thesis by (auto simp: SPLAY_INSERT_def sp_rootD Let_def)
qed

lemma SPLAY_REMOVE_hit:
  assumes "sp_repr t zs" "ascending key zs" "node \<notin> set zs" "c \<in> set zs" "key elm = key c"
  shows "\<exists>t'. SPLAY_REMOVE node (cmp_by key (key elm)) elm t = Some (Some elm, t') \<and> sp_repr t' (remove1 c zs) \<and>
    sp_same (insert node (set zs)) t t'"
proof -
  let ?cmp = "cmp_by key (key elm)"
  obtain t1 a b where t1: "SPLAY node ?cmp t = Some t1" "sp_root t1 a c b" "inorder a @ c # inorder b = zs" "sp_repr t1 zs"
    "\<forall>y \<in> set_tree a. key y < key elm" "sp_same (insert node (set zs)) t t1"
    using splay_hit [OF assms(1-4)] assms(5) by metis
  note root = sp_rootD [OF t1(2)]
  have d: "distinct (inorder a @ c # inorder b)" and n: "node \<notin> set (inorder a @ c # inorder b)" and o: "ascending key (inorder a)"
    using assms(1-3) unfolding t1(3) by (auto simp: sp_repr_def t1(3) [symmetric])
  have rm: "remove1 c zs = inorder a @ inorder b" unfolding t1(3) [symmetric] using d by (simp add: remove1_middle)
  have start: "SPLAY_REMOVE node ?cmp elm t =
     (if SPLAY_LEFT c t1 = NULL then Some (Some elm, t1\<lparr>sph_root := SPLAY_RIGHT c t1\<rparr>)
      else do { t2 \<leftarrow> SPLAY node ?cmp (t1\<lparr>sph_root := SPLAY_LEFT c t1\<rparr>); x \<leftarrow> SPLAY_ROOT t2;
        Some (Some elm, set_spe_right x (SPLAY_RIGHT c t1) t2) })"
    using t1(1) root(1) assms(4,5) sp_repr_empty [OF assms(1)] by (auto simp: SPLAY_REMOVE_def Let_def)
  show ?thesis
  proof (cases "a = Leaf")
    case True
    then have "SPLAY_LEFT c t1 = NULL" using root(2) by simp
    moreover have "sp_repr (t1\<lparr>sph_root := SPLAY_RIGHT c t1\<rparr>) (remove1 c zs)" using root(3) rm d True by (auto simp: sp_repr_def)
    ultimately show ?thesis using start t1(6) by (auto simp: sp_same_def)
  next
    case False
    then have ne: "SPLAY_LEFT c t1 \<noteq> NULL" "inorder a \<noteq> []" using root(2) sp_tree_NULL by (blast, cases a) auto
    have "sp_repr (t1\<lparr>sph_root := SPLAY_LEFT c t1\<rparr>) (inorder a)" using root(2) d by (auto simp: sp_repr_def)
    then obtain t2 a' x b' where t2: "SPLAY node ?cmp (t1\<lparr>sph_root := SPLAY_LEFT c t1\<rparr>) = Some t2" "sp_root t2 a' x b'"
      "inorder a' @ x # inorder b' = inorder a" "\<forall>y \<in> set_tree b'. key elm < key y"
      "sp_same (insert node (set (inorder a))) (t1\<lparr>sph_root := SPLAY_LEFT c t1\<rparr>) t2"
      by (rule splay_by [OF _ o _ ne(2)]) (use n in auto)
    have "set (inorder b') \<subseteq> set (inorder a)" unfolding t2(3) [symmetric] by auto
    then have "b' = Leaf" using t1(5) t2(4) by (cases b') force+
    have "x \<in> set (inorder a)" unfolding t2(3) [symmetric] by simp
    then have x: "x \<notin> set_tree b" "x \<in> set zs" using d t1(3) by auto
    have "y \<notin> insert node (set (inorder a))" if "y \<in> set_tree b" for y using that d n by auto
    with t2(5) have "\<forall>y \<in> set_tree b. spe_left t2 y = spe_left t1 y \<and> spe_right t2 y = spe_right t1 y" unfolding sp_same_def by force
    with root(3) have "sp_tree (spe_left t2) (spe_right t2) (SPLAY_RIGHT c t1) b" using sp_tree_cong by blast
    moreover have "distinct (inorder a' @ x # inorder b)" using d t2(3) \<open>b' = Leaf\<close> by (metis append_Cons append_Nil append_assoc distinct_append inorder.simps(1) disjoint_iff distinct.simps(2))
    ultimately have "sp_root (set_spe_right x (SPLAY_RIGHT c t1) t2) a' x b" using sp_rootD [OF t2(2)] x unfolding sp_root_def by simp
    then have "sp_repr (set_spe_right x (SPLAY_RIGHT c t1) t2) (remove1 c zs)"
      by (rule sp_reprI) (use t2(3) \<open>b' = Leaf\<close> d in \<open>auto simp: rm simp flip: t2(3)\<close>)
    moreover have "sp_same (insert node (set zs)) t (set_spe_right x (SPLAY_RIGHT c t1) t2)"
      using t1(6) t2(5) x(2) unfolding t1(3) [symmetric] by (auto simp: sp_same_def)
    ultimately show ?thesis using start ne(1) t2(1) sp_rootD(1) [OF t2(2)] by auto
  qed
qed

lemma SPLAY_REMOVE_miss:
  assumes "sp_repr t zs" "ascending key zs" "node \<notin> set zs" "key elm \<notin> key ` set zs"
  shows "\<exists>t'. SPLAY_REMOVE node (cmp_by key (key elm)) elm t = Some (NULL, t') \<and> sp_repr t' zs \<and> sp_same (insert node (set zs)) t t'"
proof (cases "zs = []")
  case True
  then show ?thesis using assms(1) sp_repr_empty [OF assms(1)] by (simp add: SPLAY_REMOVE_def)
next
  case False
  obtain t' a x b where t': "SPLAY node (cmp_by key (key elm)) t = Some t'" "sp_root t' a x b" "inorder a @ x # inorder b = zs" "sp_repr t' zs"
    "sp_same (insert node (set zs)) t t'"
    by (rule splay_by [OF assms(1-3) False])
  moreover have "key elm \<noteq> key x" using assms(4) unfolding t'(3) [symmetric] by auto
  ultimately show ?thesis using sp_repr_empty [OF assms(1)] False by (auto simp: SPLAY_REMOVE_def sp_rootD)
qed

lemma SPLAY_MIN_MAX_repr:
  assumes "sp_repr t zs" "node \<notin> set zs"
  shows "\<exists>t'. SPLAY_MIN node t = Some (hd_ptr zs, t') \<and> sp_repr t' zs" "\<exists>t'. SPLAY_MAX node t = Some (last_ptr zs, t') \<and> sp_repr t' zs"
proof -
  have "(\<exists>t'. SPLAY_MIN node t = Some (hd_ptr zs, t') \<and> sp_repr t' zs) \<and> (\<exists>t'. SPLAY_MAX node t = Some (last_ptr zs, t') \<and> sp_repr t' zs)"
  proof (cases "zs = []")
    case True
    then show ?thesis using assms(1) sp_repr_empty [OF assms(1)] by (simp add: SPLAY_MIN_def SPLAY_MAX_def)
  next
    case False
    note e = sp_repr_empty [OF assms(1)]
    obtain t1 a x b where 1: "SPLAY_MINMAX node (- 1) t = Some t1" "splayed (\<lambda>_. - 1) (insert node (set zs)) zs t t1 a x b"
      using SPLAY_MINMAX_repr [OF assms(1) False assms(2), of "- 1"] by auto
    obtain t2 c y d where 2: "SPLAY_MINMAX node 1 t = Some t2" "splayed (\<lambda>_. 1) (insert node (set zs)) zs t t2 c y d"
      using SPLAY_MINMAX_repr [OF assms(1) False assms(2), of 1] by auto
    have r: "sp_repr t1 zs" "sp_repr t2 zs"
      by (rule sp_reprI; use 1(2) 2(2) assms(1) in \<open>force simp: splayed_def sp_repr_def\<close>)+
    have "a = Leaf" "d = Leaf" using 1(2) 2(2) by (cases a; cases d; force simp: splayed_def)+
    then have zs: "zs = x # inorder b" "zs = inorder c @ [y]" using 1(2) 2(2) by (auto simp: splayed_def)
    have "hd_ptr zs = Some x" by (simp add: zs(1))
    moreover have "last_ptr zs = Some y" by (simp add: zs(2))
    ultimately
    show ?thesis using r 1 2 e False
      by (auto simp: SPLAY_MIN_def SPLAY_MAX_def SPLAY_MIN_MAX_def splayed_def sp_rootD)
  qed
  then show "\<exists>t'. SPLAY_MIN node t = Some (hd_ptr zs, t') \<and> sp_repr t' zs" "\<exists>t'. SPLAY_MAX node t = Some (last_ptr zs, t') \<and> sp_repr t' zs" by auto
qed

lemma splay_leftmost_at: "sp_tree (spe_left t) (spe_right t) (Some a) T \<Longrightarrow> splay_leftmost a t = hd_ptr (inorder T)"
proof (induction T arbitrary: a)
  case (Node l x r)
  then show ?case by (subst splay_leftmost.simps) (cases l; auto)
qed simp

lemma SPLAY_NEXT_repr:
  assumes "sp_repr t (xs @ c # ys)" "ascending key (xs @ c # ys)" "node \<notin> set (xs @ c # ys)"
  shows "\<exists>t'. SPLAY_NEXT node (cmp_by key (key c)) c t = Some (hd_ptr ys, t') \<and> sp_repr t' (xs @ c # ys)"
proof -
  obtain t' a b where t': "SPLAY node (cmp_by key (key c)) t = Some t'" "sp_root t' a c b" "inorder a @ c # inorder b = xs @ c # ys"
    "sp_repr t' (xs @ c # ys)"
    by (rule splay_hit [OF assms, of c]) auto
  have "distinct (xs @ c # ys)" using assms(1) by (simp add: sp_repr_def)
  then have "inorder b = ys" using t'(3) append_Cons_eq_iff [of c xs ys "inorder a" "inorder b"] by auto
  moreover note root = sp_rootD(3) [OF t'(2)]
  ultimately show ?thesis using t'(1,4) sp_tree_NULL [OF root] splay_leftmost_at [of t' _ b] root
    by (cases "spe_right t' c"; cases "ys") (auto simp: SPLAY_NEXT_def)
qed

lemma splay_foreach_repr:
  assumes "sp_repr t (xs @ ys)" "ascending key (xs @ ys)" "node \<notin> set (xs @ ys)"
  shows "\<exists>t'. splay_foreach_from node (\<lambda>a. cmp_by key (key a)) (hd_ptr ys) t = Some (ys, t') \<and> sp_repr t' (xs @ ys)"
  using assms
proof (induction ys arbitrary: xs t)
  case Nil
  then show ?case by (subst splay_foreach_from.simps) simp
next
  case (Cons c ys)
  obtain t1 where t1: "SPLAY_NEXT node (cmp_by key (key c)) c t = Some (hd_ptr ys, t1)" "sp_repr t1 ((xs @ [c]) @ ys)"
    using SPLAY_NEXT_repr [OF Cons.prems] by auto
  obtain t2 where "splay_foreach_from node (\<lambda>a. cmp_by key (key a)) (hd_ptr ys) t1 = Some (ys, t2)" "sp_repr t2 (xs @ c # ys)"
    using Cons.IH [OF t1(2)] Cons.prems(2,3) by auto
  with t1 show ?case by (subst splay_foreach_from.simps) simp
qed

lemma SPLAY_FOREACH_repr:
  assumes "sp_repr t zs" "ascending key zs" "node \<notin> set zs"
  shows "\<exists>t'. SPLAY_FOREACH node (\<lambda>a. cmp_by key (key a)) t = Some (zs, t') \<and> sp_repr t' zs"
proof -
  obtain t1 where t1: "SPLAY_MIN node t = Some (hd_ptr zs, t1)" "sp_repr t1 zs" using SPLAY_MIN_MAX_repr(1) [OF assms(1,3)] by blast
  with splay_foreach_repr [of t1 "[]" zs key node] assms(2,3) show ?thesis by (auto simp: SPLAY_FOREACH_def)
qed

subsection \<open>A dictionary that adjusts itself\<close>

text \<open>What a client of the splay trees may rely on. Contrary to \<open>keyed_tree\<close> every operation gives a new tree, the search too.\<close>

locale self_adjusting =
  fixes repr :: "'t \<Rightarrow> addr list \<Rightarrow> bool"
    and usable :: "addr \<Rightarrow> bool"
    and ins :: "(addr \<Rightarrow> int) \<Rightarrow> addr \<Rightarrow> 't \<Rightarrow> (ptr \<times> 't) option"
    and del :: "(addr \<Rightarrow> int) \<Rightarrow> addr \<Rightarrow> 't \<Rightarrow> (ptr \<times> 't) option"
    and lookup :: "(addr \<Rightarrow> int) \<Rightarrow> 't \<Rightarrow> (ptr \<times> 't) option"
    and key :: "addr \<Rightarrow> 'k::linorder"
  assumes ins_new: "repr t xs \<Longrightarrow> ascending key xs \<Longrightarrow> a \<notin> set xs \<Longrightarrow> usable a \<Longrightarrow> key a \<notin> key ` set xs \<Longrightarrow>
      \<exists>t'. ins (cmp_by key (key a)) a t = Some (NULL, t') \<and> repr t' (insort_key key a xs)"
    and ins_old: "repr t xs \<Longrightarrow> ascending key xs \<Longrightarrow> c \<in> set xs \<Longrightarrow> key a = key c \<Longrightarrow>
      \<exists>t'. ins (cmp_by key (key a)) a t = Some (Some c, t') \<and> repr t' xs"
    and del_hit: "repr t xs \<Longrightarrow> ascending key xs \<Longrightarrow> c \<in> set xs \<Longrightarrow> key a = key c \<Longrightarrow>
      \<exists>t'. del (cmp_by key (key a)) a t = Some (Some a, t') \<and> repr t' (remove1 c xs)"
    and lookup_find: "repr t xs \<Longrightarrow> ascending key xs \<Longrightarrow> \<exists>t'. lookup (cmp_by key k) t = Some (find (\<lambda>a. key a = k) xs, t') \<and> repr t' xs"
begin

lemma ascending_insort: "ascending key xs \<Longrightarrow> key a \<notin> key ` set xs \<Longrightarrow> ascending key (insort_key key a xs)"
  by (induction xs) (auto simp: set_insort_key)

lemma find_member: "ascending key xs \<Longrightarrow> a \<in> set xs \<Longrightarrow> find (\<lambda>b. key b = key a) xs = Some a"
  by (induction xs) auto

lemma ins_find_del:
  assumes "repr t xs" "ascending key xs" "a \<notin> set xs" "usable a" "key a \<notin> key ` set xs"
  shows "\<exists>t1 t2 t3. ins (cmp_by key (key a)) a t = Some (NULL, t1) \<and> lookup (cmp_by key (key a)) t1 = Some (Some a, t2) \<and>
    del (cmp_by key (key a)) a t2 = Some (Some a, t3) \<and> repr t3 xs"
proof -
  obtain t1 where t1: "ins (cmp_by key (key a)) a t = Some (NULL, t1)" "repr t1 (insort_key key a xs)" using ins_new [OF assms] by blast
  have asc: "ascending key (insort_key key a xs)" and a: "a \<in> set (insort_key key a xs)"
    using ascending_insort [OF assms(2,5)] by (auto simp: set_insort_key)
  obtain t2 where t2: "lookup (cmp_by key (key a)) t1 = Some (Some a, t2)" "repr t2 (insort_key key a xs)"
    using lookup_find [OF t1(2) asc, of "key a"] find_member [OF asc a] by auto
  obtain t3 where "del (cmp_by key (key a)) a t2 = Some (Some a, t3)" "repr t3 (remove1 a (insort_key key a xs))"
    using del_hit [OF t2(2) asc a refl] by blast
  with t1(1) t2(1) show ?thesis by (auto simp: remove1_insort_key)
qed

text \<open>Inserting elements with different keys sorts them.\<close>

lemma ins_all:
  "repr t xs \<Longrightarrow> ascending key xs \<Longrightarrow> inj_on key (set xs \<union> set ys) \<Longrightarrow> set xs \<inter> set ys = {} \<Longrightarrow> distinct ys \<Longrightarrow> \<forall>a \<in> set ys. usable a \<Longrightarrow>
   \<exists>t'. fold (\<lambda>a m. Option.bind m (\<lambda>t. map_option snd (ins (cmp_by key (key a)) a t))) ys (Some t) = Some t' \<and>
     repr t' (fold (insort_key key) ys xs) \<and> ascending key (fold (insort_key key) ys xs)"
proof (induction ys arbitrary: t xs)
  case (Cons a ys)
  have a: "a \<notin> set xs" "usable a" "key a \<notin> key ` set xs" using Cons.prems(3,4,6) by (auto simp: inj_on_def)
  obtain t1 where t1: "ins (cmp_by key (key a)) a t = Some (NULL, t1)" "repr t1 (insort_key key a xs)"
    using ins_new [OF Cons.prems(1,2) a] by blast
  have "inj_on key (set (insort_key key a xs) \<union> set ys)" using Cons.prems(3) by (simp add: set_insort_key)
  moreover have "set (insort_key key a xs) \<inter> set ys = {}" using Cons.prems(4,5) by (auto simp: set_insort_key)
  ultimately show ?case
    using Cons.IH [OF t1(2) ascending_insort [OF Cons.prems(2) a(3)]] Cons.prems(5,6) t1(1) by simp
qed simp

end

interpretation sp: self_adjusting "\<lambda>t xs. sp_repr t xs \<and> node \<notin> set xs" "\<lambda>a. a \<noteq> node" "SPLAY_INSERT node" "SPLAY_REMOVE node"
  "SPLAY_FIND node" key for node and key :: "addr \<Rightarrow> 'k::linorder"
proof
  fix t xs a c and k :: 'k
  assume r: "sp_repr t xs \<and> node \<notin> set xs" and o: "ascending key xs"
  show "\<exists>t'. SPLAY_INSERT node (cmp_by key (key a)) a t = Some (NULL, t') \<and> sp_repr t' (insort_key key a xs) \<and> node \<notin> set (insort_key key a xs)"
    if "a \<notin> set xs" "a \<noteq> node" "key a \<notin> key ` set xs"
    using SPLAY_INSERT_new [of t xs key node a] r o that by (auto simp: set_insort_key)
  show "\<exists>t'. SPLAY_INSERT node (cmp_by key (key a)) a t = Some (Some c, t') \<and> sp_repr t' xs \<and> node \<notin> set xs"
    if "c \<in> set xs" "key a = key c" using SPLAY_INSERT_old [of t xs key node c a] r o that by auto
  show "\<exists>t'. SPLAY_REMOVE node (cmp_by key (key a)) a t = Some (Some a, t') \<and> sp_repr t' (remove1 c xs) \<and> node \<notin> set (remove1 c xs)"
    if "c \<in> set xs" "key a = key c" using SPLAY_REMOVE_hit [of t xs key node c a] r o that notin_set_remove1 [of node xs c] by auto
  show "\<exists>t'. SPLAY_FIND node (cmp_by key k) t = Some (find (\<lambda>a. key a = k) xs, t') \<and> sp_repr t' xs \<and> node \<notin> set xs"
    using SPLAY_FIND_repr [of t xs key node k] r o by auto
qed

definition splay_zero :: splay where
  "splay_zero = \<lparr>sph_root = NULL, spe_left = (\<lambda>_. NULL), spe_right = (\<lambda>_. NULL)\<rparr>"

lemma splay_zero_repr: "sp_repr splay_zero []"
  unfolding sp_repr_def splay_zero_def by (auto intro: exI [of _ Leaf])

lemma splay3: "\<exists>t. sp_repr t [4, 7, 9]"
proof -
  have "\<exists>t. sp_repr t (fold (insort_key id) [7, 4, 9] [])"
    using sp.ins_all [of splay_zero "[]" 0 id "[7, 4, 9]"] splay_zero_repr by auto
  then show ?thesis by simp
qed

subsection \<open>Properties\<close>

text \<open>A search moves the element to the root. \<open>SPLAY\<close> ends, keeps the elements and their order, changes nothing outside of the tree but
  its own local variable, and afterwards the root is the element searched for, with the smaller ones to its left; if there is none with
  that key, the root is one of its two neighbours in the order.\<close>

theorem SPLAY_moves_to_root:
  assumes "sp_repr t zs" "ascending key zs" "node \<notin> set zs" "zs \<noteq> []"
  shows "\<exists>t' a x b. SPLAY node (cmp_by key k) t = Some t' \<and> sp_repr t' zs \<and> SPLAY_ROOT t' = Some x \<and> zs = a @ x # b \<and>
    (\<forall>y \<in> set a. key y < k) \<and> (\<forall>y \<in> set b. k < key y) \<and> (k \<in> key ` set zs \<longrightarrow> key x = k) \<and> sp_same (insert node (set zs)) t t'"
proof -
  obtain t' a x b where t': "SPLAY node (cmp_by key k) t = Some t'" "sp_root t' a x b" "inorder a @ x # inorder b = zs" "sp_repr t' zs"
    "\<forall>y \<in> set_tree a. key y < k" "\<forall>y \<in> set_tree b. k < key y" "sp_same (insert node (set zs)) t t'"
    by (rule splay_by [OF assms])
  have "key x = k" if "k \<in> key ` set zs" using that t'(5,6) unfolding t'(3) [symmetric] by auto
  with t' show ?thesis
    by (intro exI [of _ t'] exI [of _ "inorder a"] exI [of _ x] exI [of _ "inorder b"]) (auto simp: sp_rootD)
qed

theorem SPLAY_moves_to_root_witness:
  "\<exists>t t'. sp_repr t [4, 7, 9] \<and> SPLAY 0 (cmp_by id 9) t = Some t' \<and> SPLAY_ROOT t' = Some 9 \<and> sp_repr t' [4, 7, 9]"
proof -
  obtain t where t: "sp_repr t [4, 7, 9]" using splay3 by blast
  from SPLAY_moves_to_root [OF t, of id 0 9] t show ?thesis by auto
qed

text \<open>(C20) Splay trees refine sorted lists. \<open>SPLAY_INSERT\<close> of a new key is sorted insertion; for a key that is present it returns the element that has
  it and adds nothing. \<open>SPLAY_REMOVE\<close> takes out the element with the given key, wherever it is in the tree, and returns its argument;
  without such an element it returns \<open>NULL\<close> and keeps the list. The tree may be empty.\<close>

theorem SPLAY_refines_sorted_list:
  assumes t: "sp_repr t zs" "ascending key zs" "node \<notin> set zs"
  shows "(\<forall>new. key new \<notin> key ` set zs \<longrightarrow>
      (new \<notin> set zs \<and> new \<noteq> node \<longrightarrow>
        (\<exists>t'. SPLAY_INSERT node (cmp_by key (key new)) new t = Some (NULL, t') \<and> sp_repr t' (insort_key key new zs))) \<and>
      (\<exists>t'. SPLAY_REMOVE node (cmp_by key (key new)) new t = Some (NULL, t') \<and> sp_repr t' zs)) \<and>
    (\<forall>c elm. c \<in> set zs \<and> key elm = key c \<longrightarrow>
      (\<exists>t'. SPLAY_INSERT node (cmp_by key (key elm)) elm t = Some (Some c, t') \<and> sp_repr t' zs) \<and>
      (\<exists>t'. SPLAY_REMOVE node (cmp_by key (key elm)) elm t = Some (Some elm, t') \<and> sp_repr t' (remove1 c zs)))"
proof (intro conjI allI impI; (elim conjE)?)
  fix new assume new: "key new \<notin> key ` set zs"
  show "\<exists>t'. SPLAY_REMOVE node (cmp_by key (key new)) new t = Some (NULL, t') \<and> sp_repr t' zs"
    using SPLAY_REMOVE_miss [OF t new] by blast
  assume "new \<notin> set zs" "new \<noteq> node"
  then show "\<exists>t'. SPLAY_INSERT node (cmp_by key (key new)) new t = Some (NULL, t') \<and> sp_repr t' (insort_key key new zs)"
    using SPLAY_INSERT_new [OF t _ _ new] by blast
next
  fix c elm assume c: "c \<in> set zs" "key elm = key c"
  show "\<exists>t'. SPLAY_INSERT node (cmp_by key (key elm)) elm t = Some (Some c, t') \<and> sp_repr t' zs"
    using SPLAY_INSERT_old [OF t c] by blast
  show "\<exists>t'. SPLAY_REMOVE node (cmp_by key (key elm)) elm t = Some (Some elm, t') \<and> sp_repr t' (remove1 c zs)"
    using SPLAY_REMOVE_hit [OF t c] by blast
qed

theorem SPLAY_refines_sorted_list_witness:
  "\<exists>t t' t'' u. sp_repr t [4, 7, 9] \<and> SPLAY_INSERT 0 (cmp_by (\<lambda>a. a mod 20) 5) 5 t = Some (NULL, t') \<and> sp_repr t' [4, 5, 7, 9] \<and>
     SPLAY_REMOVE 0 (cmp_by (\<lambda>a. a mod 20) 7) 27 t = Some (Some 27, t'') \<and> sp_repr t'' [4, 9] \<and>
     SPLAY_INSERT 0 (cmp_by id 5) 5 splay_zero = Some (NULL, u) \<and> sp_repr u [5]"
proof -
  obtain t where t: "sp_repr t [4, 7, 9]" using splay3 by blast
  note r = SPLAY_refines_sorted_list [OF t, of "\<lambda>a. a mod 20" 0]
  have "\<exists>t'. SPLAY_INSERT 0 (cmp_by (\<lambda>a. a mod 20) 5) 5 t = Some (NULL, t') \<and> sp_repr t' [4, 5, 7, 9]"
    using r [THEN conjunct1, THEN spec [of _ 5]] by simp
  moreover have "\<exists>t'. SPLAY_REMOVE 0 (cmp_by (\<lambda>a. a mod 20) 7) 27 t = Some (Some 27, t') \<and> sp_repr t' [4, 9]"
    using r [THEN conjunct2, THEN spec [of _ 7], THEN spec [of _ 27]] by simp
  moreover have "\<exists>u. SPLAY_INSERT 0 (cmp_by id 5) 5 splay_zero = Some (NULL, u) \<and> sp_repr u [5]"
    using SPLAY_refines_sorted_list [OF splay_zero_repr, of id 0, THEN conjunct1, THEN spec [of _ 5]] by simp
  ultimately show ?thesis using t by blast
qed

text \<open>An element that was inserted is found, and taking it out again gives the list of before.\<close>

theorem SPLAY_insert_find_remove:
  assumes "sp_repr t zs" "ascending key zs" "node \<notin> set zs" "a \<notin> set zs" "a \<noteq> node" "key a \<notin> key ` set zs"
  shows "\<exists>t1 t2 t3. SPLAY_INSERT node (cmp_by key (key a)) a t = Some (NULL, t1) \<and> SPLAY_FIND node (cmp_by key (key a)) t1 = Some (Some a, t2) \<and>
    SPLAY_REMOVE node (cmp_by key (key a)) a t2 = Some (Some a, t3) \<and> sp_repr t3 zs"
  using sp.ins_find_del [of t zs node key a] assms by blast

theorem SPLAY_insert_find_remove_witness:
  "\<exists>t1 t2 t3. SPLAY_INSERT 0 (cmp_by id 5) 5 splay_zero = Some (NULL, t1) \<and> SPLAY_FIND 0 (cmp_by id 5) t1 = Some (Some 5, t2) \<and>
    SPLAY_REMOVE 0 (cmp_by id 5) 5 t2 = Some (Some 5, t3) \<and> sp_repr t3 []"
  using SPLAY_insert_find_remove [OF splay_zero_repr, of id 0 5] by simp

text \<open>(C23) \<open>SPLAY_FOREACH\<close> visits the elements in the order of their keys, although every step rearranges the tree, and ends; \<open>SPLAY_MIN\<close> and
  \<open>SPLAY_MAX\<close> are the first and the last.\<close>

theorem SPLAY_FOREACH_in_order:
  assumes "sp_repr t zs" "ascending key zs" "node \<notin> set zs"
  shows "(\<exists>t'. SPLAY_FOREACH node (\<lambda>a. cmp_by key (key a)) t = Some (zs, t') \<and> sp_repr t' zs) \<and>
    (\<exists>t'. SPLAY_MIN node t = Some (hd_ptr zs, t') \<and> sp_repr t' zs) \<and> (\<exists>t'. SPLAY_MAX node t = Some (last_ptr zs, t') \<and> sp_repr t' zs)"
  using SPLAY_FOREACH_repr [OF assms] SPLAY_MIN_MAX_repr [OF assms(1,3)] by blast

theorem SPLAY_FOREACH_in_order_witness:
  "\<exists>t t'. sp_repr t [4, 7, 9] \<and> SPLAY_FOREACH 0 (\<lambda>a. cmp_by id (id a)) t = Some ([4, 7, 9], t')"
proof -
  obtain t where t: "sp_repr t [4, 7, 9]" using splay3 by blast
  from SPLAY_FOREACH_in_order [OF t, of id 0] t show ?thesis by auto
qed

end
