(* ===== verification/Minheap.thy ===== *)
theory Minheap
  imports Prelude "HOL-Library.Multiset"
begin

section \<open>The minimum heap of \<^verbatim>\<open>lthread_heap.h\<close>\<close>

text \<open>
  The array heap of \<open>src/src/lthread_heap.h\<close>. The array is a list as long as its capacity; the
  slots from \<open>count\<close> on hold whatever the allocator left there (the parameter \<open>junk\<close>), and whether
  the allocator can serve a request of \<open>n\<close> nodes is the parameter \<open>alloc\<close>. An access outside of the
  array is the result \<open>None\<close>. A \<open>size_t\<close> is a \<open>nat\<close>: an array of nodes fits into the address space, so
  its indices do not wrap, apart from the decrement of \<open>count\<close> in a pop of an empty heap, which is
  such an access.
\<close>

record heap_node =
  hn_data :: addr
  hn_key  :: u64

record min_heap =
  h_arr      :: "heap_node list"
  h_count    :: nat
  h_capacity :: nat

subsection \<open>Operations\<close>

definition lthread_min_heap_create :: "(nat \<Rightarrow> bool) \<Rightarrow> heap_node \<Rightarrow> nat \<Rightarrow> min_heap option" where
  "lthread_min_heap_create alloc junk capacity =
     (if alloc capacity
      then Some \<lparr>h_arr = replicate capacity junk, h_count = 0, h_capacity = capacity\<rparr>
      else None)"

definition swap_nodes :: "nat \<Rightarrow> nat \<Rightarrow> heap_node list \<Rightarrow> heap_node list" where
  "swap_nodes i j arr = arr[i := arr ! j, j := arr ! i]"

fun heapify_bottom_top :: "heap_node list \<Rightarrow> nat \<Rightarrow> heap_node list" where
  "heapify_bottom_top arr index =
     (if index = 0 then arr
      else let parent_node = (index - 1) div 2
           in if hn_key (arr ! parent_node) \<le> hn_key (arr ! index) then arr
              else heapify_bottom_top (swap_nodes parent_node index arr) parent_node)"

declare heapify_bottom_top.simps [simp del]

definition heap_min_child :: "heap_node list \<Rightarrow> nat \<Rightarrow> nat \<Rightarrow> nat" where
  "heap_min_child arr cnt parent_node =
     (let left = parent_node * 2 + 1;
          right = parent_node * 2 + 2;
          m = (if left < cnt \<and> hn_key (arr ! left) < hn_key (arr ! parent_node) then left else parent_node)
      in if right < cnt \<and> hn_key (arr ! right) < hn_key (arr ! m) then right else m)"

partial_function (option) heapify_top_bottom :: "nat \<Rightarrow> heap_node list \<Rightarrow> nat \<Rightarrow> heap_node list option" where
  "heapify_top_bottom cnt arr parent_node =
     (let m = heap_min_child arr cnt parent_node
      in if m = parent_node then Some arr
         else do {
           arr \<leftarrow> heapify_top_bottom cnt (swap_nodes m parent_node arr) m;
           heapify_top_bottom cnt arr parent_node
         })"

declare heapify_top_bottom.simps [code]

definition lthread_min_heap_insert ::
  "(nat \<Rightarrow> bool) \<Rightarrow> heap_node \<Rightarrow> heap_node \<Rightarrow> min_heap \<Rightarrow> min_heap option" where
  "lthread_min_heap_insert alloc junk node h = do {
     h \<leftarrow> (if h_count h = h_capacity h then
             (let capacity = h_capacity h + (h_capacity h + 1) div 2
              in if alloc capacity
                 then Some (h\<lparr>h_capacity := capacity,
                              h_arr := h_arr h @ replicate (capacity - length (h_arr h)) junk\<rparr>)
                 else None)
           else Some h);
     if h_count h < length (h_arr h)
     then let arr = (h_arr h)[h_count h := node]
          in Some (h\<lparr>h_arr := heapify_bottom_top arr (h_count h), h_count := h_count h + 1\<rparr>)
     else None
   }"

definition lthread_min_heap_pop :: "min_heap \<Rightarrow> (heap_node \<times> min_heap) option" where
  "lthread_min_heap_pop h =
     (if h_count h = 0 \<or> length (h_arr h) < h_count h then None
      else do {
        let pop = h_arr h ! 0;
        let cnt = h_count h - 1;
        arr \<leftarrow> heapify_top_bottom cnt ((h_arr h)[0 := h_arr h ! cnt]) 0;
        Some (pop, h\<lparr>h_arr := arr, h_count := cnt\<rparr>)
      })"

subsection \<open>The heap order\<close>

abbreviation hkey :: "heap_node list \<Rightarrow> nat \<Rightarrow> u64" where
  "hkey arr i \<equiv> hn_key (arr ! i)"

definition parent_of :: "nat \<Rightarrow> nat" where
  "parent_of i = (i - 1) div 2"

definition heap_ordered :: "heap_node list \<Rightarrow> nat \<Rightarrow> bool" where
  "heap_ordered arr n \<longleftrightarrow> (\<forall>i < n. i \<noteq> 0 \<longrightarrow> hkey arr (parent_of i) \<le> hkey arr i)"

definition heap_inv :: "min_heap \<Rightarrow> bool" where
  "heap_inv h \<longleftrightarrow> h_count h \<le> h_capacity h \<and> length (h_arr h) = h_capacity h \<and>
     heap_ordered (h_arr h) (h_count h)"

definition heap_elems :: "min_heap \<Rightarrow> heap_node multiset" where
  "heap_elems h = mset (take (h_count h) (h_arr h))"

lemma parent_of_less [simp]: "i \<noteq> 0 \<Longrightarrow> parent_of i < i"
  by (auto simp: parent_of_def)

lemma parent_of_eq: "i \<noteq> 0 \<Longrightarrow> parent_of i = p \<longleftrightarrow> i = 2 * p + 1 \<or> i = 2 * p + 2"
  by (auto simp: parent_of_def)

lemma heap_root_least:
  "heap_ordered arr n \<Longrightarrow> i < n \<Longrightarrow> hkey arr 0 \<le> hkey arr i"
proof (induction i rule: less_induct)
  case (less i)
  show ?case
  proof (cases "i = 0")
    case False
    with less have "hkey arr 0 \<le> hkey arr (parent_of i)" by simp
    with False less.prems show ?thesis by (auto simp: heap_ordered_def intro: order_trans)
  qed simp
qed

lemma length_swap [simp]: "length (swap_nodes i j arr) = length arr"
  by (simp add: swap_nodes_def)

lemma nth_swap:
  "i < length arr \<Longrightarrow> j < length arr \<Longrightarrow>
   swap_nodes i j arr ! k = (if k = j then arr ! i else if k = i then arr ! j else arr ! k)"
  by (auto simp: swap_nodes_def nth_list_update)

lemma mset_take_swap:
  assumes "i < n" "j < n" "n \<le> length arr"
  shows "mset (take n (swap_nodes i j arr)) = mset (take n arr)"
proof -
  have "take n (swap_nodes i j arr) = (take n arr)[i := take n arr ! j, j := take n arr ! i]"
    using assms by (simp add: swap_nodes_def take_update_swap)
  then show ?thesis using assms mset_swap [of j "take n arr" i] by simp
qed

subsection \<open>Moving a node up\<close>

text \<open>The order holds except between \<open>p\<close> and its parent.\<close>

definition ordered_above :: "heap_node list \<Rightarrow> nat \<Rightarrow> nat \<Rightarrow> bool" where
  "ordered_above arr n p \<longleftrightarrow>
     (\<forall>i < n. i \<noteq> 0 \<longrightarrow> i \<noteq> p \<longrightarrow> hkey arr (parent_of i) \<le> hkey arr i) \<and>
     (\<forall>i < n. i \<noteq> 0 \<longrightarrow> parent_of i = p \<longrightarrow> p \<noteq> 0 \<longrightarrow> hkey arr (parent_of p) \<le> hkey arr i)"

lemma ordered_above_swap:
  assumes "ordered_above arr n p" "p \<noteq> 0" "p < n" "n \<le> length arr" "hkey arr p < hkey arr (parent_of p)"
  shows "ordered_above (swap_nodes (parent_of p) p arr) n (parent_of p)"
proof -
  let ?q = "parent_of p" and ?a = "swap_nodes (parent_of p) p arr"
  have q: "?q < p" "?q < length arr" "p < length arr" using assms(2-4) parent_of_less [of p] by linarith+
  have k: "hkey ?a i = (if i = p then hkey arr ?q else if i = ?q then hkey arr p else hkey arr i)" for i
    using q by (simp add: nth_swap)
  have ord: "hkey arr (parent_of i) \<le> hkey arr i" if "i < n" "i \<noteq> 0" "i \<noteq> p" for i
    using assms(1) that by (auto simp: ordered_above_def)
  have up: "hkey arr ?q \<le> hkey arr i" if "i < n" "i \<noteq> 0" "parent_of i = p" for i
    using assms(1,2) that by (auto simp: ordered_above_def)
  have "hkey ?a (parent_of i) \<le> hkey ?a i" if i: "i < n" "i \<noteq> 0" "i \<noteq> ?q" for i
  proof -
    consider "i = p" | "parent_of i = p" | "parent_of i = ?q" "i \<noteq> p" | "i \<noteq> p" "parent_of i \<noteq> p" "parent_of i \<noteq> ?q"
      by blast
    then show ?thesis
      using i ord [of i] up [of i] assms(5) q(1) parent_of_less [of i] by cases (auto simp: k)
  qed
  moreover have "hkey ?a (parent_of ?q) \<le> hkey ?a i" if i: "i < n" "i \<noteq> 0" "parent_of i = ?q" "?q \<noteq> 0" for i
  proof -
    have r: "parent_of ?q < ?q" using i(4) by simp
    have "hkey arr (parent_of ?q) \<le> hkey arr ?q" using ord [of ?q] q(1) assms(3) i(4) by simp
    then show ?thesis using ord [of i] i q(1) r by (auto simp: k intro: order_trans)
  qed
  ultimately show ?thesis by (auto simp: ordered_above_def)
qed

lemma heapify_bottom_top_ok:
  assumes "ordered_above arr n p" "p < n" "n \<le> length arr"
  shows "heap_ordered (heapify_bottom_top arr p) n \<and>
    mset (take n (heapify_bottom_top arr p)) = mset (take n arr) \<and>
    length (heapify_bottom_top arr p) = length arr"
  using assms
proof (induction arr p rule: heapify_bottom_top.induct)
  case (1 arr p)
  show ?case
  proof (cases "p = 0 \<or> hkey arr (parent_of p) \<le> hkey arr p")
    case True
    then have "heapify_bottom_top arr p = arr"
      by (auto simp: heapify_bottom_top.simps [of arr p] parent_of_def Let_def)
    moreover have "heap_ordered arr n" using True "1.prems"(1) by (auto simp: heap_ordered_def ordered_above_def)
    ultimately show ?thesis by simp
  next
    case False
    let ?a = "swap_nodes (parent_of p) p arr"
    have s: "heapify_bottom_top arr p = heapify_bottom_top ?a (parent_of p)"
      using False by (auto simp: heapify_bottom_top.simps [of arr p] parent_of_def Let_def)
    have q: "parent_of p < n" using "1.prems"(2) parent_of_less [of p] False by linarith
    have "ordered_above ?a n (parent_of p)" using False "1.prems" by (intro ordered_above_swap) auto
    then show ?thesis
      using "1.IH" [OF _ refl] False q "1.prems"(2,3) mset_take_swap [of "parent_of p" n p arr]
      by (simp add: s parent_of_def)
  qed
qed

subsection \<open>Moving a node down\<close>

text \<open>The order holds except between \<open>p\<close> and its children.\<close>

definition ordered_below :: "heap_node list \<Rightarrow> nat \<Rightarrow> nat \<Rightarrow> bool" where
  "ordered_below arr n p \<longleftrightarrow>
     (\<forall>i < n. i \<noteq> 0 \<longrightarrow> parent_of i \<noteq> p \<longrightarrow> hkey arr (parent_of i) \<le> hkey arr i) \<and>
     (\<forall>i < n. i \<noteq> 0 \<longrightarrow> parent_of i = p \<longrightarrow> p \<noteq> 0 \<longrightarrow> hkey arr (parent_of p) \<le> hkey arr i)"

lemma heap_min_child_cases:
  assumes "heap_min_child arr n p = m"
  shows "m = p \<and> (\<forall>i < n. i \<noteq> 0 \<longrightarrow> parent_of i = p \<longrightarrow> hkey arr p \<le> hkey arr i) \<or>
    m < n \<and> m \<noteq> 0 \<and> parent_of m = p \<and> p < m \<and> hkey arr m < hkey arr p \<and>
      (\<forall>i < n. i \<noteq> 0 \<longrightarrow> parent_of i = p \<longrightarrow> hkey arr m \<le> hkey arr i)"
  using assms by (auto simp: heap_min_child_def Let_def parent_of_eq mult.commute split: if_splits)

lemma ordered_below_swap:
  assumes "ordered_below arr n p" "m < n" "m \<noteq> 0" "parent_of m = p" "n \<le> length arr"
    and least: "\<forall>i < n. i \<noteq> 0 \<longrightarrow> parent_of i = p \<longrightarrow> hkey arr m \<le> hkey arr i"
    and less: "hkey arr m < hkey arr p"
  shows "ordered_below (swap_nodes m p arr) n m"
proof -
  let ?a = "swap_nodes m p arr"
  have p: "p < m" "p < length arr" "m < length arr" using assms(2-5) parent_of_less [of m] by auto
  have k: "hkey ?a i = (if i = p then hkey arr m else if i = m then hkey arr p else hkey arr i)" for i
    using p by (simp add: nth_swap)
  have ord: "hkey arr (parent_of i) \<le> hkey arr i" if "i < n" "i \<noteq> 0" "parent_of i \<noteq> p" for i
    using assms(1) that by (auto simp: ordered_below_def)
  have "hkey ?a (parent_of i) \<le> hkey ?a i" if i: "i < n" "i \<noteq> 0" "parent_of i \<noteq> m" for i
  proof (cases "parent_of i = p")
    case True
    then show ?thesis using i least less p(1) parent_of_less [of i] by (auto simp: k)
  next
    case False
    then have "i \<noteq> m" using assms(4) by auto
    moreover have "i = p \<Longrightarrow> hkey arr (parent_of p) \<le> hkey arr m"
      using assms(1-4) i(2) by (auto simp: ordered_below_def)
    ultimately show ?thesis using i False ord [of i] by (auto simp: k)
  qed
  moreover have "hkey ?a p \<le> hkey ?a i" if i: "i < n" "i \<noteq> 0" "parent_of i = m" for i
    using ord [of i] i p(1) parent_of_less [of i] by (auto simp: k)
  ultimately show ?thesis using assms(4) by (auto simp: ordered_below_def)
qed

lemma heapify_top_bottom_ok:
  assumes "ordered_below arr n p" "n \<le> length arr"
  shows "\<exists>arr'. heapify_top_bottom n arr p = Some arr' \<and> heap_ordered arr' n \<and>
    mset (take n arr') = mset (take n arr) \<and> length arr' = length arr"
  using assms
proof (induction "n - p" arbitrary: arr p rule: less_induct)
  case less
  have stop: "heapify_top_bottom n arr p = Some arr" if "heap_ordered arr n" for arr p
  proof -
    have "heap_min_child arr n p = p"
      using heap_min_child_cases [OF refl, of arr n p] that by (fastforce simp: heap_ordered_def)
    then show ?thesis by (subst heapify_top_bottom.simps) (simp add: Let_def)
  qed
  consider (stays) "heap_min_child arr n p = p" "\<forall>i < n. i \<noteq> 0 \<longrightarrow> parent_of i = p \<longrightarrow> hkey arr p \<le> hkey arr i"
    | (down) m where "heap_min_child arr n p = m" "m < n" "m \<noteq> 0" "parent_of m = p" "p < m"
        "hkey arr m < hkey arr p" "\<forall>i < n. i \<noteq> 0 \<longrightarrow> parent_of i = p \<longrightarrow> hkey arr m \<le> hkey arr i"
    using heap_min_child_cases [OF refl, of arr n p] by metis
  then show ?case
  proof cases
    case stays
    then have "heap_ordered arr n" using less.prems(1) by (auto simp: heap_ordered_def ordered_below_def)
    with stop show ?thesis by blast
  next
    case (down m)
    have "ordered_below (swap_nodes m p arr) n m" by (rule ordered_below_swap) (use down less.prems in auto)
    then obtain arr' where a: "heapify_top_bottom n (swap_nodes m p arr) m = Some arr'" "heap_ordered arr' n"
      "mset (take n arr') = mset (take n (swap_nodes m p arr))" "length arr' = length arr"
      using less.hyps [of m "swap_nodes m p arr"] less.prems(2) diff_less_mono2 [OF down(5)] down(2,5)
      by fastforce
    have "heapify_top_bottom n arr p = heapify_top_bottom n arr' p"
      using a(1) down(1,5) by (subst heapify_top_bottom.simps) (simp add: Let_def)
    with stop [OF a(2)] a mset_take_swap [of m n p arr] down less.prems(2) show ?thesis by auto
  qed
qed


subsection \<open>The contract of a priority queue\<close>

text \<open>Popping \<open>n\<close> times, and pushing the elements of a list one after the other.\<close>

fun drain :: "('q \<Rightarrow> ('e \<times> 'q) option) \<Rightarrow> nat \<Rightarrow> 'q \<Rightarrow> 'e list option" where
  "drain pop 0 q = Some []"
| "drain pop (Suc n) q = Option.bind (pop q) (\<lambda>(e, q'). map_option (Cons e) (drain pop n q'))"

fun push_all :: "('e \<Rightarrow> 'q \<Rightarrow> 'q option) \<Rightarrow> 'e list \<Rightarrow> 'q \<Rightarrow> 'q option" where
  "push_all push [] q = Some q"
| "push_all push (e # es) q = Option.bind (push e q) (push_all push es)"

locale priority_queue =
  fixes inv :: "'q \<Rightarrow> bool"
    and elems :: "'q \<Rightarrow> 'e multiset"
    and prio :: "'e \<Rightarrow> 'k::linorder"
    and push :: "'e \<Rightarrow> 'q \<Rightarrow> 'q option"
    and pop :: "'q \<Rightarrow> ('e \<times> 'q) option"
    and room :: "'q \<Rightarrow> bool"
  assumes push_ok: "inv q \<Longrightarrow> room q \<Longrightarrow>
      \<exists>q'. push e q = Some q' \<and> inv q' \<and> elems q' = add_mset e (elems q)"
    and push_room: "inv q \<Longrightarrow> room q \<Longrightarrow> push e q = Some q' \<Longrightarrow> room q'"
    and pop_ok: "inv q \<Longrightarrow> elems q \<noteq> {#} \<Longrightarrow>
      \<exists>e q'. pop q = Some (e, q') \<and> inv q' \<and> elems q = add_mset e (elems q') \<and>
        (\<forall>x \<in># elems q. prio e \<le> prio x)"
begin

lemma push_all_ok:
  "inv q \<Longrightarrow> room q \<Longrightarrow> \<exists>q'. push_all push es q = Some q' \<and> inv q' \<and> elems q' = elems q + mset es"
proof (induction es arbitrary: q)
  case (Cons e es)
  obtain q' where q': "push e q = Some q'" "inv q'" "elems q' = add_mset e (elems q)"
    using push_ok [OF Cons.prems] by blast
  with Cons.IH [OF q'(2) push_room [OF Cons.prems q'(1)]] show ?case by auto
qed simp

lemma drain_ok:
  "inv q \<Longrightarrow> \<exists>es. drain pop (size (elems q)) q = Some es \<and> mset es = elems q \<and> sorted (map prio es)"
proof (induction "size (elems q)" arbitrary: q)
  case (Suc n)
  then have "elems q \<noteq> {#}" by auto
  then obtain e q' where q': "pop q = Some (e, q')" "inv q'" "elems q = add_mset e (elems q')"
    "\<forall>x \<in># elems q. prio e \<le> prio x"
    using pop_ok [OF Suc.prems] by blast
  then have n: "size (elems q') = n" using Suc.hyps(2) by simp
  with Suc.hyps(1) [of q'] q'(2) obtain es where "drain pop n q' = Some es" "mset es = elems q'" "sorted (map prio es)"
    by auto
  with q' n show ?case by (auto simp flip: set_mset_mset)
qed simp

end

text \<open>Inserting succeeds when there is room or the array can grow: the capacity is not 0 (from which it
  would not grow) and the allocator serves the request.\<close>

lemma heap_insert_ok:
  assumes "heap_inv h" "h_capacity h \<noteq> 0" "alloc (h_capacity h + (h_capacity h + 1) div 2)"
  shows "\<exists>h'. lthread_min_heap_insert alloc junk node h = Some h' \<and> heap_inv h' \<and>
    heap_elems h' = add_mset node (heap_elems h) \<and> h_capacity h \<le> h_capacity h'"
proof -
  define cap where "cap = (if h_count h = h_capacity h then h_capacity h + (h_capacity h + 1) div 2 else h_capacity h)"
  define ext where "ext = h_arr h @ replicate (cap - h_capacity h) junk"
  let ?n = "h_count h" and ?a = "ext[h_count h := node]"
  have inv: "?n \<le> h_capacity h" "length (h_arr h) = h_capacity h" "heap_ordered (h_arr h) ?n"
    using assms(1) by (auto simp: heap_inv_def)
  have len: "length ext = cap" "h_capacity h \<le> cap" using inv(2) by (auto simp: ext_def cap_def)
  have lt: "?n < cap" using inv(1) assms(2) by (auto simp: cap_def)
  have ins: "lthread_min_heap_insert alloc junk node h =
      Some (h\<lparr>h_capacity := cap, h_arr := heapify_bottom_top ?a ?n, h_count := ?n + 1\<rparr>)"
    using lt inv(1,2) assms(3) len
    by (cases "h_count h = h_capacity h") (auto simp: lthread_min_heap_insert_def cap_def ext_def Let_def)
  have old: "?a ! i = h_arr h ! i" if "i < ?n" for i
    using that inv(1,2) by (simp add: ext_def nth_append)
  have "ordered_above ?a (Suc ?n) ?n"
    using inv(3) parent_of_less old unfolding ordered_above_def heap_ordered_def
    by (metis less_SucE less_trans not_less_eq)
  from heapify_bottom_top_ok [OF this] lt len
  have hb: "heap_ordered (heapify_bottom_top ?a ?n) (Suc ?n)" "length (heapify_bottom_top ?a ?n) = cap"
    "mset (take (Suc ?n) (heapify_bottom_top ?a ?n)) = mset (take (Suc ?n) ?a)" by simp_all
  have "take (Suc ?n) ?a = take ?n (h_arr h) @ [node]"
    using lt len inv(1,2) by (simp add: take_Suc_conv_app_nth ext_def)
  with hb ins lt len show ?thesis by (auto simp: heap_inv_def heap_elems_def)
qed

lemma heap_pop_ok:
  assumes "heap_inv h" "h_count h \<noteq> 0"
  shows "\<exists>e h'. lthread_min_heap_pop h = Some (e, h') \<and> heap_inv h' \<and> h_count h' = h_count h - 1 \<and>
    heap_elems h = add_mset e (heap_elems h') \<and> (\<forall>x \<in># heap_elems h. hn_key e \<le> hn_key x)"
proof -
  let ?n = "h_count h - 1" and ?a = "h_arr h"
  let ?b = "?a[0 := ?a ! ?n]"
  have inv: "h_count h \<le> length ?a" "length ?a = h_capacity h" "heap_ordered ?a (h_count h)"
    using assms(1) by (auto simp: heap_inv_def)
  have b: "?b ! i = (if i = 0 then ?a ! ?n else ?a ! i)" for i using inv(1) assms(2) by (cases ?a) (auto simp: nth_Cons')
  have "ordered_below ?b ?n 0"
    using inv(3) by (auto simp: ordered_below_def heap_ordered_def b)
  then obtain arr where arr: "heapify_top_bottom ?n ?b 0 = Some arr" "heap_ordered arr ?n"
    "mset (take ?n arr) = mset (take ?n ?b)" "length arr = length ?a"
    using heapify_top_bottom_ok [of ?b ?n 0] le_trans [OF diff_le_self inv(1)] by auto
  have "mset (take (h_count h) ?a) = add_mset (?a ! 0) (mset (take ?n ?b))"
  proof (cases "?n = 0")
    case True
    then have "h_count h = 1" using assms(2) by simp
    then show ?thesis using inv(1) by (cases ?a) auto
  next
    case False
    then obtain m where m: "h_count h = Suc (Suc m)" by (metis Suc_pred assms(2) diff_Suc_1 neq0_conv)
    obtain a as where a: "?a = a # as" using inv(1) assms(2) by (cases ?a) auto
    then have "take (Suc m) as = take m as @ [as ! m]" using m inv(1) by (intro take_Suc_conv_app_nth) simp
    then show ?thesis using a m by simp
  qed
  then have ms: "heap_elems h = add_mset (?a ! 0) (mset (take ?n arr))" using arr(3) by (simp add: heap_elems_def)
  have least: "\<forall>x \<in># heap_elems h. hn_key (?a ! 0) \<le> hn_key x"
    using heap_root_least [OF inv(3)] by (auto simp: heap_elems_def in_set_conv_nth)
  have pop: "lthread_min_heap_pop h = Some (?a ! 0, h\<lparr>h_arr := arr, h_count := ?n\<rparr>)"
    using arr(1) inv(1) assms(2) by (simp add: lthread_min_heap_pop_def Let_def)
  have "heap_inv (h\<lparr>h_arr := arr, h_count := ?n\<rparr>)" "heap_elems (h\<lparr>h_arr := arr, h_count := ?n\<rparr>) = mset (take ?n arr)"
    using arr(2,4) inv(1,2) by (simp_all add: heap_inv_def heap_elems_def)
  with pop ms least show ?thesis by auto
qed

interpretation mh: priority_queue heap_inv heap_elems hn_key
  "lthread_min_heap_insert (\<lambda>_. True) junk" lthread_min_heap_pop "\<lambda>h. h_capacity h \<noteq> 0" for junk
proof
  fix h e h'
  assume h: "heap_inv h"
  { assume c: "h_capacity h \<noteq> 0"
    note ins = heap_insert_ok [OF h c, of "\<lambda>_. True" junk e]
    show "\<exists>h'. lthread_min_heap_insert (\<lambda>_. True) junk e h = Some h' \<and> heap_inv h' \<and>
        heap_elems h' = add_mset e (heap_elems h)"
      using ins by auto
    show "h_capacity h' \<noteq> 0" if "lthread_min_heap_insert (\<lambda>_. True) junk e h = Some h'"
      using ins that c by auto }
  assume "heap_elems h \<noteq> {#}"
  then have "h_count h \<noteq> 0" by (auto simp: heap_elems_def)
  then show "\<exists>e h'. lthread_min_heap_pop h = Some (e, h') \<and> heap_inv h' \<and>
      heap_elems h = add_mset e (heap_elems h') \<and> (\<forall>x \<in># heap_elems h. hn_key e \<le> hn_key x)"
    using heap_pop_ok [OF h] by blast
qed


subsection \<open>Properties of the heap\<close>

definition hn :: "nat \<Rightarrow> heap_node" where
  "hn k = \<lparr>hn_data = k, hn_key = of_nat k\<rparr>"

definition heap3 :: min_heap where
  "heap3 = \<lparr>h_arr = [hn 1, hn 4, hn 2], h_count = 3, h_capacity = 3\<rparr>"

lemma heap3_inv: "heap_inv heap3"
  by (simp add: heap_inv_def heap3_def heap_ordered_def parent_of_def hn_def numeral_3_eq_3 All_less_Suc)

text \<open>Inserting a node keeps the heap order and adds exactly that node, growing the array when it is
  full, provided the capacity is not 0 and the allocator serves the request.\<close>

theorem heap_insert_adds:
  assumes "heap_inv h" "h_capacity h \<noteq> 0" "alloc (h_capacity h + (h_capacity h + 1) div 2)"
  shows "\<exists>h'. lthread_min_heap_insert alloc junk node h = Some h' \<and> heap_inv h' \<and>
    heap_elems h' = add_mset node (heap_elems h)"
  using heap_insert_ok [of h alloc junk node] assms by blast

theorem heap_insert_adds_witness:
  "\<exists>h'. lthread_min_heap_insert (\<lambda>_. True) (hn 0) (hn 3) heap3 = Some h' \<and> heap_inv h' \<and>
     heap_elems h' = {#hn 3, hn 1, hn 4, hn 2#}"
  using heap_insert_adds [OF heap3_inv, of "\<lambda>_. True" "hn 0" "hn 3"] by (auto simp: heap3_def heap_elems_def)

text \<open>A pop of a heap that is not empty ends (the loop calls itself and then tests the same node
  again), returns a node of least key, removes exactly that node and keeps the heap order.\<close>

theorem heap_pop_least:
  assumes "heap_inv h" "h_count h \<noteq> 0"
  shows "\<exists>e h'. lthread_min_heap_pop h = Some (e, h') \<and> heap_inv h' \<and> h_count h' = h_count h - 1 \<and>
    heap_elems h = add_mset e (heap_elems h') \<and> (\<forall>x \<in># heap_elems h. hn_key e \<le> hn_key x)"
  by (rule heap_pop_ok [OF assms])

theorem heap_pop_least_witness:
  "\<exists>e h'. lthread_min_heap_pop heap3 = Some (e, h') \<and> heap_inv h' \<and> h_count h' = 2 \<and>
     (\<forall>x \<in> {hn 1, hn 4, hn 2}. hn_key e \<le> hn_key x)"
  using heap_pop_least [OF heap3_inv] by (auto simp: heap3_def heap_elems_def)

text \<open>(C27) A heap sorts. With an allocator that always serves, nodes pushed into a new heap whose capacity is not 0 come out in the order
  of their keys: the pops return a sorted permutation of what was inserted, however often the array has to grow. With capacity 0 the first
  insertion writes outside of the array.\<close>

theorem heap_sorts:
  "\<exists>h. lthread_min_heap_create (\<lambda>_. True) junk capacity = Some h \<and>
    (if capacity \<noteq> 0 then
       \<exists>h' es'. push_all (lthread_min_heap_insert (\<lambda>_. True) junk) es h = Some h' \<and>
         drain lthread_min_heap_pop (length es) h' = Some es' \<and> mset es' = mset es \<and> sorted (map hn_key es')
     else es \<noteq> [] \<longrightarrow> push_all (lthread_min_heap_insert (\<lambda>_. True) junk) es h = None)"
proof -
  let ?h = "\<lparr>h_arr = replicate capacity junk, h_count = 0, h_capacity = capacity\<rparr>"
  have new: "lthread_min_heap_create (\<lambda>_. True) junk capacity = Some ?h" by (simp add: lthread_min_heap_create_def)
  show ?thesis
  proof (cases "capacity = 0")
    case True
    then have "lthread_min_heap_insert (\<lambda>_. True) junk e ?h = None" for e by (simp add: lthread_min_heap_insert_def Let_def)
    with new True show ?thesis by (cases es) auto
  next
    case False
    have "heap_inv ?h" "heap_elems ?h = {#}" by (simp_all add: heap_inv_def heap_ordered_def heap_elems_def)
    with mh.push_all_ok [of ?h junk es] False obtain h' where
      h': "push_all (lthread_min_heap_insert (\<lambda>_. True) junk) es ?h = Some h'" "heap_inv h'" "heap_elems h' = mset es"
      by auto
    with mh.drain_ok [of h'] new False show ?thesis by auto
  qed
qed

theorem heap_sorts_witness:
  "\<exists>h h' es'. lthread_min_heap_create (\<lambda>_. True) (hn 0) 1 = Some h \<and>
    push_all (lthread_min_heap_insert (\<lambda>_. True) (hn 0)) [hn 3, hn 1, hn 2] h = Some h' \<and>
    drain lthread_min_heap_pop 3 h' = Some es' \<and> mset es' = {#hn 1, hn 2, hn 3#} \<and> sorted (map hn_key es')"
  using heap_sorts [of "hn 0" 1 "[hn 3, hn 1, hn 2]"] by (auto simp: numeral_3_eq_3 add_mset_commute)

text \<open>A heap created with capacity 0 cannot be used: the array never grows from 0, and the first
  insertion writes outside of it.\<close>

theorem heap_capacity_zero:
  "lthread_min_heap_create (\<lambda>_. True) junk 0 = Some h \<longrightarrow> lthread_min_heap_insert alloc junk node h = None"
  by (auto simp: lthread_min_heap_create_def lthread_min_heap_insert_def Let_def)

theorem heap_capacity_zero_witness:
  "\<exists>h. lthread_min_heap_create (\<lambda>_. True) (hn 0) 0 = Some h \<and>
     lthread_min_heap_insert (\<lambda>_. True) (hn 0) (hn 5) h = None"
  using heap_capacity_zero [of "hn 0"] by (simp add: lthread_min_heap_create_def)

end
