(* ===== verification/Lthread_State.thy ===== *)
theory Lthread_State
  imports Tailq Rbtree_Spec
begin

section \<open>The structures of \<^verbatim>\<open>lthread_int.h\<close> and the shared state\<close>

text \<open>
  The records of \<open>src/src/lthread_int.h\<close>, \<open>lthread_poller.h\<close> and \<open>lthread_cond.c\<close>, and the state all
  operations work on. A structure is addressed by a number. The links of a \<open>struct lthread\<close>
  (\<open>sleep_node\<close>, \<open>wait_node\<close>, \<open>ready_next\<close>, \<open>blocked_next\<close>) are kept in one heap per field, shared by
  all the trees and queues threaded through that field; freed lthreads have no entry in \<open>lts\<close>, so
  reading one is \<open>Undefined\<close>. Mutexes are the set of those held: locking one that is held is the
  fault \<open>Would_block\<close>, which ends the operation where a thread would wait. The program is configured with
  \<open>USE_MINICORO 1\<close> and \<open>LTHREAD_TRACE 0\<close>; the coroutine itself belongs to the vendored \<open>minicoro\<close>.
\<close>

subsection \<open>Bits of the state word\<close>

definition BIT :: "nat \<Rightarrow> u32" where
  "BIT x = push_bit x 1"

definition CLEARBIT :: "nat \<Rightarrow> u32" where
  "CLEARBIT x = NOT (push_bit x 1)"

definition LT_ST_WAIT_READ :: nat where "LT_ST_WAIT_READ = 0"
definition LT_ST_WAIT_WRITE :: nat where "LT_ST_WAIT_WRITE = 1"
definition LT_ST_EXITED :: nat where "LT_ST_EXITED = 2"
definition LT_ST_SLEEPING :: nat where "LT_ST_SLEEPING = 3"
definition LT_ST_FDEOF :: nat where "LT_ST_FDEOF = 4"

lemmas st_defs [flag_simps] =
  LT_ST_WAIT_READ_def LT_ST_WAIT_WRITE_def LT_ST_EXITED_def LT_ST_SLEEPING_def LT_ST_FDEOF_def

definition has_flag :: "u32 \<Rightarrow> nat \<Rightarrow> bool" where
  "has_flag st x \<longleftrightarrow> st AND BIT x \<noteq> 0"

definition set_flag :: "nat \<Rightarrow> u32 \<Rightarrow> u32" where
  "set_flag x st = st OR BIT x"

definition clear_flag :: "nat \<Rightarrow> u32 \<Rightarrow> u32" where
  "clear_flag x st = st AND CLEARBIT x"

lemma bit_BIT: "bit (BIT x) n \<longleftrightarrow> n = x \<and> n < 32"
  by (auto simp: BIT_def bit_simps)

lemma has_flag_bit: "x < 32 \<Longrightarrow> has_flag st x \<longleftrightarrow> bit st x"
proof
  assume "has_flag st x"
  then obtain n where "bit (st AND BIT x) n" unfolding has_flag_def by (metis bit_eq_iff bit_0_eq bot_apply bot_bool_def)
  then show "bit st x" by (auto simp: bit_simps bit_BIT)
next
  assume "x < 32" "bit st x"
  then have "bit (st AND BIT x) x" by (simp add: bit_simps bit_BIT)
  then show "has_flag st x" unfolding has_flag_def by auto
qed

lemma has_flag_set [simp, flag_simps]:
  "x < 32 \<Longrightarrow> y < 32 \<Longrightarrow> has_flag (set_flag x st) y \<longleftrightarrow> y = x \<or> has_flag st y"
  by (auto simp: has_flag_bit set_flag_def bit_simps bit_BIT)

lemma has_flag_clear [simp, flag_simps]:
  "x < 32 \<Longrightarrow> y < 32 \<Longrightarrow> has_flag (clear_flag x st) y \<longleftrightarrow> y \<noteq> x \<and> has_flag st y"
  by (auto simp: has_flag_bit clear_flag_def CLEARBIT_def bit_simps)

lemma has_flag_0 [simp, flag_simps]: "\<not> has_flag 0 x"
  by (simp add: has_flag_def)

subsection \<open>Structures\<close>

record lthread =
  lt_fun        :: addr
  lt_arg        :: addr
  lt_state      :: u32
  lt_sched      :: ptr
  fd_wait       :: u16
  sleep_usecs   :: u64
  is_blocked    :: bool
  is_running    :: bool
  needs_resched :: bool

definition lthread_zero :: lthread where
  "lthread_zero = \<lparr>lt_fun = 0, lt_arg = 0, lt_state = 0, lt_sched = NULL, fd_wait = 0, sleep_usecs = 0,
     is_blocked = False, is_running = False, needs_resched = False\<rparr>"

datatype sched_block_state =
  LTHREAD_SCHED_WILL_BLOCK | LTHREAD_SCHED_WONT_BLOCK | LTHREAD_SCHED_IS_BLOCKING

record lthread_sched =
  sched_id          :: nat
  sched_stack_size  :: nat
  sched_page_size   :: nat
  default_timeout   :: u64
  current_lthread   :: ptr
  lthread_cache     :: "addr list"
  sched_neighbor    :: ptr
  block_state       :: sched_block_state
  sleeping_root     :: ptr

record lthread_pool =
  asleep         :: "bool list"
  num_schedulers :: nat
  pool_next      :: addr

record lthread_poller =
  poller_fd          :: int
  poller_eventfd     :: int
  waiting_root       :: ptr
  num_pending_events :: u64

record lthread_cond =
  cond_owner :: ptr

datatype mutex = Sched_mutex addr | Pool_mutex | Poller_mutex | Cond_mutex addr

record world =
  lts         :: "addr \<rightharpoonup> lthread"
  scheds      :: "addr \<Rightarrow> lthread_sched"
  conds       :: "addr \<rightharpoonup> lthread_cond"
  pool        :: lthread_pool
  poller      :: lthread_poller
  sleep_node  :: "addr \<Rightarrow> rb_entry"
  wait_node   :: "addr \<Rightarrow> rb_entry"
  ready_q     :: tailq
  blocked_q   :: tailq
  held        :: "mutex set"
  signalled   :: "addr set"

subsection \<open>Access\<close>

definition get_lt :: "addr \<Rightarrow> world \<Rightarrow> lthread res" where
  "get_lt a w = of_option (lts w a)"

definition upd_lt :: "addr \<Rightarrow> (lthread \<Rightarrow> lthread) \<Rightarrow> world \<Rightarrow> world res" where
  "upd_lt a f w = rbind (get_lt a w) (\<lambda>l. Inr (w\<lparr>lts := (lts w)(a \<mapsto> f l)\<rparr>))"

definition upd_sched :: "addr \<Rightarrow> (lthread_sched \<Rightarrow> lthread_sched) \<Rightarrow> world \<Rightarrow> world" where
  "upd_sched s f w = w\<lparr>scheds := (scheds w)(s := f (scheds w s))\<rparr>"

definition get_lt_sched :: "addr \<Rightarrow> world \<Rightarrow> addr res" where
  "get_lt_sched a w = rbind (get_lt a w) (\<lambda>l. of_option (lt_sched l))"

text \<open>The tree of the sleeping lthreads of a scheduler, and the tree of the waiting ones of the poller:
  the root of the head, the entries of the field.\<close>

definition sleeping :: "addr \<Rightarrow> world \<Rightarrow> rbtree" where
  "sleeping s w = \<lparr>rbh_root = sleeping_root (scheds w s), rbn = sleep_node w\<rparr>"

definition put_sleeping :: "addr \<Rightarrow> rbtree \<Rightarrow> world \<Rightarrow> world" where
  "put_sleeping s t w =
     (upd_sched s (sleeping_root_update (\<lambda>_. rbh_root t)) w)\<lparr>sleep_node := rbn t\<rparr>"

definition waiting :: "world \<Rightarrow> rbtree" where
  "waiting w = \<lparr>rbh_root = waiting_root (poller w), rbn = wait_node w\<rparr>"

definition put_waiting :: "rbtree \<Rightarrow> world \<Rightarrow> world" where
  "put_waiting t w = w\<lparr>poller := (poller w)\<lparr>waiting_root := rbh_root t\<rparr>, wait_node := rbn t\<rparr>"

subsection \<open>The mutex wrappers of \<^verbatim>\<open>lthread_mutex.h\<close>\<close>

definition lthread_mutex_lock :: "mutex \<Rightarrow> world \<Rightarrow> world res" where
  "lthread_mutex_lock m w =
     (if m \<in> held w then Inl (Would_block ''mutex'') else Inr (w\<lparr>held := insert m (held w)\<rparr>))"

definition lthread_mutex_unlock :: "mutex \<Rightarrow> world \<Rightarrow> world res" where
  "lthread_mutex_unlock m w =
     rbind (assert_that ''pthread_mutex_unlock'' (m \<in> held w)) (\<lambda>_. Inr (w\<lparr>held := held w - {m}\<rparr>))"

definition lthread_mutex_trylock :: "mutex \<Rightarrow> world \<Rightarrow> bool \<times> world" where
  "lthread_mutex_trylock m w =
     (if m \<in> held w then (False, w) else (True, w\<lparr>held := insert m (held w)\<rparr>))"

text \<open>The argument \<open>timeout_usec\<close> of \<open>lthread_os_cond_wait\<close>: 0 waits without a limit, another value is
  an absolute time that becomes a \<open>struct timespec\<close>.\<close>

definition lthread_os_cond_timespec :: "u64 \<Rightarrow> (u64 \<times> u64) option" where
  "lthread_os_cond_timespec timeout_usec =
     (if timeout_usec \<noteq> 0
      then Some (timeout_usec div 1000000, (timeout_usec mod 1000000) * 1000)
      else None)"

definition lthread_os_cond_signal :: "addr \<Rightarrow> world \<Rightarrow> world" where
  "lthread_os_cond_signal s w = w\<lparr>signalled := insert s (signalled w)\<rparr>"

text \<open>\<open>_lthread_usec_now\<close> on the \<open>struct timeval\<close> the system returns.\<close>

definition lthread_usec_now :: "int \<Rightarrow> int \<Rightarrow> u64" where
  "lthread_usec_now tv_sec tv_usec = word_of_int (tv_sec * 1000000 + tv_usec)"

subsection \<open>Laws of the access functions\<close>

lemma upd_lt_Some [simp, res_simps]:
  "lts w a = Some l \<Longrightarrow> upd_lt a f w = Inr (w\<lparr>lts := (lts w)(a \<mapsto> f l)\<rparr>)"
  by (simp add: upd_lt_def get_lt_def)

lemma get_lt_Some [simp, res_simps]: "lts w a = Some l \<Longrightarrow> get_lt a w = Inr l"
  by (simp add: get_lt_def)

lemma get_lt_sched_Some [simp, res_simps]:
  "lts w a = Some l \<Longrightarrow> lt_sched l = Some s \<Longrightarrow> get_lt_sched a w = Inr s"
  by (simp add: get_lt_sched_def)

lemma lock_free [simp, res_simps]:
  "m \<notin> held w \<Longrightarrow> lthread_mutex_lock m w = Inr (w\<lparr>held := insert m (held w)\<rparr>)"
  by (simp add: lthread_mutex_lock_def)

lemma unlock_held [simp, res_simps]:
  "m \<in> held w \<Longrightarrow> lthread_mutex_unlock m w = Inr (w\<lparr>held := held w - {m}\<rparr>)"
  by (simp add: lthread_mutex_unlock_def)

lemma upd_sched_sel [simp]:
  "scheds (upd_sched s f w) = (scheds w)(s := f (scheds w s))" "lts (upd_sched s f w) = lts w"
  "conds (upd_sched s f w) = conds w" "pool (upd_sched s f w) = pool w" "poller (upd_sched s f w) = poller w"
  "sleep_node (upd_sched s f w) = sleep_node w" "wait_node (upd_sched s f w) = wait_node w"
  "ready_q (upd_sched s f w) = ready_q w" "blocked_q (upd_sched s f w) = blocked_q w"
  "held (upd_sched s f w) = held w" "signalled (upd_sched s f w) = signalled w"
  by (simp_all add: upd_sched_def)

lemma put_sleeping_sel [simp]:
  "scheds (put_sleeping s t w) = (scheds w)(s := (scheds w s)\<lparr>sleeping_root := rbh_root t\<rparr>)"
  "lts (put_sleeping s t w) = lts w" "conds (put_sleeping s t w) = conds w" "pool (put_sleeping s t w) = pool w"
  "poller (put_sleeping s t w) = poller w" "sleep_node (put_sleeping s t w) = rbn t"
  "wait_node (put_sleeping s t w) = wait_node w" "ready_q (put_sleeping s t w) = ready_q w"
  "blocked_q (put_sleeping s t w) = blocked_q w" "held (put_sleeping s t w) = held w"
  "signalled (put_sleeping s t w) = signalled w"
  by (simp_all add: put_sleeping_def)

lemma put_waiting_sel [simp]:
  "scheds (put_waiting t w) = scheds w" "lts (put_waiting t w) = lts w" "conds (put_waiting t w) = conds w"
  "pool (put_waiting t w) = pool w" "poller (put_waiting t w) = (poller w)\<lparr>waiting_root := rbh_root t\<rparr>"
  "sleep_node (put_waiting t w) = sleep_node w" "wait_node (put_waiting t w) = rbn t"
  "ready_q (put_waiting t w) = ready_q w" "blocked_q (put_waiting t w) = blocked_q w"
  "held (put_waiting t w) = held w" "signalled (put_waiting t w) = signalled w"
  by (simp_all add: put_waiting_def)

lemma sleeping_put [simp]:
  "sleeping s (put_sleeping s t w) = t"
  by (simp add: sleeping_def)

lemma waiting_put [simp]: "waiting (put_waiting t w) = t"
  by (simp add: waiting_def)

end
