(* ===== verification/Sched.thy ===== *)
theory Sched
  imports Lthread_State
begin

section \<open>The scheduler of \<^verbatim>\<open>lthread.c\<close>\<close>

text \<open>
  The operations of \<open>src/src/lthread.c\<close>, in the order of the file's call graph. An operation gets the
  scheduler of the calling OS thread (\<open>_lthread_curent_sched\<close>) as \<open>me\<close> and the values the system
  returns (the clock, fresh memory) as arguments. An operation during which another coroutine runs is
  split at that point: \<open>_lthread_resume\<close> at \<open>mco_resume\<close>, \<open>_lthread_run_sched\<close> at
  \<open>lthread_os_cond_wait\<close>, and what an lthread calls ends where \<open>mco_yield\<close> suspends it.
\<close>

subsection \<open>Waking a scheduler\<close>

definition lthread_pool_begin_deep_sleep :: "addr \<Rightarrow> world \<Rightarrow> (bool \<times> world) res" where
  "lthread_pool_begin_deep_sleep s w =
     rbind (lthread_mutex_lock Pool_mutex w) (\<lambda>w.
     (let i = sched_id (scheds w s);
          p = (pool w)\<lparr>asleep := (asleep (pool w))[i := True]\<rparr>;
          all_done = list_all id (take (num_schedulers p) (asleep p))
      in rbind (lthread_mutex_unlock Pool_mutex (w\<lparr>pool := p\<rparr>)) (\<lambda>w. Inr (all_done, w))))"

definition lthread_pool_end_deep_sleep :: "addr \<Rightarrow> world \<Rightarrow> world res" where
  "lthread_pool_end_deep_sleep s w =
     rbind (lthread_mutex_lock Pool_mutex w) (\<lambda>w.
     (let i = sched_id (scheds w s);
          p = (pool w)\<lparr>asleep := (asleep (pool w))[i := False]\<rparr>
      in lthread_mutex_unlock Pool_mutex (w\<lparr>pool := p\<rparr>)))"

definition lthread_sched_wake_unsafe :: "addr \<Rightarrow> world \<Rightarrow> world res" where
  "lthread_sched_wake_unsafe s w =
     (case block_state (scheds w s) of
        LTHREAD_SCHED_WILL_BLOCK \<Rightarrow>
          Inr (upd_sched s (block_state_update (\<lambda>_. LTHREAD_SCHED_WONT_BLOCK)) w)
      | LTHREAD_SCHED_WONT_BLOCK \<Rightarrow> Inr w
      | LTHREAD_SCHED_IS_BLOCKING \<Rightarrow>
          rbind (lthread_pool_end_deep_sleep s w) (\<lambda>w. Inr (lthread_os_cond_signal s w)))"

definition lthread_sched_wake :: "addr \<Rightarrow> world \<Rightarrow> world res" where
  "lthread_sched_wake s w =
     rbind (lthread_mutex_lock (Sched_mutex s) w) (\<lambda>w.
     rbind (lthread_sched_wake_unsafe s w) (\<lambda>w.
     lthread_mutex_unlock (Sched_mutex s) w))"

subsection \<open>The ready queue\<close>

definition lthread_sched_push_ready_unsafe :: "addr \<Rightarrow> addr \<Rightarrow> world \<Rightarrow> world res" where
  "lthread_sched_push_ready_unsafe s lt w =
     rbind (get_lt_sched lt w) (\<lambda>own.
     rbind (if current_lthread (scheds w own) = Some lt
            then upd_lt lt (needs_resched_update (\<lambda>_. True)) w
            else Inr (w\<lparr>ready_q := TAILQ_INSERT_TAIL own lt (ready_q w)\<rparr>)) (\<lambda>w.
     lthread_sched_wake_unsafe s w))"

definition lthread_sched_push_ready :: "addr \<Rightarrow> addr \<Rightarrow> world \<Rightarrow> world res" where
  "lthread_sched_push_ready s lt w =
     rbind (lthread_mutex_lock (Sched_mutex s) w) (\<lambda>w.
     rbind (lthread_sched_push_ready_unsafe s lt w) (\<lambda>w.
     lthread_mutex_unlock (Sched_mutex s) w))"

definition lthread_pool_get_next :: "world \<Rightarrow> (addr \<times> world) res" where
  "lthread_pool_get_next w =
     rbind (lthread_mutex_lock Pool_mutex w) (\<lambda>w.
     (let next = pool_next (pool w);
          w = (case sched_neighbor (scheds w next) of
                 Some n \<Rightarrow> w\<lparr>pool := (pool w)\<lparr>pool_next := n\<rparr>\<rparr>
               | None \<Rightarrow> w)
      in rbind (lthread_mutex_unlock Pool_mutex w) (\<lambda>w. Inr (next, w))))"

definition lthread_pool_push_ready :: "addr \<Rightarrow> world \<Rightarrow> world res" where
  "lthread_pool_push_ready lt w =
     rbind (lthread_pool_get_next w) (\<lambda>(s, w). lthread_sched_push_ready s lt w)"

definition lthread_sched_pop_ready :: "addr \<Rightarrow> bool \<Rightarrow> world \<Rightarrow> (ptr \<times> world) res" where
  "lthread_sched_pop_ready s block w =
     rbind (if block then rbind (lthread_mutex_lock (Sched_mutex s) w) (\<lambda>w. Inr (True, w))
            else Inr (lthread_mutex_trylock (Sched_mutex s) w)) (\<lambda>(locked, w).
     if \<not> locked then Inr (NULL, w)
     else
       (let result = TAILQ_FIRST s (ready_q w);
            w = (case result of
                   Some lt \<Rightarrow> w\<lparr>ready_q := TAILQ_REMOVE s lt (ready_q w)\<rparr>
                 | None \<Rightarrow> w)
        in rbind (lthread_mutex_unlock (Sched_mutex s) w) (\<lambda>w. Inr (result, w))))"

text \<open>The loop over the other schedulers of the ring; the result \<open>None\<close> of the whole is a ring that
  does not lead back.\<close>

partial_function (option) pop_ready_ring ::
  "addr \<Rightarrow> ptr \<Rightarrow> ptr \<Rightarrow> world \<Rightarrow> (ptr \<times> world) res option" where
  "pop_ready_ring s i result w =
     (if result \<noteq> NULL \<or> i = Some s then Some (Inr (result, w))
      else (case i of
              None \<Rightarrow> Some (Inl Undefined)
            | Some j \<Rightarrow>
                (case lthread_sched_pop_ready j False w of
                   Inl e \<Rightarrow> Some (Inl e)
                 | Inr (result, w) \<Rightarrow> pop_ready_ring s (sched_neighbor (scheds w j)) result w)))"

declare pop_ready_ring.simps [code]

definition returns :: "'a res option \<Rightarrow> 'a res" where
  "returns m = (case m of None \<Rightarrow> Inl Undefined | Some r \<Rightarrow> r)"

definition lthread_pop_ready :: "addr \<Rightarrow> world \<Rightarrow> (ptr \<times> world) res" where
  "lthread_pop_ready me w =
     rbind (lthread_sched_pop_ready me False w) (\<lambda>(result, w).
     rbind (returns (pop_ready_ring me (sched_neighbor (scheds w me)) result w)) (\<lambda>(result, w).
     rbind (if result = NULL then lthread_sched_pop_ready me True w else Inr (result, w)) (\<lambda>(result, w).
     (case result of
        None \<Rightarrow> Inr (NULL, w)
      | Some lt \<Rightarrow>
          rbind (if sched_neighbor (scheds w me) \<noteq> Some me
                 then rbind (of_option (sched_neighbor (scheds w me))) (\<lambda>n. lthread_sched_wake n w)
                 else Inr w) (\<lambda>w.
          rbind (upd_lt lt (lt_sched_update (\<lambda>_. Some me)) w) (\<lambda>w.
          Inr (Some lt, w)))))))"

subsection \<open>Creation and the end of an lthread\<close>

definition lthread_current :: "addr \<Rightarrow> world \<Rightarrow> addr res" where
  "lthread_current me w =
     rbind (assert_that ''sched->current_lthread != 0'' (current_lthread (scheds w me) \<noteq> NULL)) (\<lambda>_.
     of_option (current_lthread (scheds w me)))"

text \<open>\<open>_lthread_yield\<close> up to \<open>mco_yield\<close>.\<close>

definition i_lthread_yield :: "addr \<Rightarrow> world \<Rightarrow> world res" where
  "i_lthread_yield me w =
     rbind (lthread_current me w) (\<lambda>lt.
     rbind (get_lt lt w) (\<lambda>l.
     rbind (assert_that ''lt->sched == _lthread_curent_sched'' (lt_sched l = Some me)) (\<lambda>_.
     Inr w)))"

text \<open>\<open>_lthread_allocate\<close>: \<open>mem\<close> is what \<open>calloc\<close> returns, \<open>errno\<close> its error. The result is the return
  code and the new lthread.\<close>

definition lthread_allocate :: "ptr \<Rightarrow> int \<Rightarrow> addr \<Rightarrow> world \<Rightarrow> (int \<times> ptr \<times> world) res" where
  "lthread_allocate mem errno s w =
     (let cache = lthread_cache (scheds w s)
      in if cache \<noteq> [] then
           (let lt = last cache;
                w = upd_sched s (lthread_cache_update (\<lambda>_. butlast cache)) w
            in rbind (upd_lt lt (lt_sched_update (\<lambda>_. Some s)) w) (\<lambda>w. Inr (0, Some lt, w)))
         else
           (case mem of
              None \<Rightarrow> Inr (errno, NULL, w)
            | Some lt \<Rightarrow> Inr (0, Some lt, w\<lparr>lts := (lts w)(lt \<mapsto> lthread_zero\<lparr>lt_sched := Some s\<rparr>)\<rparr>)))"

definition lthread_create :: "ptr \<Rightarrow> int \<Rightarrow> addr \<Rightarrow> addr \<Rightarrow> ptr \<Rightarrow> world \<Rightarrow> (int \<times> ptr \<times> world) res" where
  "lthread_create mem errno f arg cur w =
     (case cur of
        None \<Rightarrow> Inr (- 1, NULL, w)
      | Some s \<Rightarrow>
          rbind (lthread_allocate mem errno s w) (\<lambda>(err, lt, w).
          if err \<noteq> 0 then Inr (err, NULL, w)
          else
            rbind (of_option lt) (\<lambda>lt.
            rbind (upd_lt lt (\<lambda>l. l\<lparr>is_running := False, is_blocked := False, lt_fun := f, lt_arg := arg\<rparr>) w) (\<lambda>w.
            rbind (lthread_sched_push_ready s lt w) (\<lambda>w.
            Inr (0, Some lt, w))))))"

definition lthread_spawn :: "ptr \<Rightarrow> int \<Rightarrow> addr \<Rightarrow> addr \<Rightarrow> ptr \<Rightarrow> world \<Rightarrow> (ptr \<times> world) res" where
  "lthread_spawn mem errno f arg cur w =
     rbind (lthread_create mem errno f arg cur w) (\<lambda>(res, result, w).
     if res \<noteq> 0 then Inr (NULL, w) else Inr (result, w))"

definition lthread_free :: "addr \<Rightarrow> world \<Rightarrow> world res" where
  "lthread_free lt w = rbind (get_lt lt w) (\<lambda>_. Inr (w\<lparr>lts := (lts w)(lt := None)\<rparr>))"

definition i_lthread_exit :: "addr \<Rightarrow> addr \<Rightarrow> world \<Rightarrow> world res" where
  "i_lthread_exit me lt w =
     rbind (upd_lt lt (lt_state_update (set_flag LT_ST_EXITED)) w) (\<lambda>w. i_lthread_yield me w)"

definition lthread_exit :: "addr \<Rightarrow> world \<Rightarrow> world res" where
  "lthread_exit me w = rbind (lthread_current me w) (\<lambda>lt. i_lthread_exit me lt w)"

text \<open>The first function of a coroutine: \<open>mco_entry\<close>, and \<open>_exec\<close> in the build without \<open>minicoro\<close>. \<open>call f x\<close> is what the function
  \<open>f\<close> of the program does with the argument \<open>x\<close>.\<close>

definition mco_entry :: "(addr \<Rightarrow> addr \<Rightarrow> world \<Rightarrow> world res) \<Rightarrow> addr \<Rightarrow> world \<Rightarrow> world res" where
  "mco_entry call lt w = rbind (get_lt lt w) (\<lambda>l. call (lt_fun l) (lt_arg l) w)"

definition exec_lt :: "(addr \<Rightarrow> addr \<Rightarrow> world \<Rightarrow> world res) \<Rightarrow> addr \<Rightarrow> addr \<Rightarrow> world \<Rightarrow> world res" where
  "exec_lt call me lt w =
     rbind (get_lt lt w) (\<lambda>l.
     rbind (call (lt_fun l) (lt_arg l) w) (\<lambda>w.
     i_lthread_exit me lt w))"

subsection \<open>Yielding and resuming\<close>

definition lthread_yield :: "addr \<Rightarrow> world \<Rightarrow> world res" where
  "lthread_yield me w =
     rbind (lthread_current me w) (\<lambda>lt.
     rbind (get_lt_sched lt w) (\<lambda>s.
     rbind (lthread_mutex_lock (Sched_mutex s) w) (\<lambda>w.
     rbind (lthread_current me w) (\<lambda>cur.
     rbind (upd_lt cur (needs_resched_update (\<lambda>_. True)) w) (\<lambda>w.
     rbind (lthread_mutex_unlock (Sched_mutex s) w) (\<lambda>w.
     i_lthread_yield me w))))))"

text \<open>\<open>_lthread_resume\<close> before and after \<open>mco_resume\<close>; what the coroutine does in between is \<open>run\<close>.\<close>

definition lthread_resume_begin :: "addr \<Rightarrow> addr \<Rightarrow> world \<Rightarrow> world res" where
  "lthread_resume_begin me lt w =
     rbind (get_lt lt w) (\<lambda>l.
     rbind (assert_that ''lt->sched == _lthread_curent_sched'' (lt_sched l = Some me)) (\<lambda>_.
     rbind (lthread_mutex_lock (Sched_mutex me) w) (\<lambda>w.
     rbind (get_lt lt w) (\<lambda>l.
     (let w = upd_sched me (current_lthread_update (\<lambda>_. Some lt)) w
      in rbind (assert_that ''lt->is_running == false'' (\<not> is_running l)) (\<lambda>_.
         rbind (upd_lt lt (is_running_update (\<lambda>_. True)) w) (\<lambda>w.
         lthread_mutex_unlock (Sched_mutex me) w)))))))"

definition lthread_resume_end :: "addr \<Rightarrow> addr \<Rightarrow> world \<Rightarrow> world res" where
  "lthread_resume_end me lt w =
     rbind (lthread_mutex_lock (Sched_mutex me) w) (\<lambda>w.
     rbind (upd_lt lt (is_running_update (\<lambda>_. False)) w) (\<lambda>w.
     (let w = upd_sched me (current_lthread_update (\<lambda>_. NULL)) w
      in rbind (upd_lt lt (\<lambda>l. l\<lparr>lt_state := clear_flag LT_ST_SLEEPING (lt_state l), sleep_usecs := 0\<rparr>) w) (\<lambda>w.
         rbind (get_lt lt w) (\<lambda>l.
         rbind (if needs_resched l
                then rbind (of_option (lt_sched l)) (\<lambda>s.
                     upd_lt lt (needs_resched_update (\<lambda>_. False))
                       (w\<lparr>ready_q := TAILQ_INSERT_TAIL s lt (ready_q w)\<rparr>))
                else Inr w) (\<lambda>w.
         rbind (if has_flag (lt_state l) LT_ST_EXITED then lthread_free lt w else Inr w) (\<lambda>w.
         lthread_mutex_unlock (Sched_mutex me) w)))))))"

definition lthread_resume :: "(world \<Rightarrow> world res) \<Rightarrow> addr \<Rightarrow> addr \<Rightarrow> world \<Rightarrow> world res" where
  "lthread_resume run me lt w =
     rbind (lthread_resume_begin me lt w) (\<lambda>w.
     rbind (run w) (\<lambda>w.
     lthread_resume_end me lt w))"

definition lthread_resume_ready :: "(addr \<Rightarrow> world \<Rightarrow> world res) \<Rightarrow> addr \<Rightarrow> world \<Rightarrow> (bool \<times> world) res" where
  "lthread_resume_ready run me w =
     rbind (lthread_pop_ready me w) (\<lambda>(result, w).
     (case result of
        Some lt \<Rightarrow> rbind (lthread_resume (run lt) me lt w) (\<lambda>w. Inr (True, w))
      | None \<Rightarrow> Inr (False, w)))"

subsection \<open>Sleeping\<close>

definition lthread_sleep_cmp :: "lthread \<Rightarrow> lthread \<Rightarrow> int" where
  "lthread_sleep_cmp l1 l2 =
     (if sleep_usecs l1 < sleep_usecs l2 then - 1
      else if sleep_usecs l1 = sleep_usecs l2 then 0 else 1)"

text \<open>The comparison of an lthread with the nodes of a tree. The members of a tree are allocated; the
  comparison reads zeros at an address that is not.\<close>

definition node_at :: "world \<Rightarrow> addr \<Rightarrow> lthread" where
  "node_at w a = (case lts w a of Some l \<Rightarrow> l | None \<Rightarrow> lthread_zero)"

definition sleep_cmp_at :: "world \<Rightarrow> lthread \<Rightarrow> addr \<Rightarrow> int" where
  "sleep_cmp_at w l a = lthread_sleep_cmp l (node_at w a)"

text \<open>\<open>while (RB_INSERT(lthread_rb_sleep, &lt->sched->sleeping, lt)) ++lt->sleep_usecs\<close>.\<close>

partial_function (option) sleep_insert_loop :: "addr \<Rightarrow> addr \<Rightarrow> world \<Rightarrow> world res option" where
  "sleep_insert_loop s lt w =
     (case lts w lt of
        None \<Rightarrow> Some (Inl Undefined)
      | Some l \<Rightarrow>
          (case RB_INSERT (sleep_cmp_at w l) lt (sleeping s w) of
             None \<Rightarrow> Some (Inl Undefined)
           | Some (found, t) \<Rightarrow>
               (if found \<noteq> NULL
                then sleep_insert_loop s lt
                       (w\<lparr>lts := (lts w)(lt \<mapsto> l\<lparr>sleep_usecs := sleep_usecs l + 1\<rparr>)\<rparr>)
                else Some (Inr (put_sleeping s t w)))))"

declare sleep_insert_loop.simps [code]

definition lthread_sched_sleep :: "u64 \<Rightarrow> addr \<Rightarrow> addr \<Rightarrow> u64 \<Rightarrow> world \<Rightarrow> world res" where
  "lthread_sched_sleep now me lt msecs w =
     (let usecs = msecs * 1000
      in rbind (get_lt_sched lt w) (\<lambda>s.
         rbind (lthread_mutex_lock (Sched_mutex s) w) (\<lambda>w.
         rbind (upd_lt lt (lt_state_update (set_flag LT_ST_SLEEPING)) w) (\<lambda>w.
         rbind (if msecs \<noteq> 0
                then rbind (upd_lt lt (sleep_usecs_update (\<lambda>_. now + usecs)) w) (\<lambda>w.
                     returns (sleep_insert_loop s lt w))
                else upd_lt lt (sleep_usecs_update (\<lambda>_. 0)) w) (\<lambda>w.
         rbind (lthread_mutex_unlock (Sched_mutex s) w) (\<lambda>w.
         i_lthread_yield me w))))))"

definition lthread_sleep :: "u64 \<Rightarrow> addr \<Rightarrow> u64 \<Rightarrow> world \<Rightarrow> world res" where
  "lthread_sleep now me msecs w =
     rbind (lthread_current me w) (\<lambda>lt. lthread_sched_sleep now me lt msecs w)"

definition lthread_desched_sleep_unsafe :: "addr \<Rightarrow> world \<Rightarrow> world res" where
  "lthread_desched_sleep_unsafe lt w =
     rbind (get_lt_sched lt w) (\<lambda>s.
     rbind (of_option (RB_REMOVE lt (sleeping s w))) (\<lambda>(_, t).
     lthread_sched_push_ready_unsafe s lt (put_sleeping s t w)))"

partial_function (option) schedule_expired_loop :: "u64 \<Rightarrow> addr \<Rightarrow> world \<Rightarrow> world res option" where
  "schedule_expired_loop now s w =
     (case RB_MIN (sleeping s w) of
        None \<Rightarrow> Some (Inl Undefined)
      | Some NULL \<Rightarrow> Some (Inr w)
      | Some (Some lt) \<Rightarrow>
          (case lts w lt of
             None \<Rightarrow> Some (Inl Undefined)
           | Some l \<Rightarrow>
               if sleep_usecs l \<le> now
               then (case lthread_desched_sleep_unsafe lt w of
                       Inl e \<Rightarrow> Some (Inl e)
                     | Inr w \<Rightarrow> schedule_expired_loop now s w)
               else Some (Inr w)))"

declare schedule_expired_loop.simps [code]

definition lthread_schedule_expired :: "u64 \<Rightarrow> addr \<Rightarrow> world \<Rightarrow> world res" where
  "lthread_schedule_expired now s w =
     rbind (lthread_mutex_lock (Sched_mutex s) w) (\<lambda>w.
     rbind (returns (schedule_expired_loop now s w)) (\<lambda>w.
     lthread_mutex_unlock (Sched_mutex s) w))"

subsection \<open>Waking an lthread\<close>

definition lthread_desched_event :: "addr \<Rightarrow> world \<Rightarrow> world res" where
  "lthread_desched_event lt w = rbind (get_lt_sched lt w) (\<lambda>s. lthread_sched_push_ready s lt w)"

text \<open>One iteration of the loop of \<open>_lthread_wakeup\<close>, for the scheduler \<open>seen\<close> that the iteration read
  before it took the lock; the first component of the result tells whether it returned.\<close>

definition lthread_wakeup_iter :: "addr \<Rightarrow> addr \<Rightarrow> world \<Rightarrow> (bool \<times> world) res" where
  "lthread_wakeup_iter lt seen w =
     rbind (lthread_mutex_lock (Sched_mutex seen) w) (\<lambda>w.
     rbind (get_lt lt w) (\<lambda>l.
     if lt_sched l = Some seen then
       rbind (if sleep_usecs l \<noteq> 0 then lthread_desched_sleep_unsafe lt w
              else lthread_sched_push_ready_unsafe seen lt w) (\<lambda>w.
       rbind (lthread_mutex_unlock (Sched_mutex seen) w) (\<lambda>w. Inr (True, w)))
     else rbind (lthread_mutex_unlock (Sched_mutex seen) w) (\<lambda>w. Inr (False, w))))"

partial_function (option) lthread_wakeup_loop :: "addr \<Rightarrow> world \<Rightarrow> world res option" where
  "lthread_wakeup_loop lt w =
     (case rbind (get_lt_sched lt w) (\<lambda>s. lthread_wakeup_iter lt s w) of
        Inl e \<Rightarrow> Some (Inl e)
      | Inr (finished, w) \<Rightarrow> if finished then Some (Inr w) else lthread_wakeup_loop lt w)"

declare lthread_wakeup_loop.simps [code]

definition lthread_wakeup :: "addr \<Rightarrow> world \<Rightarrow> world res" where
  "lthread_wakeup lt w = returns (lthread_wakeup_loop lt w)"

subsection \<open>The loop of a scheduler\<close>

definition lthread_sched_isdone :: "addr \<Rightarrow> world \<Rightarrow> bool" where
  "lthread_sched_isdone s w \<longleftrightarrow> RB_EMPTY (sleeping s w) \<and> TAILQ_EMPTY s (ready_q w)"

definition lthread_min_timeout :: "u64 \<Rightarrow> addr \<Rightarrow> world \<Rightarrow> u64 res" where
  "lthread_min_timeout now s w =
     rbind (of_option (RB_MIN (sleeping s w))) (\<lambda>m.
     (case m of
        None \<Rightarrow> Inr 1
      | Some lt \<Rightarrow> rbind (get_lt lt w) (\<lambda>l.
          if sleep_usecs l > now then Inr (sleep_usecs l) else Inr 1)))"

definition lthread_poller_has_pending_events :: "world \<Rightarrow> (bool \<times> world) res" where
  "lthread_poller_has_pending_events w =
     rbind (lthread_mutex_lock Poller_mutex w) (\<lambda>w.
     (let result = (num_pending_events (poller w) = 0)
      in rbind (lthread_mutex_unlock Poller_mutex w) (\<lambda>w. Inr (\<not> result, w))))"

datatype block_decision =
    Continue               \<comment> \<open>the loop goes on at once\<close>
  | Wait u64 bool          \<comment> \<open>\<open>lthread_os_cond_wait\<close> with this timeout; whether it is a deep sleep\<close>
  | All_done               \<comment> \<open>the loop ends\<close>

text \<open>The end of an iteration of \<open>_lthread_run_sched\<close>, from the lock to \<open>lthread_os_cond_wait\<close> (which
  releases the mutex) or to the unlock.\<close>

definition run_sched_block :: "u64 \<Rightarrow> addr \<Rightarrow> world \<Rightarrow> (block_decision \<times> world) res" where
  "run_sched_block now s w =
     rbind (lthread_mutex_lock (Sched_mutex s) w) (\<lambda>w.
     if block_state (scheds w s) = LTHREAD_SCHED_WONT_BLOCK then
       rbind (lthread_mutex_unlock (Sched_mutex s)
                (upd_sched s (block_state_update (\<lambda>_. LTHREAD_SCHED_WILL_BLOCK)) w)) (\<lambda>w.
       Inr (Continue, w))
     else
       (let w = upd_sched s (block_state_update (\<lambda>_. LTHREAD_SCHED_IS_BLOCKING)) w
        in rbind (if lthread_sched_isdone s w
                  then rbind (lthread_poller_has_pending_events w) (\<lambda>(pending, w). Inr (\<not> pending, w))
                  else Inr (False, w)) (\<lambda>(deep_sleep, w).
           rbind (if deep_sleep then lthread_pool_begin_deep_sleep s w else Inr (False, w)) (\<lambda>(all_done, w).
           if \<not> all_done then
             rbind (if deep_sleep then Inr 0 else lthread_min_timeout now s w) (\<lambda>timeout.
             rbind (assert_that ''deep_sleep || timeout > 0'' (deep_sleep \<or> timeout > 0)) (\<lambda>_.
             rbind (lthread_mutex_unlock (Sched_mutex s) w) (\<lambda>w.
             Inr (Wait timeout deep_sleep, w))))
           else
             rbind (lthread_mutex_unlock (Sched_mutex s)
                      (upd_sched s (block_state_update (\<lambda>_. LTHREAD_SCHED_WILL_BLOCK)) w)) (\<lambda>w.
             Inr (All_done, w))))))"

text \<open>The rest of the iteration, when \<open>lthread_os_cond_wait\<close> has returned with the mutex.\<close>

definition run_sched_unblock :: "bool \<Rightarrow> addr \<Rightarrow> world \<Rightarrow> world res" where
  "run_sched_unblock deep_sleep s w =
     rbind (lthread_mutex_lock (Sched_mutex s) w) (\<lambda>w.
     rbind (if deep_sleep then lthread_pool_end_deep_sleep s w else Inr w) (\<lambda>w.
     lthread_mutex_unlock (Sched_mutex s)
       (upd_sched s (block_state_update (\<lambda>_. LTHREAD_SCHED_WILL_BLOCK)) w)))"

text \<open>\<open>do _lthread_schedule_expired(sched); while (_lthread_resume_ready(sched))\<close>, one round, and the
  statement after the loop.\<close>

definition run_sched_round ::
  "u64 \<Rightarrow> (addr \<Rightarrow> world \<Rightarrow> world res) \<Rightarrow> addr \<Rightarrow> world \<Rightarrow> (bool \<times> world) res" where
  "run_sched_round now run s w =
     rbind (lthread_schedule_expired now s w) (\<lambda>w. lthread_resume_ready run s w)"

definition run_sched_exit :: "addr \<Rightarrow> world \<Rightarrow> world res" where
  "run_sched_exit s w =
     (if sched_neighbor (scheds w s) \<noteq> Some s
      then rbind (of_option (sched_neighbor (scheds w s))) (\<lambda>n. lthread_sched_wake n w)
      else Inr w)"

subsection \<open>Starting the pool\<close>

definition lthread_sched_create :: "nat \<Rightarrow> nat \<Rightarrow> nat \<Rightarrow> lthread_sched" where
  "lthread_sched_create page_size stack_size i =
     \<lparr>sched_id = i, sched_stack_size = stack_size, sched_page_size = page_size, default_timeout = 3000000,
      current_lthread = NULL, lthread_cache = [], sched_neighbor = NULL,
      block_state = LTHREAD_SCHED_WILL_BLOCK, sleeping_root = NULL\<rparr>"

definition MAX_STACK_SIZE :: nat where
  "MAX_STACK_SIZE = 8 * 1024 * 1024"

text \<open>\<open>lthread_run\<close> up to the first \<open>lthread_spawn\<close>: \<open>ss\<close> are the addresses of the schedulers, in order;
  the loop closes the ring by making each scheduler the neighbour of the one before it.\<close>

fun link_ring :: "addr \<Rightarrow> addr list \<Rightarrow> world \<Rightarrow> world" where
  "link_ring last_sched [] w = w"
| "link_ring last_sched (s # ss) w =
     link_ring s ss (upd_sched last_sched (sched_neighbor_update (\<lambda>_. Some s)) w)"

definition init_sched :: "nat \<Rightarrow> nat \<Rightarrow> nat \<times> addr \<Rightarrow> world \<Rightarrow> world" where
  "init_sched page_size stack_size = (\<lambda>(i, s) w.
     w\<lparr>ready_q := TAILQ_INIT s (ready_q w),
       scheds := (scheds w)(s := lthread_sched_create page_size stack_size i)\<rparr>)"

definition lthread_run_init :: "nat \<Rightarrow> nat \<Rightarrow> addr list \<Rightarrow> int \<Rightarrow> world \<Rightarrow> world" where
  "lthread_run_init page_size stack_size ss pfd w =
     (let stack_size = (if stack_size = 0 then MAX_STACK_SIZE else stack_size);
          w = fold (init_sched page_size stack_size) (enumerate 0 ss) w;
          w = w\<lparr>pool := \<lparr>asleep = replicate (length ss) False, num_schedulers = length ss,
                         pool_next = hd ss\<rparr>,
                poller := \<lparr>poller_fd = pfd, poller_eventfd = 0, waiting_root = NULL, num_pending_events = 0\<rparr>\<rparr>
      in link_ring (last ss) ss w)"

end
