(* ===== verification/Sched_Proof.thy ===== *)
theory Sched_Proof
  imports Sched
begin

section \<open>The scheduler: correctness\<close>

text \<open>
  The effect of every operation of \<open>Sched\<close>, for a state in which the ready queues of the schedulers
  \<open>K\<close> represent the lists \<open>R\<close> (\<open>tq_family\<close>) and their sleep trees the lists \<open>S\<close> (\<open>sleep_family\<close>): no
  operation faults, each gives back the mutexes it took, and the lists change as the operation
  promises. The trees and queues are used only through the contracts of \<open>Tailq\<close> and \<open>Rbtree_Spec\<close>.
\<close>

lemma returns_simps [simp]: "returns None = Inl Undefined" "returns (Some r) = r"
  by (simp_all add: returns_def)

lemma restore_held [simp]: "w\<lparr>held := held w\<rparr> = (w::world)"
  by simp

text \<open>The set of held mutexes is kept as the outermost update.\<close>

lemma held_last:
  "w\<lparr>held := A, lts := a\<rparr> = (w::world)\<lparr>lts := a, held := A\<rparr>"
  "w\<lparr>held := A, scheds := b\<rparr> = w\<lparr>scheds := b, held := A\<rparr>"
  "w\<lparr>held := A, pool := c\<rparr> = w\<lparr>pool := c, held := A\<rparr>"
  "w\<lparr>held := A, poller := d\<rparr> = w\<lparr>poller := d, held := A\<rparr>"
  "w\<lparr>held := A, sleep_node := e\<rparr> = w\<lparr>sleep_node := e, held := A\<rparr>"
  "w\<lparr>held := A, wait_node := f\<rparr> = w\<lparr>wait_node := f, held := A\<rparr>"
  "w\<lparr>held := A, ready_q := g\<rparr> = w\<lparr>ready_q := g, held := A\<rparr>"
  "w\<lparr>held := A, blocked_q := h\<rparr> = w\<lparr>blocked_q := h, held := A\<rparr>"
  "w\<lparr>held := A, conds := i\<rparr> = w\<lparr>conds := i, held := A\<rparr>"
  "upd_sched s j (w\<lparr>held := A\<rparr>) = (upd_sched s j w)\<lparr>held := A\<rparr>"
  "put_sleeping s t (w\<lparr>held := A\<rparr>) = (put_sleeping s t w)\<lparr>held := A\<rparr>"
  "put_waiting t (w\<lparr>held := A\<rparr>) = (put_waiting t w)\<lparr>held := A\<rparr>"
  "sleeping s (w\<lparr>held := A\<rparr>) = sleeping s w"
  "waiting (w\<lparr>held := A\<rparr>) = waiting w"
  by (simp_all add: upd_sched_def put_sleeping_def put_waiting_def sleeping_def waiting_def)

lemma lt_state_flag [simp]:
  "lt_state_update (set_flag x) l = l\<lparr>lt_state := set_flag x (lt_state l)\<rparr>"
  "lt_state_update (clear_flag x) l = l\<lparr>lt_state := clear_flag x (lt_state l)\<rparr>"
  by (cases l, simp)+

subsection \<open>Waking\<close>

text \<open>What \<open>_lthread_sched_wake_unsafe\<close> does to the state.\<close>

definition wake_result :: "addr \<Rightarrow> world \<Rightarrow> world" where
  "wake_result s w =
     (case block_state (scheds w s) of
        LTHREAD_SCHED_WILL_BLOCK \<Rightarrow> upd_sched s (block_state_update (\<lambda>_. LTHREAD_SCHED_WONT_BLOCK)) w
      | LTHREAD_SCHED_WONT_BLOCK \<Rightarrow> w
      | LTHREAD_SCHED_IS_BLOCKING \<Rightarrow>
          lthread_os_cond_signal s
            (w\<lparr>pool := (pool w)\<lparr>asleep := (asleep (pool w))[sched_id (scheds w s) := False]\<rparr>\<rparr>))"

lemma wake_unsafe_ok [simp]:
  "Pool_mutex \<notin> held w \<Longrightarrow> lthread_sched_wake_unsafe s w = Inr (wake_result s w)"
  by (simp add: lthread_sched_wake_unsafe_def wake_result_def lthread_pool_end_deep_sleep_def Let_def
      split: sched_block_state.split)

lemma wake_result_sel [simp]:
  "lts (wake_result s w) = lts w" "conds (wake_result s w) = conds w" "poller (wake_result s w) = poller w"
  "sleep_node (wake_result s w) = sleep_node w" "wait_node (wake_result s w) = wait_node w"
  "ready_q (wake_result s w) = ready_q w" "blocked_q (wake_result s w) = blocked_q w"
  "held (wake_result s w) = held w"
  by (simp_all add: wake_result_def lthread_os_cond_signal_def split: sched_block_state.split)

lemma wake_result_sched [simp]:
  "sched_id (scheds (wake_result s w) x) = sched_id (scheds w x)"
  "current_lthread (scheds (wake_result s w) x) = current_lthread (scheds w x)"
  "sched_neighbor (scheds (wake_result s w) x) = sched_neighbor (scheds w x)"
  "sleeping_root (scheds (wake_result s w) x) = sleeping_root (scheds w x)"
  "lthread_cache (scheds (wake_result s w) x) = lthread_cache (scheds w x)"
  by (simp_all add: wake_result_def lthread_os_cond_signal_def split: sched_block_state.split)

lemma sleeping_wake [simp]: "sleeping x (wake_result s w) = sleeping x w"
  by (simp add: sleeping_def)

lemma wake_result_block_state:
  "block_state (scheds (wake_result s w) s) =
     (case block_state (scheds w s) of LTHREAD_SCHED_WILL_BLOCK \<Rightarrow> LTHREAD_SCHED_WONT_BLOCK | b \<Rightarrow> b)"
  by (auto simp: wake_result_def lthread_os_cond_signal_def split: sched_block_state.split)

subsection \<open>The ready queues\<close>

text \<open>What \<open>_lthread_sched_push_ready_unsafe\<close> does: the lthread that is running is marked, another one
  is queued at its own scheduler; then the scheduler is woken.\<close>

definition ready_result :: "addr \<Rightarrow> addr \<Rightarrow> addr \<Rightarrow> lthread \<Rightarrow> world \<Rightarrow> world" where
  "ready_result s own lt l w =
     wake_result s
       (if current_lthread (scheds w own) = Some lt
        then w\<lparr>lts := (lts w)(lt \<mapsto> l\<lparr>needs_resched := True\<rparr>)\<rparr>
        else w\<lparr>ready_q := TAILQ_INSERT_TAIL own lt (ready_q w)\<rparr>)"

lemma push_ready_unsafe_ok:
  "lts w lt = Some l \<Longrightarrow> lt_sched l = Some own \<Longrightarrow> Pool_mutex \<notin> held w \<Longrightarrow>
   lthread_sched_push_ready_unsafe s lt w = Inr (ready_result s own lt l w)"
  by (simp add: lthread_sched_push_ready_unsafe_def ready_result_def)

lemma ready_result_sel [simp]:
  "conds (ready_result s own lt l w) = conds w" "poller (ready_result s own lt l w) = poller w"
  "sleep_node (ready_result s own lt l w) = sleep_node w" "wait_node (ready_result s own lt l w) = wait_node w"
  "blocked_q (ready_result s own lt l w) = blocked_q w" "held (ready_result s own lt l w) = held w"
  "current_lthread (scheds (ready_result s own lt l w) x) = current_lthread (scheds w x)"
  "sched_neighbor (scheds (ready_result s own lt l w) x) = sched_neighbor (scheds w x)"
  "sleeping_root (scheds (ready_result s own lt l w) x) = sleeping_root (scheds w x)"
  "sched_id (scheds (ready_result s own lt l w) x) = sched_id (scheds w x)"
  by (simp_all add: ready_result_def)

lemma ready_result_lts:
  "lts (ready_result s own lt l w) =
     (if current_lthread (scheds w own) = Some lt then (lts w)(lt \<mapsto> l\<lparr>needs_resched := True\<rparr>) else lts w)"
  by (simp add: ready_result_def)

lemma ready_result_queue:
  assumes "tq_family K (ready_q w) R" "own \<in> K" "\<And>q. q \<in> K \<Longrightarrow> lt \<notin> set (R q)"
  shows "tq_family K (ready_q (ready_result s own lt l w))
    (if current_lthread (scheds w own) = Some lt then R else R(own := R own @ [lt]))"
  using assms tq_family_insert [OF assms] by (simp add: ready_result_def)

lemma wake_held:
  "wake_result s (w\<lparr>held := A\<rparr>) = (wake_result s w)\<lparr>held := A\<rparr>"
  by (auto simp: wake_result_def upd_sched_def lthread_os_cond_signal_def split: sched_block_state.split)

lemma ready_held:
  "ready_result s own lt l (w\<lparr>held := A\<rparr>) = (ready_result s own lt l w)\<lparr>held := A\<rparr>"
  by (simp add: ready_result_def wake_held held_last)

lemma push_ready_ok:
  assumes "lts w lt = Some l" "lt_sched l = Some own" "Pool_mutex \<notin> held w" "Sched_mutex s \<notin> held w"
  shows "lthread_sched_push_ready s lt w = Inr (ready_result s own lt l w)"
proof -
  have "lthread_sched_push_ready_unsafe s lt (w\<lparr>held := insert (Sched_mutex s) (held w)\<rparr>) =
      Inr (ready_result s own lt l (w\<lparr>held := insert (Sched_mutex s) (held w)\<rparr>))"
    by (rule push_ready_unsafe_ok) (use assms in simp_all)
  with assms(4) show ?thesis by (simp add: lthread_sched_push_ready_def ready_held)
qed


lemma wake_ok:
  "Pool_mutex \<notin> held w \<Longrightarrow> Sched_mutex s \<notin> held w \<Longrightarrow> lthread_sched_wake s w = Inr (wake_result s w)"
  by (simp add: lthread_sched_wake_def wake_held)

subsection \<open>Taking an lthread from the ready queues\<close>

definition pop_result :: "addr \<Rightarrow> world \<Rightarrow> world" where
  "pop_result s w =
     (case TAILQ_FIRST s (ready_q w) of
        Some lt \<Rightarrow> w\<lparr>ready_q := TAILQ_REMOVE s lt (ready_q w)\<rparr>
      | None \<Rightarrow> w)"

lemma pop_result_sel [simp]:
  "lts (pop_result s w) = lts w" "scheds (pop_result s w) = scheds w" "held (pop_result s w) = held w"
  "sleep_node (pop_result s w) = sleep_node w" "wait_node (pop_result s w) = wait_node w"
  "pool (pop_result s w) = pool w" "poller (pop_result s w) = poller w" "blocked_q (pop_result s w) = blocked_q w"
  "conds (pop_result s w) = conds w" "signalled (pop_result s w) = signalled w"
  by (simp_all add: pop_result_def split: option.split)

lemma first_hd_ptr: "tq_family K Q R \<Longrightarrow> s \<in> K \<Longrightarrow> TAILQ_FIRST s Q = hd_ptr (R s)"
  by (auto simp: tq.first_law [OF tq_family_repr] hd_ptr_def split: list.split)

lemma pop_result_queue:
  assumes "tq_family K (ready_q w) R" "s \<in> K"
  shows "tq_family K (ready_q (pop_result s w)) (R(s := tl (R s)))"
proof (cases "R s")
  case Nil
  then have "R(s := tl (R s)) = R" by auto
  with Nil assms show ?thesis by (simp add: pop_result_def first_hd_ptr)
next
  case (Cons x xs)
  with tq_family_remove [OF assms, of x] assms show ?thesis by (simp add: pop_result_def first_hd_ptr)
qed

lemma sched_pop_ready_ok:
  assumes "tq_family K (ready_q w) R" "s \<in> K" "Sched_mutex s \<notin> held w"
  shows "lthread_sched_pop_ready s block w = Inr (hd_ptr (R s), pop_result s w)"
  using assms
  by (auto simp: lthread_sched_pop_ready_def lthread_mutex_trylock_def first_hd_ptr pop_result_def Let_def held_last
      split: option.split)

lemma sched_pop_ready_busy:
  "Sched_mutex s \<in> held w \<Longrightarrow> lthread_sched_pop_ready s False w = Inr (NULL, w)"
  by (simp add: lthread_sched_pop_ready_def lthread_mutex_trylock_def)

text \<open>The schedulers one meets from \<open>i\<close> on until the ring leads back to \<open>s\<close>.\<close>

fun ring_to :: "(addr \<Rightarrow> ptr) \<Rightarrow> addr \<Rightarrow> ptr \<Rightarrow> addr list \<Rightarrow> bool" where
  "ring_to nb s i [] \<longleftrightarrow> i = Some s"
| "ring_to nb s i (x # xs) \<longleftrightarrow> i = Some x \<and> x \<noteq> s \<and> ring_to nb s (nb x) xs"

abbreviation neighbor :: "world \<Rightarrow> addr \<Rightarrow> ptr" where
  "neighbor w s \<equiv> sched_neighbor (scheds w s)"

definition can_pop :: "world \<Rightarrow> (addr \<Rightarrow> addr list) \<Rightarrow> addr \<Rightarrow> bool" where
  "can_pop w R x \<longleftrightarrow> R x \<noteq> [] \<and> Sched_mutex x \<notin> held w"

lemma pop_ready_ring_found: "pop_ready_ring s i (Some lt) w = Some (Inr (Some lt, w))"
  by (subst pop_ready_ring.simps) simp

lemma pop_ready_ring_ok:
  assumes fam: "tq_family K (ready_q w) R"
  shows "ring_to (neighbor w) s i xs \<Longrightarrow> set xs \<subseteq> K \<Longrightarrow>
    pop_ready_ring s i NULL w =
      Some (Inr (case find (can_pop w R) xs of None \<Rightarrow> (NULL, w) | Some x \<Rightarrow> (hd_ptr (R x), pop_result x w)))"
proof (induction xs arbitrary: i)
  case Nil
  then show ?case by (subst pop_ready_ring.simps) simp
next
  case (Cons x xs)
  show ?case
  proof (cases "Sched_mutex x \<in> held w")
    case True
    then have "\<not> can_pop w R x" by (simp add: can_pop_def)
    with True Cons show ?thesis by (subst pop_ready_ring.simps) (simp add: sched_pop_ready_busy)
  next
    case False
    have "lthread_sched_pop_ready x False w = Inr (hd_ptr (R x), pop_result x w)"
      using sched_pop_ready_ok [OF fam] False Cons.prems by simp
    then have step: "pop_ready_ring s i NULL w = pop_ready_ring s (neighbor w x) (hd_ptr (R x)) (pop_result x w)"
      using Cons.prems by (subst pop_ready_ring.simps) simp
    show ?thesis
    proof (cases "R x")
      case Nil
      then have "pop_result x w = w" "\<not> can_pop w R x"
        using first_hd_ptr [OF fam] Cons.prems by (simp_all add: pop_result_def can_pop_def)
      with step Nil Cons show ?thesis by simp
    next
      case (Cons lt rest)
      then have "can_pop w R x" using False by (simp add: can_pop_def)
      with step Cons show ?thesis by (simp add: pop_ready_ring_found)
    qed
  qed
qed

text \<open>The scheduler whose queue is served: the own one first, then the others around the ring, skipping
  the busy ones.\<close>

lemma pop_ready_empty:
  assumes fam: "tq_family K (ready_q w) R" and ring: "ring_to (neighbor w) me (neighbor w me) xs"
    and K: "insert me (set xs) \<subseteq> K" and free: "Sched_mutex me \<notin> held w"
    and none: "find (can_pop w R) (me # xs) = None"
  shows "lthread_pop_ready me w = Inr (NULL, w)"
proof -
  have me: "R me = []" "find (can_pop w R) xs = None" using none free by (auto simp: can_pop_def split: if_splits)
  then have "pop_result me w = w" using first_hd_ptr [OF fam] K by (simp add: pop_result_def)
  then show ?thesis
    using me sched_pop_ready_ok [OF fam _ free] pop_ready_ring_ok [OF fam ring] K
    by (simp add: lthread_pop_ready_def)
qed

lemma pop_ready_takes:
  assumes fam: "tq_family K (ready_q w) R" and ring: "ring_to (neighbor w) me (neighbor w me) xs"
    and K: "insert me (set xs) \<subseteq> K" and free: "Sched_mutex me \<notin> held w" "Pool_mutex \<notin> held w"
    and nfree: "\<And>n. neighbor w me = Some n \<Longrightarrow> Sched_mutex n \<notin> held w"
    and found: "find (can_pop w R) (me # xs) = Some x" and lt: "R x = lt # rest" "lts w lt = Some l"
  shows "\<exists>w'. lthread_pop_ready me w = Inr (Some lt, w') \<and> tq_family K (ready_q w') (R(x := rest)) \<and>
    lts w' = (lts w)(lt \<mapsto> l\<lparr>lt_sched := Some me\<rparr>) \<and> held w' = held w \<and>
    (\<forall>s. sleeping s w' = sleeping s w \<and> current_lthread (scheds w' s) = current_lthread (scheds w s) \<and>
      neighbor w' s = neighbor w s) \<and>
    blocked_q w' = blocked_q w \<and> waiting w' = waiting w"
proof -
  have x: "x \<in> K" using found K by (auto simp: find_Some_iff split: if_splits)
  have "rbind (lthread_sched_pop_ready me False w) (\<lambda>(result, w).
      returns (pop_ready_ring me (neighbor w me) result w)) = Inr (Some lt, pop_result x w)"
  proof (cases "R me = []")
    case True
    then have "pop_result me w = w" using first_hd_ptr [OF fam] K by (simp add: pop_result_def)
    with True found lt sched_pop_ready_ok [OF fam _ free(1)] pop_ready_ring_ok [OF fam ring] K show ?thesis
      by (auto simp: can_pop_def)
  next
    case False
    with found free(1) have "x = me" by (simp add: can_pop_def)
    with lt sched_pop_ready_ok [OF fam _ free(1)] K show ?thesis by (simp add: pop_ready_ring_found)
  qed
  then have pop: "lthread_pop_ready me w =
      rbind (if neighbor w me \<noteq> Some me
             then rbind (of_option (neighbor w me)) (\<lambda>n. lthread_sched_wake n (pop_result x w))
             else Inr (pop_result x w)) (\<lambda>w.
        rbind (upd_lt lt (lt_sched_update (\<lambda>_. Some me)) w) (\<lambda>w. Inr (Some lt, w)))"
    by (simp add: lthread_pop_ready_def rbind_assoc case_prod_beta)
       (auto simp: rbind_eq_Inr rbind_assoc)
  have q: "tq_family K (ready_q (pop_result x w)) (R(x := rest))"
    using pop_result_queue [OF fam x] lt(1) by simp
  obtain n where n: "neighbor w me = Some n" using ring by (cases xs) auto
  have "rbind (of_option (neighbor w me)) (\<lambda>n. lthread_sched_wake n (pop_result x w)) =
      Inr (wake_result n (pop_result x w))"
    using n nfree [OF n] free(2) by (simp add: wake_ok)
  with pop q lt(2) n show ?thesis
    by (auto simp: sleeping_def waiting_def)
qed


subsection \<open>Sleeping\<close>

definition sleep_key :: "world \<Rightarrow> addr \<Rightarrow> u64" where
  "sleep_key w a = sleep_usecs (node_at w a)"

definition sleep_family :: "addr set \<Rightarrow> world \<Rightarrow> (addr \<Rightarrow> addr list) \<Rightarrow> bool" where
  "sleep_family K w S \<longleftrightarrow> rb_family K (\<lambda>s. sleeping_root (scheds w s)) (sleep_node w) S"

lemma sleep_family_repr: "sleep_family K w S \<Longrightarrow> s \<in> K \<Longrightarrow> rb_repr (sleeping s w) (S s)"
  using rb_family_repr [of K "\<lambda>s. sleeping_root (scheds w s)" "sleep_node w" S s]
  by (simp add: sleep_family_def sleeping_def)

lemma sleep_cmp_at_key: "sleep_cmp_at w l = cmp_by (sleep_key w) (sleep_usecs l)"
  by (rule ext) (simp add: sleep_cmp_at_def lthread_sleep_cmp_def cmp_by_def sleep_key_def)

lemma node_at_Some [simp]: "lts w a = Some l \<Longrightarrow> node_at w a = l"
  by (simp add: node_at_def)

lemma sleep_key_upd [simp]:
  "a \<noteq> b \<Longrightarrow> sleep_key (w\<lparr>lts := (lts w)(b \<mapsto> l)\<rparr>) a = sleep_key w a"
  "sleep_key (w\<lparr>lts := (lts w)(b \<mapsto> l)\<rparr>) b = sleep_usecs l"
  by (simp_all add: sleep_key_def node_at_def)

lemma sorted_by_cong: "(\<And>x. x \<in> set xs \<Longrightarrow> f x = g x) \<Longrightarrow> sorted_by f xs = sorted_by g xs"
  unfolding sorted_by_def by (metis map_cong)

lemma sleep_key_other:
  assumes "lt \<notin> set xs"
  shows "sorted_by (sleep_key (w\<lparr>lts := (lts w)(lt \<mapsto> l)\<rparr>)) xs = sorted_by (sleep_key w) xs"
    and "sleep_key (w\<lparr>lts := (lts w)(lt \<mapsto> l)\<rparr>) ` set xs = sleep_key w ` set xs"
proof -
  have eq: "sleep_key (w\<lparr>lts := (lts w)(lt \<mapsto> l)\<rparr>) x = sleep_key w x" if "x \<in> set xs" for x
    using that assms by (cases "x = lt") auto
  then show "sorted_by (sleep_key (w\<lparr>lts := (lts w)(lt \<mapsto> l)\<rparr>)) xs = sorted_by (sleep_key w) xs"
    by (rule sorted_by_cong)
  show "sleep_key (w\<lparr>lts := (lts w)(lt \<mapsto> l)\<rparr>) ` set xs = sleep_key w ` set xs"
    by (rule image_cong [OF refl eq])
qed

text \<open>The loop ends at the first wake-up time, from the requested one on, that no sleeping lthread has.\<close>

lemma sleep_insert_loop_ok:
  assumes "rb_repr (sleeping s w) xs" "sorted_by (sleep_key w) xs" "lt \<notin> set xs" "lts w lt = Some l"
    and "sleep_usecs l + of_nat j \<notin> sleep_key w ` set xs"
    and "\<And>i. i < j \<Longrightarrow> sleep_usecs l + of_nat i \<in> sleep_key w ` set xs"
    and "w1 = w\<lparr>lts := (lts w)(lt \<mapsto> l\<lparr>sleep_usecs := sleep_usecs l + of_nat j\<rparr>)\<rparr>"
  shows "\<exists>t. sleep_insert_loop s lt w = Some (Inr (put_sleeping s t w1)) \<and>
    rb_repr t (insort_key (sleep_key w1) lt xs) \<and> rb_same (insert lt (set xs)) (sleeping s w) t"
  using assms
proof (induction j arbitrary: w l)
  case 0
  have key: "sleep_key w lt = sleep_usecs l" using 0 by (simp add: sleep_key_def)
  have w1: "w1 = w" using 0 by (simp add: map_upd_triv)
  have "sleep_key w lt \<notin> sleep_key w ` set xs" using 0(5) key by simp
  with rb_insert_new [OF 0(1,2,3)] obtain t where
    "RB_INSERT (cmp_by (sleep_key w) (sleep_usecs l)) lt (sleeping s w) = Some (NULL, t)"
    "rb_repr t (insort_key (sleep_key w) lt xs)" "rb_same (insert lt (set xs)) (sleeping s w) t"
    using key by auto
  moreover from this 0(4) have "sleep_insert_loop s lt w = Some (Inr (put_sleeping s t w))"
    by (subst sleep_insert_loop.simps) (simp add: sleep_cmp_at_key)
  ultimately show ?case using w1 by blast
next
  case (Suc j)
  let ?l = "l\<lparr>sleep_usecs := sleep_usecs l + 1\<rparr>"
  let ?w = "w\<lparr>lts := (lts w)(lt \<mapsto> ?l)\<rparr>"
  have key: "sleep_key w lt = sleep_usecs l" using Suc.prems by (simp add: sleep_key_def)
  then have "sleep_key w lt \<in> sleep_key w ` set xs" using Suc.prems(6) [of 0] by simp
  from rb_insert_collision [OF Suc.prems(1,2) this] obtain b where
    "RB_INSERT (cmp_by (sleep_key w) (sleep_usecs l)) lt (sleeping s w) = Some (Some b, sleeping s w)"
    using key by auto
  then have step: "sleep_insert_loop s lt w = sleep_insert_loop s lt ?w"
    using Suc.prems(4) by (subst sleep_insert_loop.simps) (simp add: sleep_cmp_at_key)
  have slp: "sleeping s ?w = sleeping s w" by (simp add: sleeping_def)
  have "\<exists>t. sleep_insert_loop s lt ?w = Some (Inr (put_sleeping s t w1)) \<and>
      rb_repr t (insort_key (sleep_key w1) lt xs) \<and> rb_same (insert lt (set xs)) (sleeping s ?w) t"
  proof (rule Suc.IH)
    show "sleep_usecs ?l + of_nat j \<notin> sleep_key ?w ` set xs"
      using Suc.prems(3,5) sleep_key_other(2) [of lt xs w ?l] by (simp add: add_ac)
    show "sleep_usecs ?l + of_nat i \<in> sleep_key ?w ` set xs" if "i < j" for i
      using Suc.prems(6) [of "Suc i"] that Suc.prems(3) sleep_key_other(2) [of lt xs w ?l] by (simp add: add_ac)
    show "w1 = ?w\<lparr>lts := (lts ?w)(lt \<mapsto> ?l\<lparr>sleep_usecs := sleep_usecs ?l + of_nat j\<rparr>)\<rparr>"
      unfolding Suc.prems(7) by (simp add: add_ac fun_eq_iff)
  qed (use Suc.prems slp sleep_key_other(1) [of lt xs w ?l] in auto)
  with step slp show ?case by simp
qed

text \<open>Fewer than \<open>2 ^ 64\<close> lthreads cannot take all the wake-up times.\<close>

lemma free_key_exists:
  fixes k :: u64
  assumes "length xs < 2 ^ 64"
  shows "\<exists>j \<le> length xs. k + of_nat j \<notin> f ` set xs \<and> (\<forall>i < j. k + of_nat i \<in> f ` set (xs :: addr list))"
proof -
  have "\<exists>j \<le> length xs. k + of_nat j \<notin> f ` set xs"
  proof (rule ccontr)
    assume "\<not> ?thesis"
    then have sub: "(\<lambda>j. k + of_nat j) ` {..length xs} \<subseteq> f ` set xs" by auto
    have "inj_on (\<lambda>j. k + of_nat j :: u64) {..length xs}"
      using assms by (auto simp: inj_on_def word_of_nat_eq_iff take_bit_nat_eq_self)
    then have "card {..length xs} \<le> card (f ` set xs)" using card_inj_on_le [OF _ sub] by simp
    also have "\<dots> \<le> length xs" using card_image_le [of "set xs" f] card_length [of xs] by simp
    finally show False by simp
  qed
  then obtain j where j: "j \<le> length xs" "k + of_nat j \<notin> f ` set xs" by blast
  let ?P = "\<lambda>j. k + of_nat j \<notin> f ` set xs"
  have "?P (Least ?P)" "Least ?P \<le> j" using LeastI [of ?P, OF j(2)] Least_le [of ?P, OF j(2)] by auto
  moreover have "\<forall>i < Least ?P. \<not> ?P i" using not_less_Least [of _ ?P] by blast
  ultimately show ?thesis using j(1) by (intro exI [of _ "Least ?P"]) auto
qed


lemma sleep_family_update:
  assumes "sleep_family K w S" "s \<in> K" "rb_repr t xs" "rb_same A (sleeping s w) t" "set xs \<subseteq> A"
    and "\<And>k. k \<in> K \<Longrightarrow> k \<noteq> s \<Longrightarrow> set (S k) \<inter> A = {}"
    and "sleep_node w1 = sleep_node w" "\<And>k. sleeping_root (scheds w1 k) = sleeping_root (scheds w k)"
  shows "sleep_family K (put_sleeping s t w1) (S(s := xs))"
proof -
  have "rb_family K ((\<lambda>s. sleeping_root (scheds w s))(s := rbh_root t)) (rbn t) (S(s := xs))"
    by (rule rb_family_update [OF _ assms(2,3)]) (use assms in \<open>auto simp: sleep_family_def sleeping_def\<close>)
  moreover have "(\<lambda>k. sleeping_root (scheds (put_sleeping s t w1) k)) =
      (\<lambda>s. sleeping_root (scheds w s))(s := rbh_root t)"
    using assms(8) by auto
  ultimately show ?thesis by (simp add: sleep_family_def)
qed

lemma sleep_family_cong:
  assumes "sleep_node w' = sleep_node w" "\<And>k. sleeping_root (scheds w' k) = sleeping_root (scheds w k)"
  shows "sleep_family K w' S = sleep_family K w S"
  using assms by (simp add: sleep_family_def)

text \<open>\<open>_lthread_sched_sleep\<close> with a duration, up to the yield.\<close>

lemma sched_sleep_ok:
  assumes fam: "sleep_family K w S" and s: "s \<in> K" and srt: "sorted_by (sleep_key w) (S s)"
    and lt: "lts w lt = Some l" "lt_sched l = Some s" "\<And>k. k \<in> K \<Longrightarrow> lt \<notin> set (S k)"
    and cur: "current_lthread (scheds w s) = Some lt" and free: "Sched_mutex s \<notin> held w"
    and len: "length (S s) < 2 ^ 64" and ms: "msecs \<noteq> 0"
  shows "\<exists>w' j. lthread_sched_sleep now s lt msecs w = Inr w' \<and> j \<le> length (S s) \<and>
    now + msecs * 1000 + of_nat j \<notin> sleep_key w ` set (S s) \<and>
    (\<forall>i < j. now + msecs * 1000 + of_nat i \<in> sleep_key w ` set (S s)) \<and>
    lts w' = (lts w)(lt \<mapsto> l\<lparr>lt_state := set_flag LT_ST_SLEEPING (lt_state l),
                        sleep_usecs := now + msecs * 1000 + of_nat j\<rparr>) \<and>
    sleep_family K w' (S(s := insort_key (sleep_key w') lt (S s))) \<and>
    sorted_by (sleep_key w') (insort_key (sleep_key w') lt (S s)) \<and>
    held w' = held w \<and> ready_q w' = ready_q w \<and>
    (\<forall>x. current_lthread (scheds w' x) = current_lthread (scheds w x))"
proof -
  let ?k = "now + msecs * 1000"
  let ?l1 = "l\<lparr>lt_state := set_flag LT_ST_SLEEPING (lt_state l), sleep_usecs := ?k\<rparr>"
  let ?w1 = "w\<lparr>lts := (lts w)(lt \<mapsto> ?l1), held := insert (Sched_mutex s) (held w)\<rparr>"
  have new: "lt \<notin> set (S s)" using lt(3) s by simp
  have key: "sleep_key ?w1 x = sleep_key (w\<lparr>lts := (lts w)(lt \<mapsto> ?l1)\<rparr>) x" for x
    by (simp add: sleep_key_def node_at_def)
  have keys: "sleep_key ?w1 ` set (S s) = sleep_key w ` set (S s)" "sorted_by (sleep_key ?w1) (S s)"
    using sleep_key_other [OF new, of w ?l1] srt key by (auto cong: sorted_by_cong)
  obtain j where j: "j \<le> length (S s)" "?k + of_nat j \<notin> sleep_key ?w1 ` set (S s)"
    "\<And>i. i < j \<Longrightarrow> ?k + of_nat i \<in> sleep_key ?w1 ` set (S s)"
    using free_key_exists [OF len, of ?k "sleep_key w"] keys(1) by auto
  let ?l2 = "?l1\<lparr>sleep_usecs := ?k + of_nat j\<rparr>"
  let ?w2 = "?w1\<lparr>lts := (lts ?w1)(lt \<mapsto> ?l2)\<rparr>"
  have slp: "sleeping s ?w1 = sleeping s w" by (simp add: sleeping_def)
  have "\<exists>t. sleep_insert_loop s lt ?w1 = Some (Inr (put_sleeping s t ?w2)) \<and>
      rb_repr t (insort_key (sleep_key ?w2) lt (S s)) \<and> rb_same (insert lt (set (S s))) (sleeping s ?w1) t"
    by (rule sleep_insert_loop_ok [where l = ?l1]) (use j keys new slp sleep_family_repr [OF fam s] in auto)
  then obtain t where t: "sleep_insert_loop s lt ?w1 = Some (Inr (put_sleeping s t ?w2))"
    "rb_repr t (insort_key (sleep_key ?w2) lt (S s))" "rb_same (insert lt (set (S s))) (sleeping s w) t"
    using slp by auto
  let ?w' = "(put_sleeping s t ?w2)\<lparr>held := held w\<rparr>"
  have run: "lthread_sched_sleep now s lt msecs w = Inr ?w'"
    using lt cur free ms t(1)
    by (simp add: lthread_sched_sleep_def i_lthread_yield_def lthread_current_def Let_def held_last)
  have k': "sleep_key ?w' = sleep_key ?w2" by (rule ext) (simp add: sleep_key_def node_at_def)
  have fam': "sleep_family K ?w' (S(s := insort_key (sleep_key ?w2) lt (S s)))"
  proof -
    have "sleep_family K (put_sleeping s t ?w2) (S(s := insort_key (sleep_key ?w2) lt (S s)))"
      by (rule sleep_family_update [OF fam s t(2,3)])
         (use lt(3) fam s in \<open>auto simp: set_insort_key sleep_family_def rb_family_def\<close>)
    then show ?thesis by (simp add: sleep_family_def)
  qed
  have "sorted_by (sleep_key ?w2) (S s)"
    using keys(2) sleep_key_other(1) [OF new, of ?w1 ?l2] by simp
  then have srt': "sorted_by (sleep_key ?w') (insort_key (sleep_key ?w') lt (S s))"
    unfolding k' by (simp add: sorted_by_def sorted_insort_key)
  have "lts ?w' = (lts w)(lt \<mapsto> ?l2)" "ready_q ?w' = ready_q w" "held ?w' = held w"
    "\<forall>x. current_lthread (scheds ?w' x) = current_lthread (scheds w x)"
    by (simp_all add: fun_eq_iff)
  with run fam' [folded k'] srt' j keys(1) show ?thesis by (intro exI [of _ ?w'] exI [of _ j]) simp
qed


subsection \<open>Expired lthreads\<close>

definition sleepers_ok :: "addr set \<Rightarrow> world \<Rightarrow> addr \<Rightarrow> (addr \<Rightarrow> addr list) \<Rightarrow> addr list \<Rightarrow> bool" where
  "sleepers_ok K w s R xs \<longleftrightarrow>
     (\<forall>a \<in> set xs. (\<exists>l. lts w a = Some l \<and> lt_sched l = Some s) \<and> (\<forall>q \<in> K. a \<notin> set (R q)))"

lemma desched_sleep_ok:
  assumes "sleep_family K w S" "s \<in> K" "a \<in> set (S s)" "lts w a = Some l" "lt_sched l = Some s"
    "Pool_mutex \<notin> held w"
  shows "\<exists>t. lthread_desched_sleep_unsafe a w = Inr (ready_result s s a l (put_sleeping s t w)) \<and>
    sleep_family K (ready_result s s a l (put_sleeping s t w)) (S(s := remove1 a (S s)))"
proof -
  obtain t where t: "RB_REMOVE a (sleeping s w) = Some (a, t)" "rb_repr t (remove1 a (S s))"
    "rb_same (set (S s)) (sleeping s w) t"
    using rb_remove_member [OF sleep_family_repr [OF assms(1,2)] assms(3)] by blast
  have "lthread_desched_sleep_unsafe a w = Inr (ready_result s s a l (put_sleeping s t w))"
    using assms t(1) by (simp add: lthread_desched_sleep_unsafe_def push_ready_unsafe_ok)
  moreover have "sleep_family K (put_sleeping s t w) (S(s := remove1 a (S s)))"
    by (rule sleep_family_update [OF assms(1,2) t(2,3)])
       (use assms(1,2) set_remove1_subset [of a "S s"] in \<open>auto simp: sleep_family_def rb_family_def\<close>)
  ultimately show ?thesis by (intro exI [of _ t]) (simp add: sleep_family_def)
qed

lemma schedule_expired_loop_ok:
  assumes "sleep_family K w S" "tq_family K (ready_q w) R" "s \<in> K" "S s = xs" "sleepers_ok K w s R xs"
    "current_lthread (scheds w s) = NULL" "Pool_mutex \<notin> held w"
  shows "\<exists>w'. schedule_expired_loop now s w = Some (Inr w') \<and>
    tq_family K (ready_q w') (R(s := R s @ takeWhile (\<lambda>a. sleep_key w a \<le> now) xs)) \<and>
    sleep_family K w' (S(s := dropWhile (\<lambda>a. sleep_key w a \<le> now) xs)) \<and>
    lts w' = lts w \<and> held w' = held w \<and> (\<forall>x. current_lthread (scheds w' x) = current_lthread (scheds w x))"
  using assms
proof (induction xs arbitrary: w S R)
  case Nil
  have "schedule_expired_loop now s w = Some (Inr w)"
    using rb_repr_min [OF sleep_family_repr [OF Nil.prems(1,3)]] Nil.prems(4)
    by (subst schedule_expired_loop.simps) simp
  moreover have "R(s := R s) = R" "S(s := []) = S" using Nil.prems(4) by auto
  ultimately show ?case using Nil.prems by simp
next
  case (Cons a xs)
  have mn: "RB_MIN (sleeping s w) = Some (Some a)"
    using rb_repr_min [OF sleep_family_repr [OF Cons.prems(1,3)]] Cons.prems(4) by simp
  obtain l where l: "lts w a = Some l" "lt_sched l = Some s" using Cons.prems(5) by (auto simp: sleepers_ok_def)
  show ?case
  proof (cases "sleep_key w a \<le> now")
    case False
    then have "schedule_expired_loop now s w = Some (Inr w)"
      using mn l by (subst schedule_expired_loop.simps) (simp add: sleep_key_def)
    moreover have "S(s := a # xs) = S" using Cons.prems(4) by auto
    ultimately show ?thesis using False Cons.prems by simp
  next
    case True
    obtain t where t: "lthread_desched_sleep_unsafe a w = Inr (ready_result s s a l (put_sleeping s t w))"
      "sleep_family K (ready_result s s a l (put_sleeping s t w)) (S(s := remove1 a (S s)))"
      using desched_sleep_ok [OF Cons.prems(1,3) _ l Cons.prems(7)] Cons.prems(4) by auto
    let ?w = "ready_result s s a l (put_sleeping s t w)" and ?R = "R(s := R s @ [a])"
    have cur: "current_lthread (scheds (put_sleeping s t w) s) \<noteq> Some a" using Cons.prems(6) by simp
    have q: "tq_family K (ready_q ?w) ?R"
      using ready_result_queue [of K "put_sleeping s t w" R s a s l] Cons.prems(2,3,5) cur
      by (auto simp: sleepers_ok_def)
    have lts: "lts ?w = lts w" using cur by (simp add: ready_result_lts)
    have d: "distinct (a # xs)" using rb_repr_distinct [OF sleep_family_repr [OF Cons.prems(1,3)]] Cons.prems(4) by simp
    have "\<exists>w'. schedule_expired_loop now s ?w = Some (Inr w') \<and>
        tq_family K (ready_q w') (?R(s := ?R s @ takeWhile (\<lambda>a. sleep_key ?w a \<le> now) xs)) \<and>
        sleep_family K w' (S(s := xs, s := dropWhile (\<lambda>a. sleep_key ?w a \<le> now) xs)) \<and>
        lts w' = lts ?w \<and> held w' = held ?w \<and>
        (\<forall>x. current_lthread (scheds w' x) = current_lthread (scheds ?w x))"
    proof (rule Cons.IH [where w = ?w and S = "S(s := xs)", OF _ q Cons.prems(3)])
      show "sleep_family K ?w (S(s := xs))" using t(2) Cons.prems(4) by simp
      show "sleepers_ok K ?w s ?R xs" using Cons.prems(5) d lts by (auto simp: sleepers_ok_def)
    qed (use Cons.prems in simp_all)
    moreover have "schedule_expired_loop now s w = schedule_expired_loop now s ?w"
      using mn l True t(1) by (subst schedule_expired_loop.simps) (simp add: sleep_key_def)
    moreover have "sleep_key ?w = sleep_key w" using lts by (auto simp: sleep_key_def node_at_def)
    moreover have "current_lthread (((scheds w)(s := (scheds w s)\<lparr>sleeping_root := r\<rparr>)) x) = current_lthread (scheds w x)"
      for r x by simp
    ultimately show ?thesis using True lts by (auto simp del: fun_upd_apply simp: fun_upd_same)
  qed
qed

lemma sorted_takeWhile_filter:
  assumes "sorted_by f xs"
  shows "takeWhile (\<lambda>a. f a \<le> now) xs = filter (\<lambda>a. f a \<le> now) xs \<and>
    dropWhile (\<lambda>a. f a \<le> now) xs = filter (\<lambda>a. \<not> f a \<le> now) xs"
  using assms
proof (induction xs)
  case (Cons x xs)
  show ?case
  proof (cases "f x \<le> now")
    case False
    then have "\<forall>y \<in> set xs. \<not> f y \<le> now" using Cons.prems by (auto dest: order_trans)
    with False show ?thesis by (simp add: filter_empty_conv filter_id_conv)
  qed (use Cons in simp)
qed simp

lemma schedule_expired_ok:
  assumes fam: "sleep_family K w S" "tq_family K (ready_q w) R" and s: "s \<in> K"
    and ok: "sleepers_ok K w s R (S s)" and srt: "sorted_by (sleep_key w) (S s)"
    and cur: "current_lthread (scheds w s) = NULL" and free: "Pool_mutex \<notin> held w" "Sched_mutex s \<notin> held w"
  shows "\<exists>w'. lthread_schedule_expired now s w = Inr w' \<and>
    tq_family K (ready_q w') (R(s := R s @ filter (\<lambda>a. sleep_key w a \<le> now) (S s))) \<and>
    sleep_family K w' (S(s := filter (\<lambda>a. \<not> sleep_key w a \<le> now) (S s))) \<and>
    lts w' = lts w \<and> held w' = held w \<and> (\<forall>x. current_lthread (scheds w' x) = current_lthread (scheds w x))"
proof -
  let ?w = "w\<lparr>held := insert (Sched_mutex s) (held w)\<rparr>"
  have key: "sleep_key ?w = sleep_key w" by (simp add: fun_eq_iff sleep_key_def node_at_def)
  obtain w' where w': "schedule_expired_loop now s ?w = Some (Inr w')"
    "tq_family K (ready_q w') (R(s := R s @ takeWhile (\<lambda>a. sleep_key ?w a \<le> now) (S s)))"
    "sleep_family K w' (S(s := dropWhile (\<lambda>a. sleep_key ?w a \<le> now) (S s)))"
    "lts w' = lts ?w" "held w' = held ?w" "\<forall>x. current_lthread (scheds w' x) = current_lthread (scheds w x)"
    using schedule_expired_loop_ok [of K ?w S R s "S s" now] assms
    by (auto simp: sleep_family_def sleepers_ok_def)
  then have "lthread_schedule_expired now s w = Inr (w'\<lparr>held := held w\<rparr>)"
    using free(2) by (simp add: lthread_schedule_expired_def)
  with w' show ?thesis unfolding key conjunct1 [OF sorted_takeWhile_filter [OF srt]] conjunct2 [OF sorted_takeWhile_filter [OF srt]]
    by (intro exI [of _ "w'\<lparr>held := held w\<rparr>"]) (simp add: sleep_family_def)
qed


subsection \<open>Resuming\<close>

lemma resume_begin_ok:
  assumes "lts w lt = Some l" "lt_sched l = Some me" "\<not> is_running l" "Sched_mutex me \<notin> held w"
  shows "lthread_resume_begin me lt w =
    Inr ((upd_sched me (current_lthread_update (\<lambda>_. Some lt)) w)\<lparr>lts := (lts w)(lt \<mapsto> l\<lparr>is_running := True\<rparr>)\<rparr>)"
  using assms by (simp add: lthread_resume_begin_def held_last)

text \<open>What is left of an lthread when its coroutine has given up the processor.\<close>

definition parked :: "lthread \<Rightarrow> lthread" where
  "parked l = l\<lparr>is_running := False, lt_state := clear_flag LT_ST_SLEEPING (lt_state l), sleep_usecs := 0,
     needs_resched := False\<rparr>"

lemma resume_end_ok:
  assumes "lts w lt = Some l" "lt_sched l = Some s" "Sched_mutex me \<notin> held w"
  shows "\<exists>w'. lthread_resume_end me lt w = Inr w' \<and>
    lts w' = (if has_flag (lt_state l) LT_ST_EXITED then (lts w)(lt := None) else (lts w)(lt \<mapsto> parked l)) \<and>
    ready_q w' = (if needs_resched l then TAILQ_INSERT_TAIL s lt (ready_q w) else ready_q w) \<and>
    scheds w' = (scheds w)(me := (scheds w me)\<lparr>current_lthread := NULL\<rparr>) \<and>
    sleep_node w' = sleep_node w \<and> wait_node w' = wait_node w \<and> blocked_q w' = blocked_q w \<and>
    conds w' = conds w \<and> pool w' = pool w \<and> poller w' = poller w \<and> held w' = held w"
  using assms
  by (auto simp: lthread_resume_end_def lthread_free_def parked_def Let_def fun_eq_iff flag_simps held_last)

lemma yield_ok:
  assumes "current_lthread (scheds w me) = Some lt" "lts w lt = Some l" "lt_sched l = Some me"
    "Sched_mutex me \<notin> held w"
  shows "lthread_yield me w = Inr (w\<lparr>lts := (lts w)(lt \<mapsto> l\<lparr>needs_resched := True\<rparr>)\<rparr>)"
  using assms by (simp add: lthread_yield_def lthread_current_def i_lthread_yield_def held_last)

lemma exit_ok:
  assumes "current_lthread (scheds w me) = Some lt" "lts w lt = Some l" "lt_sched l = Some me"
  shows "lthread_exit me w = Inr (w\<lparr>lts := (lts w)(lt \<mapsto> l\<lparr>lt_state := set_flag LT_ST_EXITED (lt_state l)\<rparr>)\<rparr>)"
  using assms by (simp add: lthread_exit_def i_lthread_exit_def lthread_current_def i_lthread_yield_def)

lemma sleep_zero_ok:
  assumes "current_lthread (scheds w me) = Some lt" "lts w lt = Some l" "lt_sched l = Some me"
    "Sched_mutex me \<notin> held w"
  shows "lthread_sleep now me 0 w =
    Inr (w\<lparr>lts := (lts w)(lt \<mapsto> l\<lparr>lt_state := set_flag LT_ST_SLEEPING (lt_state l), sleep_usecs := 0\<rparr>)\<rparr>)"
  using assms
  by (simp add: lthread_sleep_def lthread_sched_sleep_def lthread_current_def i_lthread_yield_def Let_def held_last)

subsection \<open>Waking an lthread\<close>

lemma wakeup_iter_stale:
  assumes "lts w lt = Some l" "lt_sched l \<noteq> Some seen" "Sched_mutex seen \<notin> held w"
  shows "lthread_wakeup_iter lt seen w = Inr (False, w)"
  using assms by (simp add: lthread_wakeup_iter_def)

lemma wakeup_ok:
  assumes "lts w lt = Some l" "lt_sched l = Some s" "Sched_mutex s \<notin> held w" "Pool_mutex \<notin> held w"
  shows "sleep_usecs l = 0 \<Longrightarrow> lthread_wakeup lt w = Inr (ready_result s s lt l w)"
    and "sleep_usecs l \<noteq> 0 \<Longrightarrow> lthread_desched_sleep_unsafe lt (w\<lparr>held := insert (Sched_mutex s) (held w)\<rparr>) = Inr w' \<Longrightarrow>
      held w' = insert (Sched_mutex s) (held w) \<Longrightarrow> lthread_wakeup lt w = Inr (w'\<lparr>held := held w\<rparr>)"
proof -
  let ?w = "w\<lparr>held := insert (Sched_mutex s) (held w)\<rparr>"
  have loop: "lthread_wakeup lt w = Inr v" if "lthread_wakeup_iter lt s w = Inr (True, v)" for v
    using that assms(1,2) unfolding lthread_wakeup_def by (subst lthread_wakeup_loop.simps) simp
  show "sleep_usecs l = 0 \<Longrightarrow> lthread_wakeup lt w = Inr (ready_result s s lt l w)"
    using assms push_ready_unsafe_ok [of ?w lt l s s]
    by (intro loop) (simp add: lthread_wakeup_iter_def ready_held)
  show "lthread_wakeup lt w = Inr (w'\<lparr>held := held w\<rparr>)"
    if "sleep_usecs l \<noteq> 0" "lthread_desched_sleep_unsafe lt ?w = Inr w'" "held w' = insert (Sched_mutex s) (held w)"
    using assms that by (intro loop) (simp add: lthread_wakeup_iter_def)
qed

subsection \<open>The blocking decision\<close>

lemma isdone_iff:
  assumes "sleep_family K w S" "tq_family K (ready_q w) R" "s \<in> K"
  shows "lthread_sched_isdone s w \<longleftrightarrow> S s = [] \<and> R s = []"
proof -
  from sleep_family_repr [OF assms(1,3)] obtain T where
    T: "rb_at (sleeping s w) [] T" "inord T = S s" by (auto simp: rb_repr_def)
  then have "RB_EMPTY (sleeping s w) \<longleftrightarrow> S s = []"
    using rb_at_root [OF T(1)] by (auto simp: RB_EMPTY_def)
  with TAILQ_EMPTY_repr [OF tq_family_repr [OF assms(2,3)]] show ?thesis by (simp add: lthread_sched_isdone_def)
qed

lemma min_timeout_ok:
  assumes "sleep_family K w S" "s \<in> K" "\<And>a. a \<in> set (S s) \<Longrightarrow> lts w a \<noteq> None"
  shows "lthread_min_timeout now s w =
    Inr (case S s of [] \<Rightarrow> 1 | a # _ \<Rightarrow> if sleep_key w a > now then sleep_key w a else 1)"
proof (cases "S s")
  case Nil
  with rb_repr_min [OF sleep_family_repr [OF assms(1,2)]] show ?thesis by (simp add: lthread_min_timeout_def)
next
  case (Cons a xs)
  then obtain l where "lts w a = Some l" using assms(3) [of a] by auto
  with rb_repr_min [OF sleep_family_repr [OF assms(1,2)]] Cons show ?thesis
    by (simp add: lthread_min_timeout_def sleep_key_def)
qed

definition others_asleep :: "addr \<Rightarrow> world \<Rightarrow> bool" where
  "others_asleep s w \<longleftrightarrow>
     list_all id (take (num_schedulers (pool w)) ((asleep (pool w))[sched_id (scheds w s) := True]))"

lemma run_sched_block_ok:
  assumes fam: "sleep_family K w S" "tq_family K (ready_q w) R" and s: "s \<in> K"
    and al: "\<And>a. a \<in> set (S s) \<Longrightarrow> lts w a \<noteq> None"
    and free: "Sched_mutex s \<notin> held w" "Pool_mutex \<notin> held w" "Poller_mutex \<notin> held w"
  shows "\<exists>d w'. run_sched_block now s w = Inr (d, w') \<and> held w' = held w \<and> lts w' = lts w \<and>
    ready_q w' = ready_q w \<and>
    d = (if block_state (scheds w s) = LTHREAD_SCHED_WONT_BLOCK then Continue
         else if S s = [] \<and> R s = [] \<and> num_pending_events (poller w) = 0
         then (if others_asleep s w then All_done else Wait 0 True)
         else Wait (case S s of [] \<Rightarrow> 1 | a # _ \<Rightarrow> if sleep_key w a > now then sleep_key w a else 1) False) \<and>
    block_state (scheds w' s) =
      (case d of Wait t b \<Rightarrow> LTHREAD_SCHED_IS_BLOCKING | _ \<Rightarrow> LTHREAD_SCHED_WILL_BLOCK)"
proof -
  let ?w = "(upd_sched s (block_state_update (\<lambda>_. LTHREAD_SCHED_IS_BLOCKING)) w)\<lparr>held := insert (Sched_mutex s) (held w)\<rparr>"
  have f: "sleep_family K ?w S" "tq_family K (ready_q ?w) R"
    using fam sleep_family_cong [of ?w w K S] by auto
  have isd: "lthread_sched_isdone s ?w \<longleftrightarrow> S s = [] \<and> R s = []" by (rule isdone_iff [OF f s])
  have key: "sleep_key ?w = sleep_key w" by (simp add: fun_eq_iff sleep_key_def node_at_def)
  have mt: "lthread_min_timeout now s ?w =
      Inr (case S s of [] \<Rightarrow> 1 | a # _ \<Rightarrow> if sleep_key w a > now then sleep_key w a else 1)"
    using min_timeout_ok [OF f(1) s, of now] al unfolding key by simp
  have pos: "0 < (case S s of [] \<Rightarrow> 1 | a # _ \<Rightarrow> if sleep_key w a > now then sleep_key w a else (1::u64))"
    by (auto split: list.split simp: word_gt_0)
  show ?thesis
  proof (cases "block_state (scheds w s) = LTHREAD_SCHED_WONT_BLOCK")
    case True
    with free(1) show ?thesis by (simp add: run_sched_block_def held_last)
  next
    case False
    show ?thesis
    proof (cases "S s = [] \<and> R s = []")
      case True
      with False free isd mt pos show ?thesis
        by (cases "num_pending_events (poller w) = 0"; cases "others_asleep s w")
           (simp_all add: run_sched_block_def lthread_poller_has_pending_events_def others_asleep_def Let_def
             lthread_pool_begin_deep_sleep_def held_last)
    next
      case nd: False
      with False free isd mt pos show ?thesis
        by (auto simp add: run_sched_block_def held_last)
    qed
  qed
qed

end
