(* ===== verification/Sched_Props.thy ===== *)
theory Sched_Props
  imports Sched_Proof
begin

section \<open>The scheduler: start-up and properties\<close>

text \<open>
  The ring of schedulers \<open>lthread_run\<close> builds, and the properties of the scheduler as statements over
  the operations of \<open>Sched\<close>, each with an instance on a concrete pool.
\<close>

subsection \<open>The ring of schedulers\<close>

lemma link_ring_other:
  "ss \<noteq> [] \<Longrightarrow> x \<notin> insert a (set (butlast ss)) \<Longrightarrow> scheds (link_ring a ss w) x = scheds w x"
  by (induction ss arbitrary: a w) (auto simp: upd_sched_def split: if_splits)

lemma link_ring_keeps:
  "ready_q (link_ring a ss w) = ready_q w" "sleep_node (link_ring a ss w) = sleep_node w"
  "sleeping_root (scheds (link_ring a ss w) x) = sleeping_root (scheds w x)"
  "block_state (scheds (link_ring a ss w) x) = block_state (scheds w x)"
  "current_lthread (scheds (link_ring a ss w) x) = current_lthread (scheds w x)"
  "sched_id (scheds (link_ring a ss w) x) = sched_id (scheds w x)"
  "pool (link_ring a ss w) = pool w" "poller (link_ring a ss w) = poller w"
  "lts (link_ring a ss w) = lts w" "held (link_ring a ss w) = held w" "blocked_q (link_ring a ss w) = blocked_q w"
  by (induction ss arbitrary: a w) (auto simp: upd_sched_def)

lemma link_ring_neighbor:
  "distinct (a # butlast ss) \<Longrightarrow> i < length ss \<Longrightarrow> neighbor (link_ring a ss w) ((a # ss) ! i) = Some (ss ! i)"
proof (induction ss arbitrary: a w i)
  case (Cons s ss)
  show ?case
  proof (cases i)
    case 0
    then show ?thesis using Cons.prems link_ring_other [of ss a s] by (cases "ss = []") (auto simp: upd_sched_def)
  next
    case (Suc j)
    then have "ss \<noteq> []" using Cons.prems(2) by auto
    with Suc Cons.IH [of s j "upd_sched a (sched_neighbor_update (\<lambda>_. Some s)) w"] Cons.prems show ?thesis by simp
  qed
qed simp

definition is_ring :: "(addr \<Rightarrow> ptr) \<Rightarrow> addr list \<Rightarrow> bool" where
  "is_ring nb ss \<longleftrightarrow> (\<forall>i < length ss. nb (ss ! i) = Some (ss ! (Suc i mod length ss)))"

lemma link_ring_is_ring:
  assumes "distinct ss" "ss \<noteq> []"
  shows "is_ring (neighbor (link_ring (last ss) ss w)) ss"
  unfolding is_ring_def
proof (intro allI impI)
  fix i assume i: "i < length ss"
  have "distinct (butlast ss @ [last ss])" using assms by simp
  then have d: "distinct (last ss # butlast ss)" by (simp del: append_butlast_last_id)
  show "neighbor (link_ring (last ss) ss w) (ss ! i) = Some (ss ! (Suc i mod length ss))"
  proof (cases "Suc i = length ss")
    case True
    then have l: "last ss = ss ! i" using assms(2) by (metis diff_Suc_1 last_conv_nth)
    from True assms(2) link_ring_neighbor [OF d, of 0 w] show ?thesis by (simp flip: l)
  next
    case False
    with i link_ring_neighbor [OF d, of "Suc i" w] show ?thesis by simp
  qed
qed

lemma is_ring_rotate: "is_ring nb ss \<Longrightarrow> is_ring nb (rotate k ss)"
proof (cases "ss = []")
  case False
  assume r: "is_ring nb ss"
  have "nb (rotate k ss ! i) = Some (rotate k ss ! (Suc i mod length ss))" if "i < length ss" for i
  proof -
    have "(k + i) mod length ss < length ss" using False by simp
    then have "nb (ss ! ((k + i) mod length ss)) = Some (ss ! (Suc (k + i) mod length ss))"
      using r by (simp add: is_ring_def mod_Suc_eq)
    then show ?thesis using that False by (simp add: nth_rotate mod_add_right_eq)
  qed
  then show ?thesis by (simp add: is_ring_def)
qed simp

lemma is_ring_ring_to:
  assumes "is_ring nb ss" "distinct ss" "ss \<noteq> []"
  shows "ring_to nb (hd ss) (nb (hd ss)) (tl ss)"
proof -
  have "ring_to nb (hd ss) (Some (ss ! (j mod length ss))) (drop j ss)" if "0 < j" "j \<le> length ss" for j
    using that
  proof (induction "length ss - j" arbitrary: j)
    case 0
    then show ?case using assms(3) by (simp add: hd_conv_nth)
  next
    case (Suc n)
    then have j: "j < length ss" by simp
    then have "drop j ss = ss ! j # drop (Suc j) ss" by (simp add: Cons_nth_drop_Suc)
    moreover have "ss ! j \<noteq> hd ss" using assms(2,3) j Suc.prems(1) by (simp add: hd_conv_nth nth_eq_iff_index_eq)
    moreover have "nb (ss ! j) = Some (ss ! (Suc j mod length ss))" using assms(1) j by (simp add: is_ring_def)
    moreover have "ring_to nb (hd ss) (Some (ss ! (Suc j mod length ss))) (drop (Suc j) ss)"
      using Suc.hyps(1) [of "Suc j"] Suc.hyps(2) j by simp
    ultimately show ?case using j by simp
  qed
  from this [of 1] assms(1,3) show ?thesis by (simp add: is_ring_def hd_conv_nth drop_Suc Suc_le_eq)
qed

subsection \<open>Round robin\<close>

lemma get_next_ok:
  assumes "is_ring (neighbor w) ss" "pool_next (pool w) = ss ! i" "i < length ss" "Pool_mutex \<notin> held w"
  shows "lthread_pool_get_next w =
    Inr (ss ! i, w\<lparr>pool := (pool w)\<lparr>pool_next := ss ! (Suc i mod length ss)\<rparr>\<rparr>)"
  using assms by (simp add: lthread_pool_get_next_def is_ring_def Let_def held_last)

text \<open>\<open>n\<close> calls of \<open>_lthread_pool_get_next\<close>, one after the other.\<close>

fun get_next_n :: "nat \<Rightarrow> world \<Rightarrow> (addr list \<times> world) res" where
  "get_next_n 0 w = Inr ([], w)"
| "get_next_n (Suc n) w =
     rbind (lthread_pool_get_next w) (\<lambda>(s, w). rbind (get_next_n n w) (\<lambda>(ss, w). Inr (s # ss, w)))"

lemma get_next_n_ok:
  assumes "is_ring (neighbor w) ss" "pool_next (pool w) = ss ! i" "i < length ss" "Pool_mutex \<notin> held w"
  shows "\<exists>w'. get_next_n n w = Inr (map (\<lambda>k. ss ! ((i + k) mod length ss)) [0..<n], w')"
  using assms
proof (induction n arbitrary: w i)
  case (Suc n)
  let ?w = "w\<lparr>pool := (pool w)\<lparr>pool_next := ss ! (Suc i mod length ss)\<rparr>\<rparr>"
  obtain w' where w': "get_next_n n ?w = Inr (map (\<lambda>k. ss ! ((Suc i mod length ss + k) mod length ss)) [0..<n], w')"
    using Suc.IH [of ?w "Suc i mod length ss"] Suc.prems mod_less_divisor [of "length ss" "Suc i"] by fastforce
  have "(Suc i mod length ss + k) mod length ss = (i + Suc k) mod length ss" for k
    by (simp add: mod_add_left_eq)
  then show ?case
    using w' get_next_ok [OF Suc.prems] Suc.prems(3)
    by (simp add: map_upt_Suc del: upt_Suc)
qed simp

subsection \<open>Start-up\<close>

lemma init_scheds_ok:
  assumes "distinct ss" "w' = fold (init_sched ps st) (enumerate n ss) w"
  shows "(\<forall>i < length ss. scheds w' (ss ! i) = lthread_sched_create ps st (n + i)) \<and>
    (\<forall>x. x \<notin> set ss \<longrightarrow> scheds w' x = scheds w x) \<and>
    (\<forall>s \<in> set ss. tq_repr (ready_q w') s []) \<and>
    tq_frame (set ss) {} (ready_q w) (ready_q w') \<and>
    lts w' = lts w \<and> sleep_node w' = sleep_node w \<and> held w' = held w \<and> blocked_q w' = blocked_q w"
  using assms
proof (induction ss arbitrary: w n)
  case (Cons s ss)
  let ?w = "init_sched ps st (n, s) w"
  have w': "w' = fold (init_sched ps st) (enumerate (Suc n) ss) ?w" using Cons.prems by simp
  note IH = Cons.IH [OF _ w']
  have q: "tq_repr (ready_q ?w) s []" by (simp add: init_sched_def TAILQ_INIT_repr)
  have f: "tq_frame {s} {} (ready_q w) (ready_q ?w)" by (simp add: init_sched_def tq_frame_def TAILQ_INIT_def)
  have f': "tq_frame (set ss) {} (ready_q ?w) (ready_q w')" using IH Cons.prems(1) by simp
  have "tq_repr (ready_q w') s []" by (rule tq_repr_frame [OF q f']) (use Cons.prems(1) in auto)
  moreover have "tq_frame (set (s # ss)) {} (ready_q w) (ready_q w')"
    using f f' by (auto simp: tq_frame_def)
  moreover have "scheds w' ((s # ss) ! i) = lthread_sched_create ps st (n + i)" if "i < length (s # ss)" for i
    using that IH Cons.prems(1) by (cases i) (auto simp: init_sched_def)
  ultimately show ?case using IH Cons.prems(1) by (auto simp: init_sched_def)
qed simp

lemma run_init_ok:
  assumes "distinct ss" "ss \<noteq> []" "w' = lthread_run_init ps st ss pfd w"
  shows "is_ring (neighbor w') ss" "tq_family (set ss) (ready_q w') (\<lambda>_. [])"
    "sleep_family (set ss) w' (\<lambda>_. [])" "pool_next (pool w') = ss ! 0"
    "asleep (pool w') = replicate (length ss) False" "num_schedulers (pool w') = length ss"
    "num_pending_events (poller w') = 0" "lts w' = lts w" "held w' = held w"
    "\<And>i. i < length ss \<Longrightarrow> sched_id (scheds w' (ss ! i)) = i \<and> current_lthread (scheds w' (ss ! i)) = NULL \<and>
       block_state (scheds w' (ss ! i)) = LTHREAD_SCHED_WILL_BLOCK"
proof -
  define st' where "st' = (if st = 0 then MAX_STACK_SIZE else st)"
  define w1 where "w1 = fold (init_sched ps st') (enumerate 0 ss) w"
  let ?w2 = "w1\<lparr>pool := \<lparr>asleep = replicate (length ss) False, num_schedulers = length ss, pool_next = hd ss\<rparr>,
      poller := \<lparr>poller_fd = pfd, poller_eventfd = 0, waiting_root = NULL, num_pending_events = 0\<rparr>\<rparr>"
  have w': "w' = link_ring (last ss) ss ?w2"
    using assms(3) by (simp add: lthread_run_init_def w1_def st'_def Let_def)
  note i = init_scheds_ok [OF assms(1) w1_def]
  show "is_ring (neighbor w') ss" unfolding w' by (rule link_ring_is_ring [OF assms(1,2)])
  show "tq_family (set ss) (ready_q w') (\<lambda>_. [])" using i by (simp add: w' link_ring_keeps tq_family_def)
  have root: "sleeping_root (scheds w' s) = NULL" if "s \<in> set ss" for s
    using that i by (auto simp: w' link_ring_keeps in_set_conv_nth lthread_sched_create_def)
  have "rb_repr \<lparr>rbh_root = NULL, rbn = n\<rparr> []" for n
    by (auto simp: rb_repr_def rb_at_def rb_tree_def intro!: exI [of _ RLeaf])
  with root show "sleep_family (set ss) w' (\<lambda>_. [])" by (simp add: sleep_family_def rb_family_def)
  show "sched_id (scheds w' (ss ! j)) = j \<and> current_lthread (scheds w' (ss ! j)) = NULL \<and>
      block_state (scheds w' (ss ! j)) = LTHREAD_SCHED_WILL_BLOCK" if "j < length ss" for j
    using i that by (simp add: w' link_ring_keeps lthread_sched_create_def)
  show "pool_next (pool w') = ss ! 0" "asleep (pool w') = replicate (length ss) False"
    "num_schedulers (pool w') = length ss" "num_pending_events (poller w') = 0" "lts w' = lts w" "held w' = held w"
    using i assms(2) by (simp_all add: w' link_ring_keeps hd_conv_nth)
qed


subsection \<open>A concrete pool\<close>

definition world0 :: world where
  "world0 = \<lparr>lts = Map.empty, scheds = (\<lambda>_. lthread_sched_create 0 0 0), conds = Map.empty,
     pool = \<lparr>asleep = [], num_schedulers = 0, pool_next = 0\<rparr>,
     poller = \<lparr>poller_fd = 0, poller_eventfd = 0, waiting_root = NULL, num_pending_events = 0\<rparr>,
     sleep_node = (\<lambda>_. entry NULL NULL NULL RB_BLACK), wait_node = (\<lambda>_. entry NULL NULL NULL RB_BLACK),
     ready_q = tq_zero, blocked_q = tq_zero, held = {}, signalled = {}\<rparr>"

text \<open>Two schedulers, 10 and 11; in \<open>running5\<close> the lthread 5 runs on 10.\<close>

definition pool2 :: world where
  "pool2 = lthread_run_init 4096 0 [10, 11] 3 world0"

definition lt5 :: lthread where
  "lt5 = lthread_zero\<lparr>lt_sched := Some 10, is_running := True\<rparr>"

definition running5 :: world where
  "running5 = (upd_sched 10 (current_lthread_update (\<lambda>_. Some 5)) pool2)\<lparr>lts := [5 \<mapsto> lt5]\<rparr>"

lemmas pool2_init = run_init_ok [of "[10, 11]", OF _ _ pool2_def]

lemma pool2_facts [simp]:
  "held pool2 = {}" "lts pool2 = Map.empty" "tq_family {10, 11} (ready_q pool2) (\<lambda>_. [])"
  "sleep_family {10, 11} pool2 (\<lambda>_. [])" "neighbor pool2 10 = Some 11" "neighbor pool2 11 = Some 10"
  "block_state (scheds pool2 10) = LTHREAD_SCHED_WILL_BLOCK" "current_lthread (scheds pool2 10) = NULL"
  "num_pending_events (poller pool2) = 0" "lthread_cache (scheds pool2 10) = []"
  using pool2_init(1-9) pool2_init(10) [of 0]
  by (simp_all add: world0_def is_ring_def insert_commute)
     (simp_all add: pool2_def lthread_run_init_def init_sched_def lthread_sched_create_def upd_sched_def enumerate_eq_zip
        numeral_2_eq_2)

lemma running5_facts [simp]:
  "held running5 = {}" "lts running5 = [5 \<mapsto> lt5]" "tq_family {10, 11} (ready_q running5) (\<lambda>_. [])"
  "sleep_family {10, 11} running5 (\<lambda>_. [])" "neighbor running5 10 = Some 11" "neighbor running5 11 = Some 10"
  "current_lthread (scheds running5 10) = Some 5" "ready_q running5 = ready_q pool2"
  "block_state (scheds running5 10) = LTHREAD_SCHED_WILL_BLOCK"
  using sleep_family_cong [of running5 pool2 "{10, 11}" "\<lambda>_. []"]
  by (simp_all add: running5_def)

lemma lt5_facts [simp]:
  "lt_sched lt5 = Some 10" "lt_state lt5 = 0" "\<not> needs_resched lt5" "sleep_usecs lt5 = 0" "is_running lt5"
  by (simp_all add: lt5_def lthread_zero_def)

text \<open>The lthread 5 waits in the ready queue of 11 (\<open>queued5\<close>), or sleeps until 50 on 10 (\<open>asleep5\<close>).\<close>

definition queued5 :: world where
  "queued5 = pool2\<lparr>lts := [5 \<mapsto> lthread_zero\<lparr>lt_sched := Some 11\<rparr>],
     ready_q := TAILQ_INSERT_TAIL 11 5 (ready_q pool2)\<rparr>"

definition asleep5 :: world where
  "asleep5 = (upd_sched 10 (sleeping_root_update (\<lambda>_. Some 5)) pool2)
     \<lparr>lts := [5 \<mapsto> lthread_zero\<lparr>lt_sched := Some 10, sleep_usecs := 50\<rparr>]\<rparr>"

lemma queued5_facts [simp]:
  "held queued5 = {}" "lts queued5 = [5 \<mapsto> lthread_zero\<lparr>lt_sched := Some 11\<rparr>]"
  "tq_family {10, 11} (ready_q queued5) ((\<lambda>_. [])(11 := [5]))"
  "neighbor queued5 10 = Some 11" "neighbor queued5 11 = Some 10"
  using tq_family_insert [OF pool2_facts(3), of 11 5] by (simp_all add: queued5_def)

lemma asleep5_facts [simp]:
  "held asleep5 = {}" "lts asleep5 = [5 \<mapsto> lthread_zero\<lparr>lt_sched := Some 10, sleep_usecs := 50\<rparr>]"
  "tq_family {10, 11} (ready_q asleep5) (\<lambda>_. [])" "current_lthread (scheds asleep5 10) = NULL"
  "sleep_key asleep5 5 = 50"
  by (simp_all add: asleep5_def sleep_key_def node_at_def)

lemma asleep5_family: "sleep_family {10, 11} asleep5 ((\<lambda>_. [])(10 := [5]))"
proof -
  have n: "sleep_node asleep5 = (\<lambda>_. entry NULL NULL NULL RB_BLACK)"
    "sleeping_root (scheds asleep5 10) = Some 5" "sleeping_root (scheds asleep5 11) = NULL"
    by (simp_all add: asleep5_def pool2_def lthread_run_init_def world0_def init_sched_def lthread_sched_create_def
        upd_sched_def enumerate_eq_zip numeral_2_eq_2)
  have "rb_repr \<lparr>rbh_root = Some 5, rbn = (\<lambda>_. entry NULL NULL NULL RB_BLACK)\<rparr> [5]"
    unfolding rb_repr_def by (rule exI [of _ "RNode RB_BLACK RLeaf 5 RLeaf"]) (simp add: rb_at_def rb_tree_def)
  moreover have "rb_repr \<lparr>rbh_root = NULL, rbn = (\<lambda>_. entry NULL NULL NULL RB_BLACK)\<rparr> []"
    unfolding rb_repr_def by (rule exI [of _ RLeaf]) (simp add: rb_at_def rb_tree_def)
  ultimately show ?thesis using n by (simp add: sleep_family_def rb_family_def)
qed

subsection \<open>Properties\<close>

text \<open>Start-up: \<open>lthread_run\<close> links the schedulers into one ring, every ready queue and every sleep tree
  is empty, no scheduler is asleep, and each one has its index as identifier.\<close>

theorem lthread_run_init_ring:
  assumes "distinct ss" "ss \<noteq> []" "w' = lthread_run_init ps st ss pfd w"
  shows "is_ring (neighbor w') ss \<and> tq_family (set ss) (ready_q w') (\<lambda>_. []) \<and>
    sleep_family (set ss) w' (\<lambda>_. []) \<and> asleep (pool w') = replicate (length ss) False \<and>
    (\<forall>i < length ss. sched_id (scheds w' (ss ! i)) = i)"
  using run_init_ok [OF assms] by blast

theorem lthread_run_init_ring_witness:
  "is_ring (neighbor (lthread_run_init 4096 0 [7, 8, 9] 3 world0)) [7, 8, 9] \<and>
   asleep (pool (lthread_run_init 4096 0 [7, 8, 9] 3 world0)) = [False, False, False]"
  using lthread_run_init_ring [OF _ _ refl, of "[7, 8, 9]" 4096 0 3 world0] by (simp add: numeral_3_eq_3)

text \<open>\<open>_lthread_pool_get_next\<close> goes round the ring: as many calls as there are schedulers return every
  scheduler exactly once, starting with the one that is next.\<close>

theorem lthread_pool_get_next_round_robin:
  assumes "is_ring (neighbor w) ss" "pool_next (pool w) = ss ! i" "i < length ss" "Pool_mutex \<notin> held w"
  shows "\<exists>w'. get_next_n (length ss) w = Inr (rotate i ss, w')"
proof -
  have "map (\<lambda>k. ss ! ((i + k) mod length ss)) [0..<length ss] = rotate i ss"
    by (rule nth_equalityI) (auto simp: nth_rotate)
  with get_next_n_ok [OF assms, of "length ss"] show ?thesis by simp
qed

theorem lthread_pool_get_next_round_robin_witness:
  "\<exists>w'. get_next_n 2 pool2 = Inr ([10, 11], w')"
proof -
  have "pool_next (pool pool2) = [10, 11] ! 0" using pool2_init(4) by simp
  with lthread_pool_get_next_round_robin [of pool2 "[10, 11]" 0] show ?thesis
    by (simp add: is_ring_def numeral_2_eq_2 less_Suc_eq)
qed

text \<open>(C12) \<open>_lthread_pop_ready\<close> returns \<open>NULL\<close> only if no queue of the ring that can be locked holds an lthread;
  otherwise it takes the oldest lthread of the first such queue (the own one first, then around the
  ring), makes it an lthread of the calling scheduler, and leaves the other queues and all the sleep
  trees as they are. No mutex stays locked.\<close>

theorem lthread_pop_ready_steals:
  assumes "tq_family K (ready_q w) R" "ring_to (neighbor w) me (neighbor w me) xs" "insert me (set xs) \<subseteq> K"
    "Sched_mutex me \<notin> held w" "Pool_mutex \<notin> held w" "\<forall>n. neighbor w me = Some n \<longrightarrow> Sched_mutex n \<notin> held w"
    "\<forall>x \<in> K. \<forall>a \<in> set (R x). lts w a \<noteq> None"
  shows "(case find (can_pop w R) (me # xs) of
      None \<Rightarrow> lthread_pop_ready me w = Inr (NULL, w)
    | Some x \<Rightarrow> \<exists>w' l. lthread_pop_ready me w = Inr (Some (hd (R x)), w') \<and>
        tq_family K (ready_q w') (R(x := tl (R x))) \<and> lts w (hd (R x)) = Some l \<and>
        lts w' = (lts w)(hd (R x) \<mapsto> l\<lparr>lt_sched := Some me\<rparr>) \<and>
        (\<forall>s. sleeping s w' = sleeping s w) \<and> held w' = held w)"
proof (cases "find (can_pop w R) (me # xs)")
  case None
  with pop_ready_empty [OF assms(1-4) None] show ?thesis by simp
next
  case (Some x)
  have x: "x \<in> K" "R x \<noteq> []" using Some assms(3) by (auto simp: find_Some_iff can_pop_def split: if_splits)
  then obtain lt rest l where lt: "R x = lt # rest" "lts w lt = Some l"
    using assms(7) by (cases "R x") fastforce+
  have "\<And>n. neighbor w me = Some n \<Longrightarrow> Sched_mutex n \<notin> held w" using assms(6) by blast
  from pop_ready_takes [OF assms(1-5) this Some lt] show ?thesis unfolding Some option.case lt(1) list.sel using lt(2) by blast
qed

theorem lthread_pop_ready_steals_witness:
  "\<exists>w' l. lthread_pop_ready 10 queued5 = Inr (Some 5, w') \<and> lts w' 5 = Some l \<and> lt_sched l = Some 10 \<and>
     tq_family {10, 11} (ready_q w') ((\<lambda>_. [])(11 := []))"
  using lthread_pop_ready_steals [of "{10, 11}" queued5 "(\<lambda>_. [])(11 := [5])" 10 "[11]"]
  by (auto simp: can_pop_def)

text \<open>(C3) A wake-up is not lost: after \<open>_lthread_sched_wake\<close>, a scheduler that was about to block does not block
  but looks for work again, and one that blocks has its condition variable signalled and is no longer
  counted as asleep.\<close>

theorem lthread_sched_wake_not_lost:
  assumes "Sched_mutex s \<notin> held w" "Pool_mutex \<notin> held w"
  shows "\<exists>w'. lthread_sched_wake s w = Inr w' \<and> held w' = held w \<and>
    (if block_state (scheds w s) = LTHREAD_SCHED_IS_BLOCKING
     then s \<in> signalled w' \<and> asleep (pool w') = (asleep (pool w))[sched_id (scheds w s) := False]
     else \<exists>w''. run_sched_block now s w' = Inr (Continue, w''))"
proof -
  have "block_state (scheds (wake_result s w) s) = LTHREAD_SCHED_WONT_BLOCK"
    if "block_state (scheds w s) \<noteq> LTHREAD_SCHED_IS_BLOCKING"
    using that by (cases "block_state (scheds w s)") (simp_all add: wake_result_block_state)
  then show ?thesis
    using assms
    by (auto simp: wake_ok run_sched_block_def held_last)
       (simp_all add: wake_result_def lthread_os_cond_signal_def)
qed

theorem lthread_sched_wake_not_lost_witness:
  "\<exists>w' w''. lthread_sched_wake 10 pool2 = Inr w' \<and> run_sched_block 77 10 w' = Inr (Continue, w'')"
  using lthread_sched_wake_not_lost [of 10 pool2 77] by auto

text \<open>The blocking decision of \<open>_lthread_run_sched\<close>: no assertion fails (the timeout is never 0), a scheduler
  ends only when it has no ready and no sleeping lthread, no event is pending and all the others are
  asleep, it sleeps without a limit only when it has nothing to do, and otherwise it waits until the
  first wake-up time.\<close>

theorem run_sched_block_decides:
  assumes "sleep_family K w S" "tq_family K (ready_q w) R" "s \<in> K" "\<And>a. a \<in> set (S s) \<Longrightarrow> lts w a \<noteq> None"
    "Sched_mutex s \<notin> held w" "Pool_mutex \<notin> held w" "Poller_mutex \<notin> held w"
  shows "\<exists>d w'. run_sched_block now s w = Inr (d, w') \<and> held w' = held w \<and>
    d = (if block_state (scheds w s) = LTHREAD_SCHED_WONT_BLOCK then Continue
         else if S s = [] \<and> R s = [] \<and> num_pending_events (poller w) = 0
         then (if others_asleep s w then All_done else Wait 0 True)
         else Wait (case S s of [] \<Rightarrow> 1 | a # _ \<Rightarrow> if sleep_key w a > now then sleep_key w a else 1) False)"
  using run_sched_block_ok [OF assms, of now] by blast

theorem run_sched_block_decides_witness:
  "\<exists>w'. run_sched_block 77 10 pool2 = Inr (if others_asleep 10 pool2 then All_done else Wait 0 True, w')"
  using run_sched_block_decides [of "{10, 11}" pool2 "\<lambda>_. []" "\<lambda>_. []" 10 77] by auto

text \<open>(C15) \<open>_lthread_schedule_expired\<close> ends, moves exactly the lthreads whose wake-up time has come from the
  sleep tree to the tail of the ready queue, in the order of their wake-up times, and keeps the
  others asleep.\<close>

theorem lthread_schedule_expired_moves:
  assumes "sleep_family K w S" "tq_family K (ready_q w) R" "s \<in> K" "sleepers_ok K w s R (S s)"
    "sorted_by (sleep_key w) (S s)" "current_lthread (scheds w s) = NULL"
    "Pool_mutex \<notin> held w" "Sched_mutex s \<notin> held w"
  shows "\<exists>w'. lthread_schedule_expired now s w = Inr w' \<and> held w' = held w \<and> lts w' = lts w \<and>
    tq_family K (ready_q w') (R(s := R s @ filter (\<lambda>a. sleep_key w a \<le> now) (S s))) \<and>
    sleep_family K w' (S(s := filter (\<lambda>a. \<not> sleep_key w a \<le> now) (S s)))"
  using schedule_expired_ok [OF assms, of now] by blast

theorem lthread_schedule_expired_moves_witness:
  "\<exists>w'. lthread_schedule_expired 99 10 asleep5 = Inr w' \<and>
     tq_family {10, 11} (ready_q w') ((\<lambda>_. [])(10 := [5]))"
  using lthread_schedule_expired_moves [OF asleep5_family, of "\<lambda>_. []" 10 99]
  by (auto simp: sleepers_ok_def lthread_zero_def)




text \<open>\<open>lthread_yield\<close> requeues: when the coroutine of the running lthread has been suspended, the lthread
  is once in the ready queue of its scheduler, at the tail, and no longer runs.\<close>

theorem lthread_yield_requeues:
  assumes "tq_family K (ready_q w) R" "me \<in> K" "\<And>q. q \<in> K \<Longrightarrow> lt \<notin> set (R q)"
    "current_lthread (scheds w me) = Some lt" "lts w lt = Some l" "lt_sched l = Some me"
    "\<not> has_flag (lt_state l) LT_ST_EXITED" "Sched_mutex me \<notin> held w"
  shows "\<exists>w1 w2. lthread_yield me w = Inr w1 \<and> lthread_resume_end me lt w1 = Inr w2 \<and>
    tq_family K (ready_q w2) (R(me := R me @ [lt])) \<and> lts w2 = (lts w)(lt \<mapsto> parked l) \<and>
    current_lthread (scheds w2 me) = NULL \<and> held w2 = held w"
proof -
  let ?w1 = "w\<lparr>lts := (lts w)(lt \<mapsto> l\<lparr>needs_resched := True\<rparr>)\<rparr>"
  have y: "lthread_yield me w = Inr ?w1" by (rule yield_ok) (use assms in auto)
  obtain w2 where w2: "lthread_resume_end me lt ?w1 = Inr w2"
    "lts w2 = (lts w)(lt \<mapsto> parked (l\<lparr>needs_resched := True\<rparr>))"
    "ready_q w2 = TAILQ_INSERT_TAIL me lt (ready_q w)"
    "scheds w2 = (scheds w)(me := (scheds w me)\<lparr>current_lthread := NULL\<rparr>)" "held w2 = held w"
    using resume_end_ok [of ?w1 lt "l\<lparr>needs_resched := True\<rparr>" me me] assms(6-8) by (auto simp: fun_eq_iff)
  have "parked (l\<lparr>needs_resched := True\<rparr>) = parked l" by (simp add: parked_def)
  with y w2 tq_family_insert [OF assms(1-3)] show ?thesis by auto
qed

theorem lthread_yield_requeues_witness:
  "\<exists>w1 w2. lthread_yield 10 running5 = Inr w1 \<and> lthread_resume_end 10 5 w1 = Inr w2 \<and>
    tq_family {10, 11} (ready_q w2) ((\<lambda>_. [])(10 := [5]))"
  using lthread_yield_requeues [of "{10, 11}" running5 "\<lambda>_. []" 10 5 lt5] by auto

text \<open>\<open>lthread_exit\<close> frees: when the coroutine of an lthread that called it has been suspended, the
  lthread is deallocated, and no mutex stays locked.\<close>

theorem lthread_exit_frees:
  assumes "current_lthread (scheds w me) = Some lt" "lts w lt = Some l" "lt_sched l = Some me"
    "\<not> needs_resched l" "Sched_mutex me \<notin> held w"
  shows "\<exists>w1 w2. lthread_exit me w = Inr w1 \<and> lthread_resume_end me lt w1 = Inr w2 \<and>
    lts w2 = (lts w)(lt := None) \<and> ready_q w2 = ready_q w \<and> held w2 = held w"
proof -
  let ?l = "l\<lparr>lt_state := set_flag LT_ST_EXITED (lt_state l)\<rparr>"
  have e: "lthread_exit me w = Inr (w\<lparr>lts := (lts w)(lt \<mapsto> ?l)\<rparr>)" by (rule exit_ok) (use assms in auto)
  have "has_flag (lt_state ?l) LT_ST_EXITED" by (simp add: st_defs)
  with e resume_end_ok [of "w\<lparr>lts := (lts w)(lt \<mapsto> ?l)\<rparr>" lt ?l me me] assms show ?thesis by (auto simp: fun_eq_iff)
qed

theorem lthread_exit_frees_witness:
  "\<exists>w1 w2. lthread_exit 10 running5 = Inr w1 \<and> lthread_resume_end 10 5 w1 = Inr w2 \<and> lts w2 = Map.empty"
  using lthread_exit_frees [of running5 10 5 lt5] by auto

lemma sorted_by_const: "(\<And>x. x \<in> set xs \<Longrightarrow> f x = c) \<Longrightarrow> sorted_by f xs"
  by (induction xs) auto

text \<open>(C30) Sleeping lthreads are woken at once: \<open>_lthread_resume\<close> sets \<open>sleep_usecs\<close> to 0 after the coroutine has
  been suspended, when the lthread is in the sleep tree already. Whatever the duration, the next
  \<open>_lthread_schedule_expired\<close>, at whatever time, makes every lthread of the tree ready.\<close>

theorem lthread_sleep_expires_at_once:
  assumes fam: "sleep_family K w S" "tq_family K (ready_q w) R" and s: "s \<in> K"
    and zero: "\<And>a. a \<in> set (S s) \<Longrightarrow> sleep_key w a = 0" and ok: "sleepers_ok K w s R (S s)"
    and lt: "lts w lt = Some l" "lt_sched l = Some s" "\<And>k. k \<in> K \<Longrightarrow> lt \<notin> set (S k)" "\<And>k. k \<in> K \<Longrightarrow> lt \<notin> set (R k)"
    and cur: "current_lthread (scheds w s) = Some lt"
    and flags: "\<not> needs_resched l" "\<not> has_flag (lt_state l) LT_ST_EXITED"
    and free: "Sched_mutex s \<notin> held w" "Pool_mutex \<notin> held w"
    and len: "length (S s) < 2 ^ 64" "msecs \<noteq> 0"
  shows "\<exists>w1 w2 w3. lthread_sched_sleep now s lt msecs w = Inr w1 \<and> lthread_resume_end s lt w1 = Inr w2 \<and>
    lthread_schedule_expired later s w2 = Inr w3 \<and> tq_family K (ready_q w3) (R(s := R s @ S s @ [lt])) \<and>
    sleep_family K w3 (S(s := []))"
proof -
  have srt: "sorted_by (sleep_key w) (S s)" using zero by (rule sorted_by_const)
  obtain w1 j where w1: "lthread_sched_sleep now s lt msecs w = Inr w1"
    "now + msecs * 1000 + of_nat j \<notin> sleep_key w ` set (S s)"
    "lts w1 = (lts w)(lt \<mapsto> l\<lparr>lt_state := set_flag LT_ST_SLEEPING (lt_state l), sleep_usecs := now + msecs * 1000 + of_nat j\<rparr>)"
    "sleep_family K w1 (S(s := insort_key (sleep_key w1) lt (S s)))" "held w1 = held w" "ready_q w1 = ready_q w"
    using sched_sleep_ok [OF fam(1) s srt lt(1-3) cur free(1) len, of now] by blast
  have new: "lt \<notin> set (S s)" using lt(3) s by simp
  have k1: "sleep_key w1 lt = now + msecs * 1000 + of_nat j" "a \<noteq> lt \<Longrightarrow> sleep_key w1 a = sleep_key w a" for a
    by (simp_all add: sleep_key_def node_at_def w1(3))
  have "\<forall>a \<in> set (S s). sleep_key w1 a < sleep_key w1 lt"
    using w1(2) zero k1 new by (metis image_eqI word_gt_0)
  then have ins: "insort_key (sleep_key w1) lt (S s) = S s @ [lt]"
    using insort_key_split [of "S s" "sleep_key w1" lt "[]"] by simp
  obtain l1 where l1: "lts w1 lt = Some l1" "lt_sched l1 = Some s" "\<not> needs_resched l1" "\<not> has_flag (lt_state l1) LT_ST_EXITED"
    using w1(3) lt(2) flags by (simp add: st_defs)
  obtain w2 where w2: "lthread_resume_end s lt w1 = Inr w2" "lts w2 = (lts w1)(lt \<mapsto> parked l1)" "ready_q w2 = ready_q w"
    "scheds w2 = (scheds w1)(s := (scheds w1 s)\<lparr>current_lthread := NULL\<rparr>)" "sleep_node w2 = sleep_node w1" "held w2 = held w"
    using resume_end_ok [OF l1(1,2), of s] free(1) l1(3,4) w1(5,6) by auto
  have fam2: "sleep_family K w2 (S(s := S s @ [lt]))"
    using w1(4) ins sleep_family_cong [of w2 w1 K "S(s := S s @ [lt])"] w2(4,5) by simp
  have z2: "sleep_key w2 a = 0" if "a \<in> set (S s @ [lt])" for a
    using that zero new k1(2) by (auto simp: sleep_key_def node_at_def w2(2) parked_def)
  have ok2: "sleepers_ok K w2 s R (S s @ [lt])"
    using ok lt(2,4) l1(2) by (auto simp: sleepers_ok_def w2(2) w1(3) parked_def)
  have srt2: "sorted_by (sleep_key w2) (S s @ [lt])" using z2 by (rule sorted_by_const)
  have flt: "filter (\<lambda>a. sleep_key w2 a \<le> later) (S s @ [lt]) = S s @ [lt]"
    "filter (\<lambda>a. \<not> sleep_key w2 a \<le> later) (S s @ [lt]) = []" using z2 by (auto simp: filter_id_conv filter_empty_conv)
  obtain w3 where "lthread_schedule_expired later s w2 = Inr w3"
    "tq_family K (ready_q w3) (R(s := R s @ S s @ [lt]))" "sleep_family K w3 (S(s := []))"
    using schedule_expired_ok [OF fam2 _ s, of R later] fam(2) w2 ok2 srt2 flt free by auto
  with w1(1) w2(1) show ?thesis by blast
qed

theorem lthread_sleep_expires_at_once_witness:
  "\<exists>w1 w2 w3. lthread_sched_sleep 77 10 5 1000000 running5 = Inr w1 \<and> lthread_resume_end 10 5 w1 = Inr w2 \<and>
    lthread_schedule_expired 77 10 w2 = Inr w3 \<and> tq_family {10, 11} (ready_q w3) ((\<lambda>_. [])(10 := [5]))"
  using lthread_sleep_expires_at_once [of "{10, 11}" running5 "\<lambda>_. []" "\<lambda>_. []" 10 5 lt5 1000000 77 77]
  by (auto simp: sleepers_ok_def)

text \<open>(C31) \<open>lthread_sleep (0)\<close> suspends the lthread and nothing makes it run again: it is put neither into a ready
  queue nor into a sleep tree.\<close>

theorem lthread_sleep_zero_lost:
  assumes "current_lthread (scheds w me) = Some lt" "lts w lt = Some l" "lt_sched l = Some me" "\<not> needs_resched l"
    "\<not> has_flag (lt_state l) LT_ST_EXITED" "Sched_mutex me \<notin> held w"
  shows "\<exists>w1 w2. lthread_sleep now me 0 w = Inr w1 \<and> lthread_resume_end me lt w1 = Inr w2 \<and>
    ready_q w2 = ready_q w \<and> (\<forall>s. sleeping s w2 = sleeping s w) \<and> waiting w2 = waiting w \<and> blocked_q w2 = blocked_q w \<and>
    current_lthread (scheds w2 me) = NULL \<and> lts w2 lt \<noteq> None"
proof -
  let ?l = "l\<lparr>lt_state := set_flag LT_ST_SLEEPING (lt_state l), sleep_usecs := 0\<rparr>"
  let ?w1 = "w\<lparr>lts := (lts w)(lt \<mapsto> ?l)\<rparr>"
  have "lthread_sleep now me 0 w = Inr ?w1" by (rule sleep_zero_ok) (use assms in auto)
  moreover have "\<not> has_flag (lt_state ?l) LT_ST_EXITED" using assms(5) by (simp add: st_defs)
  ultimately show ?thesis
    using resume_end_ok [of ?w1 lt ?l me me] assms by (auto simp: sleeping_def waiting_def)
qed

theorem lthread_sleep_zero_lost_witness:
  "\<exists>w1 w2. lthread_sleep 77 10 0 running5 = Inr w1 \<and> lthread_resume_end 10 5 w1 = Inr w2 \<and>
    ready_q w2 = ready_q pool2 \<and> lts w2 5 \<noteq> None"
  using lthread_sleep_zero_lost [of running5 10 5 lt5 77] by auto

text \<open>\<open>_lthread_wakeup\<close> of an lthread that sleeps with a wake-up time takes it from the sleep tree and
  queues it at its scheduler; one that sleeps without is queued. An iteration that read a stale scheduler
  changes nothing and asks for another one.\<close>

theorem lthread_wakeup_schedules:
  assumes fam: "sleep_family K w S" "tq_family K (ready_q w) R" and s: "s \<in> K"
    and lt: "lts w lt = Some l" "lt_sched l = Some s" "\<And>q. q \<in> K \<Longrightarrow> lt \<notin> set (R q)"
    and cur: "current_lthread (scheds w s) \<noteq> Some lt" and free: "Sched_mutex s \<notin> held w" "Pool_mutex \<notin> held w"
    and slp: "sleep_usecs l \<noteq> 0 \<Longrightarrow> lt \<in> set (S s)"
  shows "\<exists>w'. lthread_wakeup lt w = Inr w' \<and> tq_family K (ready_q w') (R(s := R s @ [lt])) \<and>
    sleep_family K w' (if sleep_usecs l \<noteq> 0 then S(s := remove1 lt (S s)) else S) \<and> lts w' = lts w \<and> held w' = held w \<and>
    (\<forall>seen. lt_sched l \<noteq> Some seen \<longrightarrow> Sched_mutex seen \<notin> held w \<longrightarrow> lthread_wakeup_iter lt seen w = Inr (False, w))"
proof -
  have stale: "\<forall>seen. lt_sched l \<noteq> Some seen \<longrightarrow> Sched_mutex seen \<notin> held w \<longrightarrow> lthread_wakeup_iter lt seen w = Inr (False, w)"
    using wakeup_iter_stale [OF lt(1)] by blast
  show ?thesis
  proof (cases "sleep_usecs l = 0")
    case True
    have "sleep_family K (ready_result s s lt l w) S" using fam(1) sleep_family_cong [of "ready_result s s lt l w" w] by simp
    with True stale wakeup_ok(1) [OF lt(1,2) free True] ready_result_queue [OF fam(2) s lt(3), of s l] cur
    show ?thesis by (auto simp: ready_result_lts)
  next
    case False
    let ?w = "w\<lparr>held := insert (Sched_mutex s) (held w)\<rparr>"
    have f: "sleep_family K ?w S" using fam(1) by (simp add: sleep_family_def)
    obtain t where t: "lthread_desched_sleep_unsafe lt ?w = Inr (ready_result s s lt l (put_sleeping s t ?w))"
      "sleep_family K (ready_result s s lt l (put_sleeping s t ?w)) (S(s := remove1 lt (S s)))"
      using desched_sleep_ok [OF f s slp [OF False]] lt(1,2) free by auto
    let ?w' = "ready_result s s lt l (put_sleeping s t ?w)"
    have q: "tq_family K (ready_q ?w') (R(s := R s @ [lt]))"
      using ready_result_queue [of K "put_sleeping s t ?w" R s lt s l] fam(2) s lt(3) cur by auto
    have "lts ?w' = lts w" using cur by (simp add: ready_result_lts)
    moreover have "sleep_family K (?w'\<lparr>held := held w\<rparr>) (S(s := remove1 lt (S s)))"
      using t(2) by (simp add: sleep_family_def)
    ultimately show ?thesis using wakeup_ok(2) [OF lt(1,2) free False t(1)] q stale False
      by (intro exI [of _ "?w'\<lparr>held := held w\<rparr>"]) simp
  qed
qed

theorem lthread_wakeup_schedules_witness:
  "\<exists>w'. lthread_wakeup 5 asleep5 = Inr w' \<and> tq_family {10, 11} (ready_q w') ((\<lambda>_. [])(10 := [5])) \<and>
     lthread_wakeup_iter 5 11 asleep5 = Inr (False, asleep5)"
  using lthread_wakeup_schedules [OF asleep5_family, of "\<lambda>_. []" 10 5 "lthread_zero\<lparr>lt_sched := Some 10, sleep_usecs := 50\<rparr>"]
  by auto

text \<open>\<open>lthread_spawn\<close> with memory for a new lthread returns it, initialised for its scheduler, and
  queues it once at the tail of the ready queue; without memory it returns \<open>NULL\<close> and changes
  nothing.\<close>

theorem lthread_spawn_queues:
  assumes "tq_family K (ready_q w) R" "s \<in> K" "\<And>q. q \<in> K \<Longrightarrow> a \<notin> set (R q)" "lthread_cache (scheds w s) = []"
    "current_lthread (scheds w s) \<noteq> Some a" "Sched_mutex s \<notin> held w" "Pool_mutex \<notin> held w"
  shows "(\<exists>w'. lthread_spawn (Some a) errno f arg (Some s) w = Inr (Some a, w') \<and>
      tq_family K (ready_q w') (R(s := R s @ [a])) \<and>
      lts w' = (lts w)(a \<mapsto> lthread_zero\<lparr>lt_sched := Some s, lt_fun := f, lt_arg := arg\<rparr>) \<and> held w' = held w) \<and>
    (errno \<noteq> 0 \<longrightarrow> lthread_spawn NULL errno f arg (Some s) w = Inr (NULL, w))"
proof -
  let ?l = "lthread_zero\<lparr>lt_sched := Some s, lt_fun := f, lt_arg := arg\<rparr>"
  let ?w = "w\<lparr>lts := (lts w)(a \<mapsto> ?l)\<rparr>"
  have "lthread_zero\<lparr>lt_sched := Some s, is_running := False, is_blocked := False, lt_fun := f, lt_arg := arg\<rparr> = ?l"
    by (simp add: lthread_zero_def)
  then have "lthread_spawn (Some a) errno f arg (Some s) w = Inr (Some a, ready_result s s a ?l ?w)"
    using assms push_ready_ok [of ?w a ?l s s]
    by (simp add: lthread_spawn_def lthread_create_def lthread_allocate_def)
  moreover have "lts (ready_result s s a ?l ?w) = lts ?w" using assms(5) by (simp add: ready_result_lts)
  moreover have "tq_family K (ready_q (ready_result s s a ?l ?w)) (R(s := R s @ [a]))"
    using ready_result_queue [of K ?w R s a s ?l] assms by auto
  ultimately show ?thesis
    using assms(4) by (auto simp: lthread_spawn_def lthread_create_def lthread_allocate_def)
qed

theorem lthread_spawn_queues_witness:
  "(\<exists>w'. lthread_spawn (Some 6) 12 100 0 (Some 10) pool2 = Inr (Some 6, w') \<and>
      tq_family {10, 11} (ready_q w') ((\<lambda>_. [])(10 := [6]))) \<and>
   lthread_spawn NULL 12 100 0 (Some 10) pool2 = Inr (NULL, pool2)"
  using lthread_spawn_queues [of "{10, 11}" pool2 "\<lambda>_. []" 10 6 12 100 0] by auto

end
