(* ===== verification/Cond.thy ===== *)
theory Cond
  imports Sched_Props
begin

section \<open>The condition variables of \<^verbatim>\<open>lthread_cond.c\<close>\<close>

text \<open>
  \<open>src/src/lthread_cond.c\<close>: a mutex for lthreads with a queue of blocked lthreads. The ownership is handed
  over: a signal makes the first blocked lthread the owner before it runs. The queue of the
  condition variable \<open>c\<close> is the queue \<open>c\<close> of \<open>blocked_q\<close>. An operation that suspends the calling lthread
  is split at the yield inside \<open>lthread_sleep\<close>: the part before it and the part that runs
  when the lthread is resumed.
\<close>

definition get_cond :: "addr \<Rightarrow> world \<Rightarrow> lthread_cond res" where
  "get_cond c w = of_option (conds w c)"

definition set_owner :: "addr \<Rightarrow> ptr \<Rightarrow> world \<Rightarrow> world" where
  "set_owner c p w = w\<lparr>conds := (conds w)(c \<mapsto> \<lparr>cond_owner = p\<rparr>)\<rparr>"

definition lthread_cond_create :: "ptr \<Rightarrow> world \<Rightarrow> (int \<times> ptr \<times> world) res" where
  "lthread_cond_create mem w =
     (case mem of
        None \<Rightarrow> Inr (- 1, NULL, w)
      | Some c \<Rightarrow> Inr (0, Some c, set_owner c NULL (w\<lparr>blocked_q := TAILQ_INIT c (blocked_q w)\<rparr>)))"

definition lthread_cond_free :: "addr \<Rightarrow> world \<Rightarrow> world res" where
  "lthread_cond_free c w =
     rbind (get_cond c w) (\<lambda>_.
     rbind (assert_that ''pthread_mutex_destroy'' (Cond_mutex c \<notin> held w)) (\<lambda>_.
     Inr (w\<lparr>conds := (conds w)(c := None)\<rparr>)))"

definition lthread_cond_acquire :: "addr \<Rightarrow> addr \<Rightarrow> world \<Rightarrow> world res" where
  "lthread_cond_acquire c self w =
     rbind (get_cond c w) (\<lambda>cond.
     rbind (assert_that ''c->owner == NULL'' (cond_owner cond = NULL)) (\<lambda>_.
     Inr (set_owner c (Some self) w)))"

definition lthread_cond_release :: "addr \<Rightarrow> addr \<Rightarrow> world \<Rightarrow> world res" where
  "lthread_cond_release c self w =
     rbind (get_cond c w) (\<lambda>cond.
     rbind (assert_that ''c->owner == self'' (cond_owner cond = Some self)) (\<lambda>_.
     Inr (set_owner c NULL w)))"

definition lthread_cond_num_blocked :: "addr \<Rightarrow> world \<Rightarrow> nat option" where
  "lthread_cond_num_blocked c w = map_option length (TAILQ_FOREACH c (blocked_q w))"

definition lthread_cond_signal :: "addr \<Rightarrow> addr \<Rightarrow> world \<Rightarrow> (bool \<times> world) res" where
  "lthread_cond_signal c self w =
     (let first = TAILQ_FIRST c (blocked_q w)
      in rbind (lthread_cond_release c self w) (\<lambda>w.
         (case first of
            Some lt \<Rightarrow>
              rbind (get_lt lt w) (\<lambda>l.
              rbind (assert_that ''lt->is_blocked'' (is_blocked l)) (\<lambda>_.
              rbind (upd_lt lt (is_blocked_update (\<lambda>_. False))
                       (w\<lparr>blocked_q := TAILQ_REMOVE c lt (blocked_q w)\<rparr>)) (\<lambda>w.
              rbind (lthread_cond_acquire c lt w) (\<lambda>w.
              rbind (lthread_wakeup lt w) (\<lambda>w.
              Inr (True, w))))))
          | None \<Rightarrow> Inr (False, w))))"

text \<open>\<open>_lthread_cond_wait\<close> before and after the suspension; the second part returns 0 when the lthread was
  made the owner and -2 when it was woken for another reason (the timeout).\<close>

definition cond_wait_begin :: "u64 \<Rightarrow> addr \<Rightarrow> addr \<Rightarrow> addr \<Rightarrow> u64 \<Rightarrow> world \<Rightarrow> world res" where
  "cond_wait_begin now me c self timeout w =
     rbind (get_lt self w) (\<lambda>l.
     rbind (assert_that ''self->is_blocked == false'' (\<not> is_blocked l)) (\<lambda>_.
     rbind (upd_lt self (is_blocked_update (\<lambda>_. True))
              (w\<lparr>blocked_q := TAILQ_INSERT_TAIL c self (blocked_q w)\<rparr>)) (\<lambda>w.
     rbind (lthread_mutex_unlock (Cond_mutex c) w) (\<lambda>w.
     lthread_sleep now me timeout w))))"

definition cond_wait_end :: "addr \<Rightarrow> addr \<Rightarrow> world \<Rightarrow> (int \<times> world) res" where
  "cond_wait_end c self w =
     rbind (lthread_mutex_lock (Cond_mutex c) w) (\<lambda>w.
     rbind (get_cond c w) (\<lambda>cond.
     rbind (get_lt self w) (\<lambda>l.
     if cond_owner cond \<noteq> Some self then
       rbind (assert_that ''self->is_blocked'' (is_blocked l)) (\<lambda>_.
       rbind (upd_lt self (is_blocked_update (\<lambda>_. False))
                (w\<lparr>blocked_q := TAILQ_REMOVE c self (blocked_q w)\<rparr>)) (\<lambda>w.
       Inr (- 2, w)))
     else
       rbind (assert_that ''!self->is_blocked'' (\<not> is_blocked l)) (\<lambda>_. Inr (0, w)))))"

text \<open>\<open>lthread_cond_lock\<close>: the first component of the result tells whether the lthread was suspended.\<close>

definition owner_is_self :: "addr \<Rightarrow> addr \<Rightarrow> world \<Rightarrow> unit res" where
  "owner_is_self c self w =
     rbind (get_cond c w) (\<lambda>cond. assert_that ''c->owner == self'' (cond_owner cond = Some self))"

definition lthread_cond_lock :: "u64 \<Rightarrow> addr \<Rightarrow> addr \<Rightarrow> world \<Rightarrow> (bool \<times> world) res" where
  "lthread_cond_lock now me c w =
     rbind (lthread_current me w) (\<lambda>self.
     rbind (lthread_mutex_lock (Cond_mutex c) w) (\<lambda>w.
     rbind (get_cond c w) (\<lambda>cond.
     rbind (assert_that ''c->owner != self'' (cond_owner cond \<noteq> Some self)) (\<lambda>_.
     if cond_owner cond \<noteq> NULL then
       rbind (cond_wait_begin now me c self 0 w) (\<lambda>w. Inr (True, w))
     else
       rbind (lthread_cond_acquire c self w) (\<lambda>w.
       rbind (owner_is_self c self w) (\<lambda>_.
       rbind (lthread_mutex_unlock (Cond_mutex c) w) (\<lambda>w.
       rbind (owner_is_self c self w) (\<lambda>_.
       Inr (False, w)))))))))"

definition lthread_cond_lock_resumed :: "addr \<Rightarrow> addr \<Rightarrow> world \<Rightarrow> world res" where
  "lthread_cond_lock_resumed c self w =
     rbind (cond_wait_end c self w) (\<lambda>(_, w).
     rbind (owner_is_self c self w) (\<lambda>_.
     rbind (lthread_mutex_unlock (Cond_mutex c) w) (\<lambda>w.
     rbind (owner_is_self c self w) (\<lambda>_.
     Inr w))))"

definition lthread_cond_wait :: "u64 \<Rightarrow> addr \<Rightarrow> addr \<Rightarrow> u64 \<Rightarrow> world \<Rightarrow> world res" where
  "lthread_cond_wait now me c timeout w =
     rbind (lthread_current me w) (\<lambda>self.
     rbind (lthread_mutex_lock (Cond_mutex c) w) (\<lambda>w.
     rbind (lthread_cond_signal c self w) (\<lambda>(_, w).
     cond_wait_begin now me c self timeout w)))"

definition lthread_cond_wait_resumed :: "addr \<Rightarrow> addr \<Rightarrow> world \<Rightarrow> (int \<times> world) res" where
  "lthread_cond_wait_resumed c self w =
     rbind (cond_wait_end c self w) (\<lambda>(result, w).
     rbind (if result = 0 then owner_is_self c self w else Inr ()) (\<lambda>_.
     rbind (lthread_mutex_unlock (Cond_mutex c) w) (\<lambda>w.
     Inr (result, w))))"

definition lthread_cond_unlock_signal :: "addr \<Rightarrow> addr \<Rightarrow> world \<Rightarrow> world res" where
  "lthread_cond_unlock_signal me c w =
     rbind (lthread_current me w) (\<lambda>self.
     rbind (lthread_mutex_lock (Cond_mutex c) w) (\<lambda>w.
     rbind (lthread_cond_signal c self w) (\<lambda>(_, w).
     lthread_mutex_unlock (Cond_mutex c) w)))"

subsection \<open>The invariant\<close>

text \<open>The condition variables \<open>C\<close> have the queues \<open>B\<close> of blocked lthreads; the blocked lthreads are allocated and
  marked, and none of them owns the condition variable it is blocked on.\<close>

definition cond_inv :: "addr set \<Rightarrow> world \<Rightarrow> (addr \<Rightarrow> addr list) \<Rightarrow> bool" where
  "cond_inv C w B \<longleftrightarrow> tq_family C (blocked_q w) B \<and>
     (\<forall>c \<in> C. \<exists>cond. conds w c = Some cond \<and> (\<forall>a. cond_owner cond = Some a \<longrightarrow> a \<notin> set (B c))) \<and>
     (\<forall>c \<in> C. \<forall>a \<in> set (B c). \<exists>l. lts w a = Some l \<and> is_blocked l)"

definition owner_of :: "world \<Rightarrow> addr \<Rightarrow> ptr" where
  "owner_of w c = (case conds w c of Some cond \<Rightarrow> cond_owner cond | None \<Rightarrow> NULL)"

lemma cond_invD:
  assumes "cond_inv C w B" "c \<in> C"
  shows "conds w c = Some \<lparr>cond_owner = owner_of w c\<rparr>" "get_cond c w = Inr \<lparr>cond_owner = owner_of w c\<rparr>"
    "TAILQ_FIRST c (blocked_q w) = hd_ptr (B c)"
proof -
  from assms obtain cond where "conds w c = Some cond" by (auto simp: cond_inv_def)
  then show "conds w c = Some \<lparr>cond_owner = owner_of w c\<rparr>" by (cases cond) (simp add: owner_of_def)
  then show "get_cond c w = Inr \<lparr>cond_owner = owner_of w c\<rparr>" by (simp add: get_cond_def)
  show "TAILQ_FIRST c (blocked_q w) = hd_ptr (B c)" using assms first_hd_ptr by (auto simp: cond_inv_def)
qed

lemma owner_of_set [simp]: "owner_of (set_owner c p w) c' = (if c' = c then p else owner_of w c')"
  by (simp add: owner_of_def set_owner_def)

lemma set_owner_sel [simp]:
  "lts (set_owner c p w) = lts w" "scheds (set_owner c p w) = scheds w" "pool (set_owner c p w) = pool w"
  "poller (set_owner c p w) = poller w" "sleep_node (set_owner c p w) = sleep_node w"
  "wait_node (set_owner c p w) = wait_node w" "ready_q (set_owner c p w) = ready_q w"
  "blocked_q (set_owner c p w) = blocked_q w" "held (set_owner c p w) = held w"
  "conds (set_owner c p w) = (conds w)(c \<mapsto> \<lparr>cond_owner = p\<rparr>)"
  by (simp_all add: set_owner_def)

lemma set_owner_held: "set_owner c p (w\<lparr>held := A\<rparr>) = (set_owner c p w)\<lparr>held := A\<rparr>"
  by (simp add: set_owner_def)

text \<open>Updates that keep the invariant.\<close>

lemma cond_inv_owner:
  assumes "cond_inv C w B" "c \<in> C" "\<And>a. p = Some a \<Longrightarrow> a \<notin> set (B c)"
  shows "cond_inv C (set_owner c p w) B"
  using assms by (auto simp: cond_inv_def)

lemma cond_inv_block:
  assumes "cond_inv C w B" "c \<in> C" "\<And>k. k \<in> C \<Longrightarrow> a \<notin> set (B k)" "owner_of w c \<noteq> Some a" "is_blocked l"
  shows "cond_inv C (w\<lparr>blocked_q := TAILQ_INSERT_TAIL c a (blocked_q w), lts := (lts w)(a \<mapsto> l)\<rparr>) (B(c := B c @ [a]))"
proof -
  have "tq_family C (TAILQ_INSERT_TAIL c a (blocked_q w)) (B(c := B c @ [a]))"
    by (rule tq_family_insert) (use assms in \<open>auto simp: cond_inv_def\<close>)
  with assms show ?thesis by (auto simp: cond_inv_def owner_of_def)
qed

lemma cond_inv_unblock:
  assumes "cond_inv C w B" "c \<in> C" "a \<in> set (B c)"
  shows "cond_inv C (w\<lparr>blocked_q := TAILQ_REMOVE c a (blocked_q w), lts := (lts w)(a \<mapsto> l)\<rparr>) (B(c := remove1 a (B c)))"
proof -
  have fam: "tq_family C (blocked_q w) B" using assms by (simp add: cond_inv_def)
  have q: "tq_family C (TAILQ_REMOVE c a (blocked_q w)) (B(c := remove1 a (B c)))"
    by (rule tq_family_remove [OF fam assms(2,3)])
  have "a \<notin> set (remove1 a (B c))" using tq_repr_distinct [OF tq_family_repr [OF fam assms(2)]] by simp
  moreover have "a \<notin> set (B k)" if "k \<in> C" "k \<noteq> c" for k using tq_family_other [OF fam that(1) assms(2)] that assms(3) by blast
  moreover have "set (remove1 a (B c)) \<subseteq> set (B c)" by (rule set_remove1_subset)
  ultimately show ?thesis using q assms unfolding cond_inv_def by (simp add: Ball_def) (metis in_mono)
qed

lemma cond_inv_held [simp]: "cond_inv C (w\<lparr>held := A\<rparr>) B = cond_inv C w B"
  by (simp add: cond_inv_def)

lemma owner_of_held [simp]: "owner_of (w\<lparr>held := A\<rparr>) c = owner_of w c"
  by (simp add: owner_of_def)

lemma cond_inv_lts:
  assumes "cond_inv C w B" "lts w a = Some l" "is_blocked l' = is_blocked l"
  shows "cond_inv C (w\<lparr>lts := (lts w)(a \<mapsto> l')\<rparr>) B"
  using assms unfolding cond_inv_def by (auto, metis option.inject)

lemma cond_inv_ready:
  assumes "cond_inv C w B" "lts w a = Some l"
  shows "cond_inv C (ready_result s own a l w) B"
proof -
  have "lts (ready_result s own a l w) = lts w \<or> lts (ready_result s own a l w) = (lts w)(a \<mapsto> l\<lparr>needs_resched := True\<rparr>)"
    by (simp add: ready_result_lts)
  then show ?thesis
    using assms(1) cond_inv_lts [OF assms, of "l\<lparr>needs_resched := True\<rparr>"] by (auto simp: cond_inv_def)
qed

lemma owner_of_ready [simp]: "owner_of (ready_result s own a l w) c = owner_of w c"
  by (simp add: owner_of_def)

subsection \<open>Locking\<close>

lemma cond_lock_free:
  assumes "cond_inv C w B" "c \<in> C" "current_lthread (scheds w me) = Some self" "owner_of w c = NULL"
    "Cond_mutex c \<notin> held w"
  shows "lthread_cond_lock now me c w = Inr (False, set_owner c (Some self) w)"
proof -
  let ?w = "w\<lparr>held := insert (Cond_mutex c) (held w)\<rparr>"
  have "get_cond c ?w = Inr \<lparr>cond_owner = NULL\<rparr>" using cond_invD(2) [of C ?w B c] assms by simp
  with assms show ?thesis
    by (simp add: lthread_cond_lock_def lthread_current_def lthread_cond_acquire_def owner_is_self_def get_cond_def
        set_owner_held)
qed

lemma cond_wait_begin_ok:
  assumes "lts w self = Some l" "lt_sched l = Some me" "\<not> is_blocked l" "current_lthread (scheds w me) = Some self"
    "Cond_mutex c \<in> held w" "Sched_mutex me \<notin> held w"
  shows "cond_wait_begin now me c self 0 w =
    Inr (w\<lparr>blocked_q := TAILQ_INSERT_TAIL c self (blocked_q w),
           lts := (lts w)(self \<mapsto> l\<lparr>is_blocked := True, lt_state := set_flag LT_ST_SLEEPING (lt_state l), sleep_usecs := 0\<rparr>),
           held := held w - {Cond_mutex c}\<rparr>)"
proof -
  let ?l = "l\<lparr>is_blocked := True\<rparr>"
  let ?w1 = "w\<lparr>blocked_q := TAILQ_INSERT_TAIL c self (blocked_q w), lts := (lts w)(self \<mapsto> ?l), held := held w - {Cond_mutex c}\<rparr>"
  have "lthread_sleep now me 0 ?w1 =
      Inr (?w1\<lparr>lts := (lts ?w1)(self \<mapsto> ?l\<lparr>lt_state := set_flag LT_ST_SLEEPING (lt_state ?l), sleep_usecs := 0\<rparr>)\<rparr>)"
    by (rule sleep_zero_ok) (use assms in auto)
  with assms(1,3,5) show ?thesis by (simp add: cond_wait_begin_def held_last)
qed

lemma cond_lock_busy:
  assumes "cond_inv C w B" "c \<in> C" "owner_of w c = Some owner" "owner \<noteq> self"
    "lts w self = Some l" "lt_sched l = Some me" "\<not> is_blocked l" "current_lthread (scheds w me) = Some self"
    "Cond_mutex c \<notin> held w" "Sched_mutex me \<notin> held w"
  shows "lthread_cond_lock now me c w =
    Inr (True, w\<lparr>blocked_q := TAILQ_INSERT_TAIL c self (blocked_q w),
           lts := (lts w)(self \<mapsto> l\<lparr>is_blocked := True, lt_state := set_flag LT_ST_SLEEPING (lt_state l), sleep_usecs := 0\<rparr>)\<rparr>)"
proof -
  let ?w = "w\<lparr>held := insert (Cond_mutex c) (held w)\<rparr>"
  have "get_cond c ?w = Inr \<lparr>cond_owner = Some owner\<rparr>" using cond_invD(2) [of C ?w B c] assms by simp
  moreover have "held ?w - {Cond_mutex c} = held w" using assms(9) by simp
  ultimately show ?thesis
    using cond_wait_begin_ok [of ?w self l me c now] assms
    by (simp add: lthread_cond_lock_def lthread_current_def held_last)
qed

lemma cond_lock_owner_fails:
  assumes "cond_inv C w B" "c \<in> C" "owner_of w c = Some self" "current_lthread (scheds w me) = Some self"
    "Cond_mutex c \<notin> held w"
  shows "lthread_cond_lock now me c w = Inl (Assertion_failed ''c->owner != self'')"
proof -
  let ?w = "w\<lparr>held := insert (Cond_mutex c) (held w)\<rparr>"
  have "get_cond c ?w = Inr \<lparr>cond_owner = Some self\<rparr>" using cond_invD(2) [of C ?w B c] assms by simp
  with assms show ?thesis by (simp add: lthread_cond_lock_def lthread_current_def)
qed

subsection \<open>Signalling\<close>

lemma cond_signal_none:
  assumes "cond_inv C w B" "c \<in> C" "owner_of w c = Some self" "B c = []"
  shows "lthread_cond_signal c self w = Inr (False, set_owner c NULL w)"
  using cond_invD [OF assms(1,2)] assms(3,4)
  by (simp add: lthread_cond_signal_def lthread_cond_release_def)

text \<open>The state in which the first blocked lthread \<open>b\<close> owns the condition variable.\<close>

definition handed_over :: "addr \<Rightarrow> addr \<Rightarrow> lthread \<Rightarrow> world \<Rightarrow> world" where
  "handed_over c b l w =
     set_owner c (Some b) (w\<lparr>blocked_q := TAILQ_REMOVE c b (blocked_q w), lts := (lts w)(b \<mapsto> l\<lparr>is_blocked := False\<rparr>)\<rparr>)"

lemma handed_over_inv:
  assumes "cond_inv C w B" "c \<in> C" "B c = b # rest"
  shows "cond_inv C (handed_over c b l w) (B(c := rest))" "owner_of (handed_over c b l w) c = Some b"
proof -
  have "cond_inv C (w\<lparr>blocked_q := TAILQ_REMOVE c b (blocked_q w), lts := (lts w)(b \<mapsto> l\<lparr>is_blocked := False\<rparr>)\<rparr>)
      (B(c := rest))"
    using cond_inv_unblock [OF assms(1,2), of b "l\<lparr>is_blocked := False\<rparr>"] assms(3) by simp
  moreover have "b \<notin> set rest"
    using assms tq_repr_distinct [OF tq_family_repr [of C "blocked_q w" B c]] by (auto simp: cond_inv_def)
  ultimately show "cond_inv C (handed_over c b l w) (B(c := rest))"
    unfolding handed_over_def using assms(2) by (intro cond_inv_owner) auto
  show "owner_of (handed_over c b l w) c = Some b" by (simp add: handed_over_def)
qed

lemma cond_signal_hands_over:
  assumes "cond_inv C w B" "c \<in> C" "owner_of w c = Some self" "B c = b # rest"
    "lts w b = Some l" "lt_sched l = Some s" "sleep_usecs l = 0" "Sched_mutex s \<notin> held w" "Pool_mutex \<notin> held w"
  shows "lthread_cond_signal c self w = Inr (True, ready_result s s b (l\<lparr>is_blocked := False\<rparr>) (handed_over c b l w))"
proof -
  have "is_blocked l" using assms(1,2,4,5) by (fastforce simp: cond_inv_def)
  moreover have "set_owner c (Some b) (w'\<lparr>lts := x\<rparr>) = (set_owner c (Some b) w')\<lparr>lts := x\<rparr>" for w' x
    by (simp add: set_owner_def)
  ultimately show ?thesis
    using cond_invD [OF assms(1,2)] assms
      wakeup_ok(1) [of "handed_over c b l w" b "l\<lparr>is_blocked := False\<rparr>" s]
    by (simp add: lthread_cond_signal_def lthread_cond_release_def lthread_cond_acquire_def get_cond_def handed_over_def)
       (simp add: set_owner_def)
qed

lemma cond_signal_not_owner:
  assumes "cond_inv C w B" "c \<in> C" "owner_of w c \<noteq> Some self"
  shows "lthread_cond_signal c self w = Inl (Assertion_failed ''c->owner == self'')"
  using cond_invD [OF assms(1,2)] assms(3) by (simp add: lthread_cond_signal_def lthread_cond_release_def)

subsection \<open>Resuming\<close>

lemma cond_wait_end_owner:
  assumes "cond_inv C w B" "c \<in> C" "owner_of w c = Some self" "lts w self = Some l" "\<not> is_blocked l" "Cond_mutex c \<notin> held w"
  shows "cond_wait_end c self w = Inr (0, w\<lparr>held := insert (Cond_mutex c) (held w)\<rparr>)"
proof -
  let ?w = "w\<lparr>held := insert (Cond_mutex c) (held w)\<rparr>"
  have "get_cond c ?w = Inr \<lparr>cond_owner = Some self\<rparr>" using cond_invD(2) [of C ?w B c] assms by simp
  with assms show ?thesis by (simp add: cond_wait_end_def)
qed

lemma cond_wait_end_timeout:
  assumes "cond_inv C w B" "c \<in> C" "owner_of w c \<noteq> Some self" "self \<in> set (B c)" "lts w self = Some l" "Cond_mutex c \<notin> held w"
  shows "cond_wait_end c self w =
    Inr (- 2, w\<lparr>blocked_q := TAILQ_REMOVE c self (blocked_q w), lts := (lts w)(self \<mapsto> l\<lparr>is_blocked := False\<rparr>),
      held := insert (Cond_mutex c) (held w)\<rparr>)"
proof -
  let ?w = "w\<lparr>held := insert (Cond_mutex c) (held w)\<rparr>"
  have "is_blocked l" using assms(1,2,4,5) by (fastforce simp: cond_inv_def)
  moreover have "get_cond c ?w = Inr \<lparr>cond_owner = owner_of w c\<rparr>" using cond_invD(2) [of C ?w B c] assms by simp
  ultimately show ?thesis using assms by (simp add: cond_wait_end_def held_last)
qed

subsection \<open>Properties\<close>

text \<open>The condition variable 20 in the pool of \<open>running5\<close>: owned by \<open>p\<close>, with the blocked lthreads of \<open>bs\<close>.\<close>

definition blocked_lt :: lthread where
  "blocked_lt = lthread_zero\<lparr>lt_sched := Some 10, is_blocked := True\<rparr>"

definition cond20 :: "ptr \<Rightarrow> addr list \<Rightarrow> world" where
  "cond20 p bs = running5\<lparr>conds := [20 \<mapsto> \<lparr>cond_owner = p\<rparr>],
     lts := (\<lambda>a. if a \<in> set bs then Some blocked_lt else lts running5 a),
     blocked_q := fold (TAILQ_INSERT_TAIL 20) bs (TAILQ_INIT 20 (blocked_q running5))\<rparr>"

lemma cond20_facts [simp]:
  "held (cond20 p bs) = {}" "owner_of (cond20 p bs) 20 = p" "scheds (cond20 p bs) = scheds running5"
  "ready_q (cond20 p bs) = ready_q pool2" "lts (cond20 p bs) a = (if a \<in> set bs then Some blocked_lt else lts running5 a)"
  "sleep_node (cond20 p bs) = sleep_node running5"
  by (simp_all add: cond20_def owner_of_def)

lemma blocked_lt_facts [simp]:
  "lt_sched blocked_lt = Some 10" "is_blocked blocked_lt" "sleep_usecs blocked_lt = 0" "needs_resched blocked_lt = False"
  by (simp_all add: blocked_lt_def lthread_zero_def)

lemma cond20_inv:
  assumes "distinct bs" "\<And>a. p = Some a \<Longrightarrow> a \<notin> set bs"
  shows "cond_inv {20} (cond20 p bs) (\<lambda>_. bs)"
proof -
  have "tq_repr (fold (TAILQ_INSERT_TAIL 20) bs (TAILQ_INIT 20 (blocked_q running5))) 20 ([] @ bs)"
    by (rule tq.insert_all [OF TAILQ_INIT_repr]) (use assms in simp)
  with assms show ?thesis by (simp add: cond_inv_def tq_family_def cond20_def)
qed

text \<open>\<open>lthread_cond_lock\<close> by the running lthread: a free condition variable is taken at once; otherwise the
  lthread is queued behind those already blocked, marked, suspended, and the owner stays. The
  invariant of the condition variables holds again and no mutex stays locked.\<close>

theorem lthread_cond_lock_takes_or_blocks:
  assumes "cond_inv C w B" "c \<in> C" "\<And>k. k \<in> C \<Longrightarrow> self \<notin> set (B k)" "owner_of w c \<noteq> Some self"
    "lts w self = Some l" "lt_sched l = Some me" "\<not> is_blocked l" "current_lthread (scheds w me) = Some self"
    "Cond_mutex c \<notin> held w" "Sched_mutex me \<notin> held w"
  shows "\<exists>w'. held w' = held w \<and> ready_q w' = ready_q w \<and>
    (if owner_of w c = NULL
     then lthread_cond_lock now me c w = Inr (False, w') \<and> owner_of w' c = Some self \<and> cond_inv C w' B
     else lthread_cond_lock now me c w = Inr (True, w') \<and> owner_of w' c = owner_of w c \<and>
       cond_inv C w' (B(c := B c @ [self])))"
proof (cases "owner_of w c")
  case None
  have "cond_inv C (set_owner c (Some self) w) B" by (rule cond_inv_owner [OF assms(1,2)]) (use assms(2,3) in auto)
  with None cond_lock_free [OF assms(1,2,8) None assms(9)] show ?thesis by auto
next
  case (Some owner)
  let ?l = "l\<lparr>is_blocked := True, lt_state := set_flag LT_ST_SLEEPING (lt_state l), sleep_usecs := 0\<rparr>"
  let ?w = "w\<lparr>blocked_q := TAILQ_INSERT_TAIL c self (blocked_q w), lts := (lts w)(self \<mapsto> ?l)\<rparr>"
  have "is_blocked ?l" by (cases l) simp
  from cond_inv_block [OF assms(1-4) this] have "cond_inv C ?w (B(c := B c @ [self]))" .
  moreover have "owner_of ?w c = Some owner" using Some by (simp add: owner_of_def)
  moreover have "lthread_cond_lock now me c w = Inr (True, ?w)"
    using cond_lock_busy [OF assms(1,2) Some _ assms(5-10)] Some assms(4) by simp
  ultimately show ?thesis using Some by (intro exI [of _ ?w]) simp
qed

theorem lthread_cond_lock_takes_or_blocks_witness:
  "\<exists>w'. lthread_cond_lock 77 10 20 (cond20 (Some 6) [7]) = Inr (True, w') \<and> cond_inv {20} w' ((\<lambda>_. [7])(20 := [7, 5]))"
proof -
  have "cond_inv {20} (cond20 (Some 6) [7]) (\<lambda>_. [7])" by (rule cond20_inv) auto
  moreover have "\<not> is_blocked lt5" by (simp add: lt5_def lthread_zero_def)
  ultimately show ?thesis
    using lthread_cond_lock_takes_or_blocks [of "{20}" "cond20 (Some 6) [7]" "\<lambda>_. [7]" 20 5 lt5 10 77] by auto
qed

text \<open>\<open>lthread_cond_unlock_signal\<close> hands the ownership over: with nobody blocked the condition variable becomes
  free; otherwise the lthread blocked first owns it before it runs, it is queued at its scheduler,
  and when it is resumed its pending \<open>lthread_cond_lock\<close> returns as the owner. The others stay
  blocked in their order.\<close>

theorem lthread_cond_unlock_hands_over:
  assumes inv: "cond_inv C w B" "c \<in> C" "owner_of w c = Some self" and cur: "current_lthread (scheds w me) = Some self"
    and fam: "tq_family K (ready_q w) R"
    and waiter: "\<And>b rest. B c = b # rest \<Longrightarrow> \<exists>l s. lts w b = Some l \<and> lt_sched l = Some s \<and> s \<in> K \<and> sleep_usecs l = 0 \<and>
        current_lthread (scheds w s) \<noteq> Some b \<and> Sched_mutex s \<notin> held w \<and> (\<forall>q \<in> K. b \<notin> set (R q))"
    and free: "Cond_mutex c \<notin> held w" "Pool_mutex \<notin> held w"
  shows "\<exists>w'. lthread_cond_unlock_signal me c w = Inr w' \<and> held w' = held w \<and>
    (case B c of
       [] \<Rightarrow> owner_of w' c = NULL \<and> cond_inv C w' B
     | b # rest \<Rightarrow> owner_of w' c = Some b \<and> cond_inv C w' (B(c := rest)) \<and> lthread_cond_lock_resumed c b w' = Inr w' \<and>
         (\<exists>s. tq_family K (ready_q w') (R(s := R s @ [b])) \<and> (\<exists>l. lts w b = Some l \<and> lt_sched l = Some s)))"
proof -
  let ?w = "w\<lparr>held := insert (Cond_mutex c) (held w)\<rparr>"
  have i: "cond_inv C ?w B" "owner_of ?w c = Some self" using inv by simp_all
  show ?thesis
  proof (cases "B c")
    case Nil
    have "cond_inv C (set_owner c NULL w) B" by (rule cond_inv_owner [OF inv(1,2)]) simp
    with Nil cond_signal_none [OF i(1) inv(2) i(2) Nil] cur free(1) show ?thesis
      by (auto simp: lthread_cond_unlock_signal_def lthread_current_def set_owner_held)
  next
    case (Cons b rest)
    obtain l s where b: "lts w b = Some l" "lt_sched l = Some s" "s \<in> K" "sleep_usecs l = 0"
      "current_lthread (scheds w s) \<noteq> Some b" "Sched_mutex s \<notin> held w" "\<forall>q \<in> K. b \<notin> set (R q)"
      using waiter [OF Cons] by blast
    let ?l = "l\<lparr>is_blocked := False\<rparr>"
    let ?w' = "ready_result s s b ?l (handed_over c b l w)"
    have ho: "handed_over c b l ?w = (handed_over c b l w)\<lparr>held := held ?w\<rparr>"
      by (simp add: handed_over_def set_owner_def)
    have sig: "lthread_cond_signal c self ?w = Inr (True, ?w'\<lparr>held := held ?w\<rparr>)"
      using cond_signal_hands_over [OF i(1) inv(2) i(2) Cons] b free by (simp add: ho ready_held)
    have held: "held ?w' = held w" by (simp add: handed_over_def)
    have unl: "lthread_cond_unlock_signal me c w = Inr ?w'"
      using cur free(1) sig held
      by (simp add: lthread_cond_unlock_signal_def lthread_current_def flip: held)
    have lts: "lts (handed_over c b l w) b = Some ?l" by (simp add: handed_over_def)
    have inv': "cond_inv C ?w' (B(c := rest))" "owner_of ?w' c = Some b"
      using handed_over_inv [OF inv(1,2) Cons] cond_inv_ready [OF _ lts] by simp_all
    have q: "tq_family K (ready_q ?w') (R(s := R s @ [b]))"
      using ready_result_queue [of K "handed_over c b l w" R s b s ?l] fam b by (auto simp: handed_over_def)
    have "lts ?w' b = Some ?l" using b(5) lts by (simp add: ready_result_lts handed_over_def)
    then have "cond_wait_end c b ?w' = Inr (0, ?w'\<lparr>held := insert (Cond_mutex c) (held ?w')\<rparr>)"
      using cond_wait_end_owner [OF inv'(1) inv(2) inv'(2)] free(1) held by auto
    moreover have "owner_is_self c b (?w'\<lparr>held := A\<rparr>) = Inr ()" for A
      using cond_invD(2) [OF inv'(1) inv(2)] inv'(2) by (simp add: owner_is_self_def get_cond_def)
    ultimately have "lthread_cond_lock_resumed c b ?w' = Inr ?w'"
      using free(1) held by (simp add: lthread_cond_lock_resumed_def)
    then show ?thesis using Cons unl held inv' q b(1,2) by (intro exI [of _ ?w']) auto
  qed
qed

theorem lthread_cond_unlock_hands_over_witness:
  "\<exists>w'. lthread_cond_unlock_signal 10 20 (cond20 (Some 5) [7, 8]) = Inr w' \<and> owner_of w' 20 = Some 7 \<and>
     lthread_cond_lock_resumed 20 7 w' = Inr w' \<and> cond_inv {20} w' ((\<lambda>_. [7, 8])(20 := [8]))"
proof -
  have "cond_inv {20} (cond20 (Some 5) [7, 8]) (\<lambda>_. [7, 8])" by (rule cond20_inv) auto
  then show ?thesis
    using lthread_cond_unlock_hands_over [of "{20}" "cond20 (Some 5) [7, 8]" "\<lambda>_. [7, 8]" 20 5 10 "{10, 11}" "\<lambda>_. []"]
    by auto
qed

text \<open>The releases of one owner after the other.\<close>

fun release_n :: "nat \<Rightarrow> addr \<Rightarrow> addr \<Rightarrow> world \<Rightarrow> world res" where
  "release_n 0 c self w = Inr w"
| "release_n (Suc n) c self w =
     rbind (lthread_cond_signal c self w) (\<lambda>(_, w).
     (case owner_of w c of Some owner \<Rightarrow> release_n n c owner w | None \<Rightarrow> Inr w))"

text \<open>Every blocked lthread gets its turn, in the order of arrival: after \<open>n + 1\<close> releases, each by the owner
  at that time, the lthread that was at position \<open>n\<close> of the queue owns the condition variable and
  exactly those behind it are still blocked.\<close>

theorem lthread_cond_serves_in_order:
  assumes "cond_inv C w B" "c \<in> C" "owner_of w c = Some self" "n < length (B c)" "Pool_mutex \<notin> held w"
    "\<And>b. b \<in> set (B c) \<Longrightarrow> \<exists>l s. lts w b = Some l \<and> lt_sched l = Some s \<and> sleep_usecs l = 0 \<and> Sched_mutex s \<notin> held w"
  shows "\<exists>w'. release_n (Suc n) c self w = Inr w' \<and> owner_of w' c = Some (B c ! n) \<and>
    cond_inv C w' (B(c := drop (Suc n) (B c)))"
  using assms
proof (induction n arbitrary: w B self)
  case (0 w B self)
  obtain b rest where B: "B c = b # rest" using 0(4) by (cases "B c") auto
  obtain l s where l: "lts w b = Some l" "lt_sched l = Some s" "sleep_usecs l = 0" "Sched_mutex s \<notin> held w"
    using 0(6) [of b] B by auto
  have lts: "lts (handed_over c b l w) b = Some (l\<lparr>is_blocked := False\<rparr>)" by (simp add: handed_over_def)
  let ?w = "ready_result s s b (l\<lparr>is_blocked := False\<rparr>) (handed_over c b l w)"
  have "cond_inv C ?w (B(c := rest))" "owner_of ?w c = Some b"
    using handed_over_inv [OF 0(1,2) B] cond_inv_ready [OF _ lts] by simp_all
  then show ?case using cond_signal_hands_over [OF 0(1,2,3) B l 0(5)] B by (simp del: fun_upd_apply)
next
  case (Suc n)
  obtain b rest where B: "B c = b # rest" "n < length rest" using Suc.prems(4) by (cases "B c") auto
  obtain l s where l: "lts w b = Some l" "lt_sched l = Some s" "sleep_usecs l = 0" "Sched_mutex s \<notin> held w"
    using Suc.prems(6) [of b] B by auto
  let ?l = "l\<lparr>is_blocked := False\<rparr>"
  let ?w = "ready_result s s b ?l (handed_over c b l w)"
  have lts: "lts (handed_over c b l w) b = Some ?l" by (simp add: handed_over_def)
  have inv: "cond_inv C ?w (B(c := rest))" "owner_of ?w c = Some b"
    using handed_over_inv [OF Suc.prems(1,2) B(1)] cond_inv_ready [OF _ lts] by simp_all
  have b: "b \<notin> set rest" using inv Suc.prems(2) cond_invD(1) [OF inv(1) Suc.prems(2)] by (auto simp: cond_inv_def)
  have h: "held ?w = held w" by (simp add: handed_over_def)
  have "\<exists>l s. lts ?w x = Some l \<and> lt_sched l = Some s \<and> sleep_usecs l = 0 \<and> Sched_mutex s \<notin> held ?w" if "x \<in> set rest" for x
    using Suc.prems(6) [of x] B that b h by (auto simp: ready_result_lts handed_over_def)
  then have "\<exists>w'. release_n (Suc n) c b ?w = Inr w' \<and> owner_of w' c = Some ((B(c := rest)) c ! n) \<and>
      cond_inv C w' (B(c := rest, c := drop (Suc n) ((B(c := rest)) c)))"
    by (intro Suc.IH [OF inv(1) Suc.prems(2) inv(2)]) (use B(2) Suc.prems(5) h in auto)
  then show ?case
    using cond_signal_hands_over [OF Suc.prems(1,2,3) B(1) l Suc.prems(5)] inv(2) B(1)
    by (simp del: release_n.simps fun_upd_apply add: fun_upd_same release_n.simps(2) [of "Suc n"])
qed

theorem lthread_cond_serves_in_order_witness:
  "\<exists>w'. release_n 2 20 5 (cond20 (Some 5) [7, 8]) = Inr w' \<and> owner_of w' 20 = Some 8"
proof -
  have "cond_inv {20} (cond20 (Some 5) [7, 8]) (\<lambda>_. [7, 8])" by (rule cond20_inv) auto
  then show ?thesis
    using lthread_cond_serves_in_order [of "{20}" "cond20 (Some 5) [7, 8]" "\<lambda>_. [7, 8]" 20 5 1] by (auto simp: numeral_2_eq_2)
qed

text \<open>A wait that was not signalled ends with -2: the lthread is taken out of the queue, it does not own
  the condition variable, and the other blocked lthreads keep their places; a signalled wait ends with
  0 and the ownership.\<close>

theorem lthread_cond_wait_result:
  assumes "cond_inv C w B" "c \<in> C" "lts w self = Some l" "Cond_mutex c \<notin> held w"
    "if owner_of w c = Some self then \<not> is_blocked l else self \<in> set (B c)"
  shows "if owner_of w c = Some self then lthread_cond_wait_resumed c self w = Inr (0, w)
    else \<exists>w'. lthread_cond_wait_resumed c self w = Inr (- 2, w') \<and> cond_inv C w' (B(c := remove1 self (B c))) \<and>
      owner_of w' c = owner_of w c \<and> held w' = held w"
proof (cases "owner_of w c = Some self")
  case True
  have "owner_is_self c self (w\<lparr>held := A\<rparr>) = Inr ()" for A
    using cond_invD(2) [OF assms(1,2)] True by (simp add: owner_is_self_def get_cond_def)
  with True cond_wait_end_owner [OF assms(1,2) True assms(3) _ assms(4)] assms(4,5) show ?thesis
    by (simp add: lthread_cond_wait_resumed_def)
next
  case False
  let ?w = "w\<lparr>blocked_q := TAILQ_REMOVE c self (blocked_q w), lts := (lts w)(self \<mapsto> l\<lparr>is_blocked := False\<rparr>)\<rparr>"
  have "lthread_cond_wait_resumed c self w = Inr (- 2, ?w)"
    using cond_wait_end_timeout [OF assms(1,2) False _ assms(3,4)] assms(4,5) False
    by (simp add: lthread_cond_wait_resumed_def held_last)
  moreover have "cond_inv C ?w (B(c := remove1 self (B c)))"
    by (rule cond_inv_unblock) (use assms False in auto)
  moreover have "owner_of ?w c = owner_of w c" by (simp add: owner_of_def)
  ultimately show ?thesis using False by (intro iffD2 [OF if_not_P]) auto
qed

theorem lthread_cond_wait_result_witness:
  "\<exists>w'. lthread_cond_wait_resumed 20 7 (cond20 (Some 5) [6, 7, 8]) = Inr (- 2, w') \<and>
     cond_inv {20} w' ((\<lambda>_. [6, 7, 8])(20 := [6, 8]))"
proof -
  have "cond_inv {20} (cond20 (Some 5) [6, 7, 8]) (\<lambda>_. [6, 7, 8])" by (rule cond20_inv) auto
  then show ?thesis
    using lthread_cond_wait_result [of "{20}" "cond20 (Some 5) [6, 7, 8]" "\<lambda>_. [6, 7, 8]" 20 7 blocked_lt] by auto
qed

text \<open>Misuse is caught: locking a condition variable one owns and releasing one that one does not own both
  fail an assertion.\<close>

theorem lthread_cond_misuse_asserts:
  assumes "cond_inv C w B" "c \<in> C" "current_lthread (scheds w me) = Some self" "Cond_mutex c \<notin> held w"
  shows "if owner_of w c = Some self
    then lthread_cond_lock now me c w = Inl (Assertion_failed ''c->owner != self'')
    else lthread_cond_unlock_signal me c w = Inl (Assertion_failed ''c->owner == self'')"
proof -
  let ?w = "w\<lparr>held := insert (Cond_mutex c) (held w)\<rparr>"
  have "lthread_cond_signal c self ?w = Inl (Assertion_failed ''c->owner == self'')" if "owner_of w c \<noteq> Some self"
    by (rule cond_signal_not_owner [of C _ B]) (use assms that in auto)
  with assms cond_lock_owner_fails [OF assms(1,2) _ assms(3,4)] show ?thesis
    by (simp add: lthread_cond_unlock_signal_def lthread_current_def)
qed

theorem lthread_cond_misuse_asserts_witness:
  "lthread_cond_lock 77 10 20 (cond20 (Some 5) []) = Inl (Assertion_failed ''c->owner != self'')"
proof -
  have "cond_inv {20} (cond20 (Some 5) []) (\<lambda>_. [])" by (rule cond20_inv) auto
  then show ?thesis
    using lthread_cond_misuse_asserts [of "{20}" "cond20 (Some 5) []" "\<lambda>_. []" 20 10 5 77] by simp
qed

end
