(* ===== verification/Stacks.thy ===== *)
theory Stacks
  imports Sched
begin

section \<open>Stacks and the cache of lthreads\<close>

text \<open>
  The build with \<open>USE_MINICORO 0\<close>: an lthread owns a stack, from \<open>mmap\<close> if it is large and from the heap otherwise, and a scheduler keeps up to 32 ended lthreads
  with their stacks for the next ones. \<open>stacks\<close> says which stacks are allocated, at which address and whether by \<open>mmap\<close>; giving back one that is
  not allocated in that way is a fault. The answers of \<open>calloc\<close>, \<open>mmap\<close> and \<open>posix_memalign\<close> and the value of \<open>errno\<close> are arguments.
\<close>

record lthread_fc = lthread +
  stack           :: u64
  sp              :: u64
  stack_size      :: u64
  last_stack_size :: u64

definition lthread_fc_zero :: lthread_fc where
  "lthread_fc_zero = lthread.extend lthread_zero \<lparr>stack = 0, sp = 0, stack_size = 0, last_stack_size = 0\<rparr>"

record fc_world =
  fc_lts        :: "addr \<rightharpoonup> lthread_fc"
  fc_cache      :: "addr \<Rightarrow> addr list"
  fc_stack_size :: "addr \<Rightarrow> u64"
  fc_page_size  :: "addr \<Rightarrow> u64"
  stacks        :: "u64 \<rightharpoonup> bool"

definition LTHREAD_MMAP_MIN :: u64 where
  "LTHREAD_MMAP_MIN = 1024 * 1024"

definition LTHREAD_CACHE_SIZE :: nat where
  "LTHREAD_CACHE_SIZE = 32"

definition MAP_FAILED :: u64 where
  "MAP_FAILED = - 1"

definition lthread_allocate_fc :: "ptr \<Rightarrow> u64 option \<Rightarrow> int \<Rightarrow> addr \<Rightarrow> fc_world \<Rightarrow> (int \<times> ptr \<times> fc_world) res" where
  "lthread_allocate_fc mem stk errno s w =
     (let cache = fc_cache w s; size = fc_stack_size w s
      in if cache \<noteq> [] then
           (let lt = last cache;
                w = w\<lparr>fc_cache := (fc_cache w)(s := butlast cache)\<rparr>
            in rbind (of_option (fc_lts w lt)) (\<lambda>l. Inr (0, Some lt, w\<lparr>fc_lts := (fc_lts w)(lt \<mapsto> l\<lparr>lt_sched := Some s\<rparr>)\<rparr>)))
         else
           (case mem of
              None \<Rightarrow> Inr (errno, NULL, w)
            | Some lt \<Rightarrow>
                if LTHREAD_MMAP_MIN \<le> size then
                  (let l = lthread_fc_zero\<lparr>stack := (case stk of Some b \<Rightarrow> b | None \<Rightarrow> MAP_FAILED), stack_size := size, lt_sched := Some s\<rparr>
                   in Inr (0, Some lt, w\<lparr>fc_lts := (fc_lts w)(lt \<mapsto> l), stacks := (case stk of Some b \<Rightarrow> (stacks w)(b \<mapsto> True) | None \<Rightarrow> stacks w)\<rparr>))
                else
                  (case stk of
                     None \<Rightarrow> Inr (errno, NULL, w)
                   | Some b \<Rightarrow>
                       Inr (0, Some lt, w\<lparr>fc_lts := (fc_lts w)(lt \<mapsto> lthread_fc_zero\<lparr>stack := b, stack_size := size, lt_sched := Some s\<rparr>),
                          stacks := (stacks w)(b \<mapsto> False)\<rparr>))))"

definition release_stack :: "bool \<Rightarrow> u64 \<Rightarrow> fc_world \<Rightarrow> fc_world res" where
  "release_stack mapped b w = (if stacks w b = Some mapped then Inr (w\<lparr>stacks := (stacks w)(b := None)\<rparr>) else Inl Undefined)"

definition lthread_free_fc :: "addr \<Rightarrow> fc_world \<Rightarrow> fc_world res" where
  "lthread_free_fc lt w =
     rbind (of_option (fc_lts w lt)) (\<lambda>l.
     rbind (of_option (lt_sched l)) (\<lambda>s.
     if length (fc_cache w s) < LTHREAD_CACHE_SIZE then
       Inr (w\<lparr>fc_cache := (fc_cache w)(s := fc_cache w s @ [lt]),
              fc_lts := (fc_lts w)(lt \<mapsto> lthread_fc_zero\<lparr>stack := stack l, stack_size := stack_size l\<rparr>)\<rparr>)
     else
       rbind (release_stack (LTHREAD_MMAP_MIN \<le> stack_size l) (stack l) w) (\<lambda>w.
       Inr (w\<lparr>fc_lts := (fc_lts w)(lt := None)\<rparr>))))"

text \<open>The first component of the result is the call of \<open>madvise\<close>, address and length, if there is one.\<close>

definition lthread_madvise :: "addr \<Rightarrow> fc_world \<Rightarrow> ((u64 \<times> u64) option \<times> fc_world) res" where
  "lthread_madvise lt w =
     rbind (of_option (fc_lts w lt)) (\<lambda>l.
     rbind (of_option (lt_sched l)) (\<lambda>s.
     let page_size = fc_page_size w s;
         current_stack_size = (stack l + stack_size l) - sp l
     in rbind (assert_that ''current_stack_size <= lt->stack_size'' (current_stack_size \<le> stack_size l)) (\<lambda>_.
        if current_stack_size < last_stack_size l \<and> page_size < last_stack_size l - current_stack_size then
          (let free_stack_size = stack_size l - current_stack_size;
               free_stack_pages = free_stack_size div page_size
           in Inr (Some (stack l, free_stack_pages * page_size), w\<lparr>fc_lts := (fc_lts w)(lt \<mapsto> l\<lparr>last_stack_size := current_stack_size\<rparr>)\<rparr>))
        else Inr (None, w))))"

text \<open>\<open>_lthread_yield\<close> leaves the stack pointer of the lthread in \<open>sp\<close>.\<close>

definition yield_sp :: "addr \<Rightarrow> u64 \<Rightarrow> fc_world \<Rightarrow> fc_world res" where
  "yield_sp lt p w = rbind (of_option (fc_lts w lt)) (\<lambda>l. Inr (w\<lparr>fc_lts := (fc_lts w)(lt \<mapsto> l\<lparr>sp := p\<rparr>)\<rparr>))"

subsection \<open>The invariant\<close>

text \<open>Every lthread has a stack of its own, the caches hold different lthreads that nobody uses, and at most 32 each.\<close>

definition fc_inv :: "fc_world \<Rightarrow> bool" where
  "fc_inv w \<longleftrightarrow>
     (\<forall>a l. fc_lts w a = Some l \<longrightarrow> stacks w (stack l) = Some (LTHREAD_MMAP_MIN \<le> stack_size l) \<and> last_stack_size l = 0) \<and>
     (\<forall>a b l m. fc_lts w a = Some l \<and> fc_lts w b = Some m \<and> stack l = stack m \<longrightarrow> a = b) \<and>
     (\<forall>s. distinct (fc_cache w s) \<and> length (fc_cache w s) \<le> LTHREAD_CACHE_SIZE) \<and>
     (\<forall>s a. a \<in> set (fc_cache w s) \<longrightarrow> (\<exists>l. fc_lts w a = Some l \<and> lt_sched l = NULL)) \<and>
     (\<forall>s t a. a \<in> set (fc_cache w s) \<and> a \<in> set (fc_cache w t) \<longrightarrow> s = t) \<and>
     (\<forall>b. stacks w b \<noteq> None \<longrightarrow> (\<exists>a l. fc_lts w a = Some l \<and> stack l = b)) \<and>
     (\<forall>a l. fc_lts w a = Some l \<and> lt_sched l = NULL \<longrightarrow> (\<exists>s. a \<in> set (fc_cache w s)))"

lemma fc_zero_sel [simp]:
  "stack lthread_fc_zero = 0" "stack_size lthread_fc_zero = 0" "last_stack_size lthread_fc_zero = 0" "lt_sched lthread_fc_zero = NULL"
  by (simp_all add: lthread_fc_zero_def lthread.defs lthread_zero_def)

lemma fc_invD:
  assumes "fc_inv w"
  shows "fc_lts w a = Some l \<Longrightarrow> stacks w (stack l) = Some (LTHREAD_MMAP_MIN \<le> stack_size l)"
    and "fc_lts w a = Some l \<Longrightarrow> last_stack_size l = 0"
    and "fc_lts w a = Some l \<Longrightarrow> fc_lts w b = Some m \<Longrightarrow> stack l = stack m \<Longrightarrow> a = b"
    and "distinct (fc_cache w s)" "length (fc_cache w s) \<le> LTHREAD_CACHE_SIZE"
    and "a \<in> set (fc_cache w s) \<Longrightarrow> \<exists>l. fc_lts w a = Some l \<and> lt_sched l = NULL"
    and "a \<in> set (fc_cache w s) \<Longrightarrow> a \<in> set (fc_cache w t) \<Longrightarrow> s = t"
    and "stacks w p \<noteq> None \<Longrightarrow> \<exists>a l. fc_lts w a = Some l \<and> stack l = p"
    and "fc_lts w a = Some l \<Longrightarrow> lt_sched l = NULL \<Longrightarrow> \<exists>s. a \<in> set (fc_cache w s)"
  using assms unfolding fc_inv_def by blast+

lemma fc_invI:
  assumes "\<And>a l. fc_lts w a = Some l \<Longrightarrow> stacks w (stack l) = Some (LTHREAD_MMAP_MIN \<le> stack_size l) \<and> last_stack_size l = 0"
    and "\<And>a b l m. fc_lts w a = Some l \<Longrightarrow> fc_lts w b = Some m \<Longrightarrow> stack l = stack m \<Longrightarrow> a = b"
    and "\<And>s. distinct (fc_cache w s)" "\<And>s. length (fc_cache w s) \<le> LTHREAD_CACHE_SIZE"
    and "\<And>a s. a \<in> set (fc_cache w s) \<Longrightarrow> \<exists>l. fc_lts w a = Some l \<and> lt_sched l = NULL"
    and "\<And>a s t. a \<in> set (fc_cache w s) \<Longrightarrow> a \<in> set (fc_cache w t) \<Longrightarrow> s = t"
    and "\<And>b. stacks w b \<noteq> None \<Longrightarrow> \<exists>a l. fc_lts w a = Some l \<and> stack l = b"
    and "\<And>a l. fc_lts w a = Some l \<Longrightarrow> lt_sched l = NULL \<Longrightarrow> \<exists>s. a \<in> set (fc_cache w s)"
  shows "fc_inv w"
  using assms unfolding fc_inv_def by blast

lemma fc_cache_use:
  assumes "fc_inv w" "fc_lts w a = Some l" "lt_sched l = Some s"
  shows "a \<notin> set (fc_cache w t)"
  using fc_invD(6) [OF assms(1), of a t] assms(2,3) by auto

lemma keep_stacks:
  assumes inv: "fc_inv w" "fc_lts w a = Some l" and l': "stack l' = stack l" "stack_size l' = stack_size l" "last_stack_size l' = 0"
  shows "((fc_lts w)(a \<mapsto> l')) b = Some m \<Longrightarrow> stacks w (stack m) = Some (LTHREAD_MMAP_MIN \<le> stack_size m) \<and> last_stack_size m = 0"
    and "((fc_lts w)(a \<mapsto> l')) b = Some m \<Longrightarrow> ((fc_lts w)(a \<mapsto> l')) d = Some n \<Longrightarrow> stack m = stack n \<Longrightarrow> b = d"
proof -
  show "((fc_lts w)(a \<mapsto> l')) b = Some m \<Longrightarrow> stacks w (stack m) = Some (LTHREAD_MMAP_MIN \<le> stack_size m) \<and> last_stack_size m = 0"
    using fc_invD(1,2) [OF inv(1)] inv(2) l' by (auto split: if_splits)
  assume "((fc_lts w)(a \<mapsto> l')) b = Some m" "((fc_lts w)(a \<mapsto> l')) d = Some n" "stack m = stack n"
  then show "b = d"
    using fc_invD(3) [OF inv, of d n] fc_invD(3) [OF inv(1) _ inv(2), of b m] fc_invD(3) [OF inv(1), of b m d n] l'(1) by (auto split: if_splits)
qed

lemma stacks_kept:
  assumes "fc_inv w" "fc_lts w a = Some l" "stack l' = stack l" "stacks w b \<noteq> None"
  shows "\<exists>d m. ((fc_lts w)(a \<mapsto> l')) d = Some m \<and> stack m = b"
proof -
  obtain d m where "fc_lts w d = Some m" "stack m = b" using fc_invD(8) [OF assms(1,4)] by blast
  with assms(2,3) show ?thesis by (cases "d = a") auto
qed

lemma allocate_cached:
  assumes inv: "fc_inv w" and c: "fc_cache w s \<noteq> []"
  shows "\<exists>l w'. lthread_allocate_fc mem stk errno s w = Inr (0, Some (last (fc_cache w s)), w') \<and> fc_inv w' \<and>
    fc_lts w (last (fc_cache w s)) = Some l \<and> fc_lts w' = (fc_lts w)(last (fc_cache w s) \<mapsto> l\<lparr>lt_sched := Some s\<rparr>) \<and> stacks w' = stacks w"
proof -
  let ?a = "last (fc_cache w s)"
  have a: "?a \<in> set (fc_cache w s)" using c by simp
  obtain l where l: "fc_lts w ?a = Some l" using fc_invD(6) [OF inv a] by blast
  let ?w = "w\<lparr>fc_cache := (fc_cache w)(s := butlast (fc_cache w s)), fc_lts := (fc_lts w)(?a \<mapsto> l\<lparr>lt_sched := Some s\<rparr>)\<rparr>"
  have gone: "?a \<notin> set (butlast (fc_cache w s))"
    using fc_invD(4) [OF inv, of s] c by (metis append_butlast_last_id distinct_append disjoint_insert(1) list.simps(15))
  have other: "?a \<notin> set (fc_cache w t)" if "t \<noteq> s" for t using fc_invD(7) [OF inv a] that by blast
  have "fc_inv ?w"
  proof (rule fc_invI)
    show "stacks ?w (stack m) = Some (LTHREAD_MMAP_MIN \<le> stack_size m) \<and> last_stack_size m = 0" if "fc_lts ?w b = Some m" for b m
      using that keep_stacks(1) [OF inv l, of "l\<lparr>lt_sched := Some s\<rparr>" b m] fc_invD(2) [OF inv l] by simp
    show "b = d" if "fc_lts ?w b = Some m" "fc_lts ?w d = Some n" "stack m = stack n" for b d m n
      using that keep_stacks(2) [OF inv l, of "l\<lparr>lt_sched := Some s\<rparr>" b m d n] fc_invD(2) [OF inv l] by simp
    show "distinct (fc_cache ?w t)" for t using fc_invD(4) [OF inv] by (simp add: distinct_butlast)
    show "length (fc_cache ?w t) \<le> LTHREAD_CACHE_SIZE" for t
      using fc_invD(5) [OF inv, of t] by auto
    show "\<exists>m. fc_lts ?w b = Some m \<and> lt_sched m = NULL" if "b \<in> set (fc_cache ?w t)" for b t
      using that fc_invD(6) [OF inv, of b t] gone other by (auto split: if_splits dest: in_set_butlastD)
    show "t = u" if "b \<in> set (fc_cache ?w t)" "b \<in> set (fc_cache ?w u)" for b t u
      using that fc_invD(7) [OF inv, of b t u] by (auto split: if_splits dest: in_set_butlastD)
    show "\<exists>d m. fc_lts ?w d = Some m \<and> stack m = b" if "stacks ?w b \<noteq> None" for b
      using stacks_kept [OF inv l, of "l\<lparr>lt_sched := Some s\<rparr>" b] that by simp
    show "\<exists>t. b \<in> set (fc_cache ?w t)" if "fc_lts ?w b = Some m" "lt_sched m = NULL" for b m
    proof -
      have b: "b \<noteq> ?a" "fc_lts w b = Some m" "lt_sched m = NULL" using that by (auto split: if_splits)
      then obtain t where "b \<in> set (fc_cache w t)" using fc_invD(9) [OF inv] by blast
      moreover have "set (fc_cache w s) = insert ?a (set (butlast (fc_cache w s)))"
        using c by (metis append_butlast_last_id list.simps(15) rotate1.simps(2) set_rotate1)
      ultimately show ?thesis using b(1) by (intro exI [of _ t]) auto
    qed
  qed
  with c l show ?thesis by (simp add: lthread_allocate_fc_def Let_def)
qed

lemma allocate_new:
  assumes inv: "fc_inv w" and c: "fc_cache w s = []" and new: "fc_lts w a = None" "stacks w b = None"
  shows "\<exists>l w'. lthread_allocate_fc (Some a) (Some b) errno s w = Inr (0, Some a, w') \<and> fc_inv w' \<and>
    fc_lts w' = (fc_lts w)(a \<mapsto> l) \<and> stack l = b \<and> stack_size l = fc_stack_size w s \<and> lt_sched l = Some s"
proof -
  let ?l = "lthread_fc_zero\<lparr>stack := b, stack_size := fc_stack_size w s, lt_sched := Some s\<rparr>"
  let ?w = "w\<lparr>fc_lts := (fc_lts w)(a \<mapsto> ?l), stacks := (stacks w)(b \<mapsto> LTHREAD_MMAP_MIN \<le> fc_stack_size w s)\<rparr>"
  have b: "stack m \<noteq> b" if "fc_lts w d = Some m" for d m using fc_invD(1) [OF inv that] new(2) by auto
  have a: "a \<notin> set (fc_cache w t)" for t using fc_invD(6) [OF inv, of a t] new(1) by auto
  have "fc_inv ?w"
  proof (rule fc_invI)
    show "stacks ?w (stack m) = Some (LTHREAD_MMAP_MIN \<le> stack_size m) \<and> last_stack_size m = 0" if "fc_lts ?w d = Some m" for d m
      using that fc_invD(1,2) [OF inv, of d m] b [of d m] by (auto split: if_splits)
    show "d = e" if "fc_lts ?w d = Some m" "fc_lts ?w e = Some n" "stack m = stack n" for d e m n
      using that fc_invD(3) [OF inv, of d m e n] b [of d] b [of e] by (auto split: if_splits)
    show "\<exists>m. fc_lts ?w d = Some m \<and> lt_sched m = NULL" if "d \<in> set (fc_cache ?w t)" for d t
      using that fc_invD(6) [OF inv, of d t] a [of t] by auto
    show "t = u" if "d \<in> set (fc_cache ?w t)" "d \<in> set (fc_cache ?w u)" for d t u
      using that fc_invD(7) [OF inv, of d t u] by simp
    show "\<exists>d m. fc_lts ?w d = Some m \<and> stack m = e" if "stacks ?w e \<noteq> None" for e
    proof (cases "e = b")
      case False
      with that obtain d m where "fc_lts w d = Some m" "stack m = e" using fc_invD(8) [OF inv, of e] by auto
      with new(1) show ?thesis by (intro exI [of _ d] exI [of _ m]) auto
    qed (simp add: exI [of _ a])
    show "\<exists>t. d \<in> set (fc_cache ?w t)" if "fc_lts ?w d = Some m" "lt_sched m = NULL" for d m
      using that fc_invD(9) [OF inv, of d m] by (auto split: if_splits)
  qed (use fc_invD(4,5) [OF inv] in simp_all)
  with c show ?thesis
    by (cases "LTHREAD_MMAP_MIN \<le> fc_stack_size w s")
       (auto simp: lthread_allocate_fc_def Let_def intro!: exI [of _ ?l] exI [of _ ?w])
qed

lemma free_to_cache:
  assumes inv: "fc_inv w" and l: "fc_lts w a = Some l" "lt_sched l = Some s" and room: "length (fc_cache w s) < LTHREAD_CACHE_SIZE"
  shows "\<exists>w'. lthread_free_fc a w = Inr w' \<and> fc_inv w' \<and> fc_cache w' = (fc_cache w)(s := fc_cache w s @ [a]) \<and>
    fc_lts w' = (fc_lts w)(a \<mapsto> lthread_fc_zero\<lparr>stack := stack l, stack_size := stack_size l\<rparr>)"
proof -
  let ?l = "lthread_fc_zero\<lparr>stack := stack l, stack_size := stack_size l\<rparr>"
  let ?w = "w\<lparr>fc_cache := (fc_cache w)(s := fc_cache w s @ [a]), fc_lts := (fc_lts w)(a \<mapsto> ?l)\<rparr>"
  have a: "a \<notin> set (fc_cache w t)" for t by (rule fc_cache_use [OF inv l])
  have "fc_inv ?w"
  proof (rule fc_invI)
    show "stacks ?w (stack m) = Some (LTHREAD_MMAP_MIN \<le> stack_size m) \<and> last_stack_size m = 0" if "fc_lts ?w b = Some m" for b m
      using that keep_stacks(1) [OF inv l(1), of ?l b m] by simp
    show "b = d" if "fc_lts ?w b = Some m" "fc_lts ?w d = Some n" "stack m = stack n" for b d m n
      using that keep_stacks(2) [OF inv l(1), of ?l b m d n] by simp
    show "distinct (fc_cache ?w t)" for t using fc_invD(4) [OF inv] a by simp
    show "length (fc_cache ?w t) \<le> LTHREAD_CACHE_SIZE" for t using fc_invD(5) [OF inv, of t] room by simp
    show "\<exists>m. fc_lts ?w b = Some m \<and> lt_sched m = NULL" if "b \<in> set (fc_cache ?w t)" for b t
      using that fc_invD(6) [OF inv, of b t] by (auto split: if_splits)
    show "t = u" if "b \<in> set (fc_cache ?w t)" "b \<in> set (fc_cache ?w u)" for b t u
      using that fc_invD(7) [OF inv, of b t u] a by (auto split: if_splits)
    show "\<exists>d m. fc_lts ?w d = Some m \<and> stack m = b" if "stacks ?w b \<noteq> None" for b
      using stacks_kept [OF inv l(1), of ?l b] that by simp
    show "\<exists>t. b \<in> set (fc_cache ?w t)" if "fc_lts ?w b = Some m" "lt_sched m = NULL" for b m
    proof (cases "b = a")
      case False
      with that obtain t where "b \<in> set (fc_cache w t)" using fc_invD(9) [OF inv, of b m] by auto
      then show ?thesis by (intro exI [of _ t]) auto
    qed (simp add: exI [of _ s])
  qed
  with l room show ?thesis by (simp add: lthread_free_fc_def)
qed

lemma free_for_good:
  assumes inv: "fc_inv w" and l: "fc_lts w a = Some l" "lt_sched l = Some s" and full: "\<not> length (fc_cache w s) < LTHREAD_CACHE_SIZE"
  shows "\<exists>w'. lthread_free_fc a w = Inr w' \<and> fc_inv w' \<and> fc_cache w' = fc_cache w \<and> fc_lts w' = (fc_lts w)(a := None) \<and> stacks w' (stack l) = None"
proof -
  let ?w = "w\<lparr>fc_lts := (fc_lts w)(a := None), stacks := (stacks w)(stack l := None)\<rparr>"
  have a: "a \<notin> set (fc_cache w t)" for t by (rule fc_cache_use [OF inv l])
  have "fc_inv ?w"
  proof (rule fc_invI)
    show "stacks ?w (stack m) = Some (LTHREAD_MMAP_MIN \<le> stack_size m) \<and> last_stack_size m = 0" if "fc_lts ?w b = Some m" for b m
      using that fc_invD(1,2) [OF inv] fc_invD(3) [OF inv l(1), of b m] by (auto split: if_splits)
    show "b = d" if "fc_lts ?w b = Some m" "fc_lts ?w d = Some n" "stack m = stack n" for b d m n
      using that fc_invD(3) [OF inv, of b m d n] by (auto split: if_splits)
    show "\<exists>m. fc_lts ?w b = Some m \<and> lt_sched m = NULL" if "b \<in> set (fc_cache ?w t)" for b t
      using that fc_invD(6) [OF inv, of b t] a by auto
    show "t = u" if "b \<in> set (fc_cache ?w t)" "b \<in> set (fc_cache ?w u)" for b t u
      using that fc_invD(7) [OF inv, of b t u] by simp
    show "\<exists>d m. fc_lts ?w d = Some m \<and> stack m = b" if "stacks ?w b \<noteq> None" for b
    proof -
      have b: "b \<noteq> stack l" "stacks w b \<noteq> None" using that by (auto split: if_splits)
      obtain d m where "fc_lts w d = Some m" "stack m = b" using fc_invD(8) [OF inv b(2)] by blast
      with b(1) l(1) show ?thesis by (intro exI [of _ d] exI [of _ m]) auto
    qed
    show "\<exists>t. b \<in> set (fc_cache ?w t)" if "fc_lts ?w b = Some m" "lt_sched m = NULL" for b m
      using that fc_invD(9) [OF inv, of b m] by (auto split: if_splits)
  qed (use fc_invD(4,5) [OF inv] in simp_all)
  moreover have "lthread_free_fc a w = Inr ?w"
    using l full fc_invD(1) [OF inv l(1)] by (simp add: lthread_free_fc_def release_stack_def)
  ultimately show ?thesis by (intro exI [of _ ?w]) simp
qed

lemma fc_inv_sp:
  assumes "fc_inv w" "fc_lts w a = Some l"
  shows "fc_inv (w\<lparr>fc_lts := (fc_lts w)(a \<mapsto> l\<lparr>sp := p\<rparr>)\<rparr>)" (is "fc_inv ?w")
proof (rule fc_invI)
  show "stacks ?w (stack m) = Some (LTHREAD_MMAP_MIN \<le> stack_size m) \<and> last_stack_size m = 0" if "fc_lts ?w b = Some m" for b m
    using that keep_stacks(1) [OF assms, of "l\<lparr>sp := p\<rparr>" b m] fc_invD(2) [OF assms] by simp
  show "b = d" if "fc_lts ?w b = Some m" "fc_lts ?w d = Some n" "stack m = stack n" for b d m n
    using that keep_stacks(2) [OF assms, of "l\<lparr>sp := p\<rparr>" b m d n] fc_invD(2) [OF assms] by simp
  show "\<exists>m. fc_lts ?w b = Some m \<and> lt_sched m = NULL" if "b \<in> set (fc_cache ?w t)" for b t
    using that fc_invD(6) [OF assms(1), of b t] assms(2) by auto
  show "t = u" if "b \<in> set (fc_cache ?w t)" "b \<in> set (fc_cache ?w u)" for b t u
    using that fc_invD(7) [OF assms(1), of b t u] by simp
  show "\<exists>d m. fc_lts ?w d = Some m \<and> stack m = b" if "stacks ?w b \<noteq> None" for b
    using stacks_kept [OF assms, of "l\<lparr>sp := p\<rparr>" b] that by simp
  show "\<exists>t. b \<in> set (fc_cache ?w t)" if "fc_lts ?w b = Some m" "lt_sched m = NULL" for b m
    using that fc_invD(9) [OF assms(1), of b m] fc_invD(9) [OF assms] by (auto split: if_splits)
qed (use fc_invD(4,5) [OF assms(1)] in simp_all)

definition fc_small :: fc_world where
  "fc_small = \<lparr>fc_lts = (\<lambda>_. None), fc_cache = (\<lambda>_. []), fc_stack_size = (\<lambda>_. 65536), fc_page_size = (\<lambda>_. 4096), stacks = (\<lambda>_. None)\<rparr>"

lemma fc_small_inv: "fc_inv fc_small"
  by (simp add: fc_inv_def fc_small_def LTHREAD_CACHE_SIZE_def)

lemma fc_small_alloc:
  "\<exists>w l. lthread_allocate_fc (Some 5) (Some 4096) 0 10 fc_small = Inr (0, Some 5, w) \<and> fc_inv w \<and> fc_lts w 5 = Some l \<and> lt_sched l = Some 10 \<and>
     stack l = 4096 \<and> stack_size l = 65536 \<and> fc_cache w = fc_cache fc_small"
  using allocate_new [OF fc_small_inv, of 10 5 4096 0]
  by (simp add: fc_small_def lthread_allocate_fc_def LTHREAD_MMAP_MIN_def Let_def)

subsection \<open>Properties\<close>

text \<open>(C21) Stacks are neither lost nor given back twice. Ending an lthread that is in use with \<open>_lthread_free\<close> and allocating one, with every allocation
  of memory giving memory that is free, succeed and keep the invariant: different lthreads have different, allocated stacks, every
  stack that is allocated belongs to an lthread, an lthread that is not in use is in exactly one cache, no cache has more than 32 entries, and
  an lthread that is handed out is in no cache. An lthread that ends with a full cache is gone, and its stack has been given back.\<close>

theorem lthread_cache_safe:
  assumes "fc_inv w" "fc_lts w a = Some l" "lt_sched l = Some s" "fc_lts w m = None" "stacks w b = None"
  shows "(\<exists>w'. lthread_free_fc a w = Inr w' \<and> fc_inv w' \<and>
      (\<not> length (fc_cache w s) < LTHREAD_CACHE_SIZE \<longrightarrow> fc_lts w' a = None \<and> stacks w' (stack l) = None)) \<and>
    (\<exists>lt w' l'. lthread_allocate_fc (Some m) (Some b) errno s w = Inr (0, Some lt, w') \<and> fc_inv w' \<and> fc_lts w' lt = Some l' \<and>
       lt_sched l' = Some s \<and> (\<forall>t. lt \<notin> set (fc_cache w' t)) \<and> lt \<noteq> a)"
proof
  show "\<exists>w'. lthread_free_fc a w = Inr w' \<and> fc_inv w' \<and>
      (\<not> length (fc_cache w s) < LTHREAD_CACHE_SIZE \<longrightarrow> fc_lts w' a = None \<and> stacks w' (stack l) = None)"
    using free_to_cache [OF assms(1-3)] free_for_good [OF assms(1-3)] by (cases "length (fc_cache w s) < LTHREAD_CACHE_SIZE") auto
  have "\<exists>lt w' l'. lthread_allocate_fc (Some m) (Some b) errno s w = Inr (0, Some lt, w') \<and> fc_inv w' \<and> fc_lts w' lt = Some l' \<and>
      lt_sched l' = Some s \<and> lt \<noteq> a"
  proof (cases "fc_cache w s = []")
    case True
    from allocate_new [OF assms(1) True assms(4,5), of errno] obtain w' l' where
      "lthread_allocate_fc (Some m) (Some b) errno s w = Inr (0, Some m, w')" "fc_inv w'" "fc_lts w' = (fc_lts w)(m \<mapsto> l')" "lt_sched l' = Some s" by blast
    moreover have "m \<noteq> a" using assms(2,4) by auto
    ultimately show ?thesis by simp
  next
    case False
    then have "last (fc_cache w s) \<noteq> a" using fc_cache_use [OF assms(1-3), of s] by (metis last_in_set)
    with allocate_cached [OF assms(1) False, of "Some m" "Some b" errno] show ?thesis by auto
  qed
  then show "\<exists>lt w' l'. lthread_allocate_fc (Some m) (Some b) errno s w = Inr (0, Some lt, w') \<and> fc_inv w' \<and> fc_lts w' lt = Some l' \<and>
      lt_sched l' = Some s \<and> (\<forall>t. lt \<notin> set (fc_cache w' t)) \<and> lt \<noteq> a"
    using fc_cache_use by blast
qed

theorem lthread_cache_safe_witness:
  "\<exists>w w'. lthread_allocate_fc (Some 5) (Some 4096) 0 10 fc_small = Inr (0, Some 5, w) \<and> lthread_free_fc 5 w = Inr w' \<and> fc_inv w'"
proof -
  obtain w l where w: "lthread_allocate_fc (Some 5) (Some 4096) 0 10 fc_small = Inr (0, Some 5, w)" "fc_inv w" "fc_lts w 5 = Some l"
    "lt_sched l = Some 10" using fc_small_alloc by blast
  have "fc_lts w 6 = None \<and> stacks w 8192 = None"
    using w(1) by (auto simp: fc_small_def lthread_allocate_fc_def LTHREAD_MMAP_MIN_def Let_def)
  then have "\<exists>w'. lthread_free_fc 5 w = Inr w' \<and> fc_inv w'" using lthread_cache_safe [OF w(2-4), of 6 8192 0] by blast
  with w(1) show ?thesis by auto
qed

text \<open>An lthread that ended is used again: when the cache has room, the next allocation of the same scheduler returns it with the same stack and
  with every other field as in fresh memory.\<close>

theorem lthread_cache_recycles:
  assumes "fc_inv w" "fc_lts w a = Some l" "lt_sched l = Some s" "length (fc_cache w s) < LTHREAD_CACHE_SIZE"
  shows "\<exists>w1 w2. lthread_free_fc a w = Inr w1 \<and> lthread_allocate_fc mem stk errno s w1 = Inr (0, Some a, w2) \<and>
    fc_lts w2 a = Some (lthread_fc_zero\<lparr>stack := stack l, stack_size := stack_size l, lt_sched := Some s\<rparr>) \<and> fc_cache w2 = fc_cache w"
proof -
  obtain w1 where w1: "lthread_free_fc a w = Inr w1" "fc_inv w1" "fc_cache w1 = (fc_cache w)(s := fc_cache w s @ [a])"
    "fc_lts w1 = (fc_lts w)(a \<mapsto> lthread_fc_zero\<lparr>stack := stack l, stack_size := stack_size l\<rparr>)"
    using free_to_cache [OF assms] by blast
  then show ?thesis by (simp add: lthread_allocate_fc_def Let_def)
qed

theorem lthread_cache_recycles_witness:
  "\<exists>w w1 w2. lthread_allocate_fc (Some 5) (Some 4096) 0 10 fc_small = Inr (0, Some 5, w) \<and> lthread_free_fc 5 w = Inr w1 \<and>
     lthread_allocate_fc None None 12 10 w1 = Inr (0, Some 5, w2)"
proof -
  obtain w l where w: "lthread_allocate_fc (Some 5) (Some 4096) 0 10 fc_small = Inr (0, Some 5, w)" "fc_inv w" "fc_lts w 5 = Some l"
    "lt_sched l = Some 10" "fc_cache w = fc_cache fc_small" using fc_small_alloc by blast
  from lthread_cache_recycles [OF w(2-4), of None None 12] w(1,5) show ?thesis by (auto simp: fc_small_def LTHREAD_CACHE_SIZE_def)
qed

text \<open>Unused stack memory is never given back: \<open>last_stack_size\<close> is 0 in a new lthread and assigned only where it was larger than the current
  size, so that no run of an lthread, wherever its stack pointer is left, makes \<open>_lthread_madvise\<close> call \<open>madvise\<close>.\<close>

theorem lthread_madvise_never:
  assumes "fc_inv w" "fc_lts w a = Some l" "lt_sched l = Some s" "(stack l + stack_size l) - p \<le> stack_size l"
  shows "\<exists>w'. yield_sp a p w = Inr w' \<and> lthread_madvise a w' = Inr (None, w') \<and> fc_inv w'"
  using fc_inv_sp [OF assms(1,2), of p] fc_invD(2) [OF assms(1,2)] assms(2-4)
  by (simp add: yield_sp_def lthread_madvise_def Let_def)

theorem lthread_madvise_never_witness:
  "\<exists>w w'. lthread_allocate_fc (Some 5) (Some 4096) 0 10 fc_small = Inr (0, Some 5, w) \<and> yield_sp 5 69000 w = Inr w' \<and>
     lthread_madvise 5 w' = Inr (None, w')"
proof -
  obtain w l where w: "lthread_allocate_fc (Some 5) (Some 4096) 0 10 fc_small = Inr (0, Some 5, w)" "fc_inv w" "fc_lts w 5 = Some l"
    "lt_sched l = Some 10" "stack l = 4096" "stack_size l = 65536" using fc_small_alloc by blast
  from lthread_madvise_never [OF w(2-4), of 69000] w(1,5,6) show ?thesis by auto
qed

text \<open>An allocation that fails may look like a success: \<open>posix_memalign\<close> returns its error and does not set \<open>errno\<close>, which is what
  \<open>_lthread_allocate\<close> returns; if it is still 0, the caller is told that there is an lthread, and there is none.\<close>

lemma lthread_allocate_hides_error:
  assumes "fc_cache w s = []" "fc_stack_size w s < LTHREAD_MMAP_MIN"
  shows "lthread_allocate_fc (Some m) None 0 s w = Inr (0, NULL, w)"
  using assms by (simp add: lthread_allocate_fc_def Let_def)

end
