(* ===== verification/Trace.thy ===== *)
theory Trace
  imports Sched_Props "HOL-Library.Multiset"
begin

section \<open>Tracing\<close>

text \<open>
  The build with \<open>LTHREAD_TRACE 1\<close>: every scheduler writes a record of 19 bytes for each event into a mapped file (\<open>_lthread_trace_event\<close> of
  \<open>src/src/lthread.c\<close>), and \<open>src/scripts/analyze_trace.py\<close> reads the files of all schedulers and merges them by time. The mapped bytes are a list;
  a write outside of it is the fault \<open>Undefined\<close>. Both programs use the byte order of the machine, here the smallest byte first.
\<close>

type_synonym u8 = "8 word"

subsection \<open>Bytes\<close>

fun le :: "nat \<Rightarrow> nat \<Rightarrow> u8 list" where
  "le 0 x = []"
| "le (Suc n) x = of_nat (x mod 256) # le n (x div 256)"

fun unle :: "u8 list \<Rightarrow> nat" where
  "unle [] = 0"
| "unle (b # bs) = unat b + 256 * unle bs"

lemma length_le [simp]: "length (le n x) = n"
  by (induction n arbitrary: x) auto

lemma unle_le: "unle (le n x) = x mod 256 ^ n"
proof (induction n arbitrary: x)
  case (Suc n)
  have "unat (of_nat (x mod 256) :: u8) = x mod 256" by (simp add: unat_of_nat take_bit_eq_mod)
  with Suc show ?case by (simp add: mod_mult2_eq)
qed simp

lemma unle_le_small: "x < 256 ^ n \<Longrightarrow> unle (le n x) = x"
  by (simp add: unle_le)

definition store_at :: "nat \<Rightarrow> u8 list \<Rightarrow> u8 list \<Rightarrow> u8 list option" where
  "store_at off bs mem = (if off + length bs \<le> length mem then Some (take off mem @ bs @ drop (off + length bs) mem) else None)"

subsection \<open>Writing\<close>

datatype lthread_trace_event_t =
    lthread_trace_evt_spawn | lthread_trace_evt_exit | lthread_trace_evt_yield | lthread_trace_evt_resume
  | lthread_trace_evt_begin_wait | lthread_trace_evt_end_wait

fun evt_number :: "lthread_trace_event_t \<Rightarrow> nat" where
  "evt_number lthread_trace_evt_spawn = 0"
| "evt_number lthread_trace_evt_exit = 1"
| "evt_number lthread_trace_evt_yield = 2"
| "evt_number lthread_trace_evt_resume = 3"
| "evt_number lthread_trace_evt_begin_wait = 4"
| "evt_number lthread_trace_evt_end_wait = 5"

record trace_buf =
  trace_bytes  :: "u8 list"
  trace_size   :: nat
  trace_offset :: nat

text \<open>The file is opened without truncation, so that it begins with the bytes \<open>old\<close> of an earlier run; writing one byte at the last position
  gives it its length.\<close>

definition sched_create_trace :: "u8 list \<Rightarrow> trace_buf" where
  "sched_create_trace old =
     (let size = 2 ^ 26
      in \<lparr>trace_bytes = (take size (old @ replicate size 0))[size - 1 := 0], trace_size = size, trace_offset = 0\<rparr>)"

definition lthread_trace_data :: "u8 list \<Rightarrow> trace_buf \<Rightarrow> trace_buf option" where
  "lthread_trace_data data tr =
     (if trace_offset tr + length data \<le> trace_size tr
      then map_option (\<lambda>m. tr\<lparr>trace_bytes := m, trace_offset := trace_offset tr + length data\<rparr>) (store_at (trace_offset tr) data (trace_bytes tr))
      else Some tr)"

definition trace_record :: "u64 \<Rightarrow> addr \<Rightarrow> u16 \<Rightarrow> lthread_trace_event_t \<Rightarrow> trace_buf \<Rightarrow> trace_buf option" where
  "trace_record now lt fd event tr = do {
     tr \<leftarrow> lthread_trace_data (le 8 lt) tr;
     tr \<leftarrow> lthread_trace_data (le 8 (unat now)) tr;
     tr \<leftarrow> lthread_trace_data (le 1 (evt_number event)) tr;
     tr \<leftarrow> lthread_trace_data (le 2 (unat fd)) tr;
     m \<leftarrow> store_at (trace_offset tr) (replicate 8 0) (trace_bytes tr);
     Some (tr\<lparr>trace_bytes := m\<rparr>)
   }"

definition lthread_trace_event_unsafe ::
  "u64 \<Rightarrow> addr \<Rightarrow> lthread_trace_event_t \<Rightarrow> world \<Rightarrow> (addr \<Rightarrow> trace_buf) \<Rightarrow> (addr \<Rightarrow> trace_buf) res" where
  "lthread_trace_event_unsafe now lt event w tr =
     rbind (get_lt lt w) (\<lambda>l.
     rbind (of_option (lt_sched l)) (\<lambda>s.
     rbind (of_option (trace_record now lt (fd_wait l) event (tr s))) (\<lambda>b.
     Inr (tr(s := b)))))"

definition lthread_trace_event ::
  "u64 \<Rightarrow> addr \<Rightarrow> lthread_trace_event_t \<Rightarrow> world \<Rightarrow> (addr \<Rightarrow> trace_buf) \<Rightarrow> (world \<times> (addr \<Rightarrow> trace_buf)) res" where
  "lthread_trace_event now lt event w tr =
     rbind (get_lt_sched lt w) (\<lambda>s.
     rbind (lthread_mutex_lock (Sched_mutex s) w) (\<lambda>w.
     rbind (lthread_trace_event_unsafe now lt event w tr) (\<lambda>tr.
     rbind (lthread_mutex_unlock (Sched_mutex s) w) (\<lambda>w.
     Inr (w, tr)))))"

subsection \<open>Reading\<close>

text \<open>An event of the script: time, lthread, number of the event, descriptor. \<open>f.read\<close> gives fewer bytes at the end of the file, and
  \<open>struct.unpack\<close> raises an exception for them, here \<open>None\<close>.\<close>

type_synonym trace_event_t = "nat \<times> nat \<times> nat \<times> int"

definition unpack :: "nat \<Rightarrow> u8 list \<Rightarrow> (nat \<times> u8 list) option" where
  "unpack n f = (if length f < n then None else Some (unle (take n f), drop n f))"

definition read_event :: "u8 list \<Rightarrow> (trace_event_t option \<times> u8 list) option" where
  "read_event f = do {
     (lthread, f) \<leftarrow> unpack 8 f;
     if lthread = 0 then Some (None, f)
     else do {
       (timestamp, f) \<leftarrow> unpack 8 f;
       (event, f) \<leftarrow> unpack 1 f;
       (fd, f) \<leftarrow> unpack 2 f;
       Some (Some (timestamp, lthread, event, sint (of_nat fd :: u16)), f)
     }
   }"

fun scan_events :: "nat \<Rightarrow> trace_event_t option list \<Rightarrow> (nat \<times> trace_event_t) option \<Rightarrow> (nat \<times> trace_event_t) option" where
  "scan_events i [] best = best"
| "scan_events i (None # es) best = scan_events (Suc i) es best"
| "scan_events i (Some e # es) best =
     scan_events (Suc i) es (case best of None \<Rightarrow> Some (i, e) | Some (_, b) \<Rightarrow> if fst e < fst b then Some (i, e) else best)"

definition get_next_event ::
  "trace_event_t option list \<Rightarrow> u8 list list \<Rightarrow> (trace_event_t option \<times> trace_event_t option list \<times> u8 list list) option" where
  "get_next_event events files =
     (case scan_events 0 events None of
        None \<Rightarrow> Some (None, events, files)
      | Some (i, result) \<Rightarrow> do {
          (e, f) \<leftarrow> read_event (files ! i);
          Some (Some result, events[i := e], files[i := f])
        })"

text \<open>The events the generator \<open>read_events\<close> yields; times are relative to the first one.\<close>

partial_function (option) read_events_loop ::
  "nat option \<Rightarrow> trace_event_t option list \<Rightarrow> u8 list list \<Rightarrow> (int \<times> nat \<times> nat \<times> int) list option" where
  "read_events_loop t0 events files = do {
     (result, events, files) \<leftarrow> get_next_event events files;
     (case result of
        None \<Rightarrow> Some []
      | Some (t, x) \<Rightarrow> do {
          let t0 = (case t0 of None \<Rightarrow> t | Some t0 \<Rightarrow> t0);
          rest \<leftarrow> read_events_loop (Some t0) events files;
          Some ((int t - int t0, x) # rest)
        })
   }"

fun read_first :: "u8 list list \<Rightarrow> (trace_event_t option list \<times> u8 list list) option" where
  "read_first [] = Some ([], [])"
| "read_first (f # fs) = do { (e, f) \<leftarrow> read_event f; (es, fs) \<leftarrow> read_first fs; Some (e # es, f # fs) }"

definition read_events :: "u8 list list \<Rightarrow> (int \<times> nat \<times> nat \<times> int) list option" where
  "read_events traces = do { (events, files) \<leftarrow> read_first traces; read_events_loop None events files }"

declare read_events_loop.simps [code]

subsection \<open>Records\<close>

fun enc :: "trace_event_t \<Rightarrow> u8 list" where
  "enc (t, lt, ev, fd) = le 8 lt @ le 8 t @ le 1 ev @ le 2 (unat (of_int fd :: u16))"

fun ev_ok :: "trace_event_t \<Rightarrow> bool" where
  "ev_ok (t, lt, ev, fd) \<longleftrightarrow> 0 < lt \<and> lt < 256 ^ 8 \<and> t < 256 ^ 8 \<and> ev < 256 \<and> sint (of_int fd :: u16) = fd"

lemma length_enc [simp]: "length (enc e) = 19"
  by (cases e) simp

lemma unpack_append: "length bs = n \<Longrightarrow> unpack n (bs @ f) = Some (unle bs, f)"
  by (simp add: unpack_def)

lemma unle_zeros [simp]: "unle (replicate n 0) = 0"
  by (induction n) auto

lemma read_enc:
  assumes "ev_ok e"
  shows "read_event (enc e @ f) = Some (Some e, f)"
proof -
  obtain t lt ev fd where e: "e = (t, lt, ev, fd)" by (cases e)
  have "unat (of_int fd :: u16) < 256 ^ 2" using unsigned_less [where 'a = nat, of "of_int fd :: u16"] by simp
  then have fd: "unle (le 2 (unat (of_int fd :: u16))) = unat (of_int fd :: u16)" by (rule unle_le_small)
  have "unle (le 8 lt) = lt" "unle (le 8 t) = t" "unle (le 1 ev) = ev"
    using assms unle_le_small [of _ 8] unle_le_small [of ev 1] unfolding e by (simp_all del: le.simps)
  with assms fd show ?thesis
    unfolding e by (simp add: read_event_def unpack_append del: le.simps)
qed

lemma read_end: "read_event (replicate 8 0 @ f) = Some (None, f)"
  using unpack_append [of "replicate 8 0" 8 f] by (simp add: read_event_def)

text \<open>A file with the records \<open>es\<close>, the end mark and anything after it.\<close>

definition trace_file :: "u8 list \<Rightarrow> trace_event_t list \<Rightarrow> bool" where
  "trace_file f es \<longleftrightarrow> list_all ev_ok es \<and> (\<exists>rest. f = concat (map enc es) @ replicate 8 0 @ rest)"

lemma read_trace_file:
  "trace_file f [] \<Longrightarrow> \<exists>f'. read_event f = Some (None, f')"
  "trace_file f (e # es) \<Longrightarrow> \<exists>f'. read_event f = Some (Some e, f') \<and> trace_file f' es"
proof -
  show "\<exists>f'. read_event f = Some (None, f')" if "trace_file f []"
    using that read_end unfolding trace_file_def by auto
  show "\<exists>f'. read_event f = Some (Some e, f') \<and> trace_file f' es" if "trace_file f (e # es)"
  proof -
    from that obtain rest where "ev_ok e" "list_all ev_ok es" "f = enc e @ concat (map enc es) @ replicate 8 0 @ rest"
      unfolding trace_file_def by auto
    then show ?thesis using read_enc [of e "concat (map enc es) @ replicate 8 0 @ rest"] unfolding trace_file_def by blast
  qed
qed

subsection \<open>The writer\<close>

type_synonym traced = "u64 \<times> addr \<times> u16 \<times> lthread_trace_event_t"

fun event_of :: "traced \<Rightarrow> trace_event_t" where
  "event_of (now, lt, fd, ev) = (unat now, lt, evt_number ev, sint fd)"

fun trace_all :: "traced list \<Rightarrow> trace_buf \<Rightarrow> trace_buf option" where
  "trace_all [] tr = Some tr"
| "trace_all ((now, lt, fd, ev) # es) tr = Option.bind (trace_record now lt fd ev tr) (trace_all es)"

lemma store_at_inside:
  "length p + length bs \<le> length mem \<Longrightarrow> take (length p) mem = p \<Longrightarrow> store_at (length p) bs mem = Some (p @ bs @ drop (length p + length bs) mem)"
  by (simp add: store_at_def)

text \<open>The bytes up to the offset are \<open>p\<close>, \<open>n\<close> bytes are left.\<close>

definition buf_at :: "trace_buf \<Rightarrow> u8 list \<Rightarrow> nat \<Rightarrow> bool" where
  "buf_at tr p n \<longleftrightarrow> trace_offset tr = length p \<and> trace_size tr = length (trace_bytes tr) \<and> take (length p) (trace_bytes tr) = p \<and>
     length p + n = length (trace_bytes tr)"

lemma trace_data_fits:
  assumes "buf_at tr p (length data + m)"
  shows "\<exists>tr'. lthread_trace_data data tr = Some tr' \<and> buf_at tr' (p @ data) m"
  using assms store_at_inside [of p data "trace_bytes tr"] by (auto simp: buf_at_def lthread_trace_data_def)

lemma trace_data_full:
  assumes "buf_at tr p n" "n < length data"
  shows "lthread_trace_data data tr = Some tr"
  using assms by (auto simp: buf_at_def lthread_trace_data_def)

lemma trace_record_fits:
  assumes tr: "buf_at tr p (27 + k)"
  shows "\<exists>tr' rest. trace_record now lt fd ev tr = Some tr' \<and> buf_at tr' (p @ enc (event_of (now, lt, fd, ev))) (8 + k) \<and>
    trace_bytes tr' = p @ enc (event_of (now, lt, fd, ev)) @ replicate 8 0 @ rest"
proof -
  let ?e = "enc (event_of (now, lt, fd, ev))"
  obtain t1 where t1: "lthread_trace_data (le 8 lt) tr = Some t1" "buf_at t1 (p @ le 8 lt) (19 + k)"
    using trace_data_fits [of tr p "le 8 lt" "19 + k"] tr by auto
  obtain t2 where t2: "lthread_trace_data (le 8 (unat now)) t1 = Some t2" "buf_at t2 (p @ le 8 lt @ le 8 (unat now)) (11 + k)"
    using trace_data_fits [of t1 "p @ le 8 lt" "le 8 (unat now)" "11 + k"] t1(2) by auto
  obtain t3 where t3: "lthread_trace_data (le 1 (evt_number ev)) t2 = Some t3"
      "buf_at t3 (p @ le 8 lt @ le 8 (unat now) @ le 1 (evt_number ev)) (10 + k)"
    using trace_data_fits [of t2 "p @ le 8 lt @ le 8 (unat now)" "le 1 (evt_number ev)" "10 + k"] t2(2) by auto
  obtain t4 where t4: "lthread_trace_data (le 2 (unat fd)) t3 = Some t4" "buf_at t4 (p @ ?e) (8 + k)"
    using trace_data_fits [of t3 "p @ le 8 lt @ le 8 (unat now) @ le 1 (evt_number ev)" "le 2 (unat fd)" "8 + k"]
      t3(2) by auto
  have len: "length (p @ ?e) + 8 \<le> length (trace_bytes t4)" using t4(2) by (auto simp: buf_at_def)
  then have st: "store_at (trace_offset t4) (replicate 8 0) (trace_bytes t4) =
      Some ((p @ ?e) @ replicate 8 0 @ drop (length (p @ ?e) + 8) (trace_bytes t4))" (is "_ = Some ?m")
    using store_at_inside [of "p @ ?e" "replicate 8 0" "trace_bytes t4"] t4(2) by (simp add: buf_at_def)
  have "buf_at (t4\<lparr>trace_bytes := ?m\<rparr>) (p @ ?e) (8 + k)" using t4(2) len by (auto simp: buf_at_def)
  with t1(1) t2(1) t3(1) t4(1) st show ?thesis by (auto simp: trace_record_def simp del: le.simps)
qed

lemma trace_all_fits:
  assumes "buf_at tr p n" "19 * length es + 8 \<le> n" "es \<noteq> []"
  shows "\<exists>tr' rest. trace_all es tr = Some tr' \<and> buf_at tr' (p @ concat (map (enc \<circ> event_of) es)) (n - 19 * length es) \<and> trace_bytes tr' = p @ concat (map (enc \<circ> event_of) es) @ replicate 8 0 @ rest"
  using assms
proof (induction es arbitrary: tr p n)
  case (Cons e es)
  obtain now lt fd ev where e: "e = (now, lt, fd, ev)" by (cases e)
  obtain k where n: "n = 27 + k" using Cons.prems(2) by (auto simp: le_iff_add)
  obtain tr1 rest where tr1: "trace_record now lt fd ev tr = Some tr1" "buf_at tr1 (p @ enc (event_of e)) (8 + k)"
    "trace_bytes tr1 = p @ enc (event_of e) @ replicate 8 0 @ rest"
    using trace_record_fits [of tr p k now lt fd ev] Cons.prems(1) unfolding e n by auto
  show ?case
  proof (cases "es = []")
    case True
    with tr1 e n show ?thesis by auto
  next
    case False
    with Cons.IH [OF tr1(2)] Cons.prems(2) n tr1(1) e show ?thesis by auto
  qed
qed simp

lemma ev_ok_event: "0 < lt \<Longrightarrow> lt < 256 ^ 8 \<Longrightarrow> ev_ok (event_of (now, lt, fd, ev))"
  using unsigned_less [where 'a = nat, of now] by (cases ev) auto

lemma sched_create_trace_at: "buf_at (sched_create_trace old) [] (2 ^ 26)"
  by (simp add: buf_at_def sched_create_trace_def Let_def del: power_numeral)

subsection \<open>The reader\<close>

lemma scan_None: "scan_events i es best = None \<longleftrightarrow> best = None \<and> (\<forall>e \<in> set es. e = None)"
  by (induction i es best rule: scan_events.induct) (auto split: option.splits)

lemma scan_Some:
  "scan_events i es best = Some (j, e) \<Longrightarrow>
   (best = Some (j, e) \<or> i \<le> j \<and> j < i + length es \<and> es ! (j - i) = Some e) \<and> (\<forall>x. Some x \<in> set es \<longrightarrow> fst e \<le> fst x) \<and>
   (\<forall>k b. best = Some (k, b) \<longrightarrow> fst e \<le> fst b)"
proof (induction i es best rule: scan_events.induct)
  case (2 i es best)
  then show ?case by (auto simp: nth_Cons' Suc_diff_Suc)
next
  case (3 i x es best)
  let ?b = "case best of None \<Rightarrow> Some (i, x) | Some (_, b) \<Rightarrow> if fst x < fst b then Some (i, x) else best"
  have IH: "?b = Some (j, e) \<or> Suc i \<le> j \<and> j < Suc i + length es \<and> es ! (j - Suc i) = Some e" "\<forall>x. Some x \<in> set es \<longrightarrow> fst e \<le> fst x"
    "\<forall>k b. ?b = Some (k, b) \<longrightarrow> fst e \<le> fst b"
    using 3 by auto
  have "fst e \<le> fst x \<and> (\<forall>k b. best = Some (k, b) \<longrightarrow> fst e \<le> fst b)"
  proof (cases best)
    case None
    with IH(3) [rule_format, of i x] show ?thesis by simp
  next
    case (Some kb)
    obtain k b where "kb = (k, b)" by (cases kb)
    with Some IH(3) [rule_format, of i x] IH(3) [rule_format, of k b] show ?thesis by (cases "fst x < fst b") (auto simp del: split_paired_All)
  qed
  moreover have "best = Some (j, e) \<or> i \<le> j \<and> j < i + length (Some x # es) \<and> (Some x # es) ! (j - i) = Some e"
    using IH(1) by (auto simp: nth_Cons' split: option.splits if_splits)
  ultimately show ?case using IH(2) by auto
qed simp

text \<open>The script has read the first of the remaining events of every file.\<close>

definition at_head :: "trace_event_t option \<Rightarrow> u8 list \<Rightarrow> trace_event_t list \<Rightarrow> bool" where
  "at_head e f es \<longleftrightarrow> (case es of [] \<Rightarrow> e = None | x # xs \<Rightarrow> e = Some x \<and> trace_file f xs)"

lemma at_head_simps [simp]: "at_head e f [] \<longleftrightarrow> e = None" "at_head e f (x # xs) \<longleftrightarrow> e = Some x \<and> trace_file f xs"
  by (simp_all add: at_head_def)

lemma at_head_Some: "at_head (Some e) f es \<Longrightarrow> \<exists>xs. es = e # xs \<and> trace_file f xs"
  by (cases es) auto

lemma read_head: "trace_file f es \<Longrightarrow> \<exists>e f'. read_event f = Some (e, f') \<and> at_head e f' es"
  using read_trace_file [of f] by (cases es) (metis at_head_simps)+

definition reading :: "trace_event_t option list \<Rightarrow> u8 list list \<Rightarrow> trace_event_t list list \<Rightarrow> bool" where
  "reading events files rems \<longleftrightarrow> length events = length rems \<and> length files = length rems \<and>
     (\<forall>i < length rems. at_head (events ! i) (files ! i) (rems ! i))"

lemma reading_take:
  assumes r: "reading events files rems" and i: "i < length rems" "events ! i = Some e"
  shows "\<exists>es e' f. rems ! i = e # es \<and> read_event (files ! i) = Some (e', f) \<and> reading (events[i := e']) (files[i := f]) (rems[i := es])"
proof -
  have "at_head (Some e) (files ! i) (rems ! i)" using r i by (metis reading_def)
  then obtain es where es: "rems ! i = e # es" "trace_file (files ! i) es" using at_head_Some by blast
  obtain e' f where e': "read_event (files ! i) = Some (e', f)" "at_head e' f es" using read_head [OF es(2)] by blast
  have "reading (events[i := e']) (files[i := f]) (rems[i := es])"
    using r i(1) e'(2) unfolding reading_def by (simp add: nth_list_update)
  with es(1) e'(1) show ?thesis by blast
qed

lemma mset_concat_take:
  "i < length xss \<Longrightarrow> xss ! i = x # xs \<Longrightarrow> mset (concat xss) = add_mset x (mset (concat (xss[i := xs])))"
  by (subst id_take_nth_drop [of i xss], simp) (simp add: upd_conv_take_nth_drop)

definition shift :: "nat \<Rightarrow> trace_event_t \<Rightarrow> int \<times> nat \<times> nat \<times> int" where
  "shift t0 e = (int (fst e) - int t0, snd e)"

lemma read_events_loop_ok:
  "reading events files rems \<Longrightarrow> \<forall>es \<in> set rems. sorted (map fst es) \<Longrightarrow>
   \<exists>xs. read_events_loop t0 events files = Some (map (shift (case t0 of None \<Rightarrow> fst (hd xs) | Some t \<Rightarrow> t)) xs) \<and>
     mset xs = mset (concat rems) \<and> sorted (map fst xs)"
proof (induction "length (concat rems)" arbitrary: events files rems t0)
  case 0
  then have "rems ! i = []" if "i < length rems" for i using that by (auto simp: set_conv_nth)
  then have "\<forall>e \<in> set events. e = None" using 0(2) by (fastforce simp: reading_def set_conv_nth)
  then have "scan_events 0 events None = None" by (simp add: scan_None)
  then have "read_events_loop t0 events files = Some []" by (subst read_events_loop.simps) (simp add: get_next_event_def)
  with 0 show ?case by auto
next
  case (Suc n)
  note r = Suc.prems(1)
  have "\<exists>e. Some e \<in> set events"
  proof -
    have "concat rems \<noteq> []" using Suc(2) by (metis list.size(3) nat.distinct(1))
    then obtain es where "es \<in> set rems" "es \<noteq> []" unfolding concat_eq_Nil_conv by blast
    then obtain i where i: "i < length rems" "rems ! i \<noteq> []" by (auto simp: in_set_conv_nth)
    then obtain e es where "rems ! i = e # es" by (meson neq_Nil_conv)
    with i r have "events ! i = Some e" "i < length events" by (auto simp: reading_def dest!: spec [of _ i])
    then show ?thesis by (metis nth_mem)
  qed
  then have "scan_events 0 events None \<noteq> None" unfolding scan_None by force
  then obtain i e where scan: "scan_events 0 events None = Some (i, e)" by (cases "scan_events 0 events None") auto
  from scan_Some [OF scan] have i: "i < length events" "events ! i = Some e" and least: "\<forall>x. Some x \<in> set events \<longrightarrow> fst e \<le> fst x" by auto
  have len: "length rems = length events" using r by (simp add: reading_def)
  obtain es e' f where t: "rems ! i = e # es" "read_event (files ! i) = Some (e', f)" "reading (events[i := e']) (files[i := f]) (rems[i := es])"
    using reading_take [OF r _ i(2)] i(1) len by auto
  have ms: "mset (concat rems) = add_mset e (mset (concat (rems[i := es])))" by (rule mset_concat_take) (use i len t(1) in auto)
  then have n: "n = length (concat (rems[i := es]))" using Suc(2) by (metis size_add_mset size_mset nat.inject)
  have "e # es \<in> set rems" using t(1) i len by (metis nth_mem)
  then have "\<forall>xs \<in> set (rems[i := es]). sorted (map fst xs)" using Suc.prems(2) by (auto dest!: subsetD [OF set_update_subset_insert])
  then obtain xs where xs: "read_events_loop (Some (case t0 of None \<Rightarrow> fst e | Some t \<Rightarrow> t)) (events[i := e']) (files[i := f]) =
      Some (map (shift (case t0 of None \<Rightarrow> fst e | Some t \<Rightarrow> t)) xs)"
      "mset xs = mset (concat (rems[i := es]))" "sorted (map fst xs)"
    using Suc.hyps(1) [OF n t(3), of "Some (case t0 of None \<Rightarrow> fst e | Some t \<Rightarrow> t)"] by auto
  have "fst e \<le> fst x" if "x \<in> set xs" for x
  proof -
    have "x \<in> set (concat rems)" using that xs(2) ms by (metis mset_eq_setD set_mset_add_mset_insert set_mset_mset insertCI)
    then obtain zs where "zs \<in> set rems" "x \<in> set zs" by auto
    then obtain k where k: "k < length rems" "x \<in> set (rems ! k)" by (metis in_set_conv_nth)
    then obtain y ys where y: "rems ! k = y # ys" by (cases "rems ! k") auto
    with k(1) r have "events ! k = Some y" "k < length events" by (auto simp: reading_def dest!: spec [of _ k])
    then have "Some y \<in> set events" by (metis nth_mem)
    then have "fst e \<le> fst y" using least by blast
    also have "\<dots> \<le> fst x" using Suc.prems(2) k y by (metis (no_types) nth_mem sorted_simps(2) list.simps(9) set_ConsD set_map imageI order_refl)
    finally show ?thesis .
  qed
  moreover have "read_events_loop t0 events files = Some (map (shift (case t0 of None \<Rightarrow> fst e | Some t \<Rightarrow> t)) (e # xs))"
    using scan t(2) xs(1) by (cases e; cases t0; subst read_events_loop.simps) (simp_all add: get_next_event_def shift_def Let_def)
  ultimately show ?case using xs(2,3) ms by (intro exI [of _ "e # xs"]) (cases t0; auto)
qed

lemma read_first_ok: "list_all2 trace_file traces ess \<Longrightarrow> \<exists>events files. read_first traces = Some (events, files) \<and> reading events files ess"
proof (induction rule: list_all2_induct)
  case (Cons f fs es ess)
  then obtain events files where IH: "read_first fs = Some (events, files)" "reading events files ess" by blast
  obtain e f' where e: "read_event f = Some (e, f')" "at_head e f' es" using read_head [OF Cons(1)] by blast
  then have "reading (e # events) (f' # files) (es # ess)" using IH(2) by (auto simp: reading_def less_Suc_eq_0_disj)
  with IH e show ?case by auto
qed (simp add: reading_def)

lemma trace_record_near_end:
  assumes "buf_at tr p 9"
  shows "trace_record now lt fd ev tr = None"
proof -
  obtain t1 where t1: "lthread_trace_data (le 8 lt) tr = Some t1" "buf_at t1 (p @ le 8 lt) 1"
    using trace_data_fits [of tr p "le 8 lt" 1] assms by auto
  have t2: "lthread_trace_data (le 8 (unat now)) t1 = Some t1" by (rule trace_data_full [OF t1(2)]) simp
  obtain t3 where t3: "lthread_trace_data (le 1 (evt_number ev)) t1 = Some t3" "buf_at t3 (p @ le 8 lt @ le 1 (evt_number ev)) 0"
    using trace_data_fits [of t1 "p @ le 8 lt" "le 1 (evt_number ev)" 0] t1(2) by (auto simp del: le.simps)
  have t4: "lthread_trace_data (le 2 (unat fd)) t3 = Some t3" by (rule trace_data_full [OF t3(2)]) simp
  have "store_at (trace_offset t3) (replicate 8 0) (trace_bytes t3) = None" using t3(2) by (auto simp: store_at_def buf_at_def)
  with t1(1) t2 t3(1) t4 show ?thesis by (simp add: trace_record_def del: le.simps)
qed

lemma trace_event_ok:
  assumes "lts w lt = Some l" "lt_sched l = Some s" "held w = {}"
  shows "trace_record now lt (fd_wait l) ev (tr s) = Some b \<Longrightarrow> lthread_trace_event now lt ev w tr = Inr (w, tr(s := b))"
    and "trace_record now lt (fd_wait l) ev (tr s) = None \<Longrightarrow> lthread_trace_event now lt ev w tr = Inl Undefined"
proof -
  have "w\<lparr>held := {}\<rparr> = w" using assms(3) by simp
  then show "trace_record now lt (fd_wait l) ev (tr s) = Some b \<Longrightarrow> lthread_trace_event now lt ev w tr = Inr (w, tr(s := b))"
    using assms by (simp add: lthread_trace_event_def lthread_trace_event_unsafe_def get_lt_def get_lt_sched_def lthread_mutex_lock_def lthread_mutex_unlock_def)
  show "trace_record now lt (fd_wait l) ev (tr s) = None \<Longrightarrow> lthread_trace_event now lt ev w tr = Inl Undefined"
    using assms by (simp add: lthread_trace_event_def lthread_trace_event_unsafe_def get_lt_def get_lt_sched_def lthread_mutex_lock_def)
qed

fun traced_ok :: "traced \<Rightarrow> bool" where
  "traced_ok (now, lt, fd, ev) \<longleftrightarrow> 0 < lt \<and> lt < 256 ^ 8"

lemma trace_written:
  assumes "es \<noteq> []" "19 * length es + 8 \<le> 2 ^ 26" "\<forall>e \<in> set es. traced_ok e"
  shows "\<exists>tr. trace_all es (sched_create_trace old) = Some tr \<and> trace_file (trace_bytes tr) (map event_of es)"
proof -
  have ok: "list_all ev_ok (map event_of es)" using assms(3) ev_ok_event by (fastforce simp: list_all_iff)
  show ?thesis
    using trace_all_fits [OF sched_create_trace_at assms(2,1), of old] ok by (fastforce simp: trace_file_def)
qed

lemma traces_written:
  assumes "\<forall>(old, es) \<in> set ts. es \<noteq> [] \<and> 19 * length es + 8 \<le> 2 ^ 26 \<and> (\<forall>e \<in> set es. traced_ok e)"
  shows "\<exists>bufs. map (\<lambda>(old, es). trace_all es (sched_create_trace old)) ts = map Some bufs \<and>
    list_all2 trace_file (map trace_bytes bufs) (map (map event_of \<circ> snd) ts)"
  using assms
proof (induction ts)
  case (Cons t ts)
  obtain old es where t: "t = (old, es)" by (cases t)
  obtain bufs where b: "map (\<lambda>(old, es). trace_all es (sched_create_trace old)) ts = map Some bufs"
    "list_all2 trace_file (map trace_bytes bufs) (map (map event_of \<circ> snd) ts)"
    using Cons.IH Cons.prems by (simp only: list.set ball_simps) blast
  obtain tr where "trace_all es (sched_create_trace old) = Some tr" "trace_file (trace_bytes tr) (map event_of es)"
    using trace_written [of es old] Cons.prems t by auto
  with b t show ?case by (intro exI [of _ "tr # bufs"]) (simp add: comp_def)
qed simp

lemma event_times: "sorted (map fst es) \<Longrightarrow> sorted (map fst (map event_of es))"
  by (induction es) (auto simp: word_le_nat_alt)

subsection \<open>Properties\<close>

text \<open>(C19) What the schedulers trace is what the script shows. When every scheduler writes its events in the order of time, at least one and not
  more than its file has room for, then the script reads all the files to their ends without an exception and yields exactly the events of all
  schedulers, in the order of time, with times relative to the first one, also when the files are left over from an earlier run.\<close>

theorem trace_roundtrip:
  assumes "\<forall>(old, es) \<in> set ts. es \<noteq> [] \<and> 19 * length es + 8 \<le> 2 ^ 26 \<and> (\<forall>e \<in> set es. traced_ok e)"
    and "\<forall>(old, es) \<in> set ts. sorted (map fst es)"
  shows "\<exists>bufs xs. map (\<lambda>(old, es). trace_all es (sched_create_trace old)) ts = map Some bufs \<and>
    read_events (map trace_bytes bufs) = Some (map (shift (fst (hd xs))) xs) \<and>
    mset xs = mset (concat (map (map event_of \<circ> snd) ts)) \<and> sorted (map fst xs)"
proof -
  obtain bufs where b: "map (\<lambda>(old, es). trace_all es (sched_create_trace old)) ts = map Some bufs"
    "list_all2 trace_file (map trace_bytes bufs) (map (map event_of \<circ> snd) ts)"
    using traces_written [OF assms(1)] by blast
  obtain events files where r: "read_first (map trace_bytes bufs) = Some (events, files)" "reading events files (map (map event_of \<circ> snd) ts)"
    using read_first_ok [OF b(2)] by blast
  have "\<forall>es \<in> set (map (map event_of \<circ> snd) ts). sorted (map fst es)" using assms(2) event_times by fastforce
  from read_events_loop_ok [OF r(2) this, of None] r(1) b(1) show ?thesis by (auto simp: read_events_def)
qed

theorem trace_roundtrip_witness:
  "\<exists>bufs xs. map (\<lambda>(old, es). trace_all es (sched_create_trace old))
      [([7], [(5, 16, 3, lthread_trace_evt_spawn), (9, 16, 3, lthread_trace_evt_resume)]), ([], [(6, 32, 0, lthread_trace_evt_spawn)])] = map Some bufs \<and>
    read_events (map trace_bytes bufs) = Some (map (shift (fst (hd xs))) xs) \<and> mset xs = {#(5, 16, 0, 3), (9, 16, 3, 3), (6, 32, 0, 0)#} \<and>
    sorted (map fst xs)"
  using trace_roundtrip [of "[([7], [(5, 16, 3, lthread_trace_evt_spawn), (9, 16, 3, lthread_trace_evt_resume)]), ([], [(6, 32, 0, lthread_trace_evt_spawn)])]"]
  by (simp add: add_mset_commute)

text \<open>(C40) The trace buffer overruns. After 3532045 events of one scheduler, 9 bytes are left; the next event finds no room for its time and its
  descriptor, but the end mark of 8 bytes is written without a check, behind the mapped file.\<close>

theorem trace_overruns:
  assumes "length es = 3532045" "trace_all es (sched_create_trace old) = Some b" "tr s = b"
    and "lts w lt = Some l" "lt_sched l = Some s" "held w = {}"
  shows "lthread_trace_event now lt ev w tr = Inl Undefined"
proof -
  have "es \<noteq> []" using assms(1) by auto
  then obtain p where "buf_at b p 9"
    using trace_all_fits [OF sched_create_trace_at, of es old] assms(1,2) by auto
  from trace_record_near_end [OF this] show ?thesis using trace_event_ok(2) [OF assms(4-6)] assms(3) by simp
qed

theorem trace_overruns_witness:
  "\<exists>b. trace_all (replicate 3532045 (5, 16, 3, lthread_trace_evt_yield)) (sched_create_trace []) = Some b \<and>
     lthread_trace_event 6 5 lthread_trace_evt_resume running5 (\<lambda>_. b) = Inl Undefined"
proof -
  let ?es = "replicate 3532045 (5, 16, 3, lthread_trace_evt_yield) :: traced list"
  obtain b where b: "trace_all ?es (sched_create_trace []) = Some b"
    using trace_all_fits [OF sched_create_trace_at, of ?es "[]"] by auto
  from trace_overruns [OF _ b, of "\<lambda>_. b" 10 running5 5 lt5] b show ?thesis by (simp add: lt5_def)
qed

end
