(* ===== verification/Poller.thy ===== *)
theory Poller
  imports Cond
begin

section \<open>The poller of \<^verbatim>\<open>lthread_poller.c\<close>\<close>

text \<open>
  \<open>src/src/lthread_poller.c\<close> on the kqueue backend \<open>src/src/lthread_kqueue.c\<close>, and \<open>_lthread_wait_fd\<close> of
  \<open>lthread.c\<close>. The lthreads that wait for a descriptor are in one red-black tree, ordered by \<open>fd_key\<close>.
  The system call \<open>kevent\<close> is a parameter: the answer to a change is the value of a function, and
  the answers of the waiting call are a list. \<open>_lthread_wait_fd\<close> is split at its yield.
\<close>

datatype lthread_event = LT_EV_READ | LT_EV_WRITE

definition event_number :: "lthread_event \<Rightarrow> u32" where
  "event_number e = (case e of LT_EV_READ \<Rightarrow> 0 | LT_EV_WRITE \<Rightarrow> 1)"

text \<open>The flag of the state word that stands for an event, by the two switches of the code.\<close>

definition wait_flag :: "lthread_event \<Rightarrow> nat" where
  "wait_flag e = (case e of LT_EV_READ \<Rightarrow> LT_ST_WAIT_READ | LT_EV_WRITE \<Rightarrow> LT_ST_WAIT_WRITE)"

subsection \<open>The kqueue backend\<close>

datatype ev_filter = EVFILT_READ | EVFILT_WRITE | EVFILT_USER

text \<open>The bits of \<open>flags\<close> and \<open>fflags\<close> the code uses; \<open>NOTE_1\<close> is the literal \<open>0x1\<close>.\<close>

datatype kq_bit =
  EV_ADD | EV_ENABLE | EV_DISABLE | EV_ONESHOT | EV_CLEAR | EV_EOF | NOTE_FFCOPY | NOTE_TRIGGER | NOTE_1

record kevent =
  ev_ident  :: int
  ev_filt   :: ev_filter
  ev_flags  :: "kq_bit set"
  ev_fflags :: "kq_bit set"

definition EV_SET :: "int \<Rightarrow> ev_filter \<Rightarrow> kq_bit set \<Rightarrow> kq_bit set \<Rightarrow> kevent" where
  "EV_SET i f fl ff = \<lparr>ev_ident = i, ev_filt = f, ev_flags = fl, ev_fflags = ff\<rparr>"

definition lthread_poller_ev_get_fd :: "kevent \<Rightarrow> int" where
  "lthread_poller_ev_get_fd ev = ev_ident ev"

definition lthread_poller_ev_get_event :: "kevent \<Rightarrow> ev_filter" where
  "lthread_poller_ev_get_event ev = ev_filt ev"

definition lthread_poller_ev_is_eof :: "kevent \<Rightarrow> bool" where
  "lthread_poller_ev_is_eof ev \<longleftrightarrow> EV_EOF \<in> ev_flags ev"

definition lthread_poller_ev_is_write :: "kevent \<Rightarrow> bool" where
  "lthread_poller_ev_is_write ev \<longleftrightarrow> ev_filt ev = EVFILT_WRITE"

definition lthread_poller_ev_is_read :: "kevent \<Rightarrow> bool" where
  "lthread_poller_ev_is_read ev \<longleftrightarrow> ev_filt ev = EVFILT_READ"

definition io_flags :: "kq_bit set" where
  "io_flags = {EV_ADD, EV_ENABLE, EV_ONESHOT}"

text \<open>A change is handed to \<open>kevent\<close>, whose answer is \<open>kev change\<close>.\<close>

definition submit :: "(kevent \<Rightarrow> int) \<Rightarrow> kevent \<Rightarrow> unit res" where
  "submit kev change = assert_that ''kevent != -1'' (kev change \<noteq> - 1)"

definition lthread_poller_ev_register_rd :: "(kevent \<Rightarrow> int) \<Rightarrow> int \<Rightarrow> unit res" where
  "lthread_poller_ev_register_rd kev fd = submit kev (EV_SET fd EVFILT_READ io_flags {})"

definition lthread_poller_ev_register_wr :: "(kevent \<Rightarrow> int) \<Rightarrow> int \<Rightarrow> unit res" where
  "lthread_poller_ev_register_wr kev fd = submit kev (EV_SET fd EVFILT_WRITE io_flags {})"

definition lthread_poller_ev_register_trigger :: "(kevent \<Rightarrow> int) \<Rightarrow> world \<Rightarrow> world res" where
  "lthread_poller_ev_register_trigger kev w =
     rbind (submit kev (EV_SET (- 1) EVFILT_USER {EV_ADD} {NOTE_FFCOPY})) (\<lambda>_.
     Inr (w\<lparr>poller := (poller w)\<lparr>poller_eventfd := - 1\<rparr>\<rparr>))"

definition lthread_poller_ev_trigger :: "(kevent \<Rightarrow> int) \<Rightarrow> unit res" where
  "lthread_poller_ev_trigger kev = submit kev (EV_SET (- 1) EVFILT_USER {EV_ENABLE} {NOTE_FFCOPY, NOTE_TRIGGER, NOTE_1})"

definition lthread_poller_ev_clear_trigger :: "(kevent \<Rightarrow> int) \<Rightarrow> unit res" where
  "lthread_poller_ev_clear_trigger kev = submit kev (EV_SET (- 1) EVFILT_USER {EV_DISABLE} {EV_CLEAR})"

subsection \<open>The order of the tree\<close>

definition fd_key :: "lthread \<Rightarrow> u32" where
  "fd_key lt =
     (let result = ucast (fd_wait lt)
      in if has_flag (lt_state lt) LT_ST_WAIT_READ
         then result OR push_bit 16 (event_number LT_EV_READ)
         else result OR push_bit 16 (event_number LT_EV_WRITE))"

definition lthread_wait_cmp :: "lthread \<Rightarrow> lthread \<Rightarrow> int" where
  "lthread_wait_cmp l1 l2 =
     (let key1 = fd_key l1; key2 = fd_key l2
      in if key1 < key2 then - 1 else if key1 = key2 then 0 else 1)"

definition wait_cmp_at :: "world \<Rightarrow> lthread \<Rightarrow> addr \<Rightarrow> int" where
  "wait_cmp_at w l a = lthread_wait_cmp l (node_at w a)"

subsection \<open>Operations\<close>

text \<open>\<open>lthread_poller_init\<close>: \<open>pfd\<close> is the answer of \<open>_lthread_poller_create\<close>.\<close>

definition lthread_poller_init :: "int \<Rightarrow> world \<Rightarrow> int \<times> world" where
  "lthread_poller_init pfd w =
     (let t = RB_INIT (waiting w);
          w = w\<lparr>poller := \<lparr>poller_fd = pfd, poller_eventfd = 0, waiting_root = rbh_root t, num_pending_events = 0\<rparr>,
                held := held w - {Poller_mutex}\<rparr>
      in (if pfd = - 1 then - 1 else 0, w))"

definition upd_pending :: "(u64 \<Rightarrow> u64) \<Rightarrow> world \<Rightarrow> world" where
  "upd_pending f w = w\<lparr>poller := (poller w)\<lparr>num_pending_events := f (num_pending_events (poller w))\<rparr>\<rparr>"

text \<open>The descriptors \<open>lthread_poller_close\<close> closes.\<close>

definition lthread_poller_close :: "world \<Rightarrow> int list" where
  "lthread_poller_close w = [poller_fd (poller w), poller_eventfd (poller w)]"

definition lthread_poller_add_waiting_lthread :: "addr \<Rightarrow> int \<Rightarrow> lthread_event \<Rightarrow> world \<Rightarrow> world res" where
  "lthread_poller_add_waiting_lthread lt fd e w =
     rbind (lthread_mutex_lock Poller_mutex w) (\<lambda>w.
     rbind (get_lt lt w) (\<lambda>l.
     rbind (assert_that ''no wait flag''
              (\<not> has_flag (lt_state l) LT_ST_WAIT_READ \<and> \<not> has_flag (lt_state l) LT_ST_WAIT_WRITE)) (\<lambda>_.
     rbind (upd_lt lt (\<lambda>l. l\<lparr>lt_state := set_flag (wait_flag e) (lt_state l), fd_wait := word_of_int fd\<rparr>) w) (\<lambda>w.
     rbind (get_lt lt w) (\<lambda>l.
     rbind (of_option (RB_INSERT (wait_cmp_at w l) lt (waiting w))) (\<lambda>(lt_tmp, t).
     rbind (assert_that ''lt_tmp == NULL'' (lt_tmp = NULL)) (\<lambda>_.
     lthread_mutex_unlock Poller_mutex (upd_pending (\<lambda>n. n + 1) (put_waiting t w)))))))))"

definition lthread_poller_register_event :: "(kevent \<Rightarrow> int) \<Rightarrow> int \<Rightarrow> lthread_event \<Rightarrow> unit res" where
  "lthread_poller_register_event kev fd e =
     (case e of
        LT_EV_READ \<Rightarrow> lthread_poller_ev_register_rd kev fd
      | LT_EV_WRITE \<Rightarrow> lthread_poller_ev_register_wr kev fd)"

definition lthread_poller_schedule_event ::
  "(kevent \<Rightarrow> int) \<Rightarrow> addr \<Rightarrow> int \<Rightarrow> lthread_event \<Rightarrow> world \<Rightarrow> world res" where
  "lthread_poller_schedule_event kev lt fd e w =
     rbind (lthread_poller_add_waiting_lthread lt fd e w) (\<lambda>w.
     rbind (lthread_poller_register_event kev fd e) (\<lambda>_.
     Inr w))"

text \<open>The local structure \<open>find_lt\<close>: only the two fields that are set are read by the comparison.\<close>

definition find_lt :: "int \<Rightarrow> lthread_event \<Rightarrow> lthread" where
  "find_lt fd e = lthread_zero\<lparr>fd_wait := word_of_int fd, lt_state := BIT (wait_flag e)\<rparr>"

definition lthread_poller_desched_event :: "int \<Rightarrow> lthread_event \<Rightarrow> world \<Rightarrow> (ptr \<times> world) res" where
  "lthread_poller_desched_event fd ev w =
     rbind (lthread_mutex_lock Poller_mutex w) (\<lambda>w.
     rbind (of_option (RB_FIND (wait_cmp_at w (find_lt fd ev)) (waiting w))) (\<lambda>lt.
     rbind (case lt of
              Some lt \<Rightarrow>
                rbind (of_option (RB_REMOVE lt (waiting w))) (\<lambda>(_, t).
                upd_lt lt (\<lambda>l. l\<lparr>lt_state := clear_flag (wait_flag ev) (lt_state l), fd_wait := - 1\<rparr>) (put_waiting t w))
            | None \<Rightarrow> Inr w) (\<lambda>w.
     rbind (lthread_mutex_unlock Poller_mutex w) (\<lambda>w.
     Inr (lt, w)))))"

definition lthread_poller_handle_event :: "int \<Rightarrow> lthread_event \<Rightarrow> bool \<Rightarrow> world \<Rightarrow> (ptr \<times> world) res" where
  "lthread_poller_handle_event fd ev is_eof w =
     rbind (lthread_poller_desched_event fd ev w) (\<lambda>(lt, w).
     rbind (case lt of
              Some lt \<Rightarrow>
                rbind (if is_eof then upd_lt lt (lt_state_update (set_flag LT_ST_FDEOF)) w else Inr w) (\<lambda>w.
                rbind (lthread_desched_event lt w) (\<lambda>w.
                rbind (lthread_mutex_lock Poller_mutex w) (\<lambda>w.
                lthread_mutex_unlock Poller_mutex (upd_pending (\<lambda>n. n - 1) w))))
            | None \<Rightarrow> Inr w) (\<lambda>w.
     Inr (lt, w)))"

text \<open>The answers of \<open>_lthread_poller_poll\<close>: the filled part of \<open>eventlist\<close>, or an error.\<close>

datatype poll_answer = Events "kevent list" | Interrupted | Failed

fun handle_events :: "kevent list \<Rightarrow> world \<Rightarrow> world res" where
  "handle_events [] w = Inr w"
| "handle_events (ev # evs) w =
     (let fd = lthread_poller_ev_get_fd ev; is_eof = lthread_poller_ev_is_eof ev
      in rbind (lthread_poller_handle_event fd LT_EV_READ is_eof w) (\<lambda>(lt_read, w).
         rbind (lthread_poller_handle_event fd LT_EV_WRITE is_eof w) (\<lambda>(lt_write, w).
         rbind (assert_that ''lt_write != NULL || lt_read != NULL'' (lt_write \<noteq> NULL \<or> lt_read \<noteq> NULL)) (\<lambda>_.
         handle_events evs w))))"

text \<open>\<open>lthread_poller_poll\<close> on the answers to come; without one the thread stays in the system call. The
  answers that are left are part of the result.\<close>

fun lthread_poller_poll :: "poll_answer list \<Rightarrow> world \<Rightarrow> (bool \<times> poll_answer list \<times> world) res" where
  "lthread_poller_poll [] w = Inl (Would_block ''kevent'')"
| "lthread_poller_poll (Interrupted # as) w = lthread_poller_poll as w"
| "lthread_poller_poll (Events evs # as) w = rbind (handle_events evs w) (\<lambda>w. Inr (True, as, w))"
| "lthread_poller_poll (Failed # as) w = Inr (False, as, w)"

lemma poll_consumes: "lthread_poller_poll as w = Inr (goon, as', w') \<Longrightarrow> length as' < length as"
  by (induction as w rule: lthread_poller_poll.induct) (auto simp: rbind_eq_Inr)

function lthread_poller_threadfun :: "poll_answer list \<Rightarrow> world \<Rightarrow> world res" where
  "lthread_poller_threadfun as w =
     (case lthread_poller_poll as w of
        Inl e \<Rightarrow> Inl e
      | Inr (goon, as', w') \<Rightarrow> if goon then lthread_poller_threadfun as' w' else Inr w')"
  by pat_completeness auto

termination
  by (relation "measure (\<lambda>(as, _). length as)") (auto dest: poll_consumes)

text \<open>\<open>_lthread_wait_fd\<close> up to the yield, and what it returns when the lthread is resumed.\<close>

definition lthread_wait_fd :: "(kevent \<Rightarrow> int) \<Rightarrow> addr \<Rightarrow> int \<Rightarrow> lthread_event \<Rightarrow> world \<Rightarrow> world res" where
  "lthread_wait_fd kev me fd e w =
     rbind (of_option (current_lthread (scheds w me))) (\<lambda>lt.
     rbind (lthread_poller_schedule_event kev lt fd e w) (\<lambda>w.
     i_lthread_yield me w))"

definition lthread_wait_fd_resumed :: "addr \<Rightarrow> world \<Rightarrow> (int \<times> world) res" where
  "lthread_wait_fd_resumed lt w =
     rbind (get_lt lt w) (\<lambda>l.
     if has_flag (lt_state l) LT_ST_FDEOF
     then rbind (upd_lt lt (lt_state_update (clear_flag LT_ST_FDEOF)) w) (\<lambda>w. Inr (- 1, w))
     else Inr (0, w))"

subsection \<open>The key\<close>

text \<open>What an lthread waits for.\<close>

definition waits_for :: "lthread \<Rightarrow> u16 \<times> lthread_event" where
  "waits_for l = (fd_wait l, if has_flag (lt_state l) LT_ST_WAIT_READ then LT_EV_READ else LT_EV_WRITE)"

lemma bit_fd_key:
  "bit (fd_key l) n \<longleftrightarrow> (n < 16 \<and> bit (fd_wait l) n) \<or> (n = 16 \<and> snd (waits_for l) = LT_EV_WRITE)"
proof -
  have "(65536 :: u32) = push_bit 16 1" by simp
  then have "bit (65536 :: u32) n \<longleftrightarrow> n = 16" by (simp only: bit_push_bit_iff bit_1_iff) auto
  then show ?thesis
    by (auto simp: fd_key_def waits_for_def event_number_def Let_def bit_simps dest: bit_imp_le_length)
qed

lemma fd_key_eq_iff: "fd_key l1 = fd_key l2 \<longleftrightarrow> waits_for l1 = waits_for l2"
proof
  assume eq: "fd_key l1 = fd_key l2"
  have "bit (fd_wait l1) n \<longleftrightarrow> bit (fd_wait l2) n" if "n < 16" for n
    using that bit_fd_key [of l1 n] bit_fd_key [of l2 n] eq by auto
  then have "fd_wait l1 = fd_wait l2" by (intro bit_word_eqI) auto
  moreover have "snd (waits_for l1) = LT_EV_WRITE \<longleftrightarrow> snd (waits_for l2) = LT_EV_WRITE"
    using bit_fd_key [of l1 16] bit_fd_key [of l2 16] eq by auto
  ultimately show "waits_for l1 = waits_for l2" by (auto simp: waits_for_def split: if_splits)
next
  assume "waits_for l1 = waits_for l2"
  then show "fd_key l1 = fd_key l2" by (intro bit_word_eqI) (auto simp: bit_fd_key waits_for_def)
qed

definition wait_key :: "world \<Rightarrow> addr \<Rightarrow> u32" where
  "wait_key w a = fd_key (node_at w a)"

lemma wait_cmp_at_key: "wait_cmp_at w l = cmp_by (wait_key w) (fd_key l)"
  by (auto simp: wait_cmp_at_def lthread_wait_cmp_def cmp_by_def wait_key_def fun_eq_iff Let_def)

lemma wait_flag_lt [simp]: "wait_flag e < 32" by (cases e) (simp_all add: wait_flag_def st_defs)

lemma has_BIT [simp]: "x < 32 \<Longrightarrow> y < 32 \<Longrightarrow> has_flag (BIT x) y \<longleftrightarrow> y = x"
  by (auto simp: has_flag_bit bit_BIT)

lemma waits_for_find_lt [simp]: "waits_for (find_lt fd e) = (word_of_int fd, e)"
  by (cases e) (auto simp: waits_for_def find_lt_def wait_flag_def st_defs)

subsection \<open>The table of the waiting lthreads\<close>

definition idle :: "lthread \<Rightarrow> bool" where
  "idle l \<longleftrightarrow> \<not> has_flag (lt_state l) LT_ST_WAIT_READ \<and> \<not> has_flag (lt_state l) LT_ST_WAIT_WRITE"

definition waits :: "lthread \<Rightarrow> bool" where
  "waits l \<longleftrightarrow> has_flag (lt_state l) LT_ST_WAIT_READ \<noteq> has_flag (lt_state l) LT_ST_WAIT_WRITE"

text \<open>The tree of the poller holds, in the order of their keys, exactly the lthreads of the table \<open>M\<close>, which
  tells who waits for which event of which descriptor; each of them has one of the two flags.\<close>

definition wait_tree :: "world \<Rightarrow> (u16 \<times> lthread_event \<rightharpoonup> addr) \<Rightarrow> addr list \<Rightarrow> bool" where
  "wait_tree w M W \<longleftrightarrow> rb_repr (waiting w) W \<and> sorted_by (wait_key w) W \<and> inj_on (wait_key w) (set W) \<and>
     (\<forall>a \<in> set W. \<exists>l. lts w a = Some l \<and> waits l) \<and>
     (\<forall>k a. M k = Some a \<longleftrightarrow> a \<in> set W \<and> waits_for (node_at w a) = k)"

definition wait_table :: "world \<Rightarrow> (u16 \<times> lthread_event \<rightharpoonup> addr) \<Rightarrow> bool" where
  "wait_table w M \<longleftrightarrow> (\<exists>W. wait_tree w M W)"

lemma wait_treeD:
  assumes "wait_tree w M W"
  shows "rb_repr (waiting w) W" "sorted_by (wait_key w) W" "inj_on (wait_key w) (set W)"
    "a \<in> set W \<Longrightarrow> \<exists>l. lts w a = Some l \<and> waits l"
    "M k = Some a \<longleftrightarrow> a \<in> set W \<and> waits_for (node_at w a) = k"
  using assms unfolding wait_tree_def by blast+

lemma wait_treeI:
  assumes "rb_repr (waiting w) W" "sorted_by (wait_key w) W" "inj_on (wait_key w) (set W)"
    "\<And>a. a \<in> set W \<Longrightarrow> \<exists>l. lts w a = Some l \<and> waits l"
    "\<And>k a. M k = Some a \<longleftrightarrow> a \<in> set W \<and> waits_for (node_at w a) = k"
  shows "wait_tree w M W"
  using assms unfolding wait_tree_def by blast

lemma wait_table_member:
  assumes "wait_table w M" "M k = Some a"
  obtains l where "lts w a = Some l" "waits l" "waits_for l = k"
proof -
  obtain W where W: "wait_tree w M W" using assms(1) by (auto simp: wait_table_def)
  obtain l where "lts w a = Some l" "waits l" using wait_treeD(4) [OF W, of a] wait_treeD(5) [OF W, of k a] assms(2) by auto
  with that wait_treeD(5) [OF W, of k a] assms(2) show ?thesis by simp
qed

text \<open>The table depends on the tree and, for its members, on what they wait for.\<close>

lemma wait_table_cong:
  assumes "wait_table w M" "waiting w' = waiting w"
    "\<And>a l. lts w a = Some l \<Longrightarrow> a \<in> ran M \<Longrightarrow> \<exists>l'. lts w' a = Some l' \<and> (waits l \<longrightarrow> waits l') \<and> waits_for l' = waits_for l"
  shows "wait_table w' M"
proof -
  obtain W where tree: "wait_tree w M W" using assms(1) by (auto simp: wait_table_def)
  note W = wait_treeD [OF tree]
  have l': "\<exists>l'. lts w' a = Some l' \<and> waits l' \<and> waits_for l' = waits_for (node_at w a)" if a: "a \<in> set W" for a
  proof -
    obtain l where l: "lts w a = Some l" "waits l" using W(4) [OF a] by blast
    have "a \<in> ran M" using W(5) [of "waits_for (node_at w a)" a] a by (blast intro: ranI)
    from assms(3) [OF l(1) this] l show ?thesis by auto
  qed
  then have eq: "waits_for (node_at w' a) = waits_for (node_at w a)" if "a \<in> set W" for a
    using that by (metis node_at_Some)
  then have key: "wait_key w' a = wait_key w a" if "a \<in> set W" for a
    using that by (simp add: wait_key_def fd_key_eq_iff)
  have "sorted_by (wait_key w') W" using W(2) sorted_by_cong [of W "wait_key w'" "wait_key w"] key by simp
  moreover have "inj_on (wait_key w') (set W)" using W(3) key by (simp add: inj_on_def)
  moreover have "M k = Some a \<longleftrightarrow> a \<in> set W \<and> waits_for (node_at w' a) = k" for k a using W(5) [of k a] eq [of a] by auto
  moreover have "rb_repr (waiting w') W" using W(1) assms(2) by simp
  ultimately have "wait_tree w' M W" using l' by (intro wait_treeI) blast+
  then show ?thesis by (auto simp: wait_table_def)
qed

lemma wait_table_init: "wait_table (snd (lthread_poller_init pfd w)) Map.empty"
proof -
  have "rb_repr (waiting (snd (lthread_poller_init pfd w))) []"
    by (auto simp: rb_repr_def lthread_poller_init_def waiting_def RB_INIT_def rb_at_def rb_tree_def set_root_def Let_def
        intro!: exI [of _ RLeaf])
  then show ?thesis unfolding wait_table_def wait_tree_def by (intro exI [of _ "[]"]) simp
qed

subsection \<open>Waiting\<close>

lemma upd_pending_sel [simp]:
  "lts (upd_pending f w) = lts w" "scheds (upd_pending f w) = scheds w" "conds (upd_pending f w) = conds w"
  "pool (upd_pending f w) = pool w" "waiting (upd_pending f w) = waiting w" "sleep_node (upd_pending f w) = sleep_node w"
  "ready_q (upd_pending f w) = ready_q w" "blocked_q (upd_pending f w) = blocked_q w" "held (upd_pending f w) = held w"
  "num_pending_events (poller (upd_pending f w)) = f (num_pending_events (poller w))"
  by (simp_all add: upd_pending_def waiting_def)

lemma waiting_upd [simp]:
  "waiting (w\<lparr>lts := L\<rparr>) = waiting w" "waiting (w\<lparr>held := A\<rparr>) = waiting w"
  "wait_key (w\<lparr>held := A\<rparr>) = wait_key w" "wait_key (put_waiting t w) = wait_key w"
  "wait_key (upd_pending f w) = wait_key w"
  by (simp_all add: waiting_def wait_key_def node_at_def fun_eq_iff)

lemma put_waiting_lts: "put_waiting t (w\<lparr>lts := L\<rparr>) = (put_waiting t w)\<lparr>lts := L\<rparr>"
  by (simp add: put_waiting_def)

lemma upd_pending_held: "upd_pending f (w\<lparr>held := A\<rparr>) = (upd_pending f w)\<lparr>held := A\<rparr>"
  by (simp add: upd_pending_def)

text \<open>An lthread that starts to wait, and one that stops.\<close>

definition wait_begin :: "int \<Rightarrow> lthread_event \<Rightarrow> lthread \<Rightarrow> lthread" where
  "wait_begin fd e l = l\<lparr>lt_state := set_flag (wait_flag e) (lt_state l), fd_wait := word_of_int fd\<rparr>"

definition wait_over :: "lthread_event \<Rightarrow> lthread \<Rightarrow> lthread" where
  "wait_over e l = l\<lparr>lt_state := clear_flag (wait_flag e) (lt_state l), fd_wait := - 1\<rparr>"

lemma wait_begin_facts [simp]:
  "idle l \<Longrightarrow> waits (wait_begin fd e l)" "idle l \<Longrightarrow> waits_for (wait_begin fd e l) = (word_of_int fd, e)"
  "lt_sched (wait_begin fd e l) = lt_sched l"
  "has_flag (lt_state (wait_begin fd e l)) LT_ST_FDEOF = has_flag (lt_state l) LT_ST_FDEOF"
  by (cases e; auto simp: wait_begin_def waits_def idle_def waits_for_def wait_flag_def st_defs)+

lemma wait_over_facts [simp]:
  "waits l \<Longrightarrow> waits_for l = (fd, e) \<Longrightarrow> idle (wait_over e l)" "lt_sched (wait_over e l) = lt_sched l"
  "has_flag (lt_state (wait_over e l)) LT_ST_FDEOF = has_flag (lt_state l) LT_ST_FDEOF"
  by (cases e; auto simp: wait_over_def waits_def idle_def waits_for_def wait_flag_def st_defs split: if_splits)+

lemma wait_tree_upd_other:
  assumes "wait_tree w M W" "a \<notin> set W" "w1 = w\<lparr>lts := (lts w)(a \<mapsto> l)\<rparr>"
  shows "sorted_by (wait_key w1) W" "wait_key w1 ` set W = wait_key w ` set W" "inj_on (wait_key w1) (set W)"
    "wait_key w1 a = fd_key l"
    "\<And>x. x \<in> set W \<Longrightarrow> wait_key w1 x = wait_key w x"
    "\<And>x. x \<in> set W \<Longrightarrow> waits_for (node_at w1 x) = waits_for (node_at w x)"
    "\<And>x. x \<in> set W \<Longrightarrow> lts w1 x = lts w x"
proof -
  show lts: "lts w1 x = lts w x" if "x \<in> set W" for x using that assms(2,3) by auto
  then show key: "wait_key w1 x = wait_key w x" "waits_for (node_at w1 x) = waits_for (node_at w x)" if "x \<in> set W" for x
    using that by (simp_all add: wait_key_def node_at_def)
  then show "wait_key w1 ` set W = wait_key w ` set W" by auto
  show "sorted_by (wait_key w1) W"
    using wait_treeD(2) [OF assms(1)] sorted_by_cong [of W "wait_key w1" "wait_key w"] key by simp
  show "inj_on (wait_key w1) (set W)" using wait_treeD(3) [OF assms(1)] key by (simp add: inj_on_def)
  show "wait_key w1 a = fd_key l" using assms(3) by (simp add: wait_key_def)
qed

lemma wait_tree_idle: "wait_tree w M W \<Longrightarrow> lts w a = Some l \<Longrightarrow> idle l \<Longrightarrow> a \<notin> set W"
  using wait_treeD(4) [of w M W a] by (auto simp: idle_def waits_def)

lemma wait_key_free:
  assumes "wait_tree w M W" "waits_for l = k"
  shows "fd_key l \<in> wait_key w ` set W \<longleftrightarrow> M k \<noteq> None"
proof -
  have "fd_key l \<in> wait_key w ` set W \<longleftrightarrow> (\<exists>a \<in> set W. waits_for (node_at w a) = k)"
    using assms(2) by (auto simp: wait_key_def image_iff fd_key_eq_iff eq_commute)
  with wait_treeD(5) [OF assms(1), of k] show ?thesis by auto
qed

lemma add_waiting_ok:
  assumes "wait_table w M" "lts w a = Some l" "idle l" "Poller_mutex \<notin> held w" "M (word_of_int fd, e) = None"
  shows "\<exists>t w'. w' = upd_pending (\<lambda>n. n + 1) (put_waiting t (w\<lparr>lts := (lts w)(a \<mapsto> wait_begin fd e l)\<rparr>)) \<and>
    lthread_poller_add_waiting_lthread a fd e w = Inr w' \<and> wait_table w' (M((word_of_int fd, e) \<mapsto> a))"
proof -
  obtain W where tree: "wait_tree w M W" using assms(1) by (auto simp: wait_table_def)
  let ?l = "wait_begin fd e l" and ?k = "(word_of_int fd, e)"
  define w1 where "w1 = w\<lparr>lts := (lts w)(a \<mapsto> ?l)\<rparr>"
  have a: "a \<notin> set W" by (rule wait_tree_idle [OF tree assms(2,3)])
  note other = wait_tree_upd_other [OF tree a w1_def]
  have k: "waits_for ?l = ?k" using assms(3) by simp
  have "fd_key ?l \<notin> wait_key w1 ` set W" using wait_key_free [OF tree k] assms(5) other(2) by simp
  then obtain t where t: "RB_INSERT (cmp_by (wait_key w1) (wait_key w1 a)) a (waiting w) = Some (NULL, t)"
    "rb_repr t (insort_key (wait_key w1) a W)"
    using rb_insert_new [OF wait_treeD(1) [OF tree] other(1) a] other(4) by auto
  let ?w = "upd_pending (\<lambda>n. n + 1) (put_waiting t w1)"
  have same: "lts ?w = lts w1" "wait_key ?w = wait_key w1" "node_at ?w = node_at w1"
    by (simp_all add: wait_key_def node_at_def fun_eq_iff)
  have lts: "lts w1 a = Some ?l" by (simp add: w1_def)
  have "wait_tree ?w (M(?k \<mapsto> a)) (insort_key (wait_key w1) a W)"
  proof (rule wait_treeI, unfold same)
    show "sorted_by (wait_key w1) (insort_key (wait_key w1) a W)"
      using other(1) by (simp add: sorted_by_def sorted_insort_key)
    show "inj_on (wait_key w1) (set (insort_key (wait_key w1) a W))"
      using other(3,4) a \<open>fd_key ?l \<notin> _\<close> by (simp add: set_insort_key)
    show "\<exists>l. lts w1 x = Some l \<and> waits l" if "x \<in> set (insort_key (wait_key w1) a W)" for x
      using that other(7) [of x] wait_treeD(4) [OF tree, of x] lts assms(3) by (auto simp: set_insort_key)
    show "(M(?k \<mapsto> a)) k = Some x \<longleftrightarrow> x \<in> set (insort_key (wait_key w1) a W) \<and> waits_for (node_at w1 x) = k" for k x
      using other(6) [of x] wait_treeD(5) [OF tree, of k x] a assms(5) lts \<open>waits_for ?l = ?k\<close> by (auto simp: set_insort_key)
  qed (use t(2) in simp)
  moreover have "lthread_poller_add_waiting_lthread a fd e w = Inr ?w"
    using assms(2-4) t(1) other(4)
    by (simp add: lthread_poller_add_waiting_lthread_def idle_def held_last upd_pending_held wait_cmp_at_key w1_def wait_begin_def)
  ultimately show ?thesis unfolding w1_def wait_table_def by blast
qed

lemma add_waiting_taken:
  assumes "wait_table w M" "lts w a = Some l" "idle l" "Poller_mutex \<notin> held w" "M (word_of_int fd, e) = Some b"
  shows "lthread_poller_add_waiting_lthread a fd e w = Inl (Assertion_failed ''lt_tmp == NULL'')"
proof -
  obtain W where tree: "wait_tree w M W" using assms(1) by (auto simp: wait_table_def)
  let ?l = "wait_begin fd e l" and ?k = "(word_of_int fd, e)"
  define w1 where "w1 = w\<lparr>lts := (lts w)(a \<mapsto> ?l)\<rparr>"
  note other = wait_tree_upd_other [OF tree wait_tree_idle [OF tree assms(2,3)] w1_def]
  have "fd_key ?l \<in> wait_key w1 ` set W" using wait_key_free [OF tree, of ?l ?k] assms(3,5) other(2) by simp
  then obtain x where "RB_INSERT (cmp_by (wait_key w1) (wait_key w1 a)) a (waiting w) = Some (Some x, waiting w)"
    using rb_insert_collision [OF wait_treeD(1) [OF tree] other(1), of a] other(4) by auto
  with assms(2-4) other(4) show ?thesis
    by (simp add: lthread_poller_add_waiting_lthread_def idle_def held_last wait_cmp_at_key w1_def wait_begin_def)
qed

subsection \<open>Delivering\<close>

lemma find_waiting:
  assumes "wait_tree w M W"
  shows "RB_FIND (wait_cmp_at w (find_lt fd e)) (waiting w) = Some (M (word_of_int fd, e))"
proof (cases "M (word_of_int fd, e)")
  case None
  with wait_key_free [OF assms, of "find_lt fd e"] show ?thesis
    using rb.lookup_none [OF wait_treeD(1,2) [OF assms], of "fd_key (find_lt fd e)"] by (simp add: wait_cmp_at_key)
next
  case (Some a)
  then have a: "a \<in> set W" "waits_for (node_at w a) = waits_for (find_lt fd e)"
    using wait_treeD(5) [OF assms, of "(word_of_int fd, e)" a] by simp_all
  then have "wait_key w a = fd_key (find_lt fd e)" by (simp only: wait_key_def fd_key_eq_iff)
  with Some rb.lookup_member [OF wait_treeD(1,2) [OF assms] a(1) wait_treeD(3) [OF assms]] show ?thesis
    by (simp add: wait_cmp_at_key)
qed

lemma desched_event_none:
  assumes "wait_table w M" "M (word_of_int fd, e) = None" "Poller_mutex \<notin> held w"
  shows "lthread_poller_desched_event fd e w = Inr (NULL, w)"
    "lthread_poller_handle_event fd e eof w = Inr (NULL, w)"
proof -
  obtain W where "wait_tree w M W" using assms(1) by (auto simp: wait_table_def)
  from find_waiting [OF this, of fd e] show "lthread_poller_desched_event fd e w = Inr (NULL, w)"
    using assms(2,3) by (simp add: lthread_poller_desched_event_def wait_cmp_at_key)
  then show "lthread_poller_handle_event fd e eof w = Inr (NULL, w)" by (simp add: lthread_poller_handle_event_def)
qed

lemma desched_event_some:
  assumes "wait_table w M" "M (word_of_int fd, e) = Some a" "lts w a = Some l" "Poller_mutex \<notin> held w"
  shows "\<exists>t w'. w' = put_waiting t (w\<lparr>lts := (lts w)(a \<mapsto> wait_over e l)\<rparr>) \<and>
    lthread_poller_desched_event fd e w = Inr (Some a, w') \<and> wait_table w' (M((word_of_int fd, e) := None))"
proof -
  obtain W where tree: "wait_tree w M W" using assms(1) by (auto simp: wait_table_def)
  let ?k = "(word_of_int fd, e)"
  have a: "a \<in> set W" using wait_treeD(5) [OF tree, of ?k a] assms(2) by simp
  obtain t where t: "RB_REMOVE a (waiting w) = Some (a, t)" "rb_repr t (remove1 a W)"
    using rb_remove_member [OF wait_treeD(1) [OF tree] a] by blast
  have W: "set (remove1 a W) = set W - {a}"
    using rb_repr_distinct [OF wait_treeD(1) [OF tree]] by (rule set_remove1_distinct)
  let ?w = "put_waiting t (w\<lparr>lts := (lts w)(a \<mapsto> wait_over e l)\<rparr>)"
  have same: "lts ?w x = lts w x" "wait_key ?w x = wait_key w x" "node_at ?w x = node_at w x" if "x \<noteq> a" for x
    using that by (simp_all add: wait_key_def node_at_def)
  have "wait_tree ?w (M(?k := None)) (remove1 a W)"
  proof (rule wait_treeI)
    show "sorted_by (wait_key ?w) (remove1 a W)"
      using sorted_by_cong [of "remove1 a W" "wait_key ?w" "wait_key w"] same(2) W wait_treeD(2) [OF tree]
      by (auto simp: sorted_by_def sorted_map_remove1)
    show "inj_on (wait_key ?w) (set (remove1 a W))"
      using wait_treeD(3) [OF tree] same(2) W by (simp add: inj_on_def)
    show "\<exists>l. lts ?w x = Some l \<and> waits l" if "x \<in> set (remove1 a W)" for x
      using that same(1) [of x] wait_treeD(4) [OF tree, of x] W by auto
    show "(M(?k := None)) k = Some x \<longleftrightarrow> x \<in> set (remove1 a W) \<and> waits_for (node_at ?w x) = k" for k x
    proof (cases "x = a")
      case True
      with W wait_treeD(5) [OF tree, of k a] wait_treeD(5) [OF tree, of ?k a] assms(2) show ?thesis by auto
    next
      case False
      then have "(M(?k := None)) k = Some x \<longleftrightarrow> M k = Some x" using assms(2) by auto
      with False W show ?thesis by (simp only: same(3) [OF False] wait_treeD(5) [OF tree, of k x]) simp
    qed
  qed (use t(2) in simp)
  moreover have "lthread_poller_desched_event fd e w = Inr (Some a, ?w)"
    using find_waiting [OF tree, of fd e] assms(2-4) t(1)
    by (simp add: lthread_poller_desched_event_def wait_cmp_at_key held_last wait_over_def put_waiting_lts)
  ultimately show ?thesis unfolding wait_table_def by blast
qed

definition mark_eof :: "bool \<Rightarrow> lthread \<Rightarrow> lthread" where
  "mark_eof eof l = (if eof then l\<lparr>lt_state := set_flag LT_ST_FDEOF (lt_state l)\<rparr> else l)"

lemma mark_eof_facts [simp]:
  "lt_sched (mark_eof eof l) = lt_sched l" "idle (mark_eof eof l) = idle l" "needs_resched (mark_eof eof l) = needs_resched l"
  "has_flag (lt_state (mark_eof eof l)) LT_ST_FDEOF \<longleftrightarrow> eof \<or> has_flag (lt_state l) LT_ST_FDEOF"
  by (auto simp: mark_eof_def idle_def st_defs)

lemma idle_resched [simp]: "idle (l\<lparr>needs_resched := b\<rparr>) = idle l"
  by (simp add: idle_def)

lemma waiting_ready [simp]: "waiting (ready_result s own lt l w) = waiting w"
  by (simp add: waiting_def)

lemma wait_table_inj:
  assumes "wait_table w M" "M k = Some a" "M k' = Some a"
  shows "k' = k"
  using wait_table_member [OF assms(1,2)] wait_table_member [OF assms(1,3)] by (metis option.inject)

lemma wait_table_finite:
  assumes "wait_table w M"
  shows "finite (dom M)"
proof -
  obtain W where "wait_tree w M W" using assms by (auto simp: wait_table_def)
  then have "dom M \<subseteq> (\<lambda>a. waits_for (node_at w a)) ` set W" by (auto simp: wait_treeD(5) [of w M W] intro!: rev_image_eqI)
  then show ?thesis by (rule finite_subset) simp
qed

lemma handle_event_some:
  fixes eof :: bool
  assumes table: "wait_table w M" and k: "M (word_of_int fd, e) = Some a"
    and a: "lts w a = Some l" "lt_sched l = Some s"
    and free: "Poller_mutex \<notin> held w" "Pool_mutex \<notin> held w" "Sched_mutex s \<notin> held w"
  defines "l' \<equiv> mark_eof eof (wait_over e l)"
  shows "\<exists>t w'. w' = upd_pending (\<lambda>n. n - 1) (ready_result s s a l' (put_waiting t (w\<lparr>lts := (lts w)(a \<mapsto> l')\<rparr>))) \<and>
    lthread_poller_handle_event fd e eof w = Inr (Some a, w') \<and> wait_table w' (M((word_of_int fd, e) := None))"
proof -
  obtain t w1 where t: "w1 = put_waiting t (w\<lparr>lts := (lts w)(a \<mapsto> wait_over e l)\<rparr>)"
    "lthread_poller_desched_event fd e w = Inr (Some a, w1)" "wait_table w1 (M((word_of_int fd, e) := None))"
    using desched_event_some [OF table k a(1) free(1)] by blast
  let ?w2 = "put_waiting t (w\<lparr>lts := (lts w)(a \<mapsto> l')\<rparr>)"
  let ?w' = "upd_pending (\<lambda>n. n - 1) (ready_result s s a l' ?w2)"
  have eof: "(if eof then upd_lt a (lt_state_update (set_flag LT_ST_FDEOF)) w1 else Inr w1) = Inr ?w2"
    using t(1) by (simp add: mark_eof_def l'_def put_waiting_lts)
  have ready: "lthread_desched_event a ?w2 = Inr (ready_result s s a l' ?w2)"
    using push_ready_ok [of ?w2 a l' s s] a(2) free by (simp add: lthread_desched_event_def l'_def)
  have run: "lthread_poller_handle_event fd e eof w = Inr (Some a, ?w')"
    using t(2) eof ready free(1) by (simp add: lthread_poller_handle_event_def upd_pending_held)
  have "a \<notin> ran (M((word_of_int fd, e) := None))"
    using wait_table_inj [OF table k] by (auto simp: ran_def)
  then have "wait_table ?w' (M((word_of_int fd, e) := None))"
    by (intro wait_table_cong [OF t(3)]) (auto simp: t(1) ready_result_lts)
  with run show ?thesis by blast
qed

text \<open>The state between two events: the table describes the tree, \<open>num_pending_events\<close> is its size, and the waiting
  lthreads belong to the schedulers \<open>K\<close>, whose ready queues \<open>R\<close> hold none of them.\<close>

definition poll_inv :: "addr set \<Rightarrow> world \<Rightarrow> (u16 \<times> lthread_event \<rightharpoonup> addr) \<Rightarrow> (addr \<Rightarrow> addr list) \<Rightarrow> bool" where
  "poll_inv K w M R \<longleftrightarrow> wait_table w M \<and> tq_family K (ready_q w) R \<and>
     num_pending_events (poller w) = of_nat (card (dom M)) \<and>
     (\<forall>a \<in> ran M. (\<exists>l s. lts w a = Some l \<and> lt_sched l = Some s \<and> s \<in> K) \<and> (\<forall>q \<in> K. a \<notin> set (R q))) \<and>
     Poller_mutex \<notin> held w \<and> Pool_mutex \<notin> held w \<and> (\<forall>s \<in> K. Sched_mutex s \<notin> held w)"

lemma poll_invD:
  assumes "poll_inv K w M R"
  shows "wait_table w M" "tq_family K (ready_q w) R" "num_pending_events (poller w) = of_nat (card (dom M))"
    "a \<in> ran M \<Longrightarrow> \<exists>l s. lts w a = Some l \<and> lt_sched l = Some s \<and> s \<in> K"
    "a \<in> ran M \<Longrightarrow> q \<in> K \<Longrightarrow> a \<notin> set (R q)"
    "Poller_mutex \<notin> held w" "Pool_mutex \<notin> held w" "s \<in> K \<Longrightarrow> Sched_mutex s \<notin> held w"
  using assms unfolding poll_inv_def by blast+

text \<open>An lthread that is going to run: it waits for nothing, and it is queued or, if it still runs, marked
  to be queued when it yields.\<close>

definition woken :: "world \<Rightarrow> (addr \<Rightarrow> addr list) \<Rightarrow> addr \<Rightarrow> bool" where
  "woken w R a \<longleftrightarrow> (\<exists>l s. lts w a = Some l \<and> lt_sched l = Some s \<and> idle l \<and>
     (a \<in> set (R s) \<or> needs_resched l \<and> current_lthread (scheds w s) = Some a))"

text \<open>What handling events keeps when it wakes the lthreads \<open>A\<close>: the mutexes, who runs, the queued lthreads, and
  the other lthreads.\<close>

definition keeps :: "addr set \<Rightarrow> world \<Rightarrow> (addr \<Rightarrow> addr list) \<Rightarrow> world \<Rightarrow> (addr \<Rightarrow> addr list) \<Rightarrow> bool" where
  "keeps A w R w' R' \<longleftrightarrow> held w' = held w \<and> (\<forall>s. current_lthread (scheds w' s) = current_lthread (scheds w s)) \<and>
     (\<forall>s. set (R s) \<subseteq> set (R' s)) \<and> (\<forall>x. x \<notin> A \<longrightarrow> lts w' x = lts w x)"

lemma keeps_refl: "keeps {} w R w R"
  by (simp add: keeps_def)

lemma keeps_trans: "keeps A w R w1 R1 \<Longrightarrow> keeps B w1 R1 w2 R2 \<Longrightarrow> keeps (A \<union> B) w R w2 R2"
  unfolding keeps_def by (simp add: subset_iff)

lemma keeps_woken: "keeps A w R w' R' \<Longrightarrow> a \<notin> A \<Longrightarrow> woken w R a \<Longrightarrow> woken w' R' a"
  unfolding keeps_def woken_def by (metis subset_iff)

text \<open>The end of file flag of an lthread after an event.\<close>

definition eof_after :: "bool \<Rightarrow> world \<Rightarrow> world \<Rightarrow> addr \<Rightarrow> bool" where
  "eof_after eof w w' a \<longleftrightarrow> (\<exists>l l'. lts w a = Some l \<and> lts w' a = Some l' \<and>
     (has_flag (lt_state l') LT_ST_FDEOF \<longleftrightarrow> eof \<or> has_flag (lt_state l) LT_ST_FDEOF))"

lemma card_dom_del: "finite (dom M) \<Longrightarrow> M k = Some a \<Longrightarrow> of_nat (card (dom M)) - 1 = (of_nat (card (dom (M(k := None)))) :: u64)"
proof -
  assume "finite (dom M)" "M k = Some a"
  then have "card (dom M) = Suc (card (dom M - {k}))" by (intro card.remove) auto
  then show ?thesis by simp
qed

lemma handle_event_step:
  fixes fd :: int and e :: lthread_event
  assumes inv: "poll_inv K w M R"
  defines "k \<equiv> (word_of_int fd, e)"
  shows "\<exists>w' R'. lthread_poller_handle_event fd e eof w = Inr (M k, w') \<and> poll_inv K w' (M(k := None)) R' \<and>
    keeps (set_option (M k)) w R w' R' \<and> (\<forall>a. M k = Some a \<longrightarrow> woken w' R' a \<and> eof_after eof w w' a)"
proof (cases "M k")
  case None
  then have "M(k := None) = M" by auto
  with None show ?thesis
    using desched_event_none(2) [OF poll_invD(1) [OF inv], of fd e eof] poll_invD(6) [OF inv] inv keeps_refl [of w R]
    unfolding k_def by auto
next
  case (Some a)
  then have ran: "a \<in> ran M" by (rule ranI)
  obtain l s where l: "lts w a = Some l" "lt_sched l = Some s" "s \<in> K" using poll_invD(4) [OF inv ran] by blast
  let ?l = "mark_eof eof (wait_over e l)" and ?M = "M(k := None)"
  obtain t w' where w': "w' = upd_pending (\<lambda>n. n - 1) (ready_result s s a ?l (put_waiting t (w\<lparr>lts := (lts w)(a \<mapsto> ?l)\<rparr>)))"
    "lthread_poller_handle_event fd e eof w = Inr (Some a, w')" "wait_table w' ?M"
    using handle_event_some [OF poll_invD(1) [OF inv] Some [unfolded k_def] l(1,2) poll_invD(6,7,8) [OF inv], of eof] l(3)
    unfolding k_def by blast
  let ?R = "if current_lthread (scheds w s) = Some a then R else R(s := R s @ [a])"
  have q: "tq_family K (ready_q w') ?R"
    using ready_result_queue [of K "put_waiting t (w\<lparr>lts := (lts w)(a \<mapsto> ?l)\<rparr>)" R s a s ?l]
      poll_invD(2,5) [OF inv] ran l(3) w'(1) by simp
  have other: "lts w' x = lts w x" if "x \<noteq> a" for x using that w'(1) by (simp add: ready_result_lts)
  have sub: "ran ?M \<subseteq> ran M - {a}" using wait_table_inj [OF poll_invD(1) [OF inv] Some] by (auto simp: ran_def)
  have num: "num_pending_events (poller w') = of_nat (card (dom ?M))"
    using w'(1) poll_invD(3) [OF inv] card_dom_del [OF wait_table_finite [OF poll_invD(1) [OF inv]] Some] by simp
  have "poll_inv K w' ?M ?R"
    unfolding poll_inv_def
  proof (intro conjI ballI)
    fix x assume "x \<in> ran ?M"
    with sub have x: "x \<in> ran M" "x \<noteq> a" by auto
    show "\<exists>l s. lts w' x = Some l \<and> lt_sched l = Some s \<and> s \<in> K" using poll_invD(4) [OF inv x(1)] other [OF x(2)] by simp
    show "x \<notin> set (?R q)" if "q \<in> K" for q using poll_invD(5) [OF inv x(1) that] x(2) by auto
  qed (use w'(1,3) q num poll_invD(6-8) [OF inv] in auto)
  moreover have "keeps {a} w R w' ?R" unfolding keeps_def using other by (simp add: w'(1) subset_insertI)
  moreover have "woken w' ?R a \<and> eof_after eof w w' a"
  proof -
    obtain x where "waits l" "waits_for l = (x, e)"
      using wait_table_member [OF poll_invD(1) [OF inv] Some] l(1) by (auto simp: k_def)
    then have "idle (wait_over e l)" by simp
    with w'(1) l(1,2) show ?thesis by (auto simp: woken_def ready_result_lts eof_after_def)
  qed
  ultimately show ?thesis using w'(2) Some l(1) by (intro exI [of _ w'] exI [of _ ?R]) auto
qed

text \<open>The descriptor of an event as the code stores it, and the table without the waiters of some descriptors.\<close>

definition ev_fd16 :: "kevent \<Rightarrow> u16" where
  "ev_fd16 ev = word_of_int (lthread_poller_ev_get_fd ev)"

definition without :: "u16 set \<Rightarrow> (u16 \<times> lthread_event \<rightharpoonup> addr) \<Rightarrow> (u16 \<times> lthread_event \<rightharpoonup> addr)" where
  "without F M = (\<lambda>k. if fst k \<in> F then None else M k)"

lemma without_empty [simp]: "without {} M = M"
  by (simp add: without_def)

lemma without_without [simp]: "without F (without G M) = without (F \<union> G) M"
  by (auto simp: without_def fun_eq_iff)

lemma without_one: "M((f, LT_EV_READ) := None, (f, LT_EV_WRITE) := None) = without {f} M"
proof
  fix k show "(M((f, LT_EV_READ) := None, (f, LT_EV_WRITE) := None)) k = without {f} M k"
    by (cases k; cases "snd k") (auto simp: without_def)
qed

text \<open>The lthreads that wait for one of some descriptors.\<close>

definition waiters :: "u16 set \<Rightarrow> (u16 \<times> lthread_event \<rightharpoonup> addr) \<Rightarrow> addr set" where
  "waiters F M = {a. \<exists>f e. f \<in> F \<and> M (f, e) = Some a}"

lemma waiters_ran: "waiters F M \<subseteq> ran M"
  by (auto simp: waiters_def ran_def)

lemma waiters_without: "waiters F M \<union> waiters G (without F M) = waiters (F \<union> G) M"
  by (auto simp: waiters_def without_def split: if_splits)

lemma woken_not_waiting: "wait_table w M \<Longrightarrow> woken w R a \<Longrightarrow> a \<notin> ran M"
  by (auto simp: ran_def woken_def idle_def waits_def elim!: wait_table_member)

lemma event_step:
  assumes inv: "poll_inv K w M R" and some: "M (ev_fd16 ev, e) = Some b"
  shows "\<exists>w' R'. handle_events (ev # evs) w = handle_events evs w' \<and> poll_inv K w' (without {ev_fd16 ev} M) R' \<and>
    keeps (waiters {ev_fd16 ev} M) w R w' R' \<and>
    (\<forall>a \<in> waiters {ev_fd16 ev} M. woken w' R' a \<and> eof_after (lthread_poller_ev_is_eof ev) w w' a)"
proof -
  let ?fd = "lthread_poller_ev_get_fd ev" and ?eof = "lthread_poller_ev_is_eof ev" and ?f = "ev_fd16 ev"
  let ?M1 = "M((?f, LT_EV_READ) := None)" and ?M2 = "M((?f, LT_EV_READ) := None, (?f, LT_EV_WRITE) := None)"
  obtain w1 R1 where 1: "lthread_poller_handle_event ?fd LT_EV_READ ?eof w = Inr (M (?f, LT_EV_READ), w1)"
    "poll_inv K w1 ?M1 R1" "keeps (set_option (M (?f, LT_EV_READ))) w R w1 R1"
    "\<And>a. M (?f, LT_EV_READ) = Some a \<Longrightarrow> woken w1 R1 a \<and> eof_after ?eof w w1 a"
    using handle_event_step [OF inv, of ?fd LT_EV_READ ?eof] unfolding ev_fd16_def by blast
  obtain w2 R2 where 2: "lthread_poller_handle_event ?fd LT_EV_WRITE ?eof w1 = Inr (?M1 (?f, LT_EV_WRITE), w2)"
    "poll_inv K w2 ?M2 R2" "keeps (set_option (?M1 (?f, LT_EV_WRITE))) w1 R1 w2 R2"
    "\<And>a. ?M1 (?f, LT_EV_WRITE) = Some a \<Longrightarrow> woken w2 R2 a \<and> eof_after ?eof w1 w2 a"
    using handle_event_step [OF 1(2), of ?fd LT_EV_WRITE ?eof] unfolding ev_fd16_def by blast
  have differ: "M (?f, LT_EV_READ) = Some a \<Longrightarrow> M (?f, LT_EV_WRITE) = Some b \<Longrightarrow> a \<noteq> b" for a b
    using wait_table_inj [OF poll_invD(1) [OF inv], of "(?f, LT_EV_READ)" a "(?f, LT_EV_WRITE)"] by auto
  have ws: "waiters {?f} M = set_option (M (?f, LT_EV_READ)) \<union> set_option (?M1 (?f, LT_EV_WRITE))"
  proof -
    have "(\<exists>e. M (?f, e) = Some a) \<longleftrightarrow> M (?f, LT_EV_READ) = Some a \<or> M (?f, LT_EV_WRITE) = Some a" for a
      by (metis lthread_event.exhaust)
    then show ?thesis by (auto simp: waiters_def)
  qed
  have woken: "woken w2 R2 a \<and> eof_after ?eof w w2 a" if "a \<in> waiters {?f} M" for a
  proof (cases "M (?f, LT_EV_READ) = Some a")
    case True
    then have "a \<notin> set_option (?M1 (?f, LT_EV_WRITE))" using differ by auto
    moreover from this have "lts w2 a = lts w1 a" using 2(3) by (simp add: keeps_def)
    ultimately show ?thesis using 1(4) [OF True] keeps_woken [OF 2(3)] by (simp add: eof_after_def)
  next
    case False
    then have "lts w1 a = lts w a" using 1(3) by (simp add: keeps_def)
    moreover have "?M1 (?f, LT_EV_WRITE) = Some a" using False that ws by auto
    ultimately show ?thesis using 2(4) by (simp add: eof_after_def)
  qed
  have "M (?f, LT_EV_WRITE) \<noteq> None \<or> M (?f, LT_EV_READ) \<noteq> None" using some by (cases e) auto
  then have "handle_events (ev # evs) w = handle_events evs w2" using 1(1) 2(1) by simp
  with 2(2) keeps_trans [OF 1(3) 2(3)] woken show ?thesis by (auto simp: without_one ws)
qed

lemma handle_events_ok:
  assumes "poll_inv K w M R" "distinct (map ev_fd16 evs)" "\<And>ev. ev \<in> set evs \<Longrightarrow> \<exists>e a. M (ev_fd16 ev, e) = Some a"
  shows "\<exists>w' R'. handle_events evs w = Inr w' \<and> poll_inv K w' (without (ev_fd16 ` set evs) M) R' \<and>
    keeps (waiters (ev_fd16 ` set evs) M) w R w' R' \<and> (\<forall>a \<in> waiters (ev_fd16 ` set evs) M. woken w' R' a)"
  using assms
proof (induction evs arbitrary: w M R)
  case Nil
  then show ?case by (auto simp: keeps_refl waiters_def)
next
  case (Cons ev evs)
  obtain e b where "M (ev_fd16 ev, e) = Some b" using Cons.prems(3) [of ev] by auto
  from event_step [OF Cons.prems(1) this, of evs] obtain w1 R1 where 1:
    "handle_events (ev # evs) w = handle_events evs w1" "poll_inv K w1 (without {ev_fd16 ev} M) R1"
    "keeps (waiters {ev_fd16 ev} M) w R w1 R1" "\<And>a. a \<in> waiters {ev_fd16 ev} M \<Longrightarrow> woken w1 R1 a" by blast
  let ?M1 = "without {ev_fd16 ev} M" and ?F = "ev_fd16 ` set evs"
  have "\<exists>e a. ?M1 (ev_fd16 x, e) = Some a" if "x \<in> set evs" for x
  proof -
    have "ev_fd16 x \<noteq> ev_fd16 ev" using that Cons.prems(2) by (metis distinct.simps(2) image_eqI list.map(2) list.set_map)
    with Cons.prems(3) [of x] that show ?thesis by (simp add: without_def)
  qed
  with Cons.IH [OF 1(2)] Cons.prems(2) obtain w2 R2 where 2: "handle_events evs w1 = Inr w2"
    "poll_inv K w2 (without ?F ?M1) R2" "keeps (waiters ?F ?M1) w1 R1 w2 R2" "\<And>a. a \<in> waiters ?F ?M1 \<Longrightarrow> woken w2 R2 a" by auto
  have "woken w2 R2 a" if "a \<in> waiters {ev_fd16 ev} M" for a
    using 1(4) [OF that] keeps_woken [OF 2(3), of a] woken_not_waiting [OF poll_invD(1) [OF 1(2)]] waiters_ran by blast
  moreover have "waiters (ev_fd16 ` set (ev # evs)) M = waiters {ev_fd16 ev} M \<union> waiters ?F ?M1"
    by (simp add: waiters_without)
  ultimately show ?case using 1(1) 2(1,2,4) keeps_trans [OF 1(3) 2(3)] by auto
qed

subsection \<open>The contract of the table\<close>

text \<open>\<open>add\<close> makes an lthread wait, \<open>take\<close> ends the wait; \<open>slot\<close> is the place in the table of what is waited
  for, and two requests with the same place exclude each other.\<close>

locale event_table =
  fixes repr :: "'w \<Rightarrow> ('k \<rightharpoonup> addr) \<Rightarrow> bool"
    and unused :: "'w \<Rightarrow> addr \<Rightarrow> bool"
    and slot :: "'f \<Rightarrow> 'k"
    and add :: "addr \<Rightarrow> 'f \<Rightarrow> 'w \<Rightarrow> 'w res"
    and take :: "'f \<Rightarrow> 'w \<Rightarrow> (ptr \<times> 'w) res"
  assumes add_law: "repr w M \<Longrightarrow> unused w a \<Longrightarrow> M (slot f) = None \<Longrightarrow>
      \<exists>w'. add a f w = Inr w' \<and> repr w' (M(slot f \<mapsto> a)) \<and> (\<forall>b. b \<noteq> a \<longrightarrow> unused w' b = unused w b)"
    and add_taken: "repr w M \<Longrightarrow> unused w a \<Longrightarrow> M (slot f) = Some b \<Longrightarrow>
      add a f w = Inl (Assertion_failed ''lt_tmp == NULL'')"
    and take_some: "repr w M \<Longrightarrow> M (slot f) = Some a \<Longrightarrow>
      \<exists>w'. take f w = Inr (Some a, w') \<and> repr w' (M(slot f := None)) \<and> unused w' a"
    and take_none: "repr w M \<Longrightarrow> M (slot f) = None \<Longrightarrow> take f w = Inr (NULL, w)"
begin

lemma add_take:
  assumes "repr w M" "unused w a" "M (slot f) = None"
  shows "\<exists>w1 w2. add a f w = Inr w1 \<and> take f w1 = Inr (Some a, w2) \<and> repr w2 M \<and> unused w2 a"
proof -
  obtain w1 where w1: "add a f w = Inr w1" "repr w1 (M(slot f \<mapsto> a))" using add_law [OF assms] by blast
  moreover have "(M(slot f \<mapsto> a))(slot f := None) = M" using assms(3) by auto
  ultimately show ?thesis using take_some [OF w1(2), of f a] by auto
qed

lemma add_other_take:
  assumes "repr w M" "unused w a" "M (slot f) = None" "slot g \<noteq> slot f" "M (slot g) = Some b"
  shows "\<exists>w1 w2. add a f w = Inr w1 \<and> take g w1 = Inr (Some b, w2) \<and> repr w2 (M(slot f \<mapsto> a, slot g := None))"
proof -
  obtain w1 where w1: "add a f w = Inr w1" "repr w1 (M(slot f \<mapsto> a))" using add_law [OF assms(1-3)] by blast
  then show ?thesis using take_some [OF w1(2), of g b] assms(4,5) by auto
qed

lemma add_collides:
  assumes "repr w M" "unused w a" "unused w b" "a \<noteq> b" "M (slot f) = None" "slot g = slot f"
  shows "\<exists>w1. add a f w = Inr w1 \<and> add b g w1 = Inl (Assertion_failed ''lt_tmp == NULL'')"
proof -
  obtain w1 where w1: "add a f w = Inr w1" "repr w1 (M(slot f \<mapsto> a))" "unused w1 b"
    using add_law [OF assms(1,2,5)] assms(3,4) by metis
  then show ?thesis using add_taken [OF w1(2,3), of g a] assms(6) by simp
qed

lemma take_twice:
  assumes "repr w M"
  shows "\<exists>w1. take f w = Inr (M (slot f), w1) \<and> take f w1 = Inr (NULL, w1)"
proof (cases "M (slot f)")
  case (Some a)
  then obtain w1 where "take f w = Inr (Some a, w1)" "repr w1 (M(slot f := None))" using take_some [OF assms] by blast
  with Some take_none [of w1 "M(slot f := None)" f] show ?thesis by simp
qed (use take_none [OF assms] in simp)

end

definition wait_slot :: "int \<times> lthread_event \<Rightarrow> u16 \<times> lthread_event" where
  "wait_slot = (\<lambda>(fd, e). (word_of_int fd, e))"

definition is_idle :: "world \<Rightarrow> addr \<Rightarrow> bool" where
  "is_idle w a \<longleftrightarrow> (\<exists>l. lts w a = Some l \<and> idle l)"

definition poller_table :: "world \<Rightarrow> (u16 \<times> lthread_event \<rightharpoonup> addr) \<Rightarrow> bool" where
  "poller_table w M \<longleftrightarrow> wait_table w M \<and> Poller_mutex \<notin> held w"

interpretation et: event_table poller_table is_idle wait_slot
  "\<lambda>a (fd, e). lthread_poller_add_waiting_lthread a fd e" "\<lambda>(fd, e). lthread_poller_desched_event fd e"
proof
  fix w M a b and f :: "int \<times> lthread_event"
  obtain fd e where f: "f = (fd, e)" by (cases f)
  assume r: "poller_table w M"
  show "\<exists>w'. (case f of (fd, e) \<Rightarrow> lthread_poller_add_waiting_lthread a fd e) w = Inr w' \<and>
      poller_table w' (M(wait_slot f \<mapsto> a)) \<and> (\<forall>b. b \<noteq> a \<longrightarrow> is_idle w' b = is_idle w b)"
    if "is_idle w a" "M (wait_slot f) = None"
  proof -
    from that(1) obtain l where l: "lts w a = Some l" "idle l" by (auto simp: is_idle_def)
    show ?thesis
      using add_waiting_ok [of w M a l fd e] r l that(2) by (auto simp: poller_table_def wait_slot_def f is_idle_def)
  qed
  show "(case f of (fd, e) \<Rightarrow> lthread_poller_add_waiting_lthread a fd e) w = Inl (Assertion_failed ''lt_tmp == NULL'')"
    if "is_idle w a" "M (wait_slot f) = Some b"
    using add_waiting_taken r that by (auto simp: poller_table_def wait_slot_def f is_idle_def)
  show "(case f of (fd, e) \<Rightarrow> lthread_poller_desched_event fd e) w = Inr (NULL, w)" if "M (wait_slot f) = None"
    using desched_event_none(1) r that by (auto simp: poller_table_def wait_slot_def f)
  show "\<exists>w'. (case f of (fd, e) \<Rightarrow> lthread_poller_desched_event fd e) w = Inr (Some a, w') \<and>
      poller_table w' (M(wait_slot f := None)) \<and> is_idle w' a" if a: "M (wait_slot f) = Some a"
  proof -
    have a': "M (word_of_int fd, e) = Some a" and t: "wait_table w M" using a r by (simp_all add: f wait_slot_def poller_table_def)
    from t a' obtain l where l: "lts w a = Some l" "waits l" "waits_for l = (word_of_int fd, e)" by (rule wait_table_member)
    then have "idle (wait_over e l)" by simp
    with desched_event_some [OF t a' l(1)] r show ?thesis by (auto simp: poller_table_def wait_slot_def f is_idle_def)
  qed
qed

subsection \<open>Waiting and being woken\<close>

lemma poll_inv_add:
  assumes inv: "poll_inv K w M R" and a: "lts w a = Some l" "lt_sched l = Some s" "s \<in> K" "idle l" "\<And>q. q \<in> K \<Longrightarrow> a \<notin> set (R q)"
    and k: "M (word_of_int fd, e) = None"
  shows "\<exists>w'. lthread_poller_add_waiting_lthread a fd e w = Inr w' \<and> poll_inv K w' (M((word_of_int fd, e) \<mapsto> a)) R \<and>
    lts w' = (lts w)(a \<mapsto> wait_begin fd e l) \<and> scheds w' = scheds w \<and> held w' = held w"
proof -
  let ?k = "(word_of_int fd, e)"
  obtain t w' where w': "w' = upd_pending (\<lambda>n. n + 1) (put_waiting t (w\<lparr>lts := (lts w)(a \<mapsto> wait_begin fd e l)\<rparr>))"
    "lthread_poller_add_waiting_lthread a fd e w = Inr w'" "wait_table w' (M(?k \<mapsto> a))"
    using add_waiting_ok [OF poll_invD(1) [OF inv] a(1,4) poll_invD(6) [OF inv] k] by blast
  have "?k \<notin> dom M" using k by auto
  then have "num_pending_events (poller w') = of_nat (card (dom (M(?k \<mapsto> a))))"
    using w'(1) poll_invD(3) [OF inv] wait_table_finite [OF poll_invD(1) [OF inv]] by simp
  moreover have "ran (M(?k \<mapsto> a)) = insert a (ran M)" using k by simp
  ultimately have "poll_inv K w' (M(?k \<mapsto> a)) R"
    using w'(1,3) poll_invD [OF inv] a unfolding poll_inv_def by auto
  with w'(1,2) show ?thesis by simp
qed

text \<open>The change that \<open>_lthread_poller_register_event\<close> hands to \<open>kevent\<close>.\<close>

definition change_for :: "int \<Rightarrow> lthread_event \<Rightarrow> kevent" where
  "change_for fd e = EV_SET fd (case e of LT_EV_READ \<Rightarrow> EVFILT_READ | LT_EV_WRITE \<Rightarrow> EVFILT_WRITE) io_flags {}"

lemma register_event_ok:
  "lthread_poller_register_event kev fd e = (if kev (change_for fd e) = - 1 then Inl (Assertion_failed ''kevent != -1'') else Inr ())"
  by (cases e) (simp_all add: lthread_poller_register_event_def lthread_poller_ev_register_rd_def
      lthread_poller_ev_register_wr_def submit_def change_for_def)

lemma wait_fd_ok:
  assumes inv: "poll_inv K w M R" and cur: "current_lthread (scheds w me) = Some a"
    and a: "lts w a = Some l" "lt_sched l = Some me" "me \<in> K" "idle l" "\<And>q. q \<in> K \<Longrightarrow> a \<notin> set (R q)"
    and k: "M (word_of_int fd, e) = None" "kev (change_for fd e) \<noteq> - 1"
  shows "\<exists>w'. lthread_wait_fd kev me fd e w = Inr w' \<and> poll_inv K w' (M((word_of_int fd, e) \<mapsto> a)) R \<and>
    lts w' = (lts w)(a \<mapsto> wait_begin fd e l) \<and> scheds w' = scheds w \<and> held w' = held w"
proof -
  obtain w' where w': "lthread_poller_add_waiting_lthread a fd e w = Inr w'" "poll_inv K w' (M((word_of_int fd, e) \<mapsto> a)) R"
    "lts w' = (lts w)(a \<mapsto> wait_begin fd e l)" "scheds w' = scheds w" "held w' = held w"
    using poll_inv_add [OF inv a k(1)] by blast
  then have "lthread_wait_fd kev me fd e w = Inr w'"
    using cur a(2) k(2)
    by (simp add: lthread_wait_fd_def lthread_poller_schedule_event_def register_event_ok i_lthread_yield_def lthread_current_def)
  with w' show ?thesis by blast
qed

subsection \<open>Properties\<close>

text \<open>The pool of \<open>running5\<close> with a fresh poller.\<close>

definition polled5 :: world where
  "polled5 = snd (lthread_poller_init 3 running5)"

lemma polled5_facts [simp]:
  "lts polled5 = [5 \<mapsto> lt5]" "scheds polled5 = scheds running5" "held polled5 = {}" "ready_q polled5 = ready_q pool2"
  "num_pending_events (poller polled5) = 0" "idle lt5"
  by (simp_all add: polled5_def lthread_poller_init_def Let_def idle_def)

lemma polled5_inv: "poll_inv {10, 11} polled5 Map.empty (\<lambda>_. [])"
  using wait_table_init [of 3 running5] by (simp add: poll_inv_def flip: polled5_def)

text \<open>(C13) Waiting for a descriptor and being woken, when nobody waits for the same event of it and \<open>kevent\<close> succeeds: the lthread that calls \<open>_lthread_wait_fd\<close> enters the table at the
  place of the descriptor and the event; an event of that descriptor takes it, and every other lthread that
  waits for the descriptor, out of the table and makes it runnable; and then the call returns -1 if the event
  has the end of file flag and 0 otherwise. \<open>num_pending_events\<close> counts the waiting lthreads throughout.\<close>

theorem lthread_wait_fd_woken:
  assumes inv: "poll_inv K w M R" and cur: "current_lthread (scheds w me) = Some a"
    and a: "lts w a = Some l" "lt_sched l = Some me" "me \<in> K" "idle l" "\<And>q. q \<in> K \<Longrightarrow> a \<notin> set (R q)"
      "\<not> has_flag (lt_state l) LT_ST_FDEOF"
    and k: "M (word_of_int fd, e) = None" "kev (change_for fd e) \<noteq> - 1" and ev: "lthread_poller_ev_get_fd ev = fd"
  shows "\<exists>w1 w2 w3 R2. lthread_wait_fd kev me fd e w = Inr w1 \<and> poll_inv K w1 (M((word_of_int fd, e) \<mapsto> a)) R \<and>
    handle_events [ev] w1 = Inr w2 \<and> poll_inv K w2 (without {word_of_int fd} M) R2 \<and> woken w2 R2 a \<and>
    lthread_wait_fd_resumed a w2 = Inr (if lthread_poller_ev_is_eof ev then - 1 else 0, w3)"
proof -
  let ?k = "(word_of_int fd, e)" and ?eof = "lthread_poller_ev_is_eof ev"
  obtain w1 where w1: "lthread_wait_fd kev me fd e w = Inr w1" "poll_inv K w1 (M(?k \<mapsto> a)) R"
    "lts w1 = (lts w)(a \<mapsto> wait_begin fd e l)"
    using wait_fd_ok [OF inv cur a(1-5) k(1), of kev] k(2) by blast
  have fd: "ev_fd16 ev = word_of_int fd" using ev by (simp add: ev_fd16_def)
  then have in_ws: "a \<in> waiters {ev_fd16 ev} (M(?k \<mapsto> a))" by (auto simp: waiters_def)
  have "(M(?k \<mapsto> a)) (ev_fd16 ev, e) = Some a" using fd by simp
  from event_step [OF w1(2) this, of "[]"] obtain w2 R2 where
    "handle_events [ev] w1 = handle_events [] w2" "poll_inv K w2 (without {ev_fd16 ev} (M(?k \<mapsto> a))) R2"
    "\<forall>x \<in> waiters {ev_fd16 ev} (M(?k \<mapsto> a)). woken w2 R2 x \<and> eof_after ?eof w1 w2 x" by blast
  with in_ws have w2: "handle_events [ev] w1 = Inr w2" "poll_inv K w2 (without {ev_fd16 ev} (M(?k \<mapsto> a))) R2"
    "woken w2 R2 a" "eof_after ?eof w1 w2 a" by simp_all
  have "without {ev_fd16 ev} (M(?k \<mapsto> a)) = without {word_of_int fd} M" using fd by (auto simp: without_def fun_eq_iff)
  moreover have "\<exists>w3. lthread_wait_fd_resumed a w2 = Inr (if ?eof then - 1 else 0, w3)"
    using w2(4) w1(3) a(6) by (auto simp: eof_after_def lthread_wait_fd_resumed_def)
  ultimately show ?thesis using w1(1,2) w2 by auto
qed

theorem lthread_wait_fd_woken_witness:
  "\<exists>w1 w2 w3. lthread_wait_fd (\<lambda>_. 0) 10 7 LT_EV_READ polled5 = Inr w1 \<and>
     handle_events [EV_SET 7 EVFILT_READ {EV_EOF} {}] w1 = Inr w2 \<and> lthread_wait_fd_resumed 5 w2 = Inr (- 1, w3)"
  using lthread_wait_fd_woken [OF polled5_inv, where me = 10 and a = 5 and l = lt5 and fd = 7 and e = LT_EV_READ and kev = "\<lambda>_. 0"
      and ev = "EV_SET 7 EVFILT_READ {EV_EOF} {}"]
  by (auto simp: EV_SET_def lthread_poller_ev_get_fd_def lthread_poller_ev_is_eof_def)

text \<open>(C17) One answer of \<open>kevent\<close>, after any number of interrupted calls, with events of different descriptors that
  are all waited for: every lthread that waits for one of them becomes runnable, exactly those leave the
  table, \<open>num_pending_events\<close> follows, the mutexes are given back, and no other lthread changes.\<close>

theorem lthread_poller_poll_delivers:
  assumes "poll_inv K w M R" "distinct (map ev_fd16 evs)" "\<And>ev. ev \<in> set evs \<Longrightarrow> \<exists>e a. M (ev_fd16 ev, e) = Some a"
  shows "\<exists>w' R'. lthread_poller_poll (replicate n Interrupted @ Events evs # as) w = Inr (True, as, w') \<and>
    poll_inv K w' (without (ev_fd16 ` set evs) M) R' \<and>
    (\<forall>a \<in> waiters (ev_fd16 ` set evs) M. woken w' R' a) \<and>
    (\<forall>a. a \<notin> waiters (ev_fd16 ` set evs) M \<longrightarrow> lts w' a = lts w a)"
proof -
  obtain w' R' where w': "handle_events evs w = Inr w'" "poll_inv K w' (without (ev_fd16 ` set evs) M) R'"
    "keeps (waiters (ev_fd16 ` set evs) M) w R w' R'" "\<forall>a \<in> waiters (ev_fd16 ` set evs) M. woken w' R' a"
    using handle_events_ok [OF assms] by blast
  have "lthread_poller_poll (replicate n Interrupted @ Events evs # as) w = Inr (True, as, w')"
    using w'(1) by (induction n) simp_all
  with w'(2-4) show ?thesis by (auto simp: keeps_def)
qed

theorem lthread_poller_poll_delivers_witness:
  "\<exists>w1 w2 R. lthread_poller_add_waiting_lthread 5 7 LT_EV_READ polled5 = Inr w1 \<and>
     lthread_poller_poll [Interrupted, Events [EV_SET 7 EVFILT_READ {} {}]] w1 = Inr (True, [], w2) \<and> woken w2 R 5"
proof -
  obtain w1 where w1: "lthread_poller_add_waiting_lthread 5 7 LT_EV_READ polled5 = Inr w1"
    "poll_inv {10, 11} w1 [(7, LT_EV_READ) \<mapsto> 5] (\<lambda>_. [])"
    using poll_inv_add [OF polled5_inv, of 5 lt5 10 7 LT_EV_READ] by auto
  have fd: "ev_fd16 (EV_SET 7 EVFILT_READ {} {}) = 7" by (simp add: ev_fd16_def EV_SET_def lthread_poller_ev_get_fd_def)
  then have "5 \<in> waiters (ev_fd16 ` set [EV_SET 7 EVFILT_READ {} {}]) [(7, LT_EV_READ) \<mapsto> 5]" by (auto simp: waiters_def)
  moreover have "\<exists>e a. [(7, LT_EV_READ) \<mapsto> 5] (7, e) = Some a" by auto
  ultimately show ?thesis
    using w1 fd lthread_poller_poll_delivers [OF w1(2), of "[EV_SET 7 EVFILT_READ {} {}]" 1 "[]"]
    by (simp del: handle_events.simps fun_upd_apply) blast
qed

text \<open>(C35) The descriptor is stored in 16 bits: two lthreads can wait for the same event of two descriptors at the
  same time if and only if the descriptors differ modulo 65536; otherwise the second one fails the assertion
  on the result of \<open>RB_INSERT\<close>, also when the descriptors are different.\<close>

theorem lthread_poller_add_waiting_fd_bound:
  assumes "poller_table w M" "is_idle w a" "is_idle w b" "a \<noteq> b" "M (wait_slot (fd, e)) = None" "M (wait_slot (fd', e)) = None"
  shows "\<exists>w1. lthread_poller_add_waiting_lthread a fd e w = Inr w1 \<and>
    (if fd mod 65536 = fd' mod 65536
     then lthread_poller_add_waiting_lthread b fd' e w1 = Inl (Assertion_failed ''lt_tmp == NULL'')
     else \<exists>w2. lthread_poller_add_waiting_lthread b fd' e w1 = Inr w2)"
proof -
  have slot: "wait_slot (fd', e) = wait_slot (fd, e) \<longleftrightarrow> fd mod 65536 = fd' mod 65536"
    by (simp add: wait_slot_def word_of_int_eq_iff take_bit_eq_mod) (auto simp: eq_commute)
  show ?thesis
  proof (cases "fd mod 65536 = fd' mod 65536")
    case True
    with et.add_collides [OF assms(1-5), of "(fd', e)"] slot show ?thesis by simp
  next
    case False
    obtain w1 where w1: "lthread_poller_add_waiting_lthread a fd e w = Inr w1"
      "poller_table w1 (M(wait_slot (fd, e) \<mapsto> a))" "is_idle w1 b"
      using et.add_law [OF assms(1,2,5)] assms(3,4) by auto
    have "(M(wait_slot (fd, e) \<mapsto> a)) (wait_slot (fd', e)) = None" using False slot assms(6) by simp
    from et.add_law [OF w1(2,3) this] False w1(1) show ?thesis by auto
  qed
qed

theorem lthread_poller_add_waiting_fd_bound_witness:
  "\<exists>w1. lthread_poller_add_waiting_lthread 5 3 LT_EV_READ (polled5\<lparr>lts := [5 \<mapsto> lt5, 6 \<mapsto> lt5]\<rparr>) = Inr w1 \<and>
     lthread_poller_add_waiting_lthread 6 65539 LT_EV_READ w1 = Inl (Assertion_failed ''lt_tmp == NULL'')"
proof -
  have "poller_table (polled5\<lparr>lts := [5 \<mapsto> lt5, 6 \<mapsto> lt5]\<rparr>) Map.empty"
    using wait_table_cong [OF poll_invD(1) [OF polled5_inv], of "polled5\<lparr>lts := [5 \<mapsto> lt5, 6 \<mapsto> lt5]\<rparr>"]
    by (simp add: poller_table_def)
  from lthread_poller_add_waiting_fd_bound [OF this, of 5 6 3 LT_EV_READ 65539] show ?thesis by (simp add: is_idle_def)
qed

text \<open>(C36) An event wakes the reader and the writer of its descriptor alike. When both wait, and the two one-shot filters
  both fire, the event handled second finds nobody and fails the assertion.\<close>

theorem lthread_poller_second_event_asserts:
  assumes "poll_inv K w M R" "M (ev_fd16 ev, LT_EV_READ) = Some r" "M (ev_fd16 ev, LT_EV_WRITE) = Some v" "ev_fd16 ev' = ev_fd16 ev"
  shows "handle_events (ev # ev' # evs) w = Inl (Assertion_failed ''lt_write != NULL || lt_read != NULL'')"
proof -
  obtain w1 R1 where w1: "handle_events (ev # ev' # evs) w = handle_events (ev' # evs) w1"
    "poll_inv K w1 (without {ev_fd16 ev} M) R1"
    using event_step [OF assms(1,2)] by blast
  have "without {ev_fd16 ev} M (ev_fd16 ev', e) = None" for e using assms(4) by (simp add: without_def)
  then have "lthread_poller_handle_event (lthread_poller_ev_get_fd ev') e eof w1 = Inr (NULL, w1)" for e eof
    using desched_event_none(2) [OF poll_invD(1) [OF w1(2)] _ poll_invD(6) [OF w1(2)]] by (simp add: ev_fd16_def)
  with w1(1) show ?thesis by simp
qed

theorem lthread_poller_second_event_asserts_witness:
  "\<exists>w1 w2. lthread_poller_add_waiting_lthread 5 7 LT_EV_READ (polled5\<lparr>lts := [5 \<mapsto> lt5, 6 \<mapsto> lt5]\<rparr>) = Inr w1 \<and>
     lthread_poller_add_waiting_lthread 6 7 LT_EV_WRITE w1 = Inr w2 \<and>
     handle_events [EV_SET 7 EVFILT_READ {} {}, EV_SET 7 EVFILT_WRITE {} {}] w2 =
       Inl (Assertion_failed ''lt_write != NULL || lt_read != NULL'')"
proof -
  let ?w = "polled5\<lparr>lts := [5 \<mapsto> lt5, 6 \<mapsto> lt5]\<rparr>"
  have "poll_inv {10, 11} ?w Map.empty (\<lambda>_. [])"
    using wait_table_cong [OF poll_invD(1) [OF polled5_inv], of ?w] by (simp add: poll_inv_def)
  from poll_inv_add [OF this, of 5 lt5 10 7 LT_EV_READ] obtain w1 where
    w1: "lthread_poller_add_waiting_lthread 5 7 LT_EV_READ ?w = Inr w1"
    "poll_inv {10, 11} w1 [(7, LT_EV_READ) \<mapsto> 5] (\<lambda>_. [])" "lts w1 6 = Some lt5" by auto
  from poll_inv_add [OF w1(2,3), of 10 7 LT_EV_WRITE] obtain w2 where
    w2: "lthread_poller_add_waiting_lthread 6 7 LT_EV_WRITE w1 = Inr w2"
    "poll_inv {10, 11} w2 [(7, LT_EV_READ) \<mapsto> 5, (7, LT_EV_WRITE) \<mapsto> 6] (\<lambda>_. [])" by auto
  have fd: "ev_fd16 (EV_SET 7 f {} {}) = 7" for f by (simp add: ev_fd16_def EV_SET_def lthread_poller_ev_get_fd_def)
  show ?thesis
    using w1(1) w2(1) fd
      lthread_poller_second_event_asserts [OF w2(2), of "EV_SET 7 EVFILT_READ {} {}" 5 6 "EV_SET 7 EVFILT_WRITE {} {}" "[]"]
    by simp
qed

end
