(* ===== verification/Epoll.thy ===== *)
theory Epoll
  imports Poller
begin

section \<open>The epoll backend\<close>

text \<open>
  \<open>src/src/lthread_epoll.c\<close>, the counterpart of the kqueue backend. The file refers to a poller that it does not declare and its functions lack the
  parameter that \<open>lthread_poller.h\<close> gives them; here they have it. The system call \<open>epoll_ctl\<close> is the argument \<open>ctl\<close>, which
  acts on the state of the epoll instance; the answers of the other calls are arguments.
\<close>

datatype epoll_op = EPOLL_CTL_ADD | EPOLL_CTL_MOD

record epoll_event =
  ep_events :: u32
  ep_fd     :: int

definition EPOLLIN :: u32 where "EPOLLIN = 1"
definition EPOLLHUP :: u32 where "EPOLLHUP = 16"


type_synonym 'k epoll_ctl = "epoll_op \<Rightarrow> int \<Rightarrow> epoll_event \<Rightarrow> 'k \<Rightarrow> int \<times> 'k"





definition epoll_ev_get_event :: "epoll_event \<Rightarrow> u32" where
  "epoll_ev_get_event ev = ep_events ev"

definition epoll_ev_is_eof :: "epoll_event \<Rightarrow> bool" where
  "epoll_ev_is_eof ev \<longleftrightarrow> ep_events ev AND EPOLLHUP \<noteq> 0"



text \<open>\<open>efd\<close> is the answer of \<open>eventfd\<close>, \<open>n\<close> the one of \<open>read\<close> or \<open>write\<close>.\<close>

definition epoll_ev_register_trigger :: "'k epoll_ctl \<Rightarrow> int \<Rightarrow> lthread_poller \<Rightarrow> 'k \<Rightarrow> (lthread_poller \<times> 'k) res" where
  "epoll_ev_register_trigger ctl efd p k =
     rbind (if poller_eventfd p = 0
            then rbind (assert_that ''eventfd != -1'' (efd \<noteq> - 1)) (\<lambda>_. Inr (p\<lparr>poller_eventfd := efd\<rparr>))
            else Inr p) (\<lambda>p.
     let (ret, k) = ctl EPOLL_CTL_ADD (poller_eventfd p) \<lparr>ep_events = EPOLLIN, ep_fd = poller_eventfd p\<rparr> k
     in rbind (assert_that ''ret != -1'' (ret \<noteq> - 1)) (\<lambda>_. Inr (p, k)))"

definition epoll_ev_clear_trigger :: "int \<Rightarrow> unit res" where
  "epoll_ev_clear_trigger n = assert_that ''read == sizeof(uint64_t)'' (n = 8)"

definition epoll_ev_trigger :: "int \<Rightarrow> unit res" where
  "epoll_ev_trigger n = assert_that ''write == sizeof(uint64_t)'' (n = 8)"

subsection \<open>What the kernel does\<close>






subsection \<open>Properties\<close>



end
