(* ===== verification/System_Proof.thy ===== *)
theory System_Proof
  imports Poller
begin

section \<open>The invariant of the whole system\<close>

text \<open>
  All components together: where every lthread is, and that each operation of the scheduler, the poller and the
  condition variables succeeds and keeps it.
\<close>

subsection \<open>What the scheduler does not touch\<close>

text \<open>The part of the state that belongs to the poller, the condition variables and the ring.\<close>

definition rest :: "world \<Rightarrow> (addr \<rightharpoonup> lthread_cond) \<times> tailq \<times> lthread_poller \<times> (addr \<Rightarrow> rb_entry) \<times> (addr \<Rightarrow> ptr)" where
  "rest w = (conds w, blocked_q w, poller w, wait_node w, neighbor w)"

lemma rest_upd [simp]:
  "rest (w\<lparr>lts := a\<rparr>) = rest w" "rest (w\<lparr>held := h\<rparr>) = rest w" "rest (w\<lparr>ready_q := q\<rparr>) = rest w"
  "rest (w\<lparr>pool := p\<rparr>) = rest w" "rest (w\<lparr>signalled := g\<rparr>) = rest w"
  "rest (upd_sched s (current_lthread_update f) w) = rest w" "rest (upd_sched s (block_state_update h') w) = rest w"
  "rest (upd_sched s (lthread_cache_update c) w) = rest w" "rest (put_sleeping s t w) = rest w"
  by (auto simp: rest_def upd_sched_def put_sleeping_def)

lemma rest_mutex [simp]:
  "lthread_mutex_lock m w = Inr w' \<Longrightarrow> rest w' = rest w" "lthread_mutex_unlock m w = Inr w' \<Longrightarrow> rest w' = rest w"
  "lthread_mutex_trylock m w = (b, w') \<Longrightarrow> rest w' = rest w"
  by (auto simp: lthread_mutex_lock_def lthread_mutex_unlock_def lthread_mutex_trylock_def rbind_eq_Inr split: if_splits)

lemma rest_upd_lt: "upd_lt a f w = Inr w' \<Longrightarrow> rest w' = rest w"
  by (auto simp: upd_lt_def rbind_eq_Inr)

lemma rest_wake_unsafe: "lthread_sched_wake_unsafe s w = Inr w' \<Longrightarrow> rest w' = rest w"
  by (auto simp: lthread_sched_wake_unsafe_def lthread_pool_end_deep_sleep_def lthread_os_cond_signal_def rbind_eq_Inr Let_def
      dest: rest_mutex split: sched_block_state.splits)

lemma rest_push_ready_unsafe: "lthread_sched_push_ready_unsafe s lt w = Inr w' \<Longrightarrow> rest w' = rest w"
  by (auto simp: lthread_sched_push_ready_unsafe_def rbind_eq_Inr dest!: rest_wake_unsafe rest_upd_lt split: if_splits)

lemma rest_wake: "lthread_sched_wake s w = Inr w' \<Longrightarrow> rest w' = rest w"
  by (auto simp: lthread_sched_wake_def rbind_eq_Inr dest!: rest_wake_unsafe rest_mutex)

lemma rest_push_ready: "lthread_sched_push_ready s lt w = Inr w' \<Longrightarrow> rest w' = rest w"
  by (auto simp: lthread_sched_push_ready_def rbind_eq_Inr dest!: rest_push_ready_unsafe rest_mutex)

lemma rest_desched_sleep: "lthread_desched_sleep_unsafe lt w = Inr w' \<Longrightarrow> rest w' = rest w"
  by (auto simp: lthread_desched_sleep_unsafe_def rbind_eq_Inr dest!: rest_push_ready_unsafe)

lemma rest_sleep_insert: "sleep_insert_loop s lt w = Some r \<Longrightarrow> r = Inr w' \<Longrightarrow> rest w' = rest w"
proof (induction arbitrary: w' rule: sleep_insert_loop.raw_induct [rotated, consumes 1])
  case (1 loop s lt w r)
  then show ?case by (fastforce split: option.splits prod.splits if_splits)
qed

lemma rest_schedule_expired_loop: "schedule_expired_loop now s w = Some r \<Longrightarrow> r = Inr w' \<Longrightarrow> rest w' = rest w"
proof (induction arbitrary: w' rule: schedule_expired_loop.raw_induct [rotated, consumes 1])
  case (1 loop now s w r)
  then show ?case by (fastforce split: option.splits sum.splits if_splits dest!: rest_desched_sleep)
qed

lemma rest_sched_pop: "lthread_sched_pop_ready s b w = Inr (p, w') \<Longrightarrow> rest w' = rest w"
  by (auto simp: lthread_sched_pop_ready_def rbind_eq_Inr Let_def dest!: rest_mutex split: if_splits option.splits prod.splits)

lemma rest_pop_ring: "pop_ready_ring s i p w = Some r \<Longrightarrow> r = Inr (p', w') \<Longrightarrow> rest w' = rest w"
proof (induction arbitrary: w' p' rule: pop_ready_ring.raw_induct [rotated, consumes 1])
  case (1 loop s i p w r)
  then show ?case by (fastforce split: option.splits sum.splits if_splits prod.splits dest!: rest_sched_pop)
qed

lemma rest_schedule_expired: "lthread_schedule_expired now s w = Inr w' \<Longrightarrow> rest w' = rest w"
proof -
  assume "lthread_schedule_expired now s w = Inr w'"
  then obtain w1 w2 where "lthread_mutex_lock (Sched_mutex s) w = Inr w1" "returns (schedule_expired_loop now s w1) = Inr w2"
    "lthread_mutex_unlock (Sched_mutex s) w2 = Inr w'"
    by (auto simp: lthread_schedule_expired_def rbind_eq_Inr)
  then show ?thesis
    by (cases "schedule_expired_loop now s w1") (auto dest!: rest_schedule_expired_loop rest_mutex)
qed

lemma rbind_pair_Inr: "rbind m (\<lambda>(a, b). f a b) = Inr y \<longleftrightarrow> (\<exists>a b. m = Inr (a, b) \<and> f a b = Inr y)"
  by (auto simp: rbind_eq_Inr)

lemma rest_pop_ready: "lthread_pop_ready s w = Inr (p, w') \<Longrightarrow> rest w' = rest w"
proof -
  assume "lthread_pop_ready s w = Inr (p, w')"
  then obtain p1 w1 p2 w2 p3 w3 where 1: "lthread_sched_pop_ready s False w = Inr (p1, w1)"
    and 2: "returns (pop_ready_ring s (neighbor w1 s) p1 w1) = Inr (p2, w2)"
    and 3: "(if p2 = NULL then lthread_sched_pop_ready s True w2 else Inr (p2, w2)) = Inr (p3, w3)"
    and 4: "(case p3 of None \<Rightarrow> Inr (NULL, w3)
        | Some lt \<Rightarrow> rbind (if neighbor w3 s \<noteq> Some s then rbind (of_option (neighbor w3 s)) (\<lambda>n. lthread_sched_wake n w3) else Inr w3) (\<lambda>w.
            rbind (upd_lt lt (lt_sched_update (\<lambda>_. Some s)) w) (\<lambda>w. Inr (Some lt, w)))) = Inr (p, w')"
    unfolding lthread_pop_ready_def rbind_pair_Inr by blast
  have "rest w1 = rest w" by (rule rest_sched_pop [OF 1])
  moreover have "rest w2 = rest w1"
    using 2 by (cases "pop_ready_ring s (neighbor w1 s) p1 w1") (auto dest: rest_pop_ring)
  moreover have "rest w3 = rest w2" using 3 by (auto dest: rest_sched_pop split: if_splits)
  moreover have "rest w' = rest w3"
    using 4 by (auto simp: rbind_eq_Inr dest!: rest_wake rest_upd_lt split: option.splits if_splits)
  ultimately show ?thesis by simp
qed

lemma rest_sched_sleep:
  assumes "lthread_sched_sleep now me lt ms w = Inr w'"
  shows "rest w' = rest w"
proof -
  obtain s w1 w2 w3 w4 where 1: "lthread_mutex_lock (Sched_mutex s) w = Inr w1"
    and 2: "upd_lt lt (lt_state_update (set_flag LT_ST_SLEEPING)) w1 = Inr w2"
    and 3: "(if ms \<noteq> 0 then rbind (upd_lt lt (sleep_usecs_update (\<lambda>_. now + ms * 1000)) w2) (\<lambda>w. returns (sleep_insert_loop s lt w))
        else upd_lt lt (sleep_usecs_update (\<lambda>_. 0)) w2) = Inr w3"
    and 4: "lthread_mutex_unlock (Sched_mutex s) w3 = Inr w4" and 5: "i_lthread_yield me w4 = Inr w'"
    using assms unfolding lthread_sched_sleep_def Let_def rbind_eq_Inr by blast
  have "rest w3 = rest w2"
  proof (cases "ms = 0")
    case False
    with 3 obtain v where v: "upd_lt lt (sleep_usecs_update (\<lambda>_. now + ms * 1000)) w2 = Inr v"
      "returns (sleep_insert_loop s lt v) = Inr w3" by (auto simp: rbind_eq_Inr)
    then show ?thesis by (cases "sleep_insert_loop s lt v") (auto dest!: rest_sleep_insert rest_upd_lt)
  qed (use 3 in \<open>auto dest: rest_upd_lt\<close>)
  moreover have "w' = w4" using 5 by (auto simp: i_lthread_yield_def rbind_eq_Inr)
  ultimately show ?thesis using rest_mutex(1) [OF 1] rest_upd_lt [OF 2] rest_mutex(2) [OF 4] by simp
qed

subsection \<open>The invariant of the system\<close>

text \<open>Where an lthread that does not run can be: in the ready queue or the sleep tree of a scheduler, in the tree of the
  poller, in the queue of a condition variable, or in none of them (\<open>Adrift\<close>), so that nothing leads to it any more.\<close>

datatype place = Ready addr | Sleeping addr | Waiting "u16 \<times> lthread_event" | Blocked addr | Adrift

definition adrift :: "(addr \<rightharpoonup> place) \<Rightarrow> addr set" where
  "adrift loc = {a. loc a = Some Adrift}"

lemma adrift_upd [simp]:
  "p \<noteq> Some Adrift \<Longrightarrow> adrift (loc(a := p)) = adrift loc - {a}" "adrift (loc(a \<mapsto> Adrift)) = insert a (adrift loc)"
  by (auto simp: adrift_def)

lemma adrift_move: "loc a \<noteq> Some Adrift \<Longrightarrow> p \<noteq> Some Adrift \<Longrightarrow> adrift (loc(a := p)) = adrift loc"
  by (auto simp: adrift_def)

text \<open>\<open>loc\<close> gives the place of every lthread; the abstract queues \<open>R\<close> and \<open>B\<close>, the sleep trees \<open>S\<close> and the table \<open>M\<close> hold
  exactly the lthreads that are placed there.\<close>

definition placed ::
  "addr set \<Rightarrow> addr set \<Rightarrow> (addr \<Rightarrow> addr list) \<Rightarrow> (addr \<Rightarrow> addr list) \<Rightarrow> (u16 \<times> lthread_event \<rightharpoonup> addr) \<Rightarrow>
   (addr \<Rightarrow> addr list) \<Rightarrow> addr \<Rightarrow> place option \<Rightarrow> bool" where
  "placed K C R S M B a p \<longleftrightarrow>
     (\<forall>s \<in> K. a \<in> set (R s) \<longleftrightarrow> p = Some (Ready s)) \<and> (\<forall>s \<in> K. a \<in> set (S s) \<longleftrightarrow> p = Some (Sleeping s)) \<and>
     (\<forall>k. M k = Some a \<longleftrightarrow> p = Some (Waiting k)) \<and> (\<forall>c \<in> C. a \<in> set (B c) \<longleftrightarrow> p = Some (Blocked c)) \<and>
     (\<forall>c. p = Some (Blocked c) \<longrightarrow> c \<in> C)"

definition loc_ok ::
  "addr set \<Rightarrow> addr set \<Rightarrow> (addr \<Rightarrow> addr list) \<Rightarrow> (addr \<Rightarrow> addr list) \<Rightarrow> (u16 \<times> lthread_event \<rightharpoonup> addr) \<Rightarrow>
   (addr \<Rightarrow> addr list) \<Rightarrow> (addr \<rightharpoonup> place) \<Rightarrow> bool" where
  "loc_ok K C R S M B loc \<longleftrightarrow> (\<forall>a. placed K C R S M B a (loc a))"

text \<open>An lthread and its place. \<open>U\<close> are the schedulers whose coroutine has given up the processor but whose
  \<open>_lthread_resume\<close> has not finished yet. An lthread without a place runs; if it has given up the processor it is
  going to be queued or freed.\<close>

definition lt_ok :: "addr set \<Rightarrow> world \<Rightarrow> addr set \<Rightarrow> (addr \<rightharpoonup> place) \<Rightarrow> addr \<Rightarrow> lthread \<Rightarrow> addr \<Rightarrow> bool" where
  "lt_ok K w U loc a l s \<longleftrightarrow> s \<in> K \<and> lt_sched l = Some s \<and>
     (is_running l \<longleftrightarrow> current_lthread (scheds w s) = Some a) \<and>
     (is_blocked l \<longleftrightarrow> (\<exists>c. loc a = Some (Blocked c))) \<and>
     (idle l \<longleftrightarrow> \<not> (\<exists>k. loc a = Some (Waiting k))) \<and>
     (needs_resched l \<longrightarrow> is_running l \<and> s \<in> U \<and> loc a = None) \<and>
     (has_flag (lt_state l) LT_ST_EXITED \<longrightarrow> is_running l \<and> s \<in> U \<and> loc a = None \<and> \<not> needs_resched l) \<and>
     (sleep_usecs l \<noteq> 0 \<longrightarrow> is_running l \<and> loc a = Some (Sleeping s)) \<and>
     (\<forall>q. loc a = Some (Ready q) \<longrightarrow> q = s \<and> \<not> is_running l) \<and>
     (\<forall>q. loc a = Some (Sleeping q) \<longrightarrow> q = s) \<and>
     (loc a \<noteq> None \<and> is_running l \<longrightarrow> s \<in> U) \<and>
     (loc a = None \<longrightarrow> is_running l \<and> (s \<in> U \<longrightarrow> needs_resched l \<or> has_flag (lt_state l) LT_ST_EXITED))"

definition sys_at ::
  "addr list \<Rightarrow> addr set \<Rightarrow> world \<Rightarrow> addr set \<Rightarrow> (addr \<Rightarrow> addr list) \<Rightarrow> (addr \<Rightarrow> addr list) \<Rightarrow>
   (u16 \<times> lthread_event \<rightharpoonup> addr) \<Rightarrow> (addr \<Rightarrow> addr list) \<Rightarrow> (addr \<rightharpoonup> place) \<Rightarrow> bool" where
  "sys_at ss C w U R S M B loc \<longleftrightarrow>
     tq_family (set ss) (ready_q w) R \<and> sleep_family (set ss) w S \<and> (\<forall>s \<in> set ss. sorted_by (sleep_key w) (S s)) \<and>
     wait_table w M \<and> num_pending_events (poller w) = of_nat (card (dom M)) \<and> cond_inv C w B \<and>
     loc_ok (set ss) C R S M B loc \<and> held w = {} \<and> is_ring (neighbor w) ss \<and>
     (\<forall>a l. lts w a = Some l \<longrightarrow> (\<exists>s. lt_ok (set ss) w U loc a l s)) \<and> (\<forall>a. loc a \<noteq> None \<longrightarrow> lts w a \<noteq> None) \<and>
     (\<forall>s \<in> set ss. \<forall>a. current_lthread (scheds w s) = Some a \<longrightarrow> (\<exists>l. lts w a = Some l \<and> lt_sched l = Some s)) \<and>
     (\<forall>s \<in> U. s \<in> set ss \<and> current_lthread (scheds w s) \<noteq> NULL) \<and> finite (dom (lts w)) \<and> card (dom (lts w)) < 2 ^ 64"

lemma sys_atD:
  assumes "sys_at ss C w U R S M B loc"
  shows "tq_family (set ss) (ready_q w) R" "sleep_family (set ss) w S" "\<And>s. s \<in> set ss \<Longrightarrow> sorted_by (sleep_key w) (S s)"
    "wait_table w M" "num_pending_events (poller w) = of_nat (card (dom M))" "cond_inv C w B"
    "loc_ok (set ss) C R S M B loc" "held w = {}" "is_ring (neighbor w) ss"
    "\<And>a l. lts w a = Some l \<Longrightarrow> \<exists>s. lt_ok (set ss) w U loc a l s" "\<And>a. loc a \<noteq> None \<Longrightarrow> lts w a \<noteq> None"
    "\<And>s a. s \<in> set ss \<Longrightarrow> current_lthread (scheds w s) = Some a \<Longrightarrow> \<exists>l. lts w a = Some l \<and> lt_sched l = Some s"
    "\<And>s. s \<in> U \<Longrightarrow> s \<in> set ss \<and> current_lthread (scheds w s) \<noteq> NULL" "finite (dom (lts w))" "card (dom (lts w)) < 2 ^ 64"
  using assms unfolding sys_at_def by blast+

lemma loc_okD:
  assumes "loc_ok K C R S M B loc"
  shows "s \<in> K \<Longrightarrow> a \<in> set (R s) \<longleftrightarrow> loc a = Some (Ready s)" "s \<in> K \<Longrightarrow> a \<in> set (S s) \<longleftrightarrow> loc a = Some (Sleeping s)"
    "M k = Some a \<longleftrightarrow> loc a = Some (Waiting k)" "c \<in> C \<Longrightarrow> a \<in> set (B c) \<longleftrightarrow> loc a = Some (Blocked c)"
    "loc a = Some (Blocked c) \<Longrightarrow> c \<in> C"
  using assms unfolding loc_ok_def placed_def by blast+

lemma lt_okD:
  assumes "lt_ok K w U loc a l s"
  shows "s \<in> K" "lt_sched l = Some s" "is_running l \<longleftrightarrow> current_lthread (scheds w s) = Some a"
    "is_blocked l \<longleftrightarrow> (\<exists>c. loc a = Some (Blocked c))" "idle l \<longleftrightarrow> \<not> (\<exists>k. loc a = Some (Waiting k))"
    "needs_resched l \<Longrightarrow> is_running l \<and> s \<in> U \<and> loc a = None"
    "has_flag (lt_state l) LT_ST_EXITED \<Longrightarrow> is_running l \<and> s \<in> U \<and> loc a = None \<and> \<not> needs_resched l"
    "sleep_usecs l \<noteq> 0 \<Longrightarrow> is_running l \<and> loc a = Some (Sleeping s)"
    "loc a = Some (Ready q) \<Longrightarrow> q = s \<and> \<not> is_running l" "loc a = Some (Sleeping q) \<Longrightarrow> q = s"
    "loc a \<noteq> None \<Longrightarrow> is_running l \<Longrightarrow> s \<in> U"
    "loc a = None \<Longrightarrow> is_running l \<and> (s \<in> U \<longrightarrow> needs_resched l \<or> has_flag (lt_state l) LT_ST_EXITED)"
  using assms unfolding lt_ok_def by blast+

text \<open>The lthreads a step does not concern keep what \<open>lt_ok\<close> says of them.\<close>

lemma lt_ok_other:
  assumes "lt_ok K w U loc a l s" "loc' a = loc a"
    "\<And>s. current_lthread (scheds w' s) = Some a \<longleftrightarrow> current_lthread (scheds w s) = Some a"
    "\<And>s. current_lthread (scheds w s) = Some a \<Longrightarrow> s \<in> U' \<longleftrightarrow> s \<in> U"
  shows "lt_ok K w' U' loc' a l s"
proof (cases "is_running l")
  case True
  then have "s \<in> U' \<longleftrightarrow> s \<in> U" using assms(4) lt_okD(3) [OF assms(1)] by simp
  with assms(1) show ?thesis unfolding lt_ok_def assms(2,3) by blast
next
  case False
  with assms(1) show ?thesis unfolding lt_ok_def assms(2,3) by blast
qed

text \<open>A lthread runs on one scheduler at most.\<close>

lemma current_unique:
  assumes "sys_at ss C w U R S M B loc" "s \<in> set ss" "s' \<in> set ss"
    "current_lthread (scheds w s) = Some a" "current_lthread (scheds w s') = Some a"
  shows "s' = s"
  using sys_atD(12) [OF assms(1,2,4)] sys_atD(12) [OF assms(1,3,5)] by auto

lemma sys_at_running:
  assumes "sys_at ss C w U R S M B loc" "s \<in> set ss" "current_lthread (scheds w s) = Some a"
  obtains l where "lts w a = Some l" "lt_ok (set ss) w U loc a l s" "is_running l"
proof -
  obtain l where l: "lts w a = Some l" "lt_sched l = Some s" using sys_atD(12) [OF assms] by blast
  obtain s' where ok: "lt_ok (set ss) w U loc a l s'" using sys_atD(10) [OF assms(1) l(1)] by blast
  then have "s' = s" using lt_okD(2) [OF ok] l(2) by simp
  with that l(1) ok lt_okD(3) [OF ok] assms(3) show ?thesis by blast
qed

text \<open>The state after a step that concerns the lthread \<open>a\<close>, which has the place \<open>p\<close> afterwards.\<close>

lemma lts_step:
  assumes inv: "sys_at ss C w U R S M B loc" and new: "lts w' = (lts w)(a \<mapsto> l')" and a: "lt_ok (set ss) w' U' (loc(a := p)) a l' s"
    and cur: "\<And>x q. x \<noteq> a \<Longrightarrow> current_lthread (scheds w' q) = Some x \<longleftrightarrow> current_lthread (scheds w q) = Some x"
    and susp: "\<And>q x. x \<noteq> a \<Longrightarrow> current_lthread (scheds w q) = Some x \<Longrightarrow> q \<in> U' \<longleftrightarrow> q \<in> U"
  shows "\<forall>x l. lts w' x = Some l \<longrightarrow> (\<exists>s. lt_ok (set ss) w' U' (loc(a := p)) x l s)"
    "\<forall>x. (loc(a := p)) x \<noteq> None \<longrightarrow> lts w' x \<noteq> None"
proof (intro allI impI)
  fix x l assume l: "lts w' x = Some l"
  show "\<exists>s. lt_ok (set ss) w' U' (loc(a := p)) x l s"
  proof (cases "x = a")
    case True
    with l new have "l = l'" by simp
    with True a show ?thesis by blast
  next
    case False
    with l new have "lts w x = Some l" by simp
    then obtain s' where s': "lt_ok (set ss) w U loc x l s'" using sys_atD(10) [OF inv] by blast
    have "lt_ok (set ss) w' U' (loc(a := p)) x l s'"
      by (rule lt_ok_other [OF s' _ cur [OF False] susp [OF False]]) (use False in simp)
    then show ?thesis ..
  qed
next
  show "\<forall>x. (loc(a := p)) x \<noteq> None \<longrightarrow> lts w' x \<noteq> None" using new sys_atD(11) [OF inv] by auto
qed

subsection \<open>Assembling the invariant\<close>

lemma sys_stepI:
  assumes inv: "sys_at ss C w U R S M B loc" and new: "lts w' = (lts w)(a \<mapsto> l')" "lts w a \<noteq> None"
    and a: "lt_ok (set ss) w' U' (loc(a := p)) a l' s"
    and cur: "\<And>x q. x \<noteq> a \<Longrightarrow> current_lthread (scheds w' q) = Some x \<longleftrightarrow> current_lthread (scheds w q) = Some x"
    and susp: "\<And>x q. x \<noteq> a \<Longrightarrow> current_lthread (scheds w q) = Some x \<Longrightarrow> q \<in> U' \<longleftrightarrow> q \<in> U"
    and curA: "\<And>q. q \<in> set ss \<Longrightarrow> current_lthread (scheds w' q) = Some a \<Longrightarrow> q = s"
    and U': "\<And>q. q \<in> U' \<Longrightarrow> q \<in> set ss \<and> current_lthread (scheds w' q) \<noteq> NULL"
    and parts: "tq_family (set ss) (ready_q w') R'" "sleep_family (set ss) w' S'" "\<And>q. q \<in> set ss \<Longrightarrow> sorted_by (sleep_key w') (S' q)"
      "wait_table w' M'" "num_pending_events (poller w') = of_nat (card (dom M'))" "cond_inv C w' B'"
      "loc_ok (set ss) C R' S' M' B' (loc(a := p))" "held w' = {}" "neighbor w' = neighbor w"
  shows "sys_at ss C w' U' R' S' M' B' (loc(a := p))"
proof -
  have run: "\<forall>q \<in> set ss. \<forall>x. current_lthread (scheds w' q) = Some x \<longrightarrow> (\<exists>l. lts w' x = Some l \<and> lt_sched l = Some q)"
  proof (intro ballI allI impI)
    fix q x assume q: "q \<in> set ss" "current_lthread (scheds w' q) = Some x"
    show "\<exists>l. lts w' x = Some l \<and> lt_sched l = Some q"
    proof (cases "x = a")
      case True
      with curA [OF q(1)] q(2) have "q = s" by simp
      with True new(1) lt_okD(2) [OF a] show ?thesis by simp
    next
      case False
      with cur [OF False, of q] q sys_atD(12) [OF inv q(1), of x] new(1) show ?thesis by simp
    qed
  qed
  have "dom (lts w') = dom (lts w)" using new by auto
  with sys_atD(14,15) [OF inv] have fin: "finite (dom (lts w'))" "card (dom (lts w')) < 2 ^ 64" by simp_all
  have ring: "is_ring (neighbor w') ss" using sys_atD(9) [OF inv] parts(9) by simp
  have "\<forall>x l. lts w' x = Some l \<longrightarrow> (\<exists>s. lt_ok (set ss) w' U' (loc(a := p)) x l s)" "\<forall>x. (loc(a := p)) x \<noteq> None \<longrightarrow> lts w' x \<noteq> None"
    by (rule lts_step [OF inv new(1) a cur susp]; assumption)+
  then show ?thesis
    unfolding sys_at_def using parts(1,2,4-8) parts(3) ring run U' fin by (intro conjI) (assumption | blast)+
qed

text \<open>The parts that a change of the lthread \<open>a\<close> alone leaves as they are.\<close>

lemma sorted_keep:
  assumes "sys_at ss C w U R S M B loc" "lts w' = (lts w)(a \<mapsto> l')" "\<And>s. loc a \<noteq> Some (Sleeping s)" "q \<in> set ss"
  shows "sorted_by (sleep_key w') (S q)"
proof -
  have "sleep_key w' x = sleep_key w x" if "x \<in> set (S q)" for x
  proof -
    have "x \<noteq> a" using that loc_okD(2) [OF sys_atD(7) [OF assms(1)] assms(4), of x] assms(3) by auto
    then show ?thesis using assms(2) by (simp add: sleep_key_def node_at_def)
  qed
  then have "sorted_by (sleep_key w') (S q) = sorted_by (sleep_key w) (S q)" by (rule sorted_by_cong)
  then show ?thesis using sys_atD(3) [OF assms(1,4)] by simp
qed

lemma wait_keep:
  assumes "sys_at ss C w U R S M B loc" "lts w' = (lts w)(a \<mapsto> l')" "waiting w' = waiting w"
    "\<And>k. loc a = Some (Waiting k) \<Longrightarrow> lts w a = Some l \<and> waits l' = waits l \<and> waits_for l' = waits_for l"
  shows "wait_table w' M"
proof (rule wait_table_cong [OF sys_atD(4) [OF assms(1)] assms(3)])
  fix x lx assume x: "lts w x = Some lx" "x \<in> ran M"
  show "\<exists>l'. lts w' x = Some l' \<and> (waits lx \<longrightarrow> waits l') \<and> waits_for l' = waits_for lx"
  proof (cases "x = a")
    case True
    from x(2) obtain k where "M k = Some x" by (auto simp: ran_def)
    with True loc_okD(3) [OF sys_atD(7) [OF assms(1)], of k x] assms(4) [of k] x(1) assms(2) show ?thesis by simp
  qed (use x(1) assms(2) in simp)
qed

lemma cond_keep:
  assumes "cond_inv C w B" "blocked_q w' = blocked_q w" "conds w' = conds w"
    "\<And>c x l. c \<in> C \<Longrightarrow> x \<in> set (B c) \<Longrightarrow> lts w x = Some l \<Longrightarrow> is_blocked l \<Longrightarrow> \<exists>l'. lts w' x = Some l' \<and> is_blocked l'"
  shows "cond_inv C w' B"
  using assms unfolding cond_inv_def by (metis (no_types, lifting))

lemma blocked_keep:
  assumes "sys_at ss C w U R S M B loc" "lts w' = (lts w)(a \<mapsto> l')" "blocked_q w' = blocked_q w" "conds w' = conds w"
    "\<And>c. loc a = Some (Blocked c) \<Longrightarrow> is_blocked l'"
  shows "cond_inv C w' B"
proof (rule cond_keep [OF sys_atD(6) [OF assms(1)] assms(3,4)])
  fix c x l assume "c \<in> C" "x \<in> set (B c)" "lts w x = Some l" "is_blocked l"
  with loc_okD(4) [OF sys_atD(7) [OF assms(1)], of c x] assms(2,5) show "\<exists>l'. lts w' x = Some l' \<and> is_blocked l'"
    by (cases "x = a") auto
qed

lemma rest_parts:
  assumes "rest w' = rest w"
  shows "waiting w' = waiting w" "num_pending_events (poller w') = num_pending_events (poller w)" "blocked_q w' = blocked_q w"
    "conds w' = conds w" "neighbor w' = neighbor w" "poller w' = poller w"
  using assms by (simp_all add: rest_def waiting_def)

text \<open>Leaving and entering a place.\<close>

lemma loc_ok_upd:
  assumes "loc_ok K C R S M B loc" "placed K C R' S' M' B' a p"
    and "\<And>x s. x \<noteq> a \<Longrightarrow> x \<in> set (R' s) \<longleftrightarrow> x \<in> set (R s)" "\<And>x s. x \<noteq> a \<Longrightarrow> x \<in> set (S' s) \<longleftrightarrow> x \<in> set (S s)"
      "\<And>x k. x \<noteq> a \<Longrightarrow> M' k = Some x \<longleftrightarrow> M k = Some x" "\<And>x c. x \<noteq> a \<Longrightarrow> x \<in> set (B' c) \<longleftrightarrow> x \<in> set (B c)"
  shows "loc_ok K C R' S' M' B' (loc(a := p))"
  unfolding loc_ok_def
proof
  fix x show "placed K C R' S' M' B' x ((loc(a := p)) x)"
    using assms by (cases "x = a") (simp_all add: loc_ok_def placed_def)
qed

lemma loc_leave:
  assumes "loc_ok K C R S M B loc"
  shows "R q = a # xs \<Longrightarrow> distinct (a # xs) \<Longrightarrow> q \<in> K \<Longrightarrow> loc_ok K C (R(q := xs)) S M B (loc(a := None))"
    and "M k = Some a \<Longrightarrow> loc_ok K C R S (M(k := None)) B (loc(a := None))"
    and "B c = a # xs \<Longrightarrow> distinct (a # xs) \<Longrightarrow> c \<in> C \<Longrightarrow> loc_ok K C R S M (B(c := xs)) (loc(a := None))"
proof -
  note d = loc_okD [OF assms]
  show "loc_ok K C (R(q := xs)) S M B (loc(a := None))" if "R q = a # xs" "distinct (a # xs)" "q \<in> K"
  proof (rule loc_ok_upd [OF assms])
    have "loc a = Some (Ready q)" using d(1) [OF that(3), of a] that(1) by simp
    with that(2) show "placed K C (R(q := xs)) S M B a None" by (simp add: placed_def d)
  qed (use that in auto)
  show "loc_ok K C R S (M(k := None)) B (loc(a := None))" if "M k = Some a"
  proof (rule loc_ok_upd [OF assms])
    have "loc a = Some (Waiting k)" using d(3) [of k a] that by simp
    then show "placed K C R S (M(k := None)) B a None" by (simp add: placed_def d)
  qed (use that in auto)
  show "loc_ok K C R S M (B(c := xs)) (loc(a := None))" if "B c = a # xs" "distinct (a # xs)" "c \<in> C"
  proof (rule loc_ok_upd [OF assms])
    have "loc a = Some (Blocked c)" using d(4) [OF that(3), of a] that(1) by simp
    with that(2) show "placed K C R S M (B(c := xs)) a None" by (simp add: placed_def d)
  qed (use that in auto)
qed

lemma loc_enter:
  assumes "loc_ok K C R S M B loc" "loc a = None"
  shows "q \<in> K \<Longrightarrow> loc_ok K C (R(q := R q @ [a])) S M B (loc(a \<mapsto> Ready q))"
    and "q \<in> K \<Longrightarrow> set xs = insert a (set (S q)) \<Longrightarrow> loc_ok K C R (S(q := xs)) M B (loc(a \<mapsto> Sleeping q))"
    and "M k = None \<Longrightarrow> loc_ok K C R S (M(k \<mapsto> a)) B (loc(a \<mapsto> Waiting k))"
    and "c \<in> C \<Longrightarrow> loc_ok K C R S M (B(c := B c @ [a])) (loc(a \<mapsto> Blocked c))"
proof -
  note d = loc_okD [OF assms(1)]
  show "loc_ok K C (R(q := R q @ [a])) S M B (loc(a \<mapsto> Ready q))" if "q \<in> K"
    by (rule loc_ok_upd [OF assms(1)]) (use that assms(2) in \<open>auto simp: placed_def d\<close>)
  show "loc_ok K C R (S(q := xs)) M B (loc(a \<mapsto> Sleeping q))" if "q \<in> K" "set xs = insert a (set (S q))"
    by (rule loc_ok_upd [OF assms(1)]) (use that assms(2) in \<open>auto simp: placed_def d\<close>)
  show "loc_ok K C R S (M(k \<mapsto> a)) B (loc(a \<mapsto> Waiting k))" if "M k = None"
  proof (rule loc_ok_upd [OF assms(1)])
    show "placed K C R S (M(k \<mapsto> a)) B a (Some (Waiting k))" using assms(2) by (auto simp: placed_def d)
  qed (use that in auto)
  show "loc_ok K C R S M (B(c := B c @ [a])) (loc(a \<mapsto> Blocked c))" if "c \<in> C"
    by (rule loc_ok_upd [OF assms(1)]) (use that assms(2) in \<open>auto simp: placed_def d\<close>)
qed

subsection \<open>Steps of the lthread that runs\<close>

lemma sys_at_active:
  assumes "sys_at ss C w U R S M B loc" "s \<in> set ss" "current_lthread (scheds w s) = Some a" "s \<notin> U"
  obtains l where "lts w a = Some l" "lt_ok (set ss) w U loc a l s" "is_running l" "lt_sched l = Some s" "loc a = None"
    "\<not> needs_resched l" "\<not> has_flag (lt_state l) LT_ST_EXITED" "sleep_usecs l = 0" "idle l" "\<not> is_blocked l"
proof -
  obtain l where l: "lts w a = Some l" "lt_ok (set ss) w U loc a l s" "is_running l"
    using sys_at_running [OF assms(1-3)] by blast
  note d = lt_okD [OF l(2)]
  have loc: "loc a = None" using d(11) l(3) assms(4) by blast
  have "\<not> needs_resched l" "\<not> has_flag (lt_state l) LT_ST_EXITED" using d(6,7) assms(4) by blast+
  moreover have "sleep_usecs l = 0" "idle l" "\<not> is_blocked l" using d(4,5,8) loc by auto
  ultimately show ?thesis using that l loc d(2) by blast
qed

lemma not_in_queues:
  assumes "sys_at ss C w U R S M B loc" "loc a = None"
  shows "q \<in> set ss \<Longrightarrow> a \<notin> set (R q)" "q \<in> set ss \<Longrightarrow> a \<notin> set (S q)" "a \<notin> ran M" "c \<in> C \<Longrightarrow> a \<notin> set (B c)"
  using loc_okD [OF sys_atD(7) [OF assms(1)]] assms(2) by (auto simp: ran_def)

text \<open>The lthread \<open>a\<close>, which runs on \<open>s\<close>, changes; \<open>U'\<close> tells whether it has given up the processor.\<close>

lemma own_stepI:
  assumes inv: "sys_at ss C w U R S M B loc" and s: "s \<in> set ss" "current_lthread (scheds w s) = Some a"
    and new: "lts w' = (lts w)(a \<mapsto> l')" and a: "lt_ok (set ss) w' U' (loc(a := p)) a l' s"
    and cur: "\<And>q. current_lthread (scheds w' q) = current_lthread (scheds w q)" and U': "U' = U \<or> U' = insert s U"
    and parts: "tq_family (set ss) (ready_q w') R'" "sleep_family (set ss) w' S'" "\<And>q. q \<in> set ss \<Longrightarrow> sorted_by (sleep_key w') (S' q)"
      "wait_table w' M'" "num_pending_events (poller w') = of_nat (card (dom M'))" "cond_inv C w' B'"
      "loc_ok (set ss) C R' S' M' B' (loc(a := p))" "held w' = {}" "neighbor w' = neighbor w"
  shows "sys_at ss C w' U' R' S' M' B' (loc(a := p))"
proof (rule sys_stepI [OF inv new _ a])
  show "lts w a \<noteq> None" using sys_atD(12) [OF inv s] by auto
  show "q \<in> U' \<longleftrightarrow> q \<in> U" if "x \<noteq> a" "current_lthread (scheds w q) = Some x" for x q using U' that s(2) by auto
  show "q = s" if "q \<in> set ss" "current_lthread (scheds w' q) = Some a" for q
    using current_unique [OF inv s(1) that(1) s(2)] that(2) cur by simp
  show "q \<in> set ss \<and> current_lthread (scheds w' q) \<noteq> NULL" if "q \<in> U'" for q
    using U' that s cur sys_atD(13) [OF inv, of q] by auto
qed (use cur parts in auto)

text \<open>An lthread that runs and is in no queue.\<close>

lemma own_free_stepI:
  assumes inv: "sys_at ss C w U R S M B loc" and s: "s \<in> set ss" "current_lthread (scheds w s) = Some a" and loc: "loc a = None"
    and w': "w' = w\<lparr>lts := (lts w)(a \<mapsto> l')\<rparr>" and a: "lt_ok (set ss) w' U' (loc(a := None)) a l' s"
    and U': "U' = U \<or> U' = insert s U"
  shows "sys_at ss C w' U' R S M B loc"
proof -
  have new: "lts w' = (lts w)(a \<mapsto> l')" and rest: "rest w' = rest w" and l0: "loc(a := None) = loc" using w' loc by auto
  note i = sys_atD [OF inv] and r = rest_parts [OF rest]
  have "sys_at ss C w' U' R S M B (loc(a := None))"
  proof (rule own_stepI [OF inv s new a _ U'])
    show "sleep_family (set ss) w' S" using i(2) sleep_family_cong [of w' w] w' by simp
    show "sorted_by (sleep_key w') (S q)" if "q \<in> set ss" for q using sorted_keep [OF inv new _ that] loc by simp
    show "wait_table w' M" using wait_keep [OF inv new r(1)] loc by simp
    show "cond_inv C w' B" using blocked_keep [OF inv new r(3,4)] loc by simp
  qed (use i r w' l0 in simp_all)
  then show ?thesis unfolding l0 .
qed

lemma yield_step:
  assumes inv: "sys_at ss C w U R S M B loc" and s: "s \<in> set ss" "current_lthread (scheds w s) = Some a" "s \<notin> U"
  shows "\<exists>w'. lthread_yield s w = Inr w' \<and> sys_at ss C w' (insert s U) R S M B loc"
proof -
  obtain l where l: "lts w a = Some l" "lt_ok (set ss) w U loc a l s" "is_running l" "lt_sched l = Some s" "loc a = None"
    "\<not> needs_resched l" "\<not> has_flag (lt_state l) LT_ST_EXITED" "sleep_usecs l = 0" "idle l" "\<not> is_blocked l"
    using sys_at_active [OF inv s] by blast
  let ?w = "w\<lparr>lts := (lts w)(a \<mapsto> l\<lparr>needs_resched := True\<rparr>)\<rparr>"
  have "lt_ok (set ss) ?w (insert s U) (loc(a := None)) a (l\<lparr>needs_resched := True\<rparr>) s"
    using l s(1,2) by (simp add: lt_ok_def)
  from own_free_stepI [OF inv s(1,2) l(5) refl this] yield_ok [OF s(2) l(1,4)] sys_atD(8) [OF inv] show ?thesis by simp
qed

lemma exit_step:
  assumes inv: "sys_at ss C w U R S M B loc" and s: "s \<in> set ss" "current_lthread (scheds w s) = Some a" "s \<notin> U"
  shows "\<exists>w'. lthread_exit s w = Inr w' \<and> sys_at ss C w' (insert s U) R S M B loc"
proof -
  obtain l where l: "lts w a = Some l" "lt_ok (set ss) w U loc a l s" "is_running l" "lt_sched l = Some s" "loc a = None"
    "\<not> needs_resched l" "\<not> has_flag (lt_state l) LT_ST_EXITED" "sleep_usecs l = 0" "idle l" "\<not> is_blocked l"
    using sys_at_active [OF inv s] by blast
  let ?l = "l\<lparr>lt_state := set_flag LT_ST_EXITED (lt_state l)\<rparr>"
  let ?w = "w\<lparr>lts := (lts w)(a \<mapsto> ?l)\<rparr>"
  have "idle ?l" using l(9) by (simp add: idle_def st_defs)
  moreover have "has_flag (lt_state ?l) LT_ST_EXITED" by (simp add: st_defs)
  ultimately have "lt_ok (set ss) ?w (insert s U) (loc(a := None)) a ?l s" using l s(1,2) by (simp add: lt_ok_def)
  from own_free_stepI [OF inv s(1,2) l(5) refl this] exit_ok [OF s(2) l(1,4)] show ?thesis by simp
qed

lemma sleep_step:
  assumes inv: "sys_at ss C w U R S M B loc" and s: "s \<in> set ss" "current_lthread (scheds w s) = Some a" "s \<notin> U" and ms: "ms \<noteq> 0"
  shows "\<exists>w' S' loc'. lthread_sleep now s ms w = Inr w' \<and> sys_at ss C w' (insert s U) R S' M B loc' \<and> adrift loc' = adrift loc"
proof -
  obtain l where l: "lts w a = Some l" "lt_ok (set ss) w U loc a l s" "is_running l" "lt_sched l = Some s" "loc a = None"
    "\<not> needs_resched l" "\<not> has_flag (lt_state l) LT_ST_EXITED" "sleep_usecs l = 0" "idle l" "\<not> is_blocked l"
    using sys_at_active [OF inv s] by blast
  note i = sys_atD [OF inv]
  have "set (S s) \<subseteq> dom (lts w)" using i(11) loc_okD(2) [OF i(7) s(1)] by auto
  then have "card (set (S s)) \<le> card (dom (lts w))" by (rule card_mono [OF i(14)])
  moreover have "distinct (S s)" using rb_repr_distinct [OF sleep_family_repr [OF i(2) s(1)]] .
  ultimately have len: "length (S s) < 2 ^ 64" using i(15) by (simp add: distinct_card)
  obtain w' j where w': "lthread_sched_sleep now s a ms w = Inr w'"
    "lts w' = (lts w)(a \<mapsto> l\<lparr>lt_state := set_flag LT_ST_SLEEPING (lt_state l), sleep_usecs := now + ms * 1000 + of_nat j\<rparr>)"
    "sleep_family (set ss) w' (S(s := insort_key (sleep_key w') a (S s)))"
    "sorted_by (sleep_key w') (insort_key (sleep_key w') a (S s))" "held w' = held w" "ready_q w' = ready_q w"
    "\<forall>x. current_lthread (scheds w' x) = current_lthread (scheds w x)"
    using sched_sleep_ok [OF i(2) s(1) i(3) [OF s(1)] l(1,4) not_in_queues(2) [OF inv l(5)] s(2) _ len ms, of now] i(8) by auto
  let ?l = "l\<lparr>lt_state := set_flag LT_ST_SLEEPING (lt_state l), sleep_usecs := now + ms * 1000 + of_nat j\<rparr>"
  let ?xs = "insort_key (sleep_key w') a (S s)" and ?p = "Some (Sleeping s)"
  note r = rest_parts [OF rest_sched_sleep [OF w'(1)]]
  have "idle ?l" "\<not> has_flag (lt_state ?l) LT_ST_EXITED" using l(7,9) by (simp_all add: idle_def st_defs)
  then have ok: "lt_ok (set ss) w' (insert s U) (loc(a := ?p)) a ?l s" using l s(1,2) w'(7) by (simp add: lt_ok_def)
  have "sys_at ss C w' (insert s U) R (S(s := ?xs)) M B (loc(a := ?p))"
  proof (rule own_stepI [OF inv s(1,2) w'(2) ok])
    show "sorted_by (sleep_key w') ((S(s := ?xs)) q)" if "q \<in> set ss" for q
      using sorted_keep [OF inv w'(2) _ that] l(5) w'(4) by simp
    show "wait_table w' M" using wait_keep [OF inv w'(2) r(1)] l(5) by simp
    show "cond_inv C w' B" using blocked_keep [OF inv w'(2) r(3,4)] l(5) by simp
    show "loc_ok (set ss) C R (S(s := ?xs)) M B (loc(a := ?p))"
      by (rule loc_enter(2) [OF i(7) l(5) s(1)]) (simp add: set_insort_key)
  qed (use i r w' in simp_all)
  moreover have "lthread_sleep now s ms w = Inr w'" using w'(1) s(2) by (simp add: lthread_sleep_def lthread_current_def)
  moreover have "adrift (loc(a := ?p)) = adrift loc" using l(5) by (intro adrift_move) simp_all
  ultimately show ?thesis by blast
qed

text \<open>Two ways to give up the processor without going anywhere: \<open>lthread_sleep(0)\<close>, and the return of the lthread's function.\<close>

lemma adrift_stepI:
  assumes inv: "sys_at ss C w U R S M B loc" and s: "s \<in> set ss" "current_lthread (scheds w s) = Some a" "s \<notin> U"
    and l: "lts w a = Some l" and l': "lt_sched l' = lt_sched l" "is_running l' = is_running l" "is_blocked l' = is_blocked l"
      "idle l' = idle l" "needs_resched l' = needs_resched l" "sleep_usecs l' = 0"
      "has_flag (lt_state l') LT_ST_EXITED = has_flag (lt_state l) LT_ST_EXITED"
  shows "sys_at ss C (w\<lparr>lts := (lts w)(a \<mapsto> l')\<rparr>) (insert s U) R S M B (loc(a \<mapsto> Adrift))"
proof -
  let ?w = "w\<lparr>lts := (lts w)(a \<mapsto> l')\<rparr>"
  have new: "lts ?w = (lts w)(a \<mapsto> l')" and rest: "rest ?w = rest w" by simp_all
  obtain l0 where "lts w a = Some l0" "lt_ok (set ss) w U loc a l0 s" "is_running l0" "lt_sched l0 = Some s" "loc a = None"
    "\<not> needs_resched l0" "\<not> has_flag (lt_state l0) LT_ST_EXITED" "sleep_usecs l0 = 0" "idle l0" "\<not> is_blocked l0"
    using sys_at_active [OF inv s] by blast
  with l have a: "is_running l" "lt_sched l = Some s" "loc a = None" "\<not> needs_resched l"
    "\<not> has_flag (lt_state l) LT_ST_EXITED" "idle l" "\<not> is_blocked l" by simp_all
  note i = sys_atD [OF inv] and r = rest_parts [OF rest]
  have ok: "lt_ok (set ss) ?w (insert s U) (loc(a \<mapsto> Adrift)) a l' s" using a l' s(1,2) by (simp add: lt_ok_def)
  show ?thesis
  proof (rule own_stepI [OF inv s(1,2) new ok])
    show "sleep_family (set ss) ?w S" using i(2) sleep_family_cong [of ?w w] by simp
    show "sorted_by (sleep_key ?w) (S q)" if "q \<in> set ss" for q using sorted_keep [OF inv new _ that] a(3) by simp
    show "wait_table ?w M" using wait_keep [OF inv new r(1)] a(3) by simp
    show "cond_inv C ?w B" using blocked_keep [OF inv new r(3,4)] a(3) by simp
    show "loc_ok (set ss) C R S M B (loc(a \<mapsto> Adrift))"
      by (rule loc_ok_upd [OF i(7)]) (use loc_okD [OF i(7)] a(3) in \<open>auto simp: placed_def\<close>)
  qed (use i r in simp_all)
qed

lemma sleep_zero_step:
  assumes inv: "sys_at ss C w U R S M B loc" and s: "s \<in> set ss" "current_lthread (scheds w s) = Some a" "s \<notin> U"
  shows "\<exists>w'. lthread_sleep now s 0 w = Inr w' \<and> sys_at ss C w' (insert s U) R S M B (loc(a \<mapsto> Adrift))"
proof -
  obtain l where l: "lts w a = Some l" "lt_sched l = Some s" using sys_at_active [OF inv s] by blast
  let ?l = "l\<lparr>lt_state := set_flag LT_ST_SLEEPING (lt_state l), sleep_usecs := 0\<rparr>"
  have "idle ?l = idle l" "has_flag (lt_state ?l) LT_ST_EXITED = has_flag (lt_state l) LT_ST_EXITED"
    by (simp_all add: idle_def st_defs)
  with adrift_stepI [OF inv s l(1), of ?l] sleep_zero_ok [OF s(2) l] sys_atD(8) [OF inv] show ?thesis by simp
qed

lemma return_step:
  assumes inv: "sys_at ss C w U R S M B loc" and s: "s \<in> set ss" "current_lthread (scheds w s) = Some a" "s \<notin> U"
  shows "mco_entry (\<lambda>_ _. Inr) a w = Inr w" "sys_at ss C w (insert s U) R S M B (loc(a \<mapsto> Adrift))"
proof -
  obtain l where l: "lts w a = Some l" "sleep_usecs l = 0" using sys_at_active [OF inv s] by blast
  then show "mco_entry (\<lambda>_ _. Inr) a w = Inr w" by (simp add: mco_entry_def get_lt_def)
  have "(lts w)(a \<mapsto> l) = lts w" using l(1) by auto
  with adrift_stepI [OF inv s l(1), of l] l(2) show "sys_at ss C w (insert s U) R S M B (loc(a \<mapsto> Adrift))" by simp
qed

text \<open>A condition variable as a monitor: its owner and the lthreads that are blocked on it.\<close>

definition mon :: "world \<Rightarrow> (addr \<Rightarrow> addr list) \<Rightarrow> addr \<Rightarrow> ptr \<times> addr list" where
  "mon w B c = (owner_of w c, B c)"

lemma block_on_step:
  assumes inv: "sys_at ss C w U R S M B loc" and s: "s \<in> set ss" "current_lthread (scheds w s) = Some a" "s \<notin> U"
    and c: "c \<in> C" "owner_of w c \<noteq> Some a"
  shows "lts w a = Some l \<Longrightarrow> \<exists>loc'.
    sys_at ss C (w\<lparr>blocked_q := TAILQ_INSERT_TAIL c a (blocked_q w),
      lts := (lts w)(a \<mapsto> l\<lparr>is_blocked := True, lt_state := set_flag LT_ST_SLEEPING (lt_state l), sleep_usecs := 0\<rparr>)\<rparr>) (insert s U) R S M
      (B(c := B c @ [a])) loc' \<and> adrift loc' = adrift loc"
proof -
  assume la: "lts w a = Some l"
  obtain l' where "lts w a = Some l'" "lt_ok (set ss) w U loc a l' s" "is_running l'" "lt_sched l' = Some s" "loc a = None"
    "\<not> needs_resched l'" "\<not> has_flag (lt_state l') LT_ST_EXITED" "sleep_usecs l' = 0" "idle l'" "\<not> is_blocked l'"
    using sys_at_active [OF inv s] by blast
  with la have l: "lt_ok (set ss) w U loc a l s" "is_running l" "lt_sched l = Some s" "loc a = None"
    "\<not> needs_resched l" "\<not> has_flag (lt_state l) LT_ST_EXITED" "idle l" by simp_all
  note i = sys_atD [OF inv]
  let ?l = "l\<lparr>is_blocked := True, lt_state := set_flag LT_ST_SLEEPING (lt_state l), sleep_usecs := 0\<rparr>"
  let ?w = "w\<lparr>blocked_q := TAILQ_INSERT_TAIL c a (blocked_q w), lts := (lts w)(a \<mapsto> ?l)\<rparr>" and ?p = "Some (Blocked c)"
  have new: "lts ?w = (lts w)(a \<mapsto> ?l)" by simp
  have flags: "idle ?l" "\<not> has_flag (lt_state ?l) LT_ST_EXITED" "is_blocked ?l" using l(6,7) by (simp_all add: idle_def st_defs)
  then have ok: "lt_ok (set ss) ?w (insert s U) (loc(a := ?p)) a ?l s" using l s(1,2) by (simp add: lt_ok_def)
  have "sys_at ss C ?w (insert s U) R S M (B(c := B c @ [a])) (loc(a := ?p))"
  proof (rule own_stepI [OF inv s(1,2) new ok])
    show "sleep_family (set ss) ?w S" using i(2) sleep_family_cong [of ?w w] by simp
    show "sorted_by (sleep_key ?w) (S q)" if "q \<in> set ss" for q using sorted_keep [OF inv new _ that] l(4) by simp
    show "wait_table ?w M" using wait_keep [OF inv new] l(4) by (simp add: waiting_def)
    show "cond_inv C ?w (B(c := B c @ [a]))"
      by (rule cond_inv_block [OF i(6) c(1) not_in_queues(4) [OF inv l(4)] c(2) flags(3)])
    show "loc_ok (set ss) C R S M (B(c := B c @ [a])) (loc(a := ?p))" by (rule loc_enter(4) [OF i(7) l(4) c(1)])
  qed (use i in simp_all)
  moreover have "adrift (loc(a := ?p)) = adrift loc" using l(4) by (intro adrift_move) simp_all
  ultimately show ?thesis by blast
qed

lemma lock_step:
  assumes inv: "sys_at ss C w U R S M B loc" and s: "s \<in> set ss" "current_lthread (scheds w s) = Some a" "s \<notin> U"
    and c: "c \<in> C" "owner_of w c \<noteq> Some a"
  shows "\<exists>b w' U' B' loc'. lthread_cond_lock now s c w = Inr (b, w') \<and> U' = (if b then insert s U else U) \<and>
    sys_at ss C w' U' R S M B' loc' \<and>
    mon w' B' = (mon w B)(c := if owner_of w c = NULL then (Some a, B c) else (owner_of w c, B c @ [a])) \<and>
    scheds w' = scheds w \<and> b = (owner_of w c \<noteq> NULL) \<and> adrift loc' = adrift loc"
proof -
  obtain l where l: "lts w a = Some l" "lt_ok (set ss) w U loc a l s" "is_running l" "lt_sched l = Some s" "loc a = None"
    "\<not> needs_resched l" "\<not> has_flag (lt_state l) LT_ST_EXITED" "sleep_usecs l = 0" "idle l" "\<not> is_blocked l"
    using sys_at_active [OF inv s] by blast
  note i = sys_atD [OF inv]
  show ?thesis
  proof (cases "owner_of w c")
    case None
    let ?w = "set_owner c (Some a) w"
    have new: "lts ?w = (lts w)(a \<mapsto> l)" "loc(a := None) = loc" using l(1,5) by auto
    have "lt_ok (set ss) ?w U (loc(a := None)) a l s" by (rule lt_ok_other [OF l(2)]) (use l(5) in simp_all)
    then have "sys_at ss C ?w U R S M B (loc(a := None))"
    proof (rule own_stepI [OF inv s(1,2) new(1)])
      show "sleep_family (set ss) ?w S" using i(2) sleep_family_cong [of ?w w] by simp
      show "sorted_by (sleep_key ?w) (S q)" if "q \<in> set ss" for q using sorted_keep [OF inv new(1) _ that] l(5) by simp
      show "wait_table ?w M" using wait_keep [OF inv new(1)] l(5) by (simp add: waiting_def)
      show "cond_inv C ?w B" by (rule cond_inv_owner [OF i(6) c(1)]) (use not_in_queues(4) [OF inv l(5) c(1)] in auto)
    qed (use i new(2) in simp_all)
    moreover have "mon ?w B = (mon w B)(c := (Some a, B c))" by (auto simp: mon_def)
    ultimately show ?thesis using cond_lock_free [OF i(6) c(1) s(2) None] i(8) None unfolding new(2)
      by (intro exI [of _ False] exI [of _ ?w] exI [of _ U] exI [of _ B] exI [of _ loc]) (simp del: fun_upd_apply)
  next
    case (Some owner)
    let ?w = "w\<lparr>blocked_q := TAILQ_INSERT_TAIL c a (blocked_q w),
        lts := (lts w)(a \<mapsto> l\<lparr>is_blocked := True, lt_state := set_flag LT_ST_SLEEPING (lt_state l), sleep_usecs := 0\<rparr>)\<rparr>"
    have "lthread_cond_lock now s c w = Inr (True, ?w)"
      using cond_lock_busy [OF i(6) c(1) Some _ l(1,4,10) s(2)] Some c(2) i(8) by auto
    moreover have "mon ?w (B(c := B c @ [a])) = (mon w B)(c := (owner_of w c, B c @ [a]))" by (auto simp: mon_def owner_of_def)
    ultimately show ?thesis using block_on_step [OF inv s c l(1)] Some
      by (intro exI [of _ True] exI [of _ ?w] exI [of _ "insert s U"] exI [of _ "B(c := B c @ [a])"]) simp
  qed
qed

lemma wait_fd_step:
  assumes inv: "sys_at ss C w U R S M B loc" and s: "s \<in> set ss" "current_lthread (scheds w s) = Some a" "s \<notin> U"
    and k: "M (word_of_int fd, e) = None" "kev (change_for fd e) \<noteq> - 1"
  shows "\<exists>w' M' loc'. lthread_wait_fd kev s fd e w = Inr w' \<and> sys_at ss C w' (insert s U) R S M' B loc' \<and> adrift loc' = adrift loc"
proof -
  obtain l where l: "lts w a = Some l" "lt_ok (set ss) w U loc a l s" "is_running l" "lt_sched l = Some s" "loc a = None"
    "\<not> needs_resched l" "\<not> has_flag (lt_state l) LT_ST_EXITED" "sleep_usecs l = 0" "idle l" "\<not> is_blocked l"
    using sys_at_active [OF inv s] by blast
  note i = sys_atD [OF inv]
  let ?k = "(word_of_int fd, e)" and ?l = "wait_begin fd e l"
  let ?p = "Some (Waiting ?k)"
  obtain t w' where w': "w' = upd_pending (\<lambda>n. n + 1) (put_waiting t (w\<lparr>lts := (lts w)(a \<mapsto> ?l)\<rparr>))"
    "lthread_poller_add_waiting_lthread a fd e w = Inr w'" "wait_table w' (M(?k \<mapsto> a))"
    using add_waiting_ok [OF i(4) l(1,9) _ k(1)] i(8) by auto
  have new: "lts w' = (lts w)(a \<mapsto> ?l)" using w'(1) by simp
  have "\<not> idle ?l" using wait_begin_facts(1) [OF l(9), of fd e] by (auto simp: waits_def idle_def)
  moreover have "is_running ?l = is_running l" "needs_resched ?l = needs_resched l" "sleep_usecs ?l = sleep_usecs l"
    "is_blocked ?l = is_blocked l" "has_flag (lt_state ?l) LT_ST_EXITED = has_flag (lt_state l) LT_ST_EXITED"
    by (cases e; simp add: wait_begin_def wait_flag_def st_defs)+
  ultimately have ok: "lt_ok (set ss) w' (insert s U) (loc(a := ?p)) a ?l s" using l s(1,2) w'(1) by (simp add: lt_ok_def)
  have "?k \<notin> dom M" using k(1) by auto
  then have num: "num_pending_events (poller w') = of_nat (card (dom (M(?k \<mapsto> a))))"
    using w'(1) i(5) wait_table_finite [OF i(4)] by simp
  have bc: "blocked_q w' = blocked_q w" "conds w' = conds w" "neighbor w' = neighbor w" using w'(1) by simp_all
  have "sys_at ss C w' (insert s U) R S (M(?k \<mapsto> a)) B (loc(a := ?p))"
  proof (rule own_stepI [OF inv s(1,2) new ok])
    show "sleep_family (set ss) w' S" using i(2) sleep_family_cong [of w' w] w'(1) by simp
    show "sorted_by (sleep_key w') (S q)" if "q \<in> set ss" for q using sorted_keep [OF inv new _ that] l(5) by simp
    show "cond_inv C w' B" using blocked_keep [OF inv new bc(1,2)] l(5) by simp
    show "loc_ok (set ss) C R S (M(?k \<mapsto> a)) B (loc(a := ?p))" by (rule loc_enter(3) [where k = ?k, OF i(7) l(5) k(1)])
  qed (use i w' num bc in simp_all)
  moreover have "lthread_wait_fd kev s fd e w = Inr w'"
    using w'(1,2) s(2) l(4) k(2) new
    by (simp add: lthread_wait_fd_def lthread_poller_schedule_event_def register_event_ok i_lthread_yield_def lthread_current_def)
  moreover have "adrift (loc(a := ?p)) = adrift loc" using l(5) by (intro adrift_move) simp_all
  ultimately show ?thesis by blast
qed

subsection \<open>Waking an lthread\<close>

text \<open>The lthread \<open>a\<close> has left its place and is made ready: \<open>w0\<close> is the state before it is queued or, if it has not finished
  giving up the processor, marked.\<close>

definition wake_place :: "world \<Rightarrow> addr \<Rightarrow> addr \<Rightarrow> place option" where
  "wake_place w s a = (if current_lthread (scheds w s) = Some a then None else Some (Ready s))"

definition wake_queue :: "world \<Rightarrow> addr \<Rightarrow> addr \<Rightarrow> (addr \<Rightarrow> addr list) \<Rightarrow> addr \<Rightarrow> addr list" where
  "wake_queue w s a R = (if current_lthread (scheds w s) = Some a then R else R(s := R s @ [a]))"

lemma adrift_wake: "loc a \<noteq> Some Adrift \<Longrightarrow> adrift (loc(a := wake_place w s a)) = adrift loc"
  by (rule adrift_move) (simp_all add: wake_place_def)

lemma loc_wake:
  assumes "loc_ok K C R S M B (loc(a := None))" "s \<in> K"
  shows "loc_ok K C (wake_queue w s a R) S M B (loc(a := wake_place w s a))"
  using assms loc_enter(1) [OF assms(1), of a s] by (simp add: wake_place_def wake_queue_def)

lemma wake_stepI:
  assumes inv: "sys_at ss C w U R S M B loc" and a: "lts w a = Some l" "lt_ok (set ss) w U loc a l s"
    and out: "\<And>q. loc a \<noteq> Some (Ready q)" "\<And>q. loc a \<noteq> Some (Sleeping q)" "loc a \<noteq> None"
    and l1: "idle l1" "\<not> is_blocked l1" "lt_sched l1 = lt_sched l" "is_running l1 = is_running l" "needs_resched l1 = needs_resched l"
      "sleep_usecs l1 = sleep_usecs l" "has_flag (lt_state l1) LT_ST_EXITED = has_flag (lt_state l) LT_ST_EXITED"
    and w0: "lts w0 = (lts w)(a \<mapsto> l1)" "scheds w0 = scheds w" "ready_q w0 = ready_q w" "sleep_node w0 = sleep_node w" "held w0 = {}"
    and w': "w' = upd_pending g (ready_result s s a l1 w0)"
    and parts: "wait_table w' M'" "num_pending_events (poller w') = of_nat (card (dom M'))" "cond_inv C w' B'"
      "loc_ok (set ss) C R S M' B' (loc(a := None))"
  shows "sys_at ss C w' U (wake_queue w s a R) S M' B' (loc(a := wake_place w s a))"
proof -
  note i = sys_atD [OF inv] and d = lt_okD [OF a(2)]
  let ?l = "if is_running l then l1\<lparr>needs_resched := True\<rparr> else l1"
  have new: "lts w' = (lts w)(a \<mapsto> ?l)" using d(3) w0(1,2) w' by (auto simp: ready_result_lts)
  have nr: "\<not> needs_resched l" "\<not> has_flag (lt_state l) LT_ST_EXITED" "sleep_usecs l = 0" using d(6-8) out(2,3) by blast+
  have ok: "lt_ok (set ss) w' U (loc(a := wake_place w s a)) a ?l s"
  proof (cases "is_running l")
    case True
    then have "s \<in> U" "current_lthread (scheds w s) = Some a" using d(3,11) out(3) by blast+
    then show ?thesis using True nr l1 d(1,2) w' w0(2) by (simp add: lt_ok_def wake_place_def)
  next
    case False
    then have "current_lthread (scheds w s) \<noteq> Some a" using d(3) by blast
    then show ?thesis using False nr l1 d(1,2) w' w0(2) by (simp add: lt_ok_def wake_place_def)
  qed
  have cur: "current_lthread (scheds w' q) = current_lthread (scheds w q)" for q using w' w0(2) by simp
  show ?thesis
  proof (rule sys_stepI [OF inv new _ ok])
    show "lts w a \<noteq> None" using a(1) by simp
    show "q = s" if "q \<in> set ss" "current_lthread (scheds w' q) = Some a" for q
      using i(12) [OF that(1), of a] that(2) cur a(1) d(2) by auto
    show "q \<in> set ss \<and> current_lthread (scheds w' q) \<noteq> NULL" if "q \<in> U" for q using i(13) [OF that] cur by simp
    show "tq_family (set ss) (ready_q w') (wake_queue w s a R)"
      using ready_result_queue [of "set ss" w0 R s a s l1] i(1) d(1) loc_okD(1) [OF i(7), of _ a] out(1) w0(2,3) w'
      by (simp add: wake_queue_def)
    show "sleep_family (set ss) w' S" using i(2) sleep_family_cong [of w' w] w' w0(2,4) by simp
    show "sorted_by (sleep_key w') (S q)" if "q \<in> set ss" for q using sorted_keep [OF inv new out(2) that] .
    show "loc_ok (set ss) C (wake_queue w s a R) S M' B' (loc(a := wake_place w s a))" by (rule loc_wake [OF parts(4) d(1)])
    show "neighbor w' = neighbor w" using w' w0(2) by (simp add: fun_eq_iff)
  qed (use cur parts w' w0(5) in simp_all)
qed

lemma upd_pending_id: "upd_pending (\<lambda>n. n) w = w"
  by (simp add: upd_pending_def)

lemma signal_step:
  assumes inv: "sys_at ss C w U R S M B loc" and s: "s \<in> set ss" "current_lthread (scheds w s) = Some a" "s \<notin> U"
    and c: "c \<in> C" "owner_of w c = Some a"
  shows "\<exists>b w' R' B' loc'. lthread_cond_signal c a (w\<lparr>held := {Cond_mutex c}\<rparr>) = Inr (b, w'\<lparr>held := {Cond_mutex c}\<rparr>) \<and>
    sys_at ss C w' U R' S M B' loc' \<and> owner_of w' c \<noteq> Some a \<and> current_lthread (scheds w' s) = Some a \<and>
    mon w' B' = (mon w B)(c := (hd_ptr (B c), tl (B c))) \<and> adrift loc' = adrift loc"
proof -
  note i = sys_atD [OF inv]
  obtain l where l: "lts w a = Some l" "lt_ok (set ss) w U loc a l s" "is_running l" "lt_sched l = Some s" "loc a = None"
    "\<not> needs_resched l" "\<not> has_flag (lt_state l) LT_ST_EXITED" "sleep_usecs l = 0" "idle l" "\<not> is_blocked l"
    using sys_at_active [OF inv s] by blast
  let ?h = "w\<lparr>held := {Cond_mutex c}\<rparr>"
  have ci: "cond_inv C ?h B" "owner_of ?h c = Some a" using i(6) c(2) by simp_all
  show ?thesis
  proof (cases "B c")
    case Nil
    let ?w = "set_owner c NULL w"
    have new: "lts ?w = (lts w)(a \<mapsto> l)" "loc(a := None) = loc" using l(1,5) by auto
    have "lt_ok (set ss) ?w U (loc(a := None)) a l s" by (rule lt_ok_other [OF l(2)]) (use l(5) in simp_all)
    then have "sys_at ss C ?w U R S M B (loc(a := None))"
    proof (rule own_stepI [OF inv s(1,2) new(1)])
      show "sleep_family (set ss) ?w S" using i(2) sleep_family_cong [of ?w w] by simp
      show "sorted_by (sleep_key ?w) (S q)" if "q \<in> set ss" for q using sorted_keep [OF inv new(1) _ that] l(5) by simp
      show "wait_table ?w M" using wait_keep [OF inv new(1)] l(5) by (simp add: waiting_def)
      show "cond_inv C ?w B" by (rule cond_inv_owner [OF i(6) c(1)]) simp
    qed (use i new(2) in simp_all)
    moreover have "lthread_cond_signal c a ?h = Inr (False, ?w\<lparr>held := {Cond_mutex c}\<rparr>)"
      using cond_signal_none [OF ci(1) c(1) ci(2) Nil] by (simp add: set_owner_held)
    moreover have "owner_of ?w c \<noteq> Some a" "current_lthread (scheds ?w s) = Some a" using s(2) by simp_all
    moreover have "mon ?w B = (mon w B)(c := (hd_ptr (B c), tl (B c)))" using Nil by (auto simp: mon_def)
    ultimately show ?thesis unfolding new(2) by blast
  next
    case (Cons b rest)
    have loc: "loc b = Some (Blocked c)" using loc_okD(4) [OF i(7) c(1), of b] Cons by simp
    obtain lb where lb: "lts w b = Some lb" using i(11) [of b] loc by auto
    then obtain sb where ok: "lt_ok (set ss) w U loc b lb sb" using i(10) by blast
    note d = lt_okD [OF ok]
    let ?l1 = "lb\<lparr>is_blocked := False\<rparr>" and ?v = "handed_over c b lb w"
    let ?w = "ready_result sb sb b ?l1 ?v"
    have sl: "sleep_usecs lb = 0" "idle lb" using d(5,8) loc by auto
    have ho: "handed_over c b lb ?h = ?v\<lparr>held := {Cond_mutex c}\<rparr>" by (simp add: handed_over_def set_owner_def)
    have run: "lthread_cond_signal c a ?h = Inr (True, ?w\<lparr>held := {Cond_mutex c}\<rparr>)"
      using cond_signal_hands_over [OF ci(1) c(1) ci(2) Cons _ d(2) sl(1)] lb by (simp add: ho ready_held)
    have w0: "lts ?v = (lts w)(b \<mapsto> ?l1)" by (simp add: handed_over_def)
    have inv': "cond_inv C ?w (B(c := rest))"
      by (rule cond_inv_ready [OF handed_over_inv(1) [OF i(6) c(1) Cons]]) (use w0 in simp)
    have dist: "distinct (b # rest)" using i(6) c(1) Cons tq_repr_distinct [OF tq_family_repr] unfolding cond_inv_def by metis
    have "lts (ready_result sb sb b ?l1 ?v) = (lts w)(b \<mapsto> (if current_lthread (scheds w sb) = Some b then ?l1\<lparr>needs_resched := True\<rparr> else ?l1))"
      by (simp add: ready_result_lts handed_over_def)
    from wait_keep [OF inv this, of lb] have wt: "wait_table ?w M" using loc by (simp add: waiting_def handed_over_def)
    have "sys_at ss C ?w U (wake_queue w sb b R) S M (B(c := rest)) (loc(b := wake_place w sb b))"
    proof (rule wake_stepI [OF inv lb ok _ _ _ _ _ _ _ _ _ _ w0, where g = "\<lambda>n. n"])
      show "loc_ok (set ss) C R S M (B(c := rest)) (loc(b := None))" by (rule loc_leave(3) [OF i(7) Cons dist c(1)])
      show "idle ?l1" using sl(2) by (simp add: idle_def)
    qed (use loc i(5,8) inv' wt in \<open>simp_all add: handed_over_def upd_pending_id\<close>)
    moreover have "b \<noteq> a" using loc l(5) by auto
    then have "owner_of ?w c \<noteq> Some a" "current_lthread (scheds ?w s) = Some a"
      using handed_over_inv(2) [OF i(6) c(1) Cons] s(2) by (simp_all add: handed_over_def)
    moreover have "mon ?w (B(c := rest)) = (mon w B)(c := (hd_ptr (B c), tl (B c)))"
      using Cons handed_over_inv(2) [OF i(6) c(1) Cons] by (auto simp: mon_def handed_over_def owner_of_def set_owner_def)
    moreover have "adrift (loc(b := wake_place w sb b)) = adrift loc" using loc by (intro adrift_wake) simp
    ultimately show ?thesis using run by blast
  qed
qed

lemma unlock_step:
  assumes inv: "sys_at ss C w U R S M B loc" and s: "s \<in> set ss" "current_lthread (scheds w s) = Some a" "s \<notin> U"
    and c: "c \<in> C" "owner_of w c = Some a"
  shows "\<exists>w' R' B' loc'. lthread_cond_unlock_signal s c w = Inr w' \<and> sys_at ss C w' U R' S M B' loc' \<and>
    mon w' B' = (mon w B)(c := (hd_ptr (B c), tl (B c))) \<and> adrift loc' = adrift loc"
proof -
  obtain b w' R' B' loc' where w': "lthread_cond_signal c a (w\<lparr>held := {Cond_mutex c}\<rparr>) = Inr (b, w'\<lparr>held := {Cond_mutex c}\<rparr>)"
    "sys_at ss C w' U R' S M B' loc'" "mon w' B' = (mon w B)(c := (hd_ptr (B c), tl (B c)))" "adrift loc' = adrift loc"
    using signal_step [OF inv s c] by blast
  have "w'\<lparr>held := {}\<rparr> = w'" using sys_atD(8) [OF w'(2)] by simp
  with w'(1) s(2) sys_atD(8) [OF inv] have "lthread_cond_unlock_signal s c w = Inr w'"
    by (simp add: lthread_cond_unlock_signal_def lthread_current_def)
  with w'(2-4) show ?thesis by blast
qed

text \<open>An lthread that was made the owner leaves \<open>lthread_cond_lock\<close> or \<open>lthread_cond_wait\<close> when it runs again.\<close>

lemma resumed_step:
  assumes inv: "sys_at ss C w U R S M B loc" and s: "s \<in> set ss" "current_lthread (scheds w s) = Some a" "s \<notin> U"
    and c: "c \<in> C" "owner_of w c = Some a"
  shows "lthread_cond_lock_resumed c a w = Inr w" "lthread_cond_wait_resumed c a w = Inr (0, w)"
proof -
  obtain l where l: "lts w a = Some l" "\<not> is_blocked l" using sys_at_active [OF inv s] by blast
  note i = sys_atD [OF inv]
  have h: "w\<lparr>held := {}\<rparr> = w" using i(8) by simp
  have "owner_is_self c a (w\<lparr>held := A\<rparr>) = Inr ()" for A
    using cond_invD(2) [OF i(6) c(1)] c(2) by (simp add: owner_is_self_def get_cond_def)
  moreover from this [of "{}"] h have "owner_is_self c a w = Inr ()" by simp
  ultimately show "lthread_cond_lock_resumed c a w = Inr w" "lthread_cond_wait_resumed c a w = Inr (0, w)"
    using cond_wait_end_owner [OF i(6) c l] i(8) h
    by (simp_all add: lthread_cond_lock_resumed_def lthread_cond_wait_resumed_def)
qed

text \<open>\<open>lthread_cond_wait\<close> without a timeout gives the condition variable away and blocks.\<close>

lemma cond_wait_step:
  assumes inv: "sys_at ss C w U R S M B loc" and s: "s \<in> set ss" "current_lthread (scheds w s) = Some a" "s \<notin> U"
    and c: "c \<in> C" "owner_of w c = Some a"
  shows "\<exists>w' R' B' loc'. lthread_cond_wait now s c 0 w = Inr w' \<and> sys_at ss C w' (insert s U) R' S M B' loc' \<and>
    mon w' B' = (mon w B)(c := (hd_ptr (B c), tl (B c) @ [a])) \<and> adrift loc' = adrift loc"
proof -
  obtain b v R' B' loc' where v: "lthread_cond_signal c a (w\<lparr>held := {Cond_mutex c}\<rparr>) = Inr (b, v\<lparr>held := {Cond_mutex c}\<rparr>)"
    "sys_at ss C v U R' S M B' loc'" "owner_of v c \<noteq> Some a" "current_lthread (scheds v s) = Some a"
    "mon v B' = (mon w B)(c := (hd_ptr (B c), tl (B c)))" "adrift loc' = adrift loc"
    using signal_step [OF inv s c] by blast
  obtain l where l: "lts v a = Some l" "lt_sched l = Some s" "\<not> is_blocked l" using sys_at_active [OF v(2) s(1) v(4) s(3)] by blast
  let ?w = "v\<lparr>blocked_q := TAILQ_INSERT_TAIL c a (blocked_q v),
      lts := (lts v)(a \<mapsto> l\<lparr>is_blocked := True, lt_state := set_flag LT_ST_SLEEPING (lt_state l), sleep_usecs := 0\<rparr>)\<rparr>"
  have "?w\<lparr>held := {}\<rparr> = ?w" using sys_atD(8) [OF v(2)] by simp
  then have "lthread_cond_wait now s c 0 w = Inr ?w"
    using v(1,4) s(2) sys_atD(8) [OF inv] l cond_wait_begin_ok [of "v\<lparr>held := {Cond_mutex c}\<rparr>" a l s c now]
    by (simp add: lthread_cond_wait_def lthread_current_def held_last)
  moreover have "mon ?w (B'(c := B' c @ [a])) = (mon w B)(c := (hd_ptr (B c), tl (B c) @ [a]))"
  proof -
    have "mon ?w (B'(c := B' c @ [a])) = (mon v B')(c := (fst (mon v B' c), snd (mon v B' c) @ [a]))"
      by (auto simp: mon_def owner_of_def)
    then show ?thesis unfolding v(5) by simp
  qed
  ultimately show ?thesis using block_on_step [OF v(2) s(1) v(4) s(3) c(1) v(3) l(1)] v(6) by metis
qed

lemma deliver_step:
  assumes inv: "sys_at ss C w U R S M B loc"
  shows "\<exists>w' R' loc'. lthread_poller_handle_event fd e eof w = Inr (M (word_of_int fd, e), w') \<and>
    sys_at ss C w' U R' S (M((word_of_int fd, e) := None)) B loc' \<and> adrift loc' = adrift loc"
proof (cases "M (word_of_int fd, e)")
  case None
  then have "M((word_of_int fd, e) := None) = M" by auto
  with inv desched_event_none(2) [OF sys_atD(4) [OF inv] None] None sys_atD(8) [OF inv] show ?thesis by auto
next
  case (Some a)
  let ?k = "(word_of_int fd, e)"
  note i = sys_atD [OF inv]
  have loc: "loc a = Some (Waiting ?k)" using loc_okD(3) [OF i(7), of ?k a] Some by simp
  obtain l where l: "lts w a = Some l" using i(11) [of a] loc by auto
  then obtain s where ok: "lt_ok (set ss) w U loc a l s" using i(10) by blast
  note d = lt_okD [OF ok]
  obtain l2 where l2: "lts w a = Some l2" "waits l2" "waits_for l2 = ?k" using wait_table_member [OF i(4) Some] by blast
  then have lw: "waits l" "waits_for l = ?k" using l by simp_all
  let ?l1 = "mark_eof eof (wait_over e l)"
  obtain t w' where w': "w' = upd_pending (\<lambda>n. n - 1) (ready_result s s a ?l1 (put_waiting t (w\<lparr>lts := (lts w)(a \<mapsto> ?l1)\<rparr>)))"
    "lthread_poller_handle_event fd e eof w = Inr (Some a, w')" "wait_table w' (M(?k := None))"
    using handle_event_some [OF i(4) Some l d(2), of eof] i(8) by auto
  let ?v = "put_waiting t (w\<lparr>lts := (lts w)(a \<mapsto> ?l1)\<rparr>)"
  have num: "num_pending_events (poller w') = of_nat (card (dom (M(?k := None))))"
    using w'(1) i(5) card_dom_del [OF wait_table_finite [OF i(4)] Some] by simp
  have new: "lts w' = (lts w)(a \<mapsto> (if current_lthread (scheds w s) = Some a then ?l1\<lparr>needs_resched := True\<rparr> else ?l1))"
    using w'(1) by (simp add: ready_result_lts)
  have ci: "cond_inv C w' B" by (rule blocked_keep [OF inv new]) (use w'(1) loc in simp_all)
  have bl: "\<not> is_blocked l" using d(4) loc by auto
  have same: "is_blocked ?l1 = is_blocked l" "is_running ?l1 = is_running l" "needs_resched ?l1 = needs_resched l"
    "sleep_usecs ?l1 = sleep_usecs l" "has_flag (lt_state ?l1) LT_ST_EXITED = has_flag (lt_state l) LT_ST_EXITED"
    by (cases e; simp add: mark_eof_def wait_over_def wait_flag_def st_defs)+
  have idle: "idle ?l1" using lw by simp
  have "sys_at ss C w' U (wake_queue w s a R) S (M(?k := None)) B (loc(a := wake_place w s a))"
  proof (rule wake_stepI [OF inv l ok _ _ _ _ _ _ _ _ _ _ _ _ _ _ _ w'(1)])
    show "loc_ok (set ss) C R S (M(?k := None)) B (loc(a := None))" by (rule loc_leave(2) [where k = ?k, OF i(7) Some])
  qed (use loc i(8) same idle bl w'(3) num ci in simp_all)
  moreover have "adrift (loc(a := wake_place w s a)) = adrift loc" using loc by (intro adrift_wake) simp
  ultimately show ?thesis using w'(2) Some by auto
qed

text \<open>The loop of \<open>lthread_poller_poll\<close> for one event: both directions are delivered, and the assertion fails when nobody waited.\<close>

lemma poll_step:
  assumes inv: "sys_at ss C w U R S M B loc" and f: "f = word_of_int (lthread_poller_ev_get_fd ev)"
  shows "M (f, LT_EV_READ) \<noteq> None \<or> M (f, LT_EV_WRITE) \<noteq> None \<Longrightarrow>
      \<exists>w' R' M' loc'. handle_events [ev] w = Inr w' \<and> sys_at ss C w' U R' S M' B loc' \<and> adrift loc' = adrift loc"
    and "M (f, LT_EV_READ) = None \<Longrightarrow> M (f, LT_EV_WRITE) = None \<Longrightarrow>
      handle_events [ev] w = Inl (Assertion_failed ''lt_write != NULL || lt_read != NULL'')"
proof -
  let ?fd = "lthread_poller_ev_get_fd ev" and ?eof = "lthread_poller_ev_is_eof ev"
  obtain w1 R1 loc1 where 1: "lthread_poller_handle_event ?fd LT_EV_READ ?eof w = Inr (M (f, LT_EV_READ), w1)"
    "sys_at ss C w1 U R1 S (M((f, LT_EV_READ) := None)) B loc1" "adrift loc1 = adrift loc"
    using deliver_step [OF inv, of ?fd LT_EV_READ ?eof] unfolding f by blast
  obtain w2 R2 M2 loc2 where 2: "lthread_poller_handle_event ?fd LT_EV_WRITE ?eof w1 = Inr (M (f, LT_EV_WRITE), w2)"
    "sys_at ss C w2 U R2 S M2 B loc2" "adrift loc2 = adrift loc"
    using deliver_step [OF 1(2), of ?fd LT_EV_WRITE ?eof] 1(3) unfolding f by auto
  show "\<exists>w' R' M' loc'. handle_events [ev] w = Inr w' \<and> sys_at ss C w' U R' S M' B loc' \<and> adrift loc' = adrift loc"
    if "M (f, LT_EV_READ) \<noteq> None \<or> M (f, LT_EV_WRITE) \<noteq> None"
  proof -
    have "handle_events [ev] w = Inr w2" using 1(1) 2(1) that by auto
    with 2(2,3) show ?thesis by blast
  qed
  show "handle_events [ev] w = Inl (Assertion_failed ''lt_write != NULL || lt_read != NULL'')"
    if "M (f, LT_EV_READ) = None" "M (f, LT_EV_WRITE) = None"
    using 1(1) 2(1) that by simp
qed

subsection \<open>Steps of a scheduler\<close>

lemma sleeper_keys:
  assumes inv: "sys_at ss C w U R S M B loc" and s: "s \<in> set ss" and x: "x \<in> set (S s)" "current_lthread (scheds w s) \<noteq> Some x"
  shows "sleep_key w x = 0"
proof -
  note i = sys_atD [OF inv]
  have loc: "loc x = Some (Sleeping s)" using loc_okD(2) [OF i(7) s, of x] x(1) by simp
  obtain l where l: "lts w x = Some l" using i(11) [of x] loc by auto
  then obtain s' where ok: "lt_ok (set ss) w U loc x l s'" using i(10) by blast
  have "s' = s" using lt_okD(10) [OF ok loc] by simp
  then have "\<not> is_running l" using lt_okD(3) [OF ok] x(2) by simp
  then have "sleep_usecs l = 0" using lt_okD(8) [OF ok] by blast
  with l show ?thesis by (simp add: sleep_key_def)
qed

lemma parked_facts [simp]:
  "lt_sched (parked l) = lt_sched l" "is_blocked (parked l) = is_blocked l" "idle (parked l) = idle l"
  "waits (parked l) = waits l" "waits_for (parked l) = waits_for l" "\<not> is_running (parked l)" "\<not> needs_resched (parked l)"
  "sleep_usecs (parked l) = 0" "has_flag (lt_state (parked l)) LT_ST_EXITED = has_flag (lt_state l) LT_ST_EXITED"
  by (simp_all add: parked_def idle_def waits_def waits_for_def st_defs)

lemma resume_end_step:
  assumes inv: "sys_at ss C w U R S M B loc" and s: "s \<in> U" "current_lthread (scheds w s) = Some a"
    and stays: "\<And>l. lts w a = Some l \<Longrightarrow> \<not> has_flag (lt_state l) LT_ST_EXITED"
  shows "\<exists>w' R' loc'. lthread_resume_end s a w = Inr w' \<and> sys_at ss C w' (U - {s}) R' S M B loc' \<and> loc' a \<noteq> None \<and>
    current_lthread (scheds w' s) = NULL \<and> adrift loc' = adrift loc"
proof -
  note i = sys_atD [OF inv]
  have ss: "s \<in> set ss" using i(13) [OF s(1)] by simp
  obtain l where l: "lts w a = Some l" "lt_ok (set ss) w U loc a l s" "is_running l" using sys_at_running [OF inv ss s(2)] by blast
  note d = lt_okD [OF l(2)]
  have ex: "\<not> has_flag (lt_state l) LT_ST_EXITED" using stays [OF l(1)] .
  obtain w' where w': "lthread_resume_end s a w = Inr w'" "lts w' = (lts w)(a \<mapsto> parked l)"
    "ready_q w' = (if needs_resched l then TAILQ_INSERT_TAIL s a (ready_q w) else ready_q w)"
    "scheds w' = (scheds w)(s := (scheds w s)\<lparr>current_lthread := NULL\<rparr>)" "sleep_node w' = sleep_node w"
    "wait_node w' = wait_node w" "blocked_q w' = blocked_q w" "conds w' = conds w" "poller w' = poller w" "held w' = held w"
    using resume_end_ok [OF l(1) d(2), of s] ex i(8) by auto
  let ?p = "if needs_resched l then Some (Ready s) else loc a" and ?R = "if needs_resched l then R(s := R s @ [a]) else R"
  have p: "loc a = None \<longleftrightarrow> needs_resched l" using d(6,12) s(1) ex by blast
  have ok: "lt_ok (set ss) w' (U - {s}) (loc(a := ?p)) a (parked l) s"
  proof (cases "needs_resched l")
    case True
    then show ?thesis using d(1,2,4,5) p ex w'(4) by (simp add: lt_ok_def)
  next
    case False
    then have "loc a \<noteq> Some (Ready q)" for q using d(9) l(3) by blast
    then show ?thesis using False d(1,2,4,5,10) p ex w'(4) by (simp add: lt_ok_def)
  qed
  have cur: "current_lthread (scheds w' q) = (if q = s then NULL else current_lthread (scheds w q))" for q using w'(4) by simp
  have "sys_at ss C w' (U - {s}) ?R S M B (loc(a := ?p))"
  proof (rule sys_stepI [OF inv w'(2) _ ok])
    show "lts w a \<noteq> None" using l(1) by simp
    show "current_lthread (scheds w' q) = Some x \<longleftrightarrow> current_lthread (scheds w q) = Some x" if "x \<noteq> a" for x q
      using that cur s(2) by auto
    show "q \<in> U - {s} \<longleftrightarrow> q \<in> U" if "x \<noteq> a" "current_lthread (scheds w q) = Some x" for x q using that s(2) by auto
    show "q = s" if "q \<in> set ss" "current_lthread (scheds w' q) = Some a" for q
      using current_unique [OF inv ss that(1) s(2)] that(2) cur by (simp split: if_splits)
    show "q \<in> set ss \<and> current_lthread (scheds w' q) \<noteq> NULL" if "q \<in> U - {s}" for q using i(13) [of q] that cur by auto
    show "tq_family (set ss) (ready_q w') ?R"
    proof (cases "needs_resched l")
      case True
      with p have "loc a = None" by simp
      with True i(1) w'(3) tq_family_insert [OF i(1) ss not_in_queues(1) [OF inv]] show ?thesis by simp
    qed (use i(1) w'(3) in simp)
    show "sleep_family (set ss) w' S" using i(2) sleep_family_cong [of w' w] w'(4,5) by simp
    show "sorted_by (sleep_key w') (S q)" if q: "q \<in> set ss" for q
    proof (cases "loc a = Some (Sleeping q)")
      case False
      have "sleep_key w' x = sleep_key w x" if "x \<in> set (S q)" for x
      proof -
        have "x \<noteq> a" using that False loc_okD(2) [OF i(7) q, of x] by auto
        then show ?thesis using w'(2) by (simp add: sleep_key_def node_at_def)
      qed
      then show ?thesis using i(3) [OF q] sorted_by_cong [of "S q" "sleep_key w'" "sleep_key w"] by simp
    next
      case True
      then have "q = s" using d(10) by blast
      have "sleep_key w' x = 0" if "x \<in> set (S q)" for x
      proof (cases "x = a")
        case False
        then have "sleep_key w x = 0" using sleeper_keys [OF inv q that] \<open>q = s\<close> s(2) by simp
        with False show ?thesis using w'(2) by (simp add: sleep_key_def node_at_def)
      qed (use w'(2) in \<open>simp add: sleep_key_def\<close>)
      then show ?thesis by (rule sorted_by_const)
    qed
    show "wait_table w' M" by (rule wait_keep [OF inv w'(2), of l]) (use w'(6,9) l(1) in \<open>simp_all add: waiting_def\<close>)
    show "cond_inv C w' B" by (rule blocked_keep [OF inv w'(2,7,8)]) (use d(4) in auto)
    show "loc_ok (set ss) C ?R S M B (loc(a := ?p))"
    proof (cases "needs_resched l")
      case True
      with p have "loc a = None" by simp
      with True loc_enter(1) [OF i(7) this ss] show ?thesis by simp
    next
      case False
      have "loc(a := loc a) = loc" by simp
      with False i(7) show ?thesis by simp
    qed
    show "neighbor w' = neighbor w" using w'(4) by (simp add: fun_eq_iff)
  qed (use i w' in simp_all)
  moreover have "(loc(a := ?p)) a \<noteq> None" using p by auto
  moreover have "current_lthread (scheds w' s) = NULL" using cur [of s] by simp
  moreover have "adrift (loc(a := ?p)) = adrift loc" using p by (auto simp: adrift_def)
  ultimately show ?thesis using w'(1) by blast
qed

lemma resume_end_exit_step:
  assumes inv: "sys_at ss C w U R S M B loc" and s: "s \<in> U" "current_lthread (scheds w s) = Some a"
    and l: "lts w a = Some l" "has_flag (lt_state l) LT_ST_EXITED"
  shows "\<exists>w'. lthread_resume_end s a w = Inr w' \<and> lts w' a = None \<and> sys_at ss C w' (U - {s}) R S M B loc \<and>
    current_lthread (scheds w' s) = NULL"
proof -
  note i = sys_atD [OF inv]
  have ss: "s \<in> set ss" using i(13) [OF s(1)] by simp
  have ok: "lt_ok (set ss) w U loc a l s" using sys_at_running [OF inv ss s(2)] l(1) by (metis option.inject)
  note d = lt_okD [OF ok]
  have loc: "loc a = None" "\<not> needs_resched l" using d(7) l(2) by blast+
  obtain w' where w': "lthread_resume_end s a w = Inr w'" "lts w' = (lts w)(a := None)" "ready_q w' = ready_q w"
    "scheds w' = (scheds w)(s := (scheds w s)\<lparr>current_lthread := NULL\<rparr>)" "sleep_node w' = sleep_node w"
    "wait_node w' = wait_node w" "blocked_q w' = blocked_q w" "conds w' = conds w" "poller w' = poller w" "held w' = held w"
    using resume_end_ok [OF l(1) d(2), of s] l(2) loc(2) i(8) by auto
  have cur: "current_lthread (scheds w' q) = (if q = s then NULL else current_lthread (scheds w q))" for q using w'(4) by simp
  have same: "lts w' x = lts w x" if "x \<noteq> a" for x using that w'(2) by simp
  have "sys_at ss C w' (U - {s}) R S M B loc"
    unfolding sys_at_def
  proof (intro conjI ballI allI impI)
    show "tq_family (set ss) (ready_q w') R" using i(1) w'(3) by simp
    show "sleep_family (set ss) w' S" using i(2) sleep_family_cong [of w' w] w'(4,5) by simp
    fix q assume q: "q \<in> set ss"
    have "sleep_key w' x = sleep_key w x" if "x \<in> set (S q)" for x
      using that not_in_queues(2) [OF inv loc(1) q] same [of x] by (cases "x = a") (simp_all add: sleep_key_def node_at_def)
    then show "sorted_by (sleep_key w') (S q)" using i(3) [OF q] sorted_by_cong [of "S q" "sleep_key w'" "sleep_key w"] by simp
    fix x assume "current_lthread (scheds w' q) = Some x"
    then have c: "current_lthread (scheds w q) = Some x" "q \<noteq> s" using cur by (auto split: if_splits)
    then have "x \<noteq> a" using current_unique [OF inv ss q s(2)] by auto
    with i(12) [OF q c(1)] same show "\<exists>l. lts w' x = Some l \<and> lt_sched l = Some q" by simp
  next
    show "wait_table w' M"
    proof (rule wait_table_cong [OF i(4)])
      fix x lx assume "lts w x = Some lx" "x \<in> ran M"
      then show "\<exists>l'. lts w' x = Some l' \<and> (waits lx \<longrightarrow> waits l') \<and> waits_for l' = waits_for lx"
        using not_in_queues(3) [OF inv loc(1)] same [of x] by (cases "x = a") auto
    qed (use w'(6,9) in \<open>simp add: waiting_def\<close>)
    show "cond_inv C w' B"
    proof (rule cond_keep [OF i(6) w'(7,8)])
      fix c x l assume "c \<in> C" "x \<in> set (B c)" "lts w x = Some l" "is_blocked l"
      then show "\<exists>l'. lts w' x = Some l' \<and> is_blocked l'" using not_in_queues(4) [OF inv loc(1)] same [of x] by (cases "x = a") auto
    qed
    show "is_ring (neighbor w') ss"
    proof -
      have "neighbor w' = neighbor w" using w'(4) by (simp add: fun_eq_iff)
      with i(9) show ?thesis by simp
    qed
  next
    fix x lx assume lx: "lts w' x = Some lx"
    then have x: "x \<noteq> a" using w'(2) by auto
    with lx same obtain sx where "lt_ok (set ss) w U loc x lx sx" using i(10) by metis
    then have "lt_ok (set ss) w' (U - {s}) loc x lx sx" by (rule lt_ok_other) (use x s(2) cur in auto)
    then show "\<exists>q. lt_ok (set ss) w' (U - {s}) loc x lx q" ..
  next
    fix x assume "loc x \<noteq> None"
    then show "lts w' x \<noteq> None" using i(11) [of x] same [of x] loc(1) by (cases "x = a") simp_all
  next
    fix q assume "q \<in> U - {s}"
    then show "q \<in> set ss" "current_lthread (scheds w' q) \<noteq> NULL" using i(13) [of q] cur by auto
  next
    have "dom (lts w') \<subseteq> dom (lts w)" using w'(2) by auto
    then show "finite (dom (lts w'))" "card (dom (lts w')) < 2 ^ 64"
      using i(14,15) by (auto intro: finite_subset dest: card_mono [OF i(14)])
  qed (use i w' in simp_all)
  moreover have "current_lthread (scheds w' s) = NULL" using cur [of s] by simp
  ultimately show ?thesis using w'(1,2) by simp
qed

lemma ring_from:
  assumes "is_ring nb ss" "distinct ss" "s \<in> set ss"
  obtains xs where "ring_to nb s (nb s) xs" "set (s # xs) = set ss"
proof -
  obtain k where k: "k < length ss" "ss ! k = s" using assms(3) by (auto simp: in_set_conv_nth)
  let ?r = "rotate k ss"
  have ne: "?r \<noteq> []" using assms(3) by auto
  have hd: "hd ?r = s" using k ne by (simp add: hd_rotate_conv_nth)
  have "ring_to nb (hd ?r) (nb (hd ?r)) (tl ?r)"
    by (rule is_ring_ring_to [OF is_ring_rotate [OF assms(1)]]) (use assms(2) ne in simp_all)
  moreover have "set (s # tl ?r) = set ss" using ne hd by (metis list.collapse set_rotate)
  ultimately show ?thesis using that hd by simp
qed

lemma pick_step:
  assumes inv: "sys_at ss C w U R S M B loc" and s: "s \<in> set ss" "current_lthread (scheds w s) = NULL" and dist: "distinct ss"
  shows "lthread_pop_ready s w = Inr (NULL, w) \<and> (\<forall>q \<in> set ss. R q = []) \<or>
    (\<exists>a w1 w' R' loc'. lthread_pop_ready s w = Inr (Some a, w1) \<and> lthread_resume_begin s a w1 = Inr w' \<and>
       sys_at ss C w' U R' S M B loc' \<and> adrift loc' = adrift loc \<and> current_lthread (scheds w' s) = Some a \<and>
       (\<forall>q. q \<noteq> s \<longrightarrow> current_lthread (scheds w' q) = current_lthread (scheds w q)) \<and>
       (\<exists>q xs. q \<in> set ss \<and> R q = a # xs \<and> R' = R(q := xs)))"
proof -
  note i = sys_atD [OF inv]
  obtain xs where xs: "ring_to (neighbor w) s (neighbor w s) xs" "set (s # xs) = set ss"
    using ring_from [OF i(9) dist s(1)] by blast
  have K: "insert s (set xs) \<subseteq> set ss" using xs(2) by simp
  show ?thesis
  proof (cases "find (can_pop w R) (s # xs)")
    case None
    then have "\<not> can_pop w R q" if "q \<in> set (s # xs)" for q using that by (simp only: find_None_iff) blast
    then have "\<forall>q \<in> set (s # xs). R q = []" using i(8) by (simp add: can_pop_def)
    with pop_ready_empty [OF i(1) xs(1) K _ None] i(8) xs(2) show ?thesis by simp
  next
    case (Some q)
    then obtain j where "j < length (s # xs)" "can_pop w R ((s # xs) ! j)" "q = (s # xs) ! j" by (simp only: find_Some_iff) blast
    then have q: "q \<in> set ss" "R q \<noteq> []" using xs(2) nth_mem [of j "s # xs"] unfolding can_pop_def by blast+
    obtain a rest where a: "R q = a # rest" using q(2) by (cases "R q") auto
    have loc: "loc a = Some (Ready q)" using loc_okD(1) [OF i(7) q(1), of a] a by simp
    obtain l where l: "lts w a = Some l" using i(11) [of a] loc by auto
    then obtain sa where ok: "lt_ok (set ss) w U loc a l sa" using i(10) by blast
    note d = lt_okD [OF ok]
    have nr: "\<not> is_running l" using d(9) loc by blast
    have plain: "\<not> needs_resched l" "\<not> has_flag (lt_state l) LT_ST_EXITED" "sleep_usecs l = 0" "idle l" "\<not> is_blocked l"
      using d(4-8) nr loc by auto
    obtain w1 where w1: "lthread_pop_ready s w = Inr (Some a, w1)" "tq_family (set ss) (ready_q w1) (R(q := rest))"
      "lts w1 = (lts w)(a \<mapsto> l\<lparr>lt_sched := Some s\<rparr>)" "held w1 = held w"
      "\<And>x. sleeping x w1 = sleeping x w" "\<And>x. current_lthread (scheds w1 x) = current_lthread (scheds w x)"
      using pop_ready_takes [OF i(1) xs(1) K _ _ _ Some a l] i(8) by auto
    note r = rest_parts [OF rest_pop_ready [OF w1(1)]]
    let ?l = "l\<lparr>lt_sched := Some s, is_running := True\<rparr>"
    let ?w = "(upd_sched s (current_lthread_update (\<lambda>_. Some a)) w1)\<lparr>lts := (lts w1)(a \<mapsto> ?l)\<rparr>"
    have begin_ok: "lthread_resume_begin s a w1 = Inr ?w"
      using resume_begin_ok [of w1 a "l\<lparr>lt_sched := Some s\<rparr>" s] w1(3,4) i(8) nr by simp
    have new: "lts ?w = (lts w)(a \<mapsto> ?l)" using w1(3) by simp
    have U: "s \<notin> U" using i(13) [of s] s(2) by auto
    have idle: "idle ?l" using plain(4) by (simp add: idle_def)
    have ok': "lt_ok (set ss) ?w U (loc(a := None)) a ?l s" using plain idle s(1) U by (simp add: lt_ok_def)
    have cur: "current_lthread (scheds ?w x) = (if x = s then Some a else current_lthread (scheds w x))" for x using w1(6) by simp
    have node: "sleep_node ?w = sleep_node w" "\<And>k. sleeping_root (scheds ?w k) = sleeping_root (scheds w k)"
      using w1(5) by (simp_all add: sleeping_def)
    have "sys_at ss C ?w U (R(q := rest)) S M B (loc(a := None))"
    proof (rule sys_stepI [OF inv new _ ok'])
      show "lts w a \<noteq> None" using l by simp
      show "current_lthread (scheds ?w x) = Some y \<longleftrightarrow> current_lthread (scheds w x) = Some y" if "y \<noteq> a" for x y
        using that cur s(2) by auto
      show "x = s" if "x \<in> set ss" "current_lthread (scheds ?w x) = Some a" for x
      proof (rule ccontr)
        assume "x \<noteq> s"
        with that(2) w1(6) have c: "current_lthread (scheds w x) = Some a" by simp
        from sys_at_running [OF inv that(1) c] l nr show False by (metis option.inject)
      qed
      show "x \<in> set ss \<and> current_lthread (scheds ?w x) \<noteq> NULL" if "x \<in> U" for x using i(13) [OF that] cur by auto
      show "sleep_family (set ss) ?w S" using i(2) sleep_family_cong [OF node] by simp
      show "sorted_by (sleep_key ?w) (S x)" if "x \<in> set ss" for x using sorted_keep [OF inv new _ that] loc by simp
      show "wait_table ?w M" using wait_keep [OF inv new] loc r by (simp add: waiting_def)
      show "cond_inv C ?w B" using blocked_keep [OF inv new] loc r by simp
      show "loc_ok (set ss) C (R(q := rest)) S M B (loc(a := None))"
        using loc_leave(1) [OF i(7) a _ q(1)] tq_repr_distinct [OF tq_family_repr [OF i(1) q(1)]] a by simp
      show "neighbor ?w = neighbor w" using r(5) by (simp add: fun_eq_iff)
    qed (use i(5,8) w1(2,4) r in simp_all)
    moreover have "adrift (loc(a := None)) = adrift loc" using loc by (intro adrift_move) simp_all
    moreover have "current_lthread (scheds ?w s) = Some a" using cur [of s] by simp
    moreover have "current_lthread (scheds ?w x) = current_lthread (scheds w x)" if "x \<noteq> s" for x using cur [of x] that by simp
    ultimately show ?thesis using w1(1) begin_ok a q(1) by blast
  qed
qed

lemma expire_step:
  assumes inv: "sys_at ss C w U R S M B loc" and s: "s \<in> set ss" "current_lthread (scheds w s) = NULL"
  shows "\<exists>w' R' S' loc'. lthread_schedule_expired now s w = Inr w' \<and> sys_at ss C w' U R' S' M B loc' \<and>
    adrift loc' = adrift loc \<and> (\<forall>q. current_lthread (scheds w' q) = current_lthread (scheds w q))"
proof -
  note i = sys_atD [OF inv]
  have loc: "loc x = Some (Sleeping s)" if "x \<in> set (S s)" for x using loc_okD(2) [OF i(7) s(1), of x] that by simp
  have sl: "\<exists>l. lts w x = Some l \<and> lt_ok (set ss) w U loc x l s \<and> \<not> is_running l" if x: "x \<in> set (S s)" for x
  proof -
    obtain l where l: "lts w x = Some l" using i(11) [of x] loc [OF x] by auto
    then obtain s' where ok: "lt_ok (set ss) w U loc x l s'" using i(10) by blast
    have "s' = s" using lt_okD(10) [OF ok loc [OF x]] by simp
    with l ok lt_okD(3) [OF ok] s(2) show ?thesis by auto
  qed
  have zero: "sleep_key w x = 0" if "x \<in> set (S s)" for x using sleeper_keys [OF inv s(1) that] s(2) by simp
  have all: "filter (\<lambda>a. sleep_key w a \<le> now) (S s) = S s" "filter (\<lambda>a. \<not> sleep_key w a \<le> now) (S s) = []"
    using zero by (simp_all add: filter_id_conv filter_empty_conv)
  have "sleepers_ok (set ss) w s R (S s)"
    unfolding sleepers_ok_def using sl lt_okD(2) loc loc_okD(1) [OF i(7)] by fastforce
  from schedule_expired_ok [OF i(2,1) s(1) this i(3) [OF s(1)] s(2), of now, unfolded all] i(8) obtain w' where
    w': "lthread_schedule_expired now s w = Inr w'" "tq_family (set ss) (ready_q w') (R(s := R s @ S s))"
    "sleep_family (set ss) w' (S(s := []))" "lts w' = lts w" "held w' = {}"
    "\<And>x. current_lthread (scheds w' x) = current_lthread (scheds w x)" by auto
  note r = rest_parts [OF rest_schedule_expired [OF w'(1)]]
  let ?loc = "\<lambda>x. if x \<in> set (S s) then Some (Ready s) else loc x"
  have key: "sleep_key w' = sleep_key w" using w'(4) by (simp add: fun_eq_iff sleep_key_def node_at_def)
  have place: "loc_ok (set ss) C (R(s := R s @ S s)) (S(s := [])) M B ?loc"
    unfolding loc_ok_def
  proof
    fix x
    show "placed (set ss) C (R(s := R s @ S s)) (S(s := [])) M B x (?loc x)"
      using loc [of x] s(1) loc_okD [OF i(7)] by (cases "x \<in> set (S s)") (auto simp: placed_def)
  qed
  have lts: "\<exists>q. lt_ok (set ss) w' U ?loc x l q" if "lts w' x = Some l" for x l
  proof (cases "x \<in> set (S s)")
    case True
    then have ok: "lt_ok (set ss) w U loc x l s" "\<not> is_running l" using sl that w'(4) by fastforce+
    note d = lt_okD [OF ok(1)]
    have "\<not> needs_resched l" "\<not> has_flag (lt_state l) LT_ST_EXITED" "sleep_usecs l = 0" "idle l" "\<not> is_blocked l"
      "current_lthread (scheds w s) \<noteq> Some x"
      using d(3-8) ok(2) loc [OF True] by auto
    then have "lt_ok (set ss) w' U ?loc x l s" using d(1,2) ok(2) True w'(6) by (simp add: lt_ok_def)
    then show ?thesis ..
  next
    case False
    have "lts w x = Some l" using that w'(4) by simp
    then obtain q where "lt_ok (set ss) w U loc x l q" using i(10) by blast
    then have "lt_ok (set ss) w' U ?loc x l q" by (rule lt_ok_other) (use False w'(6) in simp_all)
    then show ?thesis ..
  qed
  have "sys_at ss C w' U (R(s := R s @ S s)) (S(s := [])) M B ?loc"
    unfolding sys_at_def
  proof (intro conjI)
    show "\<forall>q \<in> set ss. sorted_by (sleep_key w') ((S(s := [])) q)" using i(3) unfolding key by simp
    show "wait_table w' M" by (rule wait_table_cong [OF i(4) r(1)]) (simp add: w'(4))
    show "cond_inv C w' B" by (rule cond_keep [OF i(6) r(3,4)]) (simp add: w'(4))
    show "is_ring (neighbor w') ss" using i(9) r(5) by simp
    show "\<forall>x l. lts w' x = Some l \<longrightarrow> (\<exists>q. lt_ok (set ss) w' U ?loc x l q)" using lts by blast
    show "\<forall>x. ?loc x \<noteq> None \<longrightarrow> lts w' x \<noteq> None" using i(11) loc w'(4) by auto
    show "\<forall>q \<in> set ss. \<forall>x. current_lthread (scheds w' q) = Some x \<longrightarrow> (\<exists>l. lts w' x = Some l \<and> lt_sched l = Some q)"
      using i(12) w'(4,6) by simp
    show "\<forall>q \<in> U. q \<in> set ss \<and> current_lthread (scheds w' q) \<noteq> NULL" using i(13) w'(6) by simp
  qed (use i w' r place in simp_all)
  moreover have "adrift ?loc = adrift loc" using loc by (auto simp: adrift_def)
  ultimately show ?thesis using w'(1,6) by blast
qed

lemma spawn_step:
  assumes inv: "sys_at ss C w U R S M B loc" and s: "s \<in> set ss" "lthread_cache (scheds w s) = []"
    and a: "lts w a = None" "card (dom (lts w)) + 1 < 2 ^ 64"
  shows "\<exists>w' R' loc'. lthread_spawn (Some a) errno f arg (Some s) w = Inr (Some a, w') \<and> sys_at ss C w' U R' S M B loc' \<and>
    (\<forall>q. current_lthread (scheds w' q) = current_lthread (scheds w q)) \<and>
    (\<forall>q. lthread_cache (scheds w' q) = lthread_cache (scheds w q)) \<and> R' = R(s := R s @ [a]) \<and>
    dom (lts w') = insert a (dom (lts w)) \<and> adrift loc' = adrift loc"
proof -
  note i = sys_atD [OF inv]
  have loc: "loc a = None" using i(11) [of a] a(1) by blast
  have cur: "current_lthread (scheds w q) \<noteq> Some a" if "q \<in> set ss" for q using i(12) [OF that, of a] a(1) by auto
  let ?l = "lthread_zero\<lparr>lt_sched := Some s, lt_fun := f, lt_arg := arg\<rparr>"
  let ?v = "w\<lparr>lts := (lts w)(a \<mapsto> ?l)\<rparr>"
  let ?w = "ready_result s s a ?l ?v" and ?loc = "loc(a \<mapsto> Ready s)" and ?R = "R(s := R s @ [a])"
  have zero: "lthread_zero\<lparr>lt_sched := Some s, is_running := False, is_blocked := False, lt_fun := f, lt_arg := arg\<rparr> = ?l"
    by (simp add: lthread_zero_def)
  have run: "lthread_spawn (Some a) errno f arg (Some s) w = Inr (Some a, ?w)"
    using s(2) i(8) zero push_ready_ok [of ?v a ?l s s]
    by (simp add: lthread_spawn_def lthread_create_def lthread_allocate_def)
  have new: "lts ?w = (lts w)(a \<mapsto> ?l)" using cur [OF s(1)] by (simp add: ready_result_lts)
  have same: "lts ?w x = lts w x" if "x \<noteq> a" for x using that new by simp
  have cur': "current_lthread (scheds ?w q) = current_lthread (scheds w q)" for q by simp
  have ok: "lt_ok (set ss) ?w U ?loc a ?l s"
    using s(1) cur [OF s(1)] by (simp add: lt_ok_def lthread_zero_def idle_def)
  have lts: "\<exists>q. lt_ok (set ss) ?w U ?loc x l q" if l: "lts ?w x = Some l" for x l
  proof (cases "x = a")
    case True
    with l new have "l = ?l" by simp
    with True ok show ?thesis by blast
  next
    case False
    with l same have "lts w x = Some l" by simp
    then obtain q where "lt_ok (set ss) w U loc x l q" using i(10) by blast
    then have "lt_ok (set ss) ?w U ?loc x l q" by (rule lt_ok_other) (use False in simp_all)
    then show ?thesis ..
  qed
  have "sys_at ss C ?w U ?R S M B ?loc"
    unfolding sys_at_def
  proof (intro conjI)
    show "tq_family (set ss) (ready_q ?w) ?R"
      using ready_result_queue [of "set ss" ?v R s a s ?l] i(1) s(1) not_in_queues(1) [OF inv loc] cur [OF s(1)] by simp
    show "sleep_family (set ss) ?w S" using i(2) sleep_family_cong [of ?w w] by simp
    show "\<forall>q \<in> set ss. sorted_by (sleep_key ?w) (S q)" using sorted_keep [OF inv new] loc by simp
    show "wait_table ?w M" using wait_keep [OF inv new] loc by (simp add: waiting_def)
    show "cond_inv C ?w B" using blocked_keep [OF inv new] loc by simp
    show "loc_ok (set ss) C ?R S M B ?loc" by (rule loc_enter(1) [OF i(7) loc s(1)])
    show "is_ring (neighbor ?w) ss" using i(9) by simp
    show "\<forall>x l. lts ?w x = Some l \<longrightarrow> (\<exists>q. lt_ok (set ss) ?w U ?loc x l q)" using lts by blast
    show "\<forall>x. ?loc x \<noteq> None \<longrightarrow> lts ?w x \<noteq> None" using i(11) new by auto
    show "\<forall>q \<in> set ss. \<forall>x. current_lthread (scheds ?w q) = Some x \<longrightarrow> (\<exists>l. lts ?w x = Some l \<and> lt_sched l = Some q)"
      using i(12) cur same cur' by metis
    show "\<forall>q \<in> U. q \<in> set ss \<and> current_lthread (scheds ?w q) \<noteq> NULL" using i(13) by simp
    show "finite (dom (lts ?w))" using i(14) new by simp
    show "card (dom (lts ?w)) < 2 ^ 64"
    proof -
      have "dom (lts ?w) = insert a (dom (lts w))" "a \<notin> dom (lts w)" using new a(1) by auto
      with a(2) i(14) show ?thesis by simp
    qed
  qed (use i in simp_all)
  moreover have "lthread_cache (scheds ?w q) = lthread_cache (scheds w q)" for q
    by (simp add: ready_result_def wake_result_def lthread_os_cond_signal_def upd_sched_def split: sched_block_state.splits)
  moreover have "dom (lts ?w) = insert a (dom (lts w))" using new by simp
  moreover have "adrift ?loc = adrift loc" using loc by (intro adrift_move) simp_all
  ultimately show ?thesis using run cur' by blast
qed

subsection \<open>Blocking of a scheduler\<close>

text \<open>What the invariant depends on.\<close>

definition same_core :: "world \<Rightarrow> world \<Rightarrow> bool" where
  "same_core w w' \<longleftrightarrow> lts w' = lts w \<and> ready_q w' = ready_q w \<and> sleep_node w' = sleep_node w \<and> rest w' = rest w \<and>
     (\<forall>s. sleeping_root (scheds w' s) = sleeping_root (scheds w s) \<and> current_lthread (scheds w' s) = current_lthread (scheds w s))"

lemma same_core_trans: "same_core w w1 \<Longrightarrow> same_core w1 w' \<Longrightarrow> same_core w w'"
  by (simp add: same_core_def)

lemma same_core_upd [simp]:
  "same_core w (w\<lparr>held := h\<rparr>)" "same_core w (w\<lparr>pool := p\<rparr>)" "same_core w w"
  "same_core w (upd_sched s (block_state_update f) w)"
  by (auto simp: same_core_def)

lemma same_core_mutex:
  "lthread_mutex_lock m w = Inr w' \<Longrightarrow> same_core w w'" "lthread_mutex_unlock m w = Inr w' \<Longrightarrow> same_core w w'"
  by (auto simp: lthread_mutex_lock_def lthread_mutex_unlock_def rbind_eq_Inr split: if_splits)

lemma same_core_unlock_upd:
  "lthread_mutex_unlock m (w\<lparr>pool := p\<rparr>) = Inr w' \<Longrightarrow> same_core w w'"
  "lthread_mutex_unlock m (upd_sched s (block_state_update f) w) = Inr w' \<Longrightarrow> same_core w w'"
  by (rule same_core_trans [OF _ same_core_mutex(2)]; simp)+

lemma same_core_deep_sleep:
  "lthread_pool_begin_deep_sleep s w = Inr (b, w') \<Longrightarrow> same_core w w'"
  "lthread_pool_end_deep_sleep s w = Inr w' \<Longrightarrow> same_core w w'"
  "lthread_poller_has_pending_events w = Inr (b, w') \<Longrightarrow> same_core w w'"
  unfolding lthread_pool_begin_deep_sleep_def lthread_pool_end_deep_sleep_def lthread_poller_has_pending_events_def
    rbind_eq_Inr Let_def
  by (blast dest: same_core_mutex same_core_unlock_upd(1) intro: same_core_trans)+

lemma same_core_block:
  assumes "run_sched_block now s w = Inr (d, w')"
  shows "same_core w w'"
proof -
  obtain w1 where 1: "lthread_mutex_lock (Sched_mutex s) w = Inr w1"
    using assms by (auto simp: run_sched_block_def rbind_eq_Inr)
  let ?w2 = "upd_sched s (block_state_update (\<lambda>_. LTHREAD_SCHED_IS_BLOCKING)) w1"
  show ?thesis
  proof (cases "block_state (scheds w1 s) = LTHREAD_SCHED_WONT_BLOCK")
    case True
    with assms 1 show ?thesis
      by (auto simp: run_sched_block_def rbind_eq_Inr intro: same_core_trans dest!: same_core_mutex(1) same_core_unlock_upd(2))
  next
    case False
    obtain deep w3 fin w4 where 3: "(if lthread_sched_isdone s ?w2
          then rbind (lthread_poller_has_pending_events ?w2) (\<lambda>(pending, w). Inr (\<not> pending, w)) else Inr (False, ?w2)) = Inr (deep, w3)"
      and 4: "(if deep then lthread_pool_begin_deep_sleep s w3 else Inr (False, w3)) = Inr (fin, w4)"
      and 5: "(if \<not> fin then
             rbind (if deep then Inr 0 else lthread_min_timeout now s w4) (\<lambda>timeout.
             rbind (assert_that ''deep_sleep || timeout > 0'' (deep \<or> timeout > 0)) (\<lambda>_.
             rbind (lthread_mutex_unlock (Sched_mutex s) w4) (\<lambda>w.
             Inr (Wait timeout deep, w))))
           else
             rbind (lthread_mutex_unlock (Sched_mutex s)
                      (upd_sched s (block_state_update (\<lambda>_. LTHREAD_SCHED_WILL_BLOCK)) w4)) (\<lambda>w.
             Inr (All_done, w))) = Inr (d, w')"
      using assms False unfolding run_sched_block_def 1 rbind_Inr Let_def by (simp only: if_False rbind_pair_Inr) blast
    have "same_core ?w2 w3" using 3 by (auto simp: rbind_eq_Inr dest: same_core_deep_sleep(3) split: if_splits)
    moreover have "same_core w3 w4" using 4 by (auto dest: same_core_deep_sleep(1) split: if_splits)
    moreover have "same_core w4 w'"
      using 5 by (auto simp: rbind_eq_Inr dest: same_core_mutex(2) same_core_unlock_upd(2) split: if_splits)
    moreover have "same_core w ?w2" by (rule same_core_trans [OF same_core_mutex(1) [OF 1]]) simp
    ultimately show ?thesis by (blast intro: same_core_trans)
  qed
qed

lemma same_core_unblock:
  assumes "run_sched_unblock deep s w = Inr w'"
  shows "same_core w w'"
proof -
  obtain w1 w2 where 1: "lthread_mutex_lock (Sched_mutex s) w = Inr w1"
    and 2: "(if deep then lthread_pool_end_deep_sleep s w1 else Inr w1) = Inr w2"
    and 3: "lthread_mutex_unlock (Sched_mutex s) (upd_sched s (block_state_update (\<lambda>_. LTHREAD_SCHED_WILL_BLOCK)) w2) = Inr w'"
    using assms unfolding run_sched_unblock_def rbind_eq_Inr by blast
  have "same_core w1 w2" using 2 by (auto dest: same_core_deep_sleep(2) split: if_splits)
  with same_core_mutex(1) [OF 1] same_core_unlock_upd(2) [OF 3] show ?thesis by (blast intro: same_core_trans)
qed

lemma sys_at_cong:
  assumes inv: "sys_at ss C w U R S M B loc" and core: "same_core w w'" and "held w' = {}"
  shows "sys_at ss C w' U R S M B loc"
proof -
  note i = sys_atD [OF inv]
  have c: "lts w' = lts w" "ready_q w' = ready_q w" "sleep_node w' = sleep_node w" "rest w' = rest w"
    "\<And>s. sleeping_root (scheds w' s) = sleeping_root (scheds w s)" "\<And>s. current_lthread (scheds w' s) = current_lthread (scheds w s)"
    using core by (simp_all add: same_core_def)
  note r = rest_parts [OF c(4)]
  have key: "sleep_key w' = sleep_key w" using c(1) by (simp add: fun_eq_iff sleep_key_def node_at_def)
  have lts: "\<exists>q. lt_ok (set ss) w' U loc x l q" if "lts w' x = Some l" for x l
  proof -
    have "lts w x = Some l" using that c(1) by simp
    then obtain q where "lt_ok (set ss) w U loc x l q" using i(10) by blast
    then have "lt_ok (set ss) w' U loc x l q" by (rule lt_ok_other) (use c(6) in simp_all)
    then show ?thesis ..
  qed
  show ?thesis
    unfolding sys_at_def
  proof (intro conjI)
    show "sleep_family (set ss) w' S" using i(2) sleep_family_cong [OF c(3,5)] by simp
    show "\<forall>q \<in> set ss. sorted_by (sleep_key w') (S q)" using i(3) unfolding key by simp
    show "wait_table w' M" by (rule wait_table_cong [OF i(4) r(1)]) (simp add: c(1))
    show "cond_inv C w' B" by (rule cond_keep [OF i(6) r(3,4)]) (simp add: c(1))
    show "is_ring (neighbor w') ss" using i(9) r(5) by simp
    show "\<forall>x l. lts w' x = Some l \<longrightarrow> (\<exists>q. lt_ok (set ss) w' U loc x l q)" using lts by blast
    show "\<forall>q \<in> set ss. \<forall>x. current_lthread (scheds w' q) = Some x \<longrightarrow> (\<exists>l. lts w' x = Some l \<and> lt_sched l = Some q)"
      using i(12) c(1,6) by simp
    show "\<forall>q \<in> U. q \<in> set ss \<and> current_lthread (scheds w' q) \<noteq> NULL" using i(13) c(6) by simp
    show "\<forall>x. loc x \<noteq> None \<longrightarrow> lts w' x \<noteq> None" using i(11) c(1) by simp
  qed (use i c r assms(3) in simp_all)
qed

lemma block_step:
  assumes inv: "sys_at ss C w U R S M B loc" and s: "s \<in> set ss"
  shows "\<exists>d w'. run_sched_block now s w = Inr (d, w') \<and> sys_at ss C w' U R S M B loc"
proof -
  note i = sys_atD [OF inv]
  have "lts w x \<noteq> None" if "x \<in> set (S s)" for x using i(11) [of x] loc_okD(2) [OF i(7) s, of x] that by simp
  from run_sched_block_ok [OF i(2,1) s this, of now] i(8) obtain d w' where
    w': "run_sched_block now s w = Inr (d, w')" "held w' = {}" by auto
  with sys_at_cong [OF inv same_core_block [OF w'(1)] w'(2)] show ?thesis by blast
qed

lemma unblock_step:
  assumes inv: "sys_at ss C w U R S M B loc"
  shows "\<exists>w'. run_sched_unblock deep s w = Inr w' \<and> sys_at ss C w' U R S M B loc"
proof -
  have "\<exists>w'. run_sched_unblock deep s w = Inr w' \<and> held w' = {}"
    using sys_atD(8) [OF inv] by (simp add: run_sched_unblock_def lthread_pool_end_deep_sleep_def Let_def)
  with sys_at_cong [OF inv] same_core_unblock show ?thesis by blast
qed

end
