(* ===== verification/System.thy ===== *)
theory System
  imports System_Proof
begin

section \<open>The whole system\<close>

text \<open>
  The operations of all components as one step relation, the states it reaches from the start of \<open>lthread_run\<close>, and what
  holds in all of them.
\<close>

lemma fd_resumed_step:
  assumes inv: "sys_at ss C w U R S M B loc" and s: "s \<in> set ss" "current_lthread (scheds w s) = Some a" "s \<notin> U"
  shows "\<exists>r w'. lthread_wait_fd_resumed a w = Inr (r, w') \<and> sys_at ss C w' U R S M B loc"
proof -
  obtain l where l: "lts w a = Some l" "lt_ok (set ss) w U loc a l s" "is_running l" "lt_sched l = Some s" "loc a = None"
    "\<not> needs_resched l" "\<not> has_flag (lt_state l) LT_ST_EXITED" "sleep_usecs l = 0" "idle l" "\<not> is_blocked l"
    using sys_at_active [OF inv s] by blast
  show ?thesis
  proof (cases "has_flag (lt_state l) LT_ST_FDEOF")
    case True
    let ?l = "l\<lparr>lt_state := clear_flag LT_ST_FDEOF (lt_state l)\<rparr>"
    let ?w = "w\<lparr>lts := (lts w)(a \<mapsto> ?l)\<rparr>"
    have "idle ?l" "\<not> has_flag (lt_state ?l) LT_ST_EXITED" using l(7,9) by (simp_all add: idle_def st_defs)
    then have "lt_ok (set ss) ?w U (loc(a := None)) a ?l s" using l s by (simp add: lt_ok_def)
    from own_free_stepI [OF inv s(1,2) l(5) refl this] l(1) True show ?thesis
      by (simp add: lthread_wait_fd_resumed_def get_lt_def upd_lt_def)
  next
    case False
    with l(1) inv show ?thesis by (simp add: lthread_wait_fd_resumed_def get_lt_def)
  qed
qed

subsection \<open>What does not touch the condition variables\<close>

definition cq :: "world \<Rightarrow> (addr \<rightharpoonup> lthread_cond) \<times> tailq" where
  "cq w = (conds w, blocked_q w)"

lemma cq_rest: "rest w' = rest w \<Longrightarrow> cq w' = cq w"
  by (simp add: rest_def cq_def)

lemma cq_upd [simp]:
  "cq (w\<lparr>lts := L\<rparr>) = cq w" "cq (w\<lparr>held := h\<rparr>) = cq w" "cq (w\<lparr>ready_q := Q\<rparr>) = cq w"
  "cq (put_waiting t w) = cq w" "cq (upd_pending f w) = cq w"
  "cq (upd_sched s (current_lthread_update g) w) = cq w" "cq (upd_sched s (lthread_cache_update g') w) = cq w"
  by (simp_all add: cq_def upd_sched_def put_waiting_def upd_pending_def)

lemma cq_basic:
  "lthread_mutex_lock m w = Inr w' \<Longrightarrow> cq w' = cq w" "lthread_mutex_unlock m w = Inr w' \<Longrightarrow> cq w' = cq w"
  "upd_lt a f w = Inr w' \<Longrightarrow> cq w' = cq w" "lthread_sched_push_ready s a w = Inr w' \<Longrightarrow> cq w' = cq w"
  by (auto intro: cq_rest dest: rest_mutex rest_upd_lt rest_push_ready)

lemma cq_yield: "i_lthread_yield me w = Inr w' \<Longrightarrow> cq w' = cq w"
  by (auto simp: i_lthread_yield_def rbind_eq_Inr)

lemma cq_lthread_yield: "lthread_yield s w = Inr w' \<Longrightarrow> cq w' = cq w"
  by (auto simp: lthread_yield_def rbind_eq_Inr dest!: cq_basic cq_yield)

lemma cq_exit: "lthread_exit s w = Inr w' \<Longrightarrow> cq w' = cq w"
  by (auto simp: lthread_exit_def i_lthread_exit_def rbind_eq_Inr dest!: cq_basic cq_yield)

lemma cq_sleep: "lthread_sleep now s ms w = Inr w' \<Longrightarrow> cq w' = cq w"
  by (auto simp: lthread_sleep_def rbind_eq_Inr dest!: rest_sched_sleep cq_rest)

lemma cq_free: "lthread_free a w = Inr w' \<Longrightarrow> cq w' = cq w"
  by (auto simp: lthread_free_def rbind_eq_Inr)

lemma cq_resume_begin: "lthread_resume_begin s a w = Inr w' \<Longrightarrow> cq w' = cq w"
  by (auto simp: lthread_resume_begin_def Let_def rbind_eq_Inr dest!: cq_basic)

lemma cq_resume_end: "lthread_resume_end s a w = Inr w' \<Longrightarrow> cq w' = cq w"
  by (auto simp: lthread_resume_end_def Let_def rbind_eq_Inr dest!: cq_basic cq_free split: if_splits)

lemma cq_add_waiting: "lthread_poller_add_waiting_lthread a fd e w = Inr w' \<Longrightarrow> cq w' = cq w"
  by (auto simp: lthread_poller_add_waiting_lthread_def rbind_eq_Inr dest!: cq_basic)

lemma cq_wait_fd: "lthread_wait_fd kev s fd e w = Inr w' \<Longrightarrow> cq w' = cq w"
  by (auto simp: lthread_wait_fd_def lthread_poller_schedule_event_def rbind_eq_Inr dest!: cq_add_waiting cq_yield)

lemma cq_wait_fd_resumed: "lthread_wait_fd_resumed a w = Inr (r, w') \<Longrightarrow> cq w' = cq w"
  by (auto simp: lthread_wait_fd_resumed_def rbind_eq_Inr dest!: cq_basic split: if_splits)

lemma cq_desched_event: "lthread_poller_desched_event fd e w = Inr (p, w') \<Longrightarrow> cq w' = cq w"
  by (auto simp: lthread_poller_desched_event_def rbind_eq_Inr dest!: cq_basic split: option.splits)

lemma cq_make_ready: "lthread_desched_event a w = Inr w' \<Longrightarrow> cq w' = cq w"
  by (auto simp: lthread_desched_event_def rbind_eq_Inr dest!: cq_basic)

lemma cq_handle_event: "lthread_poller_handle_event fd e eof w = Inr (p, w') \<Longrightarrow> cq w' = cq w"
  by (auto simp: lthread_poller_handle_event_def rbind_eq_Inr dest!: cq_basic cq_desched_event cq_make_ready
      split: option.splits if_splits)

lemma cq_handle_one: "handle_events [ev] w = Inr w' \<Longrightarrow> cq w' = cq w"
  by (auto simp: Let_def rbind_pair_Inr rbind_eq_Inr dest!: cq_handle_event)

lemma cq_mco_entry: "mco_entry (\<lambda>_ _. Inr) a w = Inr w' \<Longrightarrow> cq w' = cq w"
  by (simp add: mco_entry_def rbind_eq_Inr)

lemma cq_allocate: "lthread_allocate m errno s w = Inr (err, p, w') \<Longrightarrow> cq w' = cq w"
  unfolding lthread_allocate_def Let_def
  by (cases m; cases "lthread_cache (scheds w s) = []") (auto simp: rbind_eq_Inr dest!: cq_basic(3))

lemma cq_create: "lthread_create m errno f arg p w = Inr (err, r, w') \<Longrightarrow> cq w' = cq w"
  unfolding lthread_create_def
  by (cases p) (auto simp: rbind_pair_Inr rbind_eq_Inr dest!: cq_basic(3,4) cq_allocate split: if_splits)

lemma cq_spawn: "lthread_spawn m errno f arg p w = Inr (r, w') \<Longrightarrow> cq w' = cq w"
  unfolding lthread_spawn_def by (auto simp: rbind_eq_Inr dest!: cq_create split: if_splits)

lemma same_core_cq: "same_core w w' \<Longrightarrow> cq w' = cq w"
  unfolding same_core_def by (blast intro: cq_rest)

lemmas cq_frame = cq_lthread_yield cq_exit cq_sleep cq_resume_begin cq_resume_end cq_wait_fd cq_wait_fd_resumed cq_handle_one cq_mco_entry
  cq_spawn cq_rest [OF rest_pop_ready] cq_rest [OF rest_schedule_expired] same_core_cq [OF same_core_block]
  same_core_cq [OF same_core_unblock]

lemma mon_apply: "mon w B c = (owner_of w c, B c)"
  by (simp add: mon_def)

lemma mon_cq: "cq w' = cq w \<Longrightarrow> mon w' B = mon w B"
  by (simp add: mon_def cq_def owner_of_def fun_eq_iff)

subsection \<open>The step relation\<close>

text \<open>A step is what one OS thread does between two points where another one may go on: a scheduler that is idle takes
  an lthread, moves its expired sleepers or decides to block; the lthread that runs calls the library, goes on after a call that
  suspended it, or returns from its function; the poller delivers an event; a scheduler finishes \<open>_lthread_resume\<close>. A call of the
  library is one step, also if it takes several mutexes one after the other. \<open>U\<close> are the schedulers whose lthread has given up the
  processor and that have not finished yet. \<open>ss\<close> are the schedulers, \<open>C\<close> the condition variables.

  The stage of an lthread tells where it goes on: in its own code, or inside of \<open>lthread_cond_lock\<close>, \<open>lthread_cond_wait\<close> or
  \<open>_lthread_wait_fd\<close> behind their yield. \<open>Left\<close> is the stage of an lthread whose function has returned or that has called
  \<open>lthread_sleep(0)\<close>. Every call is a step when it succeeds; \<open>lthread_cond_wait\<close> with a timeout is the only one that is
  left out.\<close>

datatype stage = Own | In_lock addr | In_wait addr | In_fd | Left

type_synonym sys = "world \<times> addr set \<times> (addr \<Rightarrow> stage)"

definition active :: "world \<Rightarrow> addr set \<Rightarrow> addr \<Rightarrow> addr \<Rightarrow> bool" where
  "active w U s a \<longleftrightarrow> current_lthread (scheds w s) = Some a \<and> s \<notin> U"

inductive sys_step :: "addr list \<Rightarrow> addr set \<Rightarrow> sys \<Rightarrow> sys \<Rightarrow> bool" for ss C where
  pick: "s \<in> set ss \<Longrightarrow> current_lthread (scheds w s) = NULL \<Longrightarrow> lthread_pop_ready s w = Inr (Some a, w1) \<Longrightarrow>
    lthread_resume_begin s a w1 = Inr w' \<Longrightarrow> sys_step ss C (w, U, pc) (w', U, pc)"
| expire: "s \<in> set ss \<Longrightarrow> current_lthread (scheds w s) = NULL \<Longrightarrow> lthread_schedule_expired now s w = Inr w' \<Longrightarrow>
    sys_step ss C (w, U, pc) (w', U, pc)"
| block: "s \<in> set ss \<Longrightarrow> current_lthread (scheds w s) = NULL \<Longrightarrow> run_sched_block now s w = Inr (d, w') \<Longrightarrow>
    sys_step ss C (w, U, pc) (w', U, pc)"
| unblock: "s \<in> set ss \<Longrightarrow> current_lthread (scheds w s) = NULL \<Longrightarrow> run_sched_unblock deep s w = Inr w' \<Longrightarrow>
    sys_step ss C (w, U, pc) (w', U, pc)"
| finish: "s \<in> U \<Longrightarrow> current_lthread (scheds w s) = Some a \<Longrightarrow> lthread_resume_end s a w = Inr w' \<Longrightarrow>
    sys_step ss C (w, U, pc) (w', U - {s}, pc)"
| event: "handle_events [ev] w = Inr w' \<Longrightarrow> sys_step ss C (w, U, pc) (w', U, pc)"
| spawn: "s \<in> set ss \<Longrightarrow> lthread_cache (scheds w s) = [] \<Longrightarrow> lts w a = None \<Longrightarrow> card (dom (lts w)) + 1 < 2 ^ 64 \<Longrightarrow>
    lthread_spawn (Some a) errno f arg (Some s) w = Inr (p, w') \<Longrightarrow> sys_step ss C (w, U, pc) (w', U, pc(a := Own))"
| yields: "s \<in> set ss \<Longrightarrow> active w U s a \<Longrightarrow> pc a = Own \<Longrightarrow> lthread_yield s w = Inr w' \<Longrightarrow>
    sys_step ss C (w, U, pc) (w', insert s U, pc)"
| exits: "s \<in> set ss \<Longrightarrow> active w U s a \<Longrightarrow> pc a = Own \<Longrightarrow> lthread_exit s w = Inr w' \<Longrightarrow>
    sys_step ss C (w, U, pc) (w', insert s U, pc)"
| returns: "s \<in> set ss \<Longrightarrow> active w U s a \<Longrightarrow> pc a = Own \<Longrightarrow> mco_entry (\<lambda>_ _. Inr) a w = Inr w' \<Longrightarrow>
    sys_step ss C (w, U, pc) (w', insert s U, pc(a := Left))"
| sleeps: "s \<in> set ss \<Longrightarrow> active w U s a \<Longrightarrow> pc a = Own \<Longrightarrow> lthread_sleep now s ms w = Inr w' \<Longrightarrow>
    sys_step ss C (w, U, pc) (w', insert s U, if ms = 0 then pc(a := Left) else pc)"
| waits_fd: "s \<in> set ss \<Longrightarrow> active w U s a \<Longrightarrow> pc a = Own \<Longrightarrow> lthread_wait_fd kev s fd e w = Inr w' \<Longrightarrow>
    sys_step ss C (w, U, pc) (w', insert s U, pc(a := In_fd))"
| fd_resumed: "s \<in> set ss \<Longrightarrow> active w U s a \<Longrightarrow> pc a = In_fd \<Longrightarrow> lthread_wait_fd_resumed a w = Inr (r, w') \<Longrightarrow>
    sys_step ss C (w, U, pc) (w', U, pc(a := Own))"
| locks: "s \<in> set ss \<Longrightarrow> active w U s a \<Longrightarrow> pc a = Own \<Longrightarrow> c \<in> C \<Longrightarrow> lthread_cond_lock now s c w = Inr (b, w') \<Longrightarrow>
    sys_step ss C (w, U, pc) (w', if b then insert s U else U, if b then pc(a := In_lock c) else pc)"
| lock_resumed: "s \<in> set ss \<Longrightarrow> active w U s a \<Longrightarrow> pc a = In_lock c \<Longrightarrow> lthread_cond_lock_resumed c a w = Inr w' \<Longrightarrow>
    sys_step ss C (w, U, pc) (w', U, pc(a := Own))"
| unlocks: "s \<in> set ss \<Longrightarrow> active w U s a \<Longrightarrow> pc a = Own \<Longrightarrow> c \<in> C \<Longrightarrow> lthread_cond_unlock_signal s c w = Inr w' \<Longrightarrow>
    sys_step ss C (w, U, pc) (w', U, pc)"
| waits_cond: "s \<in> set ss \<Longrightarrow> active w U s a \<Longrightarrow> pc a = Own \<Longrightarrow> c \<in> C \<Longrightarrow> lthread_cond_wait now s c 0 w = Inr w' \<Longrightarrow>
    sys_step ss C (w, U, pc) (w', insert s U, pc(a := In_wait c))"
| wait_resumed: "s \<in> set ss \<Longrightarrow> active w U s a \<Longrightarrow> pc a = In_wait c \<Longrightarrow> lthread_cond_wait_resumed c a w = Inr (r, w') \<Longrightarrow>
    sys_step ss C (w, U, pc) (w', U, pc(a := Own))"

subsection \<open>The invariant with the stages\<close>

text \<open>Without the stages: what the loop of a scheduler needs.\<close>

definition sys_inv :: "addr list \<Rightarrow> addr set \<Rightarrow> world \<times> addr set \<Rightarrow> bool" where
  "sys_inv ss C = (\<lambda>(w, U). \<exists>R S M B loc. sys_at ss C w U R S M B loc)"

lemma sys_invI [intro]: "sys_at ss C w U R S M B loc \<Longrightarrow> sys_inv ss C (w, U)"
  unfolding sys_inv_def split by blast

lemma sys_invE: "sys_inv ss C (w, U) \<Longrightarrow> (\<And>R S M B loc. sys_at ss C w U R S M B loc \<Longrightarrow> P) \<Longrightarrow> P"
  by (auto simp: sys_inv_def)

text \<open>The stages agree with the monitors \<open>m\<close> and the set \<open>D\<close> of the lthreads that are in no structure: an lthread inside of \<open>lthread_cond_lock\<close> or
  \<open>lthread_cond_wait\<close> is in the queue or has been made the owner.\<close>

definition pc_ok :: "addr set \<Rightarrow> (addr \<Rightarrow> ptr \<times> addr list) \<Rightarrow> addr set \<Rightarrow> (addr \<Rightarrow> stage) \<Rightarrow> bool" where
  "pc_ok C m D pc \<longleftrightarrow>
     (\<forall>c \<in> C. \<forall>a \<in> set (snd (m c)). pc a = In_lock c \<or> pc a = In_wait c) \<and>
     (\<forall>a c. pc a = In_lock c \<or> pc a = In_wait c \<longrightarrow> c \<in> C \<and> (a \<in> set (snd (m c)) \<or> fst (m c) = Some a)) \<and>
     (\<forall>a. pc a = Left \<longleftrightarrow> a \<in> D)"

lemma pc_okD:
  assumes "pc_ok C m D pc"
  shows "c \<in> C \<Longrightarrow> a \<in> set (snd (m c)) \<Longrightarrow> pc a = In_lock c \<or> pc a = In_wait c"
    and "pc a = In_lock c \<or> pc a = In_wait c \<Longrightarrow> c \<in> C \<and> (a \<in> set (snd (m c)) \<or> fst (m c) = Some a)"
    and "pc a = Left \<longleftrightarrow> a \<in> D"
  using assms unfolding pc_ok_def by blast+

lemma pc_ok_own:
  assumes "pc_ok C m D pc" "\<And>c. c \<in> C \<Longrightarrow> a \<notin> set (snd (m c))" "a \<notin> D"
  shows "pc_ok C m D (pc(a := Own))" "pc_ok C m D (pc(a := In_fd))" "pc_ok C m (insert a D) (pc(a := Left))"
  using assms unfolding pc_ok_def by auto

lemma pc_ok_take:
  assumes "pc_ok C m D pc" "m c = (NULL, q)"
  shows "pc_ok C (m(c := (Some a, q))) D pc"
  using assms unfolding pc_ok_def by (simp, metis option.distinct(1) fst_conv snd_conv)

lemma pc_ok_join:
  assumes "pc_ok C m D pc" "\<And>k. k \<in> C \<Longrightarrow> a \<notin> set (snd (m k))" "pc a = Own" "c \<in> C" "x = In_lock c \<or> x = In_wait c"
  shows "pc_ok C (m(c := (fst (m c), snd (m c) @ [a]))) D (pc(a := x))"
proof -
  have "a \<notin> D" using pc_okD(3) [OF assms(1), of a] assms(3) by simp
  with assms show ?thesis unfolding pc_ok_def by auto
qed

lemma pc_ok_signal:
  assumes "pc_ok C m D pc" "fst (m c) = Some a" "pc a = Own"
  shows "pc_ok C (m(c := (hd_ptr (snd (m c)), tl (snd (m c))))) D pc"
proof (cases "snd (m c)")
  case Nil
  with assms show ?thesis unfolding pc_ok_def by (simp, metis empty_iff empty_set option.inject stage.distinct(1,3))
next
  case (Cons b q)
  with assms show ?thesis unfolding pc_ok_def by (simp, metis option.inject set_ConsD stage.distinct(1,3))
qed

definition sys_pc :: "addr list \<Rightarrow> addr set \<Rightarrow> sys \<Rightarrow> bool" where
  "sys_pc ss C = (\<lambda>(w, U, pc). \<exists>R S M B loc. sys_at ss C w U R S M B loc \<and> pc_ok C (mon w B) (adrift loc) pc)"

lemma sys_pcI: "sys_at ss C w U R S M B loc \<Longrightarrow> pc_ok C (mon w B) (adrift loc) pc \<Longrightarrow> sys_pc ss C (w, U, pc)"
  unfolding sys_pc_def split by blast

lemma sys_pcE:
  "sys_pc ss C (w, U, pc) \<Longrightarrow> (\<And>R S M B loc. sys_at ss C w U R S M B loc \<Longrightarrow> pc_ok C (mon w B) (adrift loc) pc \<Longrightarrow> P) \<Longrightarrow> P"
  by (auto simp: sys_pc_def)

text \<open>A step that keeps the condition variables and strands nobody.\<close>

lemma sys_pc_keep:
  assumes "sys_at ss C w' U' R S M B loc'" "cq w' = cq w" "adrift loc' = adrift loc" "pc_ok C (mon w B) (adrift loc) pc"
  shows "sys_pc ss C (w', U', pc)"
  using sys_pcI [OF assms(1)] mon_cq [OF assms(2), of B] assms(3,4) by simp

lemma active_free:
  assumes "sys_at ss C w U R S M B loc" "s \<in> set ss" "active w U s a"
  shows "current_lthread (scheds w s) = Some a" "s \<notin> U" "loc a = None" "a \<notin> adrift loc" "c \<in> C \<Longrightarrow> a \<notin> set (snd (mon w B c))"
proof -
  show act: "current_lthread (scheds w s) = Some a" "s \<notin> U" using assms(3) by (simp_all add: active_def)
  show loc: "loc a = None" using sys_at_active [OF assms(1,2) act] by blast
  then show "a \<notin> adrift loc" by (simp add: adrift_def)
  show "a \<notin> set (snd (mon w B c))" if "c \<in> C" using not_in_queues(4) [OF assms(1) loc that] by (simp add: mon_def)
qed

subsection \<open>Which calls succeed\<close>

text \<open>Nobody waits for the event \<open>e\<close> of the descriptor \<open>fd\<close>, of which the low 16 bits count.\<close>

definition fd_free :: "world \<Rightarrow> int \<Rightarrow> lthread_event \<Rightarrow> bool" where
  "fd_free w fd e \<longleftrightarrow> (\<forall>x l. lts w x = Some l \<and> waits l \<longrightarrow> waits_for l \<noteq> (word_of_int fd, e))"

lemma fd_free_iff:
  assumes "sys_at ss C w U R S M B loc"
  shows "fd_free w fd e \<longleftrightarrow> M (word_of_int fd, e) = None"
proof
  note i = sys_atD [OF assms]
  assume "fd_free w fd e"
  then show "M (word_of_int fd, e) = None" using wait_table_member [OF i(4)] by (metis fd_free_def option.exhaust)
next
  note i = sys_atD [OF assms]
  assume none: "M (word_of_int fd, e) = None"
  show "fd_free w fd e" unfolding fd_free_def
  proof (intro allI impI, elim conjE)
    fix x l assume l: "lts w x = Some l" "waits l"
    obtain s where ok: "lt_ok (set ss) w U loc x l s" using i(10) [OF l(1)] by blast
    have "\<not> idle l" using l(2) by (auto simp: waits_def idle_def)
    then obtain k where "loc x = Some (Waiting k)" using lt_okD(5) [OF ok] by blast
    then have k: "M k = Some x" using loc_okD(3) [OF i(7), of k x] by simp
    obtain l' where "lts w x = Some l'" "waits_for l' = k" using wait_table_member [OF i(4) k] by blast
    with l(1) k none show "waits_for l \<noteq> (word_of_int fd, e)" by auto
  qed
qed

lemma event_iff:
  assumes "sys_at ss C w U R S M B loc"
  shows "(\<exists>w'. handle_events [ev] w = Inr w') \<longleftrightarrow>
    \<not> (fd_free w (lthread_poller_ev_get_fd ev) LT_EV_READ \<and> fd_free w (lthread_poller_ev_get_fd ev) LT_EV_WRITE)"
  using poll_step [OF assms refl, of ev] unfolding fd_free_iff [OF assms] by fastforce

lemma wait_fd_iff:
  assumes inv: "sys_at ss C w U R S M B loc" and s: "s \<in> set ss" "active w U s a"
  shows "(\<exists>w'. lthread_wait_fd kev s fd e w = Inr w') \<longleftrightarrow> fd_free w fd e \<and> kev (change_for fd e) \<noteq> - 1"
proof -
  note act = active_free [OF inv s] and i = sys_atD [OF inv]
  obtain l where l: "lts w a = Some l" "idle l" using sys_at_active [OF inv s(1) act(1,2)] by blast
  show ?thesis
  proof (cases "fd_free w fd e \<and> kev (change_for fd e) \<noteq> - 1")
    case True
    with wait_fd_step [OF inv s(1) act(1,2)] fd_free_iff [OF inv] show ?thesis by blast
  next
    case False
    have "\<exists>x. lthread_wait_fd kev s fd e w = Inl x"
    proof (cases "M (word_of_int fd, e)")
      case None
      then have "kev (change_for fd e) = - 1" using False fd_free_iff [OF inv] by blast
      moreover obtain w' where "lthread_poller_add_waiting_lthread a fd e w = Inr w'"
        using add_waiting_ok [OF i(4) l _ None] i(8) by auto
      ultimately show ?thesis
        using act(1) by (simp add: lthread_wait_fd_def lthread_poller_schedule_event_def register_event_ok)
    next
      case (Some b)
      with add_waiting_taken [OF i(4) l _ Some] i(8) act(1) show ?thesis
        by (simp add: lthread_wait_fd_def lthread_poller_schedule_event_def)
    qed
    with False show ?thesis by auto
  qed
qed

lemma cond_iff:
  assumes inv: "sys_at ss C w U R S M B loc" and s: "s \<in> set ss" "active w U s a" and c: "c \<in> C"
  shows "(\<exists>b w'. lthread_cond_lock now s c w = Inr (b, w')) \<longleftrightarrow> owner_of w c \<noteq> Some a"
    and "(\<exists>w'. lthread_cond_unlock_signal s c w = Inr w') \<longleftrightarrow> owner_of w c = Some a"
    and "(\<exists>w'. lthread_cond_wait now s c 0 w = Inr w') \<longleftrightarrow> owner_of w c = Some a"
proof -
  note act = active_free [OF inv s] and i = sys_atD [OF inv]
  show "(\<exists>b w'. lthread_cond_lock now s c w = Inr (b, w')) \<longleftrightarrow> owner_of w c \<noteq> Some a"
    using lock_step [OF inv s(1) act(1,2) c, of now] cond_lock_owner_fails [OF i(6) c _ act(1), of now] i(8) by fastforce
  let ?w = "w\<lparr>held := {Cond_mutex c}\<rparr>"
  have fails: "lthread_cond_signal c a ?w = Inl (Assertion_failed ''c->owner == self'')" if "owner_of w c \<noteq> Some a"
    by (rule cond_signal_not_owner [of C _ B]) (use i(6) c that in auto)
  show "(\<exists>w'. lthread_cond_unlock_signal s c w = Inr w') \<longleftrightarrow> owner_of w c = Some a"
    using unlock_step [OF inv s(1) act(1,2) c] fails act(1) i(8)
    by (cases "owner_of w c = Some a") (auto simp: lthread_cond_unlock_signal_def lthread_current_def)
  show "(\<exists>w'. lthread_cond_wait now s c 0 w = Inr w') \<longleftrightarrow> owner_of w c = Some a"
    using cond_wait_step [OF inv s(1) act(1,2) c, of now] fails act(1) i(8)
    by (cases "owner_of w c = Some a") (auto simp: lthread_cond_wait_def lthread_current_def)
qed

lemma finish_step:
  assumes inv: "sys_at ss C w U R S M B loc" and s: "s \<in> U" "current_lthread (scheds w s) = Some a"
  shows "\<exists>w' R' loc'. lthread_resume_end s a w = Inr w' \<and> sys_at ss C w' (U - {s}) R' S M B loc' \<and> adrift loc' = adrift loc \<and>
    current_lthread (scheds w' s) = NULL"
proof -
  have ss: "s \<in> set ss" using sys_atD(13) [OF inv s(1)] by simp
  obtain l where l: "lts w a = Some l" using sys_at_running [OF inv ss s(2)] by blast
  show ?thesis
  proof (cases "has_flag (lt_state l) LT_ST_EXITED")
    case True
    from resume_end_exit_step [OF inv s l this] show ?thesis by blast
  next
    case False
    with l have "\<not> has_flag (lt_state l') LT_ST_EXITED" if "lts w a = Some l'" for l' using that by simp
    from resume_end_step [OF inv s this] show ?thesis by blast
  qed
qed

subsection \<open>Every step keeps the invariant\<close>

lemma sched_steps_pc:
  assumes inv: "sys_at ss C w U R S M B loc" and pc: "pc_ok C (mon w B) (adrift loc) pc" and s: "distinct ss" "s \<in> set ss"
  shows "current_lthread (scheds w s) = NULL \<Longrightarrow> lthread_pop_ready s w = Inr (Some a, w1) \<Longrightarrow> lthread_resume_begin s a w1 = Inr w' \<Longrightarrow>
      sys_pc ss C (w', U, pc)"
    and "current_lthread (scheds w s) = NULL \<Longrightarrow> lthread_schedule_expired now s w = Inr w' \<Longrightarrow> sys_pc ss C (w', U, pc)"
    and "run_sched_block now s w = Inr (d, w') \<Longrightarrow> sys_pc ss C (w', U, pc)"
    and "run_sched_unblock deep s w = Inr w' \<Longrightarrow> sys_pc ss C (w', U, pc)"
    and "lthread_cache (scheds w s) = [] \<Longrightarrow> lts w a = None \<Longrightarrow> card (dom (lts w)) + 1 < 2 ^ 64 \<Longrightarrow>
      lthread_spawn (Some a) errno f arg (Some s) w = Inr (p, w') \<Longrightarrow> sys_pc ss C (w', U, pc(a := Own))"
proof -
  note keep = sys_pc_keep [OF _ _ _ pc]
  show "sys_pc ss C (w', U, pc)"
    if idle: "current_lthread (scheds w s) = NULL" and run: "lthread_pop_ready s w = Inr (Some a, w1)" "lthread_resume_begin s a w1 = Inr w'"
  proof -
    obtain R' loc' where "sys_at ss C w' U R' S M B loc'" "adrift loc' = adrift loc"
      using pick_step [OF inv s(2) idle s(1)] run by auto
    moreover have "cq w' = cq w" using cq_resume_begin [OF run(2)] cq_rest [OF rest_pop_ready [OF run(1)]] by simp
    ultimately show ?thesis by (intro keep)
  qed
  show "sys_pc ss C (w', U, pc)" if "current_lthread (scheds w s) = NULL" "lthread_schedule_expired now s w = Inr w'"
    using expire_step [OF inv s(2) that(1), of now] that(2) cq_frame by (auto intro: keep)
  show "sys_pc ss C (w', U, pc)" if "run_sched_block now s w = Inr (d, w')"
    using block_step [OF inv s(2), of now] that cq_frame by (auto intro: keep)
  show "sys_pc ss C (w', U, pc)" if "run_sched_unblock deep s w = Inr w'"
    using unblock_step [OF inv, of deep s] that cq_frame by (auto intro: keep)
  show "sys_pc ss C (w', U, pc(a := Own))"
    if new: "lthread_cache (scheds w s) = []" "lts w a = None" "card (dom (lts w)) + 1 < 2 ^ 64"
      and run: "lthread_spawn (Some a) errno f arg (Some s) w = Inr (p, w')"
  proof -
    obtain R' loc' where w': "sys_at ss C w' U R' S M B loc'" "adrift loc' = adrift loc"
      using spawn_step [OF inv s(2) new, of errno f arg] run by auto
    have loc: "loc a = None" using sys_atD(11) [OF inv, of a] new(2) by blast
    have "pc_ok C (mon w B) (adrift loc) (pc(a := Own))"
      by (rule pc_ok_own(1) [OF pc]) (use not_in_queues(4) [OF inv loc] loc in \<open>auto simp: mon_def adrift_def\<close>)
    from sys_pc_keep [OF w'(1) cq_spawn [OF run] w'(2) this] show ?thesis .
  qed
qed

lemma call_steps_pc:
  assumes inv: "sys_at ss C w U R S M B loc" and pc: "pc_ok C (mon w B) (adrift loc) pc" and s: "s \<in> set ss" "active w U s a"
  shows "lthread_yield s w = Inr w' \<Longrightarrow> sys_pc ss C (w', insert s U, pc)"
    and "lthread_exit s w = Inr w' \<Longrightarrow> sys_pc ss C (w', insert s U, pc)"
    and "mco_entry (\<lambda>_ _. Inr) a w = Inr w' \<Longrightarrow> sys_pc ss C (w', insert s U, pc(a := Left))"
    and "lthread_sleep now s ms w = Inr w' \<Longrightarrow> sys_pc ss C (w', insert s U, if ms = 0 then pc(a := Left) else pc)"
    and "lthread_wait_fd kev s fd e w = Inr w' \<Longrightarrow> sys_pc ss C (w', insert s U, pc(a := In_fd))"
    and "lthread_wait_fd_resumed a w = Inr (r, w') \<Longrightarrow> sys_pc ss C (w', U, pc(a := Own))"
proof -
  note keep = sys_pc_keep [OF _ _ _ pc] and act = active_free [OF inv s]
  note own = pc_ok_own [OF pc act(5,4)]
  show "sys_pc ss C (w', insert s U, pc)" if "lthread_yield s w = Inr w'"
    using yield_step [OF inv s(1) act(1,2)] that cq_frame by (auto intro: keep)
  show "sys_pc ss C (w', insert s U, pc)" if "lthread_exit s w = Inr w'"
    using exit_step [OF inv s(1) act(1,2)] that cq_frame by (auto intro: keep)
  show "sys_pc ss C (w', insert s U, pc(a := Left))" if "mco_entry (\<lambda>_ _. Inr) a w = Inr w'"
    using return_step [OF inv s(1) act(1,2)] that own(3) by (auto intro: sys_pcI)
  show "sys_pc ss C (w', insert s U, if ms = 0 then pc(a := Left) else pc)" if run: "lthread_sleep now s ms w = Inr w'"
  proof (cases "ms = 0")
    case True
    with sleep_zero_step [OF inv s(1) act(1,2), of now] run have "sys_at ss C w' (insert s U) R S M B (loc(a \<mapsto> Adrift))" by auto
    then show ?thesis by (rule sys_pcI) (use own(3) mon_cq [OF cq_sleep [OF run]] True in simp)
  next
    case False
    with sleep_step [OF inv s(1) act(1,2) False, of now] run cq_sleep [OF run] show ?thesis by (auto intro: keep)
  qed
  show "sys_pc ss C (w', insert s U, pc(a := In_fd))" if run: "lthread_wait_fd kev s fd e w = Inr w'"
  proof -
    have "M (word_of_int fd, e) = None" "kev (change_for fd e) \<noteq> - 1"
      using wait_fd_iff [OF inv s, of kev fd e] run fd_free_iff [OF inv] by blast+
    from wait_fd_step [where kev = kev and fd = fd and e = e, OF inv s(1) act(1,2) this] run obtain M' loc' where
      "sys_at ss C w' (insert s U) R S M' B loc'" "adrift loc' = adrift loc" by auto
    from sys_pc_keep [OF this(1) cq_wait_fd [OF run] this(2) own(2)] show ?thesis .
  qed
  show "sys_pc ss C (w', U, pc(a := Own))" if run: "lthread_wait_fd_resumed a w = Inr (r, w')"
    using fd_resumed_step [OF inv s(1) act(1,2)] run sys_pc_keep [OF _ cq_wait_fd_resumed [OF run] refl own(1)] by auto
qed

lemma cond_steps_pc:
  assumes inv: "sys_at ss C w U R S M B loc" and pc: "pc_ok C (mon w B) (adrift loc) pc" and s: "s \<in> set ss" "active w U s a"
  shows "pc a = Own \<Longrightarrow> c \<in> C \<Longrightarrow> lthread_cond_lock now s c w = Inr (b, w') \<Longrightarrow>
      sys_pc ss C (w', if b then insert s U else U, if b then pc(a := In_lock c) else pc)"
    and "pc a = Own \<Longrightarrow> c \<in> C \<Longrightarrow> lthread_cond_unlock_signal s c w = Inr w' \<Longrightarrow> sys_pc ss C (w', U, pc)"
    and "pc a = Own \<Longrightarrow> c \<in> C \<Longrightarrow> lthread_cond_wait now s c 0 w = Inr w' \<Longrightarrow> sys_pc ss C (w', insert s U, pc(a := In_wait c))"
    and "pc a = In_lock c \<Longrightarrow> lthread_cond_lock_resumed c a w = Inr w \<and> sys_pc ss C (w, U, pc(a := Own))"
    and "pc a = In_wait c \<Longrightarrow> lthread_cond_wait_resumed c a w = Inr (0, w) \<and> sys_pc ss C (w, U, pc(a := Own))"
proof -
  note act = active_free [OF inv s]
  note own = pc_ok_own(1) [OF pc act(5,4)]
  show "sys_pc ss C (w', if b then insert s U else U, if b then pc(a := In_lock c) else pc)"
    if own: "pc a = Own" and c: "c \<in> C" and run: "lthread_cond_lock now s c w = Inr (b, w')"
  proof -
    have ne: "owner_of w c \<noteq> Some a" using cond_iff(1) [OF inv s c] run by blast
    obtain B' loc' where w': "sys_at ss C w' (if b then insert s U else U) R S M B' loc'"
      "mon w' B' = (mon w B)(c := if owner_of w c = NULL then (Some a, B c) else (owner_of w c, B c @ [a]))"
      "b = (owner_of w c \<noteq> NULL)" "adrift loc' = adrift loc"
      using lock_step [OF inv s(1) act(1,2) c ne, of now] run by auto
    have "pc_ok C ((mon w B)(c := (owner_of w c, B c @ [a]))) (adrift loc) (pc(a := In_lock c))"
      using pc_ok_join [OF pc act(5) own c, of "In_lock c"] unfolding mon_def by simp
    then have "pc_ok C (mon w' B') (adrift loc') (if b then pc(a := In_lock c) else pc)"
      using pc_ok_take [OF pc, of c "B c" a] w'(2-4)
      by (cases "owner_of w c") (simp_all add: mon_apply del: fun_upd_apply)
    with w'(1) show ?thesis by (rule sys_pcI)
  qed
  show "sys_pc ss C (w', U, pc)" if own: "pc a = Own" and c: "c \<in> C" and run: "lthread_cond_unlock_signal s c w = Inr w'"
  proof -
    have o: "owner_of w c = Some a" using cond_iff(2) [OF inv s c] run by blast
    from unlock_step [OF inv s(1) act(1,2) c o] run obtain R' B' loc' where w': "sys_at ss C w' U R' S M B' loc'"
      "mon w' B' = (mon w B)(c := (hd_ptr (B c), tl (B c)))" "adrift loc' = adrift loc" by auto
    have "pc_ok C (mon w' B') (adrift loc') pc"
      using pc_ok_signal [OF pc _ own, of c] o w'(2,3) by (simp add: mon_def del: fun_upd_apply)
    with w'(1) show ?thesis by (rule sys_pcI)
  qed
  show "sys_pc ss C (w', insert s U, pc(a := In_wait c))"
    if own: "pc a = Own" and c: "c \<in> C" and run: "lthread_cond_wait now s c 0 w = Inr w'"
  proof -
    have o: "owner_of w c = Some a" using cond_iff(3) [OF inv s c] run by blast
    from cond_wait_step [OF inv s(1) act(1,2) c o, of now] run obtain R' B' loc' where
      w': "sys_at ss C w' (insert s U) R' S M B' loc'"
      "mon w' B' = (mon w B)(c := (hd_ptr (B c), tl (B c) @ [a]))" "adrift loc' = adrift loc" by auto
    let ?m = "(mon w B)(c := (hd_ptr (B c), tl (B c)))"
    have "pc_ok C ?m (adrift loc) pc"
      using pc_ok_signal [OF pc _ own, of c] o by (simp add: mon_def del: fun_upd_apply)
    moreover have "a \<notin> set (snd (?m k))" if "k \<in> C" for k
      using act(5) [OF that] act(5) [OF c] by (cases "B c") (auto simp: mon_def)
    ultimately have "pc_ok C (?m(c := (fst (?m c), snd (?m c) @ [a]))) (adrift loc) (pc(a := In_wait c))"
      by (rule pc_ok_join) (use own c in simp_all)
    then have "pc_ok C (mon w' B') (adrift loc') (pc(a := In_wait c))" using w'(2,3) by simp
    with w'(1) show ?thesis by (rule sys_pcI)
  qed
  have owner: "c \<in> C \<and> owner_of w c = Some a" if "pc a = In_lock c \<or> pc a = In_wait c"
    using pc_okD(2) [OF pc that] act(5) [of c] by (auto simp: mon_def)
  show "lthread_cond_lock_resumed c a w = Inr w \<and> sys_pc ss C (w, U, pc(a := Own))" if "pc a = In_lock c"
    using resumed_step(1) [OF inv s(1) act(1,2)] owner that sys_pcI [OF inv own] by blast
  show "lthread_cond_wait_resumed c a w = Inr (0, w) \<and> sys_pc ss C (w, U, pc(a := Own))" if "pc a = In_wait c"
    using resumed_step(2) [OF inv s(1) act(1,2)] owner that sys_pcI [OF inv own] by blast
qed

lemma sys_step_pc:
  assumes "sys_step ss C (w, U, pc) y" and inv: "sys_at ss C w U R S M B loc" and pc: "pc_ok C (mon w B) (adrift loc) pc" and "distinct ss"
  shows "sys_pc ss C y"
  using assms(1)
proof (cases rule: sys_step.cases)
  case (finish s a w')
  from finish_step [OF inv finish(2,3)] finish(4) obtain R' loc' where
    "sys_at ss C w' (U - {s}) R' S M B loc'" "adrift loc' = adrift loc" by auto
  from sys_pc_keep [OF this(1) cq_resume_end [OF finish(4)] this(2) pc] finish(1) show ?thesis by simp
next
  case (event ev w')
  let ?f = "word_of_int (lthread_poller_ev_get_fd ev)"
  have "M (?f, LT_EV_READ) \<noteq> None \<or> M (?f, LT_EV_WRITE) \<noteq> None" using poll_step(2) [OF inv refl, of ev] event(2) by fastforce
  from poll_step(1) [OF inv refl this] event(2) obtain R' M' loc' where
    "sys_at ss C w' U R' S M' B loc'" "adrift loc' = adrift loc" by auto
  from sys_pc_keep [OF this(1) cq_handle_one [OF event(2)] this(2) pc] event(1) show ?thesis by simp
next
  case (lock_resumed s a c w')
  with cond_steps_pc(4) [OF inv pc lock_resumed(2-4)] show ?thesis by simp
next
  case (wait_resumed s a c r w')
  with cond_steps_pc(5) [OF inv pc wait_resumed(2-4)] show ?thesis by simp
next
  case (pick s a w1 w')
  from sched_steps_pc(1) [OF inv pc assms(4) pick(2-5)] pick(1) show ?thesis by simp
next
  case (expire s now w')
  from sched_steps_pc(2) [OF inv pc assms(4) expire(2-4)] expire(1) show ?thesis by simp
next
  case (block s now d w')
  from sched_steps_pc(3) [OF inv pc assms(4) block(2,4)] block(1) show ?thesis by simp
next
  case (unblock s deep w')
  from sched_steps_pc(4) [OF inv pc assms(4) unblock(2,4)] unblock(1) show ?thesis by simp
next
  case (spawn s a errno f arg p w')
  from sched_steps_pc(5) [OF inv pc assms(4) spawn(2-6)] spawn(1) show ?thesis by simp
next
  case (yields s a w')
  from call_steps_pc(1) [OF inv pc yields(2,3,5)] yields(1) show ?thesis by simp
next
  case (exits s a w')
  from call_steps_pc(2) [OF inv pc exits(2,3,5)] exits(1) show ?thesis by simp
next
  case (returns s a w')
  from call_steps_pc(3) [OF inv pc returns(2,3,5)] returns(1) show ?thesis by simp
next
  case (sleeps s a now ms w')
  from call_steps_pc(4) [OF inv pc sleeps(2,3,5)] sleeps(1) show ?thesis by simp
next
  case (waits_fd s a kev fd e w')
  from call_steps_pc(5) [OF inv pc waits_fd(2,3,5)] waits_fd(1) show ?thesis by simp
next
  case (fd_resumed s a r w')
  from call_steps_pc(6) [OF inv pc fd_resumed(2,3,5)] fd_resumed(1) show ?thesis by simp
next
  case (locks s a c now b w')
  from cond_steps_pc(1) [OF inv pc locks(2-6)] locks(1) show ?thesis by simp
next
  case (unlocks s a c w')
  from cond_steps_pc(2) [OF inv pc unlocks(2-6)] unlocks(1) show ?thesis by simp
next
  case (waits_cond s a c now w')
  from cond_steps_pc(3) [OF inv pc waits_cond(2-6)] waits_cond(1) show ?thesis by simp
qed

subsection \<open>Reachable states\<close>

lemma link_ring_rest: "conds (link_ring a ss w) = conds w" "wait_node (link_ring a ss w) = wait_node w"
  by (induction ss arbitrary: a w) simp_all

lemma init_scheds_rest:
  "conds (fold (init_sched ps st) xs w) = conds w" "wait_node (fold (init_sched ps st) xs w) = wait_node w"
  "blocked_q (fold (init_sched ps st) xs w) = blocked_q w"
  by (induction xs arbitrary: w) (auto simp: init_sched_def)

lemma run_init_rest:
  "conds (lthread_run_init ps st ss pfd w) = conds w" "blocked_q (lthread_run_init ps st ss pfd w) = blocked_q w"
  "waiting_root (poller (lthread_run_init ps st ss pfd w)) = NULL"
  by (simp_all add: lthread_run_init_def Let_def link_ring_rest link_ring_keeps init_scheds_rest)

lemma run_init_sys:
  assumes ss: "distinct ss" "ss \<noteq> []" and w: "lts w = Map.empty" "held w = {}" "cond_inv C w (\<lambda>_. [])"
  shows "sys_pc ss C (lthread_run_init ps st ss pfd w, {}, \<lambda>_. Own)"
proof -
  let ?w = "lthread_run_init ps st ss pfd w"
  note r = run_init_ok [OF ss refl, where ps = ps and st = st and pfd = pfd and w = w] and k = run_init_rest [of ps st ss pfd w]
  have cur: "current_lthread (scheds ?w s) = NULL" if "s \<in> set ss" for s using r(10) that by (auto simp: in_set_conv_nth)
  have "rb_repr (waiting ?w) []"
    using k(3) by (auto simp: rb_repr_def waiting_def rb_at_def rb_tree_def intro!: exI [of _ RLeaf])
  then have wt: "wait_table ?w Map.empty" unfolding wait_table_def wait_tree_def by (intro exI [of _ "[]"]) simp
  have "sys_at ss C ?w {} (\<lambda>_. []) (\<lambda>_. []) Map.empty (\<lambda>_. []) Map.empty"
    unfolding sys_at_def
  proof (intro conjI)
    show "cond_inv C ?w (\<lambda>_. [])" by (rule cond_keep [OF w(3) k(2,1)]) simp
    show "loc_ok (set ss) C (\<lambda>_. []) (\<lambda>_. []) Map.empty (\<lambda>_. []) Map.empty" by (simp add: loc_ok_def placed_def)
  qed (use r(1-9) wt w cur in simp_all)
  then show ?thesis by (rule sys_pcI) (simp add: pc_ok_def mon_def adrift_def)
qed

text \<open>\<open>lthread_run\<close> starts with no lthreads and with free condition variables.\<close>

inductive sys_reach :: "addr list \<Rightarrow> addr set \<Rightarrow> sys \<Rightarrow> bool" for ss C where
  start: "distinct ss \<Longrightarrow> ss \<noteq> [] \<Longrightarrow> lts w = Map.empty \<Longrightarrow> held w = {} \<Longrightarrow> cond_inv C w (\<lambda>_. []) \<Longrightarrow>
    sys_reach ss C (lthread_run_init ps st ss pfd w, {}, \<lambda>_. Own)"
| step: "sys_reach ss C x \<Longrightarrow> sys_step ss C x y \<Longrightarrow> sys_reach ss C y"

lemma sys_reach_inv: "sys_reach ss C x \<Longrightarrow> distinct ss \<and> sys_pc ss C x"
proof (induction rule: sys_reach.induct)
  case (step x y)
  then show ?case by (cases x) (auto elim!: sys_pcE intro: sys_step_pc)
qed (auto intro: run_init_sys)

lemma sys_reachE:
  assumes "sys_reach ss C (w, U, pc)"
  obtains R S M B loc where "distinct ss" "sys_at ss C w U R S M B loc" "pc_ok C (mon w B) (adrift loc) pc"
  using sys_reach_inv [OF assms] by (auto elim: sys_pcE)

lemma sys_reach_steps: "(sys_step ss C)\<^sup>*\<^sup>* x y \<Longrightarrow> sys_reach ss C x \<Longrightarrow> sys_reach ss C y"
  by (induction rule: rtranclp_induct) (auto intro: sys_reach.step)

lemma tq_family_unique: "tq_family K Q R \<Longrightarrow> tq_family K Q R' \<Longrightarrow> q \<in> K \<Longrightarrow> R q = R' q"
  by (blast intro: tq_repr_unique dest: tq_family_repr)

text \<open>The structures that hold an lthread.\<close>

fun in_place :: "addr list \<Rightarrow> addr set \<Rightarrow> (addr \<Rightarrow> addr list) \<Rightarrow> (addr \<Rightarrow> addr list) \<Rightarrow> (u16 \<times> lthread_event \<rightharpoonup> addr) \<Rightarrow>
   (addr \<Rightarrow> addr list) \<Rightarrow> addr \<Rightarrow> place \<Rightarrow> bool" where
  "in_place ss C R S M B a (Ready s) = (s \<in> set ss \<and> a \<in> set (R s))"
| "in_place ss C R S M B a (Sleeping s) = (s \<in> set ss \<and> a \<in> set (S s))"
| "in_place ss C R S M B a (Waiting k) = (M k = Some a)"
| "in_place ss C R S M B a (Blocked c) = (c \<in> C \<and> a \<in> set (B c))"
| "in_place ss C R S M B a Adrift = False"

lemma in_place_loc:
  assumes "sys_at ss C w U R S M B loc" "lts w a = Some l"
  shows "in_place ss C R S M B a p \<longleftrightarrow> loc a = Some p \<and> p \<noteq> Adrift"
proof -
  note i = sys_atD [OF assms(1)]
  obtain s where ok: "lt_ok (set ss) w U loc a l s" using i(10) [OF assms(2)] by blast
  show ?thesis
    using loc_okD [OF i(7)] lt_okD(1,9,10) [OF ok] by (cases p) auto
qed

text \<open>An lthread in the stage \<open>Left\<close> exists, is in no structure, and runs only until its scheduler has finished \<open>_lthread_resume\<close>.\<close>

lemma left_adrift:
  assumes "sys_at ss C w U R S M B loc" "pc_ok C (mon w B) (adrift loc) pc" "pc a = Left"
  shows "\<exists>l. lts w a = Some l" "\<not> in_place ss C R S M B a p" "s \<in> set ss \<Longrightarrow> current_lthread (scheds w s) = Some a \<Longrightarrow> s \<in> U"
proof -
  note i = sys_atD [OF assms(1)]
  have loc: "loc a = Some Adrift" using pc_okD(3) [OF assms(2), of a] assms(3) by (simp add: adrift_def)
  then show l: "\<exists>l. lts w a = Some l" using i(11) [of a] by auto
  then show "\<not> in_place ss C R S M B a p" using in_place_loc [OF assms(1)] loc by auto
  show "s \<in> U" if s: "s \<in> set ss" "current_lthread (scheds w s) = Some a"
  proof -
    obtain l where "lt_ok (set ss) w U loc a l s" "is_running l" using sys_at_running [OF assms(1) s] by blast
    from lt_okD(11) [OF this(1) _ this(2)] loc show ?thesis by simp
  qed
qed




text \<open>Two schedulers and no condition variables; the lthread 5 is made and then taken by the scheduler 11.\<close>

definition spawned5 :: world where
  "spawned5 = (case lthread_spawn (Some 5) 0 100 0 (Some 10) pool2 of Inr (_, w) \<Rightarrow> w | Inl _ \<Rightarrow> pool2)"

lemma pool2_reach: "sys_reach [10, 11] {} (pool2, {}, \<lambda>_. Own)"
  unfolding pool2_def by (rule sys_reach.start) (simp_all add: world0_def cond_inv_def tq_family_def)

lemma spawned5_reach: "sys_reach [10, 11] {} (spawned5, {}, \<lambda>_. Own)"
  and spawned5_facts: "\<exists>l. lts spawned5 5 = Some l" "current_lthread (scheds spawned5 11) = NULL"
    "tq_family (set [10, 11]) (ready_q spawned5) ((\<lambda>_. [])(10 := [5]))"
proof -
  let ?l = "lthread_zero\<lparr>lt_sched := Some 10, lt_fun := 100, lt_arg := 0\<rparr>"
  let ?v = "pool2\<lparr>lts := (lts pool2)(5 \<mapsto> ?l)\<rparr>"
  have cur: "current_lthread (scheds pool2 11) = NULL" using pool2_init(10) [of 1] by simp
  have "lthread_zero\<lparr>lt_sched := Some 10, is_running := False, is_blocked := False, lt_fun := 100, lt_arg := 0\<rparr> = ?l"
    by (simp add: lthread_zero_def)
  then have run: "lthread_spawn (Some 5) 0 100 0 (Some 10) pool2 = Inr (Some 5, ready_result 10 10 5 ?l ?v)"
    using push_ready_ok [of ?v 5 ?l 10 10] by (simp add: lthread_spawn_def lthread_create_def lthread_allocate_def)
  then have sp: "spawned5 = ready_result 10 10 5 ?l ?v" by (simp add: spawned5_def)
  have "sys_step [10, 11] {} (pool2, {}, \<lambda>_. Own) (spawned5, {}, (\<lambda>_. Own)(5 := Own))"
    by (rule sys_step.spawn [OF _ _ _ _ run [folded sp]]) simp_all
  moreover have "(\<lambda>_ :: addr. Own)(5 := Own) = (\<lambda>_. Own)" by auto
  ultimately show "sys_reach [10, 11] {} (spawned5, {}, \<lambda>_. Own)" using sys_reach.step [OF pool2_reach] by simp
  show "\<exists>l. lts spawned5 5 = Some l" "current_lthread (scheds spawned5 11) = NULL"
    unfolding sp using cur by (simp_all add: ready_result_lts)
  show "tq_family (set [10, 11]) (ready_q spawned5) ((\<lambda>_. [])(10 := [5]))"
    unfolding sp using ready_result_queue [of "{10, 11}" ?v "\<lambda>_. []" 10 5 10 ?l] by simp
qed

definition picked5 :: world where
  "picked5 = (case lthread_pop_ready 11 spawned5 of
     Inr (Some a, w1) \<Rightarrow> (case lthread_resume_begin 11 a w1 of Inr w' \<Rightarrow> w' | Inl _ \<Rightarrow> pool2) | _ \<Rightarrow> pool2)"

lemma picked5_reach: "sys_reach [10, 11] {} (picked5, {}, \<lambda>_. Own)"
  and picked5_runs: "\<exists>a. current_lthread (scheds picked5 11) = Some a"
proof -
  obtain R S M B loc where inv: "distinct [10, 11 :: addr]" "sys_at [10, 11] {} spawned5 {} R S M B loc"
    by (rule sys_reachE [OF spawned5_reach])
  have "R 10 = [5]" using tq_family_unique [OF sys_atD(1) [OF inv(2)] spawned5_facts(3), of 10] by simp
  with pick_step [OF inv(2) _ spawned5_facts(2) inv(1)] obtain a w1 w' where
    run: "lthread_pop_ready 11 spawned5 = Inr (Some a, w1)" "lthread_resume_begin 11 a w1 = Inr w'" by auto
  then have p: "picked5 = w'" by (simp add: picked5_def)
  have "sys_step [10, 11] {} (spawned5, {}, \<lambda>_. Own) (picked5, {}, \<lambda>_. Own)"
    by (rule sys_step.pick [OF _ spawned5_facts(2) run [folded p]]) simp
  with spawned5_reach show "sys_reach [10, 11] {} (picked5, {}, \<lambda>_. Own)" by (rule sys_reach.step)
  show "\<exists>a. current_lthread (scheds picked5 11) = Some a"
    using run(2) unfolding p by (auto simp: lthread_resume_begin_def lthread_mutex_unlock_def rbind_eq_Inr upd_lt_def Let_def)
qed

subsection \<open>Properties\<close>

text \<open>(C1) No lthread is lost, but for the two ways in which the code loses one. In every state the system can reach, with each call of the library taken as one
  step and without timed waits on condition variables, the queues and trees are well formed, the count of pending events
  is right, no mutex is held, and every lthread that exists is in exactly one ready queue, sleep tree, poller entry or
  queue of a condition variable, or it is in none of them and runs on the scheduler it belongs to. The exception are the lthreads whose function
  has returned or that have called \<open>lthread_sleep(0)\<close> (the stage \<open>Left\<close>): they exist and are in no structure.\<close>

theorem sys_no_lthread_lost:
  assumes "sys_reach ss C (w, U, pc)"
  shows "\<exists>R S M B. tq_family (set ss) (ready_q w) R \<and> sleep_family (set ss) w S \<and> wait_table w M \<and> cond_inv C w B \<and>
    num_pending_events (poller w) = of_nat (card (dom M)) \<and> held w = {} \<and> is_ring (neighbor w) ss \<and>
    (\<forall>a l. lts w a = Some l \<longrightarrow>
       (if pc a = Left then (\<nexists>p. in_place ss C R S M B a p) \<and> (\<forall>s \<in> set ss. \<not> active w U s a)
        else (\<exists>!p. in_place ss C R S M B a p) \<or>
          (\<nexists>p. in_place ss C R S M B a p) \<and> (\<exists>s \<in> set ss. lt_sched l = Some s \<and> current_lthread (scheds w s) = Some a)))"
proof -
  obtain R S M B loc where inv: "sys_at ss C w U R S M B loc" and pc: "pc_ok C (mon w B) (adrift loc) pc" by (rule sys_reachE [OF assms])
  note i = sys_atD [OF inv]
  have "(\<exists>!p. in_place ss C R S M B a p) \<or>
       (\<nexists>p. in_place ss C R S M B a p) \<and> (\<exists>s \<in> set ss. lt_sched l = Some s \<and> current_lthread (scheds w s) = Some a)"
    if l: "lts w a = Some l" and "pc a \<noteq> Left" for a l
  proof (cases "loc a")
    case None
    obtain s where ok: "lt_ok (set ss) w U loc a l s" using i(10) [OF l] by blast
    from lt_okD(1-3,12) [OF ok] None show ?thesis by (auto simp: in_place_loc [OF inv l])
  next
    case (Some p)
    then have "p \<noteq> Adrift" using pc_okD(3) [OF pc, of a] that(2) by (auto simp: adrift_def)
    with Some show ?thesis by (auto simp: in_place_loc [OF inv l])
  qed
  moreover have "(\<nexists>p. in_place ss C R S M B a p) \<and> (\<forall>s \<in> set ss. \<not> active w U s a)" if "pc a = Left" for a
    using left_adrift(2,3) [OF inv pc that] by (auto simp: active_def)
  ultimately show ?thesis using i(1,2,4-6,8,9) by (intro exI [of _ R] exI [of _ S] exI [of _ M] exI [of _ B]) auto
qed

theorem sys_no_lthread_lost_witness:
  "\<exists>R S M B l. tq_family (set [10, 11]) (ready_q spawned5) R \<and> held spawned5 = {} \<and> lts spawned5 5 = Some l \<and>
    ((\<exists>!p. in_place [10, 11] {} R S M B 5 p) \<or> (\<nexists>p. in_place [10, 11] {} R S M B 5 p) \<and>
       (\<exists>s \<in> set [10, 11]. lt_sched l = Some s \<and> current_lthread (scheds spawned5 s) = Some 5))"
proof -
  obtain l where l: "lts spawned5 5 = Some l" using spawned5_facts(1) by blast
  from sys_no_lthread_lost [OF spawned5_reach] obtain R S M B where
    r: "tq_family (set [10, 11]) (ready_q spawned5) R" "held spawned5 = {}"
      "\<forall>a l. lts spawned5 a = Some l \<longrightarrow>
       (if Own = Left then (\<nexists>p. in_place [10, 11] {} R S M B a p) \<and> (\<forall>s \<in> set [10, 11]. \<not> active spawned5 {} s a)
        else (\<exists>!p. in_place [10, 11] {} R S M B a p) \<or>
          (\<nexists>p. in_place [10, 11] {} R S M B a p) \<and> (\<exists>s \<in> set [10, 11]. lt_sched l = Some s \<and> current_lthread (scheds spawned5 s) = Some a))"
    by blast
  from r(3) l r(1,2) show ?thesis by (metis stage.distinct(7))
qed

text \<open>An lthread never runs twice at the same time: two schedulers never have the same current lthread, and the lthread that runs is
  in no ready queue, so that no other scheduler can take it.\<close>

theorem sys_runs_once:
  assumes "sys_reach ss C (w, U, pc)" "s \<in> set ss" "current_lthread (scheds w s) = Some a"
    and "q \<in> set ss" "tq_family (set ss) (ready_q w) R"
  shows "a \<notin> set (R q) \<and> (current_lthread (scheds w q) = Some a \<longrightarrow> q = s)"
proof -
  obtain R' S M B loc where inv: "sys_at ss C w U R' S M B loc" by (rule sys_reachE [OF assms(1)])
  note i = sys_atD [OF inv]
  obtain l where l: "lts w a = Some l" "lt_ok (set ss) w U loc a l s" "is_running l"
    using sys_at_running [OF inv assms(2,3)] by blast
  have "loc a \<noteq> Some (Ready q)" using lt_okD(9) [OF l(2)] l(3) by blast
  then have "a \<notin> set (R' q)" using loc_okD(1) [OF i(7) assms(4)] by simp
  moreover have "R' q = R q" by (rule tq_family_unique [OF i(1) assms(5,4)])
  ultimately show ?thesis using current_unique [OF inv assms(2,4,3)] by auto
qed

theorem sys_runs_once_witness:
  "\<exists>a R. current_lthread (scheds picked5 11) = Some a \<and> tq_family (set [10, 11]) (ready_q picked5) R \<and>
     a \<notin> set (R 10) \<and> current_lthread (scheds picked5 10) \<noteq> Some a"
proof -
  obtain R S M B loc where inv: "distinct [10, 11 :: addr]" "sys_at [10, 11] {} picked5 {} R S M B loc"
    by (rule sys_reachE [OF picked5_reach])
  obtain a where a: "current_lthread (scheds picked5 11) = Some a" using picked5_runs ..
  from sys_runs_once [OF picked5_reach _ a _ sys_atD(1) [OF inv(2)], of 10] a sys_atD(1) [OF inv(2)] show ?thesis by auto
qed

text \<open>A scheduler that looks for work finds it: if any ready queue of the pool has an lthread, an idle scheduler
  takes one and starts it.\<close>

theorem sys_work_is_found:
  assumes "sys_reach ss C (w, U, pc)" "s \<in> set ss" "current_lthread (scheds w s) = NULL"
    and "tq_family (set ss) (ready_q w) R" "q \<in> set ss" "R q \<noteq> []"
  shows "\<exists>a w1 w'. lthread_pop_ready s w = Inr (Some a, w1) \<and> lthread_resume_begin s a w1 = Inr w' \<and>
    sys_step ss C (w, U, pc) (w', U, pc)"
proof -
  obtain R' S M B loc where inv: "distinct ss" "sys_at ss C w U R' S M B loc" by (rule sys_reachE [OF assms(1)])
  have "R' q \<noteq> []" using tq_family_unique [OF sys_atD(1) [OF inv(2)] assms(4,5)] assms(6) by simp
  with pick_step [OF inv(2) assms(2,3) inv(1)] assms(5) obtain a w1 w' where
    run: "lthread_pop_ready s w = Inr (Some a, w1)" "lthread_resume_begin s a w1 = Inr w'" by blast
  with sys_step.pick [OF assms(2,3) run] show ?thesis by blast
qed

theorem sys_work_is_found_witness:
  "\<exists>a w1 w'. lthread_pop_ready 11 spawned5 = Inr (Some a, w1) \<and> lthread_resume_begin 11 a w1 = Inr w' \<and>
    sys_step [10, 11] {} (spawned5, {}, \<lambda>_. Own) (w', {}, \<lambda>_. Own)"
  using sys_work_is_found [OF spawned5_reach _ spawned5_facts(2,3), of 10] by simp

text \<open>(C2) Which operations can fail in a state the system can reach, with each call of the library taken as one step and without timed waits on condition variables. The parts of
  the scheduler's loop never violate an assertion, use a freed or missing lthread, lock a mutex twice or run for ever, and neither do \<open>lthread_yield\<close>,
  \<open>lthread_exit\<close>, \<open>lthread_sleep\<close>, a return from the lthread's function, \<open>lthread_spawn\<close> with memory for the new lthread and an empty cache (which this build never fills), and what remains of \<open>lthread_cond_lock\<close>,
  \<open>lthread_cond_wait\<close> and \<open>_lthread_wait_fd\<close> when the lthread is resumed, whose assertions on the ownership hold. The other calls fail exactly when they are misused: \<open>_lthread_wait_fd\<close> when
  somebody waits for the same event of the same descriptor (modulo 65536) or \<open>kevent\<close> fails, \<open>lthread_cond_lock\<close> when the caller is the owner, \<open>lthread_cond_unlock_signal\<close>
  and \<open>lthread_cond_wait\<close> when it is not. The poller fails its assertion exactly when an event arrives for a descriptor that nobody waits for.\<close>

theorem sys_no_fault:
  assumes reach: "sys_reach ss C (w, U, pc)" and s: "s \<in> set ss"
  shows "(current_lthread (scheds w s) = NULL \<longrightarrow>
      (\<exists>p w1. lthread_pop_ready s w = Inr (p, w1) \<and> (\<forall>a. p = Some a \<longrightarrow> (\<exists>w'. lthread_resume_begin s a w1 = Inr w'))) \<and>
      (\<forall>now. \<exists>w'. lthread_schedule_expired now s w = Inr w')) \<and>
    (\<forall>now. \<exists>d w'. run_sched_block now s w = Inr (d, w')) \<and> (\<forall>deep. \<exists>w'. run_sched_unblock deep s w = Inr w') \<and>
    (s \<in> U \<longrightarrow> (\<exists>a w'. current_lthread (scheds w s) = Some a \<and> lthread_resume_end s a w = Inr w')) \<and>
    (\<forall>ev. (\<exists>w'. handle_events [ev] w = Inr w') \<longleftrightarrow>
      \<not> (fd_free w (lthread_poller_ev_get_fd ev) LT_EV_READ \<and> fd_free w (lthread_poller_ev_get_fd ev) LT_EV_WRITE)) \<and>
    (\<forall>x errno f arg. lthread_cache (scheds w s) = [] \<and> lts w x = None \<and> card (dom (lts w)) + 1 < 2 ^ 64 \<longrightarrow>
      (\<exists>w'. lthread_spawn (Some x) errno f arg (Some s) w = Inr (Some x, w'))) \<and>
    (\<forall>a. active w U s a \<longrightarrow> (\<exists>w'. lthread_yield s w = Inr w') \<and> (\<exists>w'. lthread_exit s w = Inr w') \<and>
      (\<forall>now ms. \<exists>w'. lthread_sleep now s ms w = Inr w') \<and> (\<exists>w'. mco_entry (\<lambda>_ _. Inr) a w = Inr w') \<and>
      (\<forall>kev fd e. (\<exists>w'. lthread_wait_fd kev s fd e w = Inr w') \<longleftrightarrow> fd_free w fd e \<and> kev (change_for fd e) \<noteq> - 1) \<and>
      (\<exists>r w'. lthread_wait_fd_resumed a w = Inr (r, w')) \<and>
      (\<forall>now. \<forall>c \<in> C. ((\<exists>b w'. lthread_cond_lock now s c w = Inr (b, w')) \<longleftrightarrow> owner_of w c \<noteq> Some a) \<and>
         ((\<exists>w'. lthread_cond_unlock_signal s c w = Inr w') \<longleftrightarrow> owner_of w c = Some a) \<and>
         ((\<exists>w'. lthread_cond_wait now s c 0 w = Inr w') \<longleftrightarrow> owner_of w c = Some a)) \<and>
      (\<forall>c. (pc a = In_lock c \<longrightarrow> (\<exists>w'. lthread_cond_lock_resumed c a w = Inr w')) \<and>
         (pc a = In_wait c \<longrightarrow> (\<exists>w'. lthread_cond_wait_resumed c a w = Inr (0, w')))))"
proof -
  obtain R S M B loc where ss: "distinct ss" and inv: "sys_at ss C w U R S M B loc" and pc: "pc_ok C (mon w B) (adrift loc) pc"
    by (rule sys_reachE [OF reach])
  show ?thesis
  proof (intro conjI allI ballI impI)
    show "\<exists>p w1. lthread_pop_ready s w = Inr (p, w1) \<and> (\<forall>a. p = Some a \<longrightarrow> (\<exists>w'. lthread_resume_begin s a w1 = Inr w'))"
      if "current_lthread (scheds w s) = NULL" using pick_step [OF inv s that ss] by auto
    show "\<exists>w'. lthread_schedule_expired now s w = Inr w'" if "current_lthread (scheds w s) = NULL" for now
      using expire_step [OF inv s that] by blast
    show "\<exists>d w'. run_sched_block now s w = Inr (d, w')" for now using block_step [OF inv s] by blast
    show "\<exists>w'. run_sched_unblock deep s w = Inr w'" for deep using unblock_step [OF inv] by blast
    show "\<exists>a w'. current_lthread (scheds w s) = Some a \<and> lthread_resume_end s a w = Inr w'" if "s \<in> U"
      using sys_atD(13) [OF inv that] finish_step [OF inv that] by auto
    show "(\<exists>w'. handle_events [ev] w = Inr w') \<longleftrightarrow>
      \<not> (fd_free w (lthread_poller_ev_get_fd ev) LT_EV_READ \<and> fd_free w (lthread_poller_ev_get_fd ev) LT_EV_WRITE)" for ev
      by (rule event_iff [OF inv])
    show "\<exists>w'. lthread_spawn (Some x) errno f arg (Some s) w = Inr (Some x, w')"
      if "lthread_cache (scheds w s) = [] \<and> lts w x = None \<and> card (dom (lts w)) + 1 < 2 ^ 64" for x errno f arg
      using spawn_step [OF inv s, of x errno f arg] that by (elim conjE) auto
  next
    fix a assume a: "active w U s a"
    note act = active_free [OF inv s a]
    show "\<exists>w'. lthread_yield s w = Inr w'" "\<exists>w'. lthread_exit s w = Inr w'" "\<exists>w'. mco_entry (\<lambda>_ _. Inr) a w = Inr w'"
      "\<exists>r w'. lthread_wait_fd_resumed a w = Inr (r, w')"
      using yield_step [OF inv s act(1,2)] exit_step [OF inv s act(1,2)] return_step [OF inv s act(1,2)]
        fd_resumed_step [OF inv s act(1,2)] by blast+
    show "\<exists>w'. lthread_sleep now s ms w = Inr w'" for now ms
      using sleep_step [OF inv s act(1,2), of ms now] sleep_zero_step [OF inv s act(1,2), of now] by (cases "ms = 0") blast+
    show "(\<exists>w'. lthread_wait_fd kev s fd e w = Inr w') \<longleftrightarrow> fd_free w fd e \<and> kev (change_for fd e) \<noteq> - 1" for kev fd e
      by (rule wait_fd_iff [OF inv s a])
    fix now c
    show "\<exists>w'. lthread_cond_lock_resumed c a w = Inr w'" if "pc a = In_lock c" using cond_steps_pc(4) [OF inv pc s a that] by blast
    show "\<exists>w'. lthread_cond_wait_resumed c a w = Inr (0, w')" if "pc a = In_wait c" using cond_steps_pc(5) [OF inv pc s a that] by blast
    assume c: "c \<in> C"
    show "(\<exists>b w'. lthread_cond_lock now s c w = Inr (b, w')) \<longleftrightarrow> owner_of w c \<noteq> Some a"
      "(\<exists>w'. lthread_cond_unlock_signal s c w = Inr w') \<longleftrightarrow> owner_of w c = Some a"
      "(\<exists>w'. lthread_cond_wait now s c 0 w = Inr w') \<longleftrightarrow> owner_of w c = Some a"
      by (rule cond_iff [OF inv s a c])+
  qed
qed

theorem sys_no_fault_witness:
  "(\<exists>a. active picked5 {} 11 a) \<and> (\<exists>w'. lthread_yield 11 picked5 = Inr w') \<and> (\<exists>w'. lthread_sleep 0 11 5 picked5 = Inr w')"
proof -
  obtain a where a: "active picked5 {} 11 a" using picked5_runs by (auto simp: active_def)
  with sys_no_fault [OF picked5_reach, of 11] show ?thesis by auto
qed



end
