(* ===== verification/System_Cond.thy ===== *)
theory System_Cond
  imports System
begin

section \<open>Condition variables in the running system\<close>



subsection \<open>Refinement\<close>




lemma sys_at_mon:
  assumes "sys_at ss C w U R S M B loc" "c \<in> C" "tq_repr (blocked_q w) c q"
  shows "(owner_of w c, q) = mon w B c"
proof -
  have "tq_repr (blocked_q w) c (B c)"
    using sys_atD(6) [OF assms(1)] assms(2) by (auto simp: cond_inv_def intro: tq_family_repr)
  from tq_repr_unique [OF assms(3) this] show ?thesis by (simp add: mon_def)
qed







subsection \<open>A hand-over\<close>

text \<open>Two lthreads on two schedulers: the first locks the condition variable 20, the second blocks on it, the first unlocks.\<close>

definition world20 :: world where
  "world20 = world0\<lparr>conds := [20 \<mapsto> \<lparr>cond_owner = NULL\<rparr>], blocked_q := TAILQ_INIT 20 tq_zero\<rparr>"

definition pool20 :: world where
  "pool20 = lthread_run_init 4096 0 [10, 11] 3 world20"

lemma pool20_facts:
  "sys_reach [10, 11] {20} (pool20, {}, \<lambda>_. Own)" "lts pool20 = Map.empty" "lthread_cache (scheds pool20 10) = []"
  "lthread_cache (scheds pool20 11) = []" "current_lthread (scheds pool20 10) = NULL" "current_lthread (scheds pool20 11) = NULL"
  "owner_of pool20 20 = NULL"
proof -
  have "tq_repr (TAILQ_INIT 20 tq_zero) 20 []" by (rule TAILQ_INIT_repr)
  then show "sys_reach [10, 11] {20} (pool20, {}, \<lambda>_. Own)"
    unfolding pool20_def by (intro sys_reach.start) (simp_all add: world20_def world0_def cond_inv_def tq_family_def)
  show "lts pool20 = Map.empty" "owner_of pool20 20 = NULL"
    "lthread_cache (scheds pool20 10) = []" "lthread_cache (scheds pool20 11) = []"
    "current_lthread (scheds pool20 10) = NULL" "current_lthread (scheds pool20 11) = NULL"
    by (simp_all add: pool20_def world20_def world0_def lthread_run_init_def init_sched_def lthread_sched_create_def upd_sched_def
        enumerate_eq_zip numeral_2_eq_2 owner_of_def)
qed

definition at20 :: "world \<Rightarrow> addr set \<Rightarrow> (addr \<Rightarrow> stage) \<Rightarrow> (addr \<Rightarrow> addr list) \<Rightarrow> (addr \<Rightarrow> addr list) \<Rightarrow> bool" where
  "at20 w U pc R B \<longleftrightarrow> sys_reach [10, 11] {20} (w, U, pc) \<and> (\<exists>S M loc. sys_at [10, 11] {20} w U R S M B loc)"

lemma at20E:
  assumes "at20 w U pc R B"
  obtains S M loc where "sys_reach [10, 11] {20} (w, U, pc)" "sys_at [10, 11] {20} w U R S M B loc"
  using assms by (auto simp: at20_def)

lemma at20I: "sys_reach [10, 11] {20} x \<Longrightarrow> sys_step [10, 11] {20} x (w, U, pc) \<Longrightarrow> sys_at [10, 11] {20} w U R S M B loc \<Longrightarrow> at20 w U pc R B"
  unfolding at20_def by (blast intro: sys_reach.step)

lemma at20_repr: "at20 w U pc R B \<Longrightarrow> tq_repr (blocked_q w) 20 (B 20)"
  by (auto simp: at20_def cond_inv_def intro: tq_family_repr dest!: sys_atD(6))

lemma at20_pool: "\<exists>R B. at20 pool20 {} (\<lambda>_. Own) R B \<and> mon pool20 B 20 = (NULL, [])"
proof -
  obtain R S M B loc where inv: "distinct [10, 11 :: addr]" "sys_at [10, 11] {20} pool20 {} R S M B loc"
    by (rule sys_reachE [OF pool20_facts(1)])
  have at: "at20 pool20 {} (\<lambda>_. Own) R B" using inv(2) pool20_facts(1) by (auto simp: at20_def)
  have "tq_repr (blocked_q pool20) 20 []" by (simp add: pool20_def run_init_rest world20_def TAILQ_INIT_repr)
  from tq_repr_unique [OF at20_repr [OF at] this] at pool20_facts(7) show ?thesis by (auto simp: mon_def)
qed

lemma at20_spawn:
  assumes "at20 w U pc R B" "s \<in> {10, 11}" "lthread_cache (scheds w s) = []" "lts w a = None" "card (dom (lts w)) < 9" "pc a = Own"
  shows "\<exists>w'. at20 w' U pc (R(s := R s @ [a])) B \<and> mon w' B 20 = mon w B 20 \<and> dom (lts w') = insert a (dom (lts w)) \<and>
    (\<forall>q. current_lthread (scheds w' q) = current_lthread (scheds w q) \<and> lthread_cache (scheds w' q) = lthread_cache (scheds w q))"
proof -
  obtain S M loc where inv: "sys_reach [10, 11] {20} (w, U, pc)" "sys_at [10, 11] {20} w U R S M B loc" by (rule at20E [OF assms(1)])
  have s: "s \<in> set [10, 11]" and card: "card (dom (lts w)) + 1 < 2 ^ 64" using assms(2,5) by simp_all
  obtain w' loc' where w': "lthread_spawn (Some a) 0 100 0 (Some s) w = Inr (Some a, w')"
    "sys_at [10, 11] {20} w' U (R(s := R s @ [a])) S M B loc'" "\<forall>q. current_lthread (scheds w' q) = current_lthread (scheds w q)"
    "\<forall>q. lthread_cache (scheds w' q) = lthread_cache (scheds w q)" "dom (lts w') = insert a (dom (lts w))"
    using spawn_step [OF inv(2) s assms(3,4) card, of 0 100 0] by blast
  have "pc(a := Own) = pc" using assms(6) by (simp add: fun_upd_idem_iff)
  with sys_step.spawn [OF s assms(3,4) card w'(1), of "{20}" U pc] have "sys_step [10, 11] {20} (w, U, pc) (w', U, pc)" by simp
  then have "at20 w' U pc (R(s := R s @ [a])) B" by (rule at20I [OF inv(1) _ w'(2)])
  moreover have "mon w' B 20 = mon w B 20" using cq_spawn [OF w'(1)] by (simp add: mon_def cq_def owner_of_def)
  ultimately show ?thesis using w'(3-5) by blast
qed

lemma at20_pick:
  assumes "at20 w U pc R B" "s \<in> {10, 11}" "current_lthread (scheds w s) = NULL" "R 10 \<noteq> [] \<or> R 11 \<noteq> []"
  shows "\<exists>a w' q xs. at20 w' U pc (R(q := xs)) B \<and> R q = a # xs \<and> mon w' B 20 = mon w B 20 \<and>
    current_lthread (scheds w' s) = Some a \<and> (\<forall>q. q \<noteq> s \<longrightarrow> current_lthread (scheds w' q) = current_lthread (scheds w q))"
proof -
  obtain S M loc where inv: "sys_reach [10, 11] {20} (w, U, pc)" "sys_at [10, 11] {20} w U R S M B loc" by (rule at20E [OF assms(1)])
  have s: "s \<in> set [10, 11]" using assms(2) by simp
  obtain a w1 w' q xs loc' where w': "lthread_pop_ready s w = Inr (Some a, w1)" "lthread_resume_begin s a w1 = Inr w'"
    "sys_at [10, 11] {20} w' U (R(q := xs)) S M B loc'" "current_lthread (scheds w' s) = Some a"
    "\<forall>q. q \<noteq> s \<longrightarrow> current_lthread (scheds w' q) = current_lthread (scheds w q)" "R q = a # xs"
    using pick_step [OF inv(2) s assms(3)] assms(4) by force
  have "at20 w' U pc (R(q := xs)) B" by (rule at20I [OF inv(1) sys_step.pick [OF s assms(3) w'(1,2)] w'(3)])
  moreover have "mon w' B 20 = mon w B 20"
    using cq_resume_begin [OF w'(2)] cq_rest [OF rest_pop_ready [OF w'(1)]] by (simp add: mon_def cq_def owner_of_def)
  ultimately show ?thesis using w'(4-6) by blast
qed

lemma at20_lock:
  assumes "at20 w U pc R B" "s \<in> {10, 11}" "current_lthread (scheds w s) = Some a" "s \<notin> U" "owner_of w 20 \<noteq> Some a" "pc a = Own"
  shows "\<exists>w' U' B'. at20 w' U' (if owner_of w 20 = NULL then pc else pc(a := In_lock 20)) R B' \<and> scheds w' = scheds w \<and> U' = (if owner_of w 20 = NULL then U else insert s U) \<and>
    mon w' B' 20 = (if owner_of w 20 = NULL then (Some a, B 20) else (owner_of w 20, B 20 @ [a]))"
proof -
  obtain S M loc where inv: "sys_reach [10, 11] {20} (w, U, pc)" "sys_at [10, 11] {20} w U R S M B loc" by (rule at20E [OF assms(1)])
  have s: "s \<in> set [10, 11]" and act: "active w U s a" using assms(2-4) by (simp_all add: active_def)
  let ?b = "owner_of w 20 \<noteq> NULL"
  let ?U = "if ?b then insert s U else U"
  obtain w' B' loc' where w': "lthread_cond_lock 0 s 20 w = Inr (?b, w')"
    "sys_at [10, 11] {20} w' ?U R S M B' loc'" "scheds w' = scheds w"
    "mon w' B' = (mon w B)(20 := if owner_of w 20 = NULL then (Some a, B 20) else (owner_of w 20, B 20 @ [a]))"
    using lock_step [OF inv(2) s assms(3,4) _ assms(5), of 0] by auto
  have "sys_step [10, 11] {20} (w, U, pc) (w', ?U, if ?b then pc(a := In_lock 20) else pc)"
    by (rule sys_step.locks [where now = 0]) (use s act assms(6) w'(1) in simp_all)
  from at20I [OF inv(1) this w'(2)] have "at20 w' ?U (if owner_of w 20 = NULL then pc else pc(a := In_lock 20)) R B'" by auto
  moreover have "mon w' B' 20 = (if owner_of w 20 = NULL then (Some a, B 20) else (owner_of w 20, B 20 @ [a]))" unfolding w'(4) by simp
  ultimately show ?thesis using w'(3) by (intro exI [of _ w'] exI [of _ ?U] exI [of _ B']) auto
qed

text \<open>The lthread \<open>a\<close> runs on 10 and owns 20, on which nobody waits; \<open>b\<close> runs on 11.\<close>

lemma owner_run:
  "\<exists>a b w R B. at20 w {} (\<lambda>_. Own) R B \<and> mon w B 20 = (Some a, []) \<and> a \<noteq> b \<and>
     current_lthread (scheds w 10) = Some a \<and> current_lthread (scheds w 11) = Some b"
proof -
  let ?pc = "\<lambda>_ :: addr. Own"
  obtain R B where 0: "at20 pool20 {} (\<lambda>_. Own) R B" "mon pool20 B 20 = (NULL, [])" using at20_pool by blast
  obtain w1 where 1: "at20 w1 {} (\<lambda>_. Own) (R(10 := R 10 @ [5])) B" "mon w1 B 20 = (NULL, [])" "dom (lts w1) = {5}"
    "current_lthread (scheds w1 10) = NULL" "current_lthread (scheds w1 11) = NULL" "lthread_cache (scheds w1 11) = []"
    using at20_spawn [OF 0(1), of 10 5] 0(2) pool20_facts(2-6) by auto
  have six: "lts w1 6 = None" using 1(3) domIff [of 6 "lts w1"] by simp
  obtain w2 where 2: "at20 w2 {} ?pc (R(10 := R 10 @ [5], 11 := R 11 @ [6])) B" "mon w2 B 20 = (NULL, [])"
    "current_lthread (scheds w2 10) = NULL" "current_lthread (scheds w2 11) = NULL"
    using at20_spawn [OF 1(1), of 11 6] 1(2-6) six by auto
  let ?R = "R(10 := R 10 @ [5], 11 := R 11 @ [6])"
  obtain a w3 q xs where 3: "at20 w3 {} ?pc (?R(q := xs)) B" "mon w3 B 20 = (NULL, [])" "current_lthread (scheds w3 10) = Some a"
    "current_lthread (scheds w3 11) = NULL"
    using at20_pick [OF 2(1), of 10] 2(2-4) by auto
  obtain w4 B4 where 4: "at20 w4 {} ?pc (?R(q := xs)) B4" "mon w4 B4 20 = (Some a, [])" "scheds w4 = scheds w3"
    using at20_lock [OF 3(1), of 10 a] 3(2,3) by (auto simp: mon_def)
  have ne: "(?R(q := xs)) 10 \<noteq> [] \<or> (?R(q := xs)) 11 \<noteq> []" by simp
  obtain b w5 R5 where 5: "at20 w5 {} ?pc R5 B4" "mon w5 B4 20 = (Some a, [])"
    "current_lthread (scheds w5 11) = Some b" "current_lthread (scheds w5 10) = Some a"
    using at20_pick [OF 4(1) _ _ ne, of 11] 4(2,3) 3(3,4) by auto
  have "a \<noteq> b"
    using 5(1) current_unique [of "[10, 11]" "{20}" w5 _ _ _ _ _ _ 10 11 a] 5(3,4) by (auto simp: at20_def)
  with 5 show ?thesis by blast
qed


subsection \<open>A wait with a timeout\<close>

text \<open>The first lthread of the queue is in a sleep tree with \<open>sleep_usecs = 0\<close>: \<open>_lthread_wakeup\<close> queues it and leaves it in the tree.\<close>

lemma signal_timed_waiter:
  assumes "cond_inv C w B" "c \<in> C" "owner_of w c = Some self" "B c = b # bs" "lts w b = Some l" "lt_sched l = Some s"
    "sleep_usecs l = 0" "s \<in> K" "sleep_family K w S" "tq_family K (ready_q w) R" "\<And>q. q \<in> K \<Longrightarrow> b \<notin> set (R q)"
    "current_lthread (scheds w s) \<noteq> Some b" "Sched_mutex s \<notin> held w" "Pool_mutex \<notin> held w"
  shows "\<exists>w'. lthread_cond_signal c self w = Inr (True, w') \<and> tq_family K (ready_q w') (R(s := R s @ [b])) \<and>
    sleep_family K w' S \<and> owner_of w' c = Some b \<and> held w' = held w"
proof -
  let ?l = "l\<lparr>is_blocked := False\<rparr>"
  let ?w' = "ready_result s s b ?l (handed_over c b l w)"
  have "tq_family K (ready_q ?w') (R(s := R s @ [b]))"
    using ready_result_queue [of K "handed_over c b l w" R s b s ?l] assms(8,10-12) by (auto simp: handed_over_def)
  moreover have "sleep_family K ?w' S"
    using assms(9) sleep_family_cong [of ?w' w K S] by (simp add: handed_over_def)
  moreover have "owner_of ?w' c = Some b" "held ?w' = held w" by (simp_all add: handed_over_def)
  ultimately show ?thesis using cond_signal_hands_over [OF assms(1-7,13,14)] by blast
qed

text \<open>The two halves of a timed wait: the call, with nobody in the queue, and what its scheduler does afterwards.\<close>

lemma timed_wait_sleeps:
  assumes inv: "sys_at ss C w U R S M B loc" and s: "s \<in> set ss" "active w U s a"
    and c: "c \<in> C" "owner_of w c = Some a" "B c = []" and ms: "ms \<noteq> 0"
  shows "\<exists>w' l xs. lthread_cond_wait now s c ms w = Inr w' \<and> lts w' a = Some l \<and> lt_sched l = Some s \<and> is_blocked l \<and>
    \<not> needs_resched l \<and> \<not> has_flag (lt_state l) LT_ST_EXITED \<and> cond_inv C w' (B(c := [a])) \<and> owner_of w' c = NULL \<and>
    sleep_family (set ss) w' (S(s := xs)) \<and> a \<in> set xs \<and> held w' = {} \<and> ready_q w' = ready_q w \<and>
    (\<forall>x. current_lthread (scheds w' x) = current_lthread (scheds w x))"
proof -
  note act = active_free [OF inv s] and i = sys_atD [OF inv]
  obtain l where l: "lts w a = Some l" "lt_sched l = Some s" "\<not> needs_resched l" "\<not> has_flag (lt_state l) LT_ST_EXITED" "\<not> is_blocked l"
    using sys_at_active [OF inv s(1) act(1,2)] by blast
  let ?l = "l\<lparr>is_blocked := True\<rparr>" and ?o = "set_owner c NULL w"
  let ?v = "?o\<lparr>blocked_q := TAILQ_INSERT_TAIL c a (blocked_q w), lts := (lts w)(a \<mapsto> ?l)\<rparr>"
  have nb: "a \<notin> set (B k)" if "k \<in> C" for k using act(5) [OF that] by (simp add: mon_def)
  have ci: "cond_inv C ?v (B(c := [a]))"
    using cond_inv_block [OF cond_inv_owner [OF i(6) c(1)] c(1) nb, of NULL ?l] c(3) by simp
  have fam: "sleep_family (set ss) ?v S" using i(2) sleep_family_cong [of ?v w "set ss" S] by simp
  have ns: "a \<notin> set (S k)" if "k \<in> set ss" for k using not_in_queues(2) [OF inv act(3) that] .
  have srt: "sorted_by (sleep_key ?v) (S s)"
    using i(3) s(1) ns [OF s(1)] sleep_key_other [of a "S s" w ?l] by (auto simp: sleep_key_def node_at_def cong: sorted_by_cong)
  have "set (S s) \<subseteq> dom (lts w)" using i(11) loc_okD(2) [OF i(7) s(1)] by auto
  then have "card (set (S s)) \<le> card (dom (lts w))" by (rule card_mono [OF i(14)])
  moreover have "distinct (S s)" using rb_repr_distinct [OF sleep_family_repr [OF i(2) s(1)]] .
  ultimately have len: "length (S s) < 2 ^ 64" using i(15) by (simp add: distinct_card)
  have v: "lts ?v a = Some ?l" "lt_sched ?l = Some s" "current_lthread (scheds ?v s) = Some a" "Sched_mutex s \<notin> held ?v"
    using l(2) act(1) i(8) by simp_all
  obtain w' j where w': "lthread_sched_sleep now s a ms ?v = Inr w'"
    "lts w' = (lts ?v)(a \<mapsto> ?l\<lparr>lt_state := set_flag LT_ST_SLEEPING (lt_state ?l), sleep_usecs := now + ms * 1000 + of_nat j\<rparr>)"
    "sleep_family (set ss) w' (S(s := insort_key (sleep_key w') a (S s)))" "held w' = held ?v" "ready_q w' = ready_q ?v"
    "\<forall>x. current_lthread (scheds w' x) = current_lthread (scheds ?v x)"
    using sched_sleep_ok [OF fam s(1) srt v(1,2) ns v(3,4) len ms, of now] by blast
  have r: "conds w' = conds ?v" "blocked_q w' = blocked_q ?v" using rest_sched_sleep [OF w'(1)] by (simp_all add: rest_def)
  have "?v\<lparr>held := {}\<rparr> = ?v" using i(8) by simp
  with w'(1) have "lthread_sched_sleep now s a ms (?v\<lparr>held := {}\<rparr>) = Inr w'" by (simp only:)
  then have "lthread_cond_wait now s c ms w = Inr w'"
    using act(1) i(8) l(1,5) cond_signal_none [of C "w\<lparr>held := {Cond_mutex c}\<rparr>" B c a] i(6) c
    by (simp add: lthread_cond_wait_def lthread_current_def cond_wait_begin_def lthread_sleep_def set_owner_def upd_lt_def held_last)
  moreover have "cond_inv C w' (B(c := [a]))" by (rule cond_keep [OF ci r(2,1)]) (use w'(2) in \<open>auto split: if_splits\<close>)
  moreover have "owner_of w' c = NULL" using r(1) by (simp add: owner_of_def set_owner_def)
  ultimately show ?thesis using w'(2-6) l i(8)
    by (intro exI [of _ w'] exI [of _ "?l\<lparr>lt_state := set_flag LT_ST_SLEEPING (lt_state ?l), sleep_usecs := now + ms * 1000 + of_nat j\<rparr>"]
        exI [of _ "insort_key (sleep_key w') a (S s)"] conjI) (simp_all add: st_defs set_insort_key)
qed

subsection \<open>Properties\<close>





text \<open>(C34) A timed wait on a condition variable that is signalled leaves the lthread in two structures at once. From every state the system can reach without timed
  waits: the lthread \<open>a\<close>, which owns a condition variable nobody waits for, calls \<open>lthread_cond_wait\<close> with a timeout and its scheduler finishes \<open>_lthread_resume\<close>, which sets
  its \<open>sleep_usecs\<close> to 0. Then another lthread locks the condition variable and signals it: \<open>a\<close> becomes the owner and is put into the ready queue
  of its scheduler, but because of the 0 it is not taken out of the sleep tree.\<close>

theorem lthread_cond_signal_timed_waiter:
  assumes reach: "sys_reach ss C (w, U, pc)" and s: "s \<in> set ss" "active w U s a" and q: "q \<in> set ss" "active w U q b" "q \<noteq> s"
    and c: "c \<in> C" "owner_of w c = Some a" "tq_repr (blocked_q w) c []" and ms: "ms \<noteq> 0"
  shows "\<exists>w1 w2 w3 w4 R S. lthread_cond_wait now s c ms w = Inr w1 \<and> lthread_resume_end s a w1 = Inr w2 \<and>
    lthread_cond_lock now' q c w2 = Inr (False, w3) \<and> lthread_cond_unlock_signal q c w3 = Inr w4 \<and> owner_of w4 c = Some a \<and>
    tq_family (set ss) (ready_q w4) R \<and> a \<in> set (R s) \<and> sleep_family (set ss) w4 S \<and> a \<in> set (S s)"
proof -
  obtain R S M B loc where inv: "sys_at ss C w U R S M B loc" by (rule sys_reachE [OF reach])
  note act = active_free [OF inv s] and i = sys_atD [OF inv]
  have B: "B c = []" using sys_at_mon [OF inv c(1,3)] by (simp add: mon_def)
  obtain w1 l xs where w1: "lthread_cond_wait now s c ms w = Inr w1" "lts w1 a = Some l" "lt_sched l = Some s" "is_blocked l"
    "\<not> needs_resched l" "\<not> has_flag (lt_state l) LT_ST_EXITED" "cond_inv C w1 (B(c := [a]))" "owner_of w1 c = NULL"
    "sleep_family (set ss) w1 (S(s := xs))" "a \<in> set xs" "held w1 = {}" "ready_q w1 = ready_q w"
    "\<forall>x. current_lthread (scheds w1 x) = current_lthread (scheds w x)"
    using timed_wait_sleeps [OF inv s c(1,2) B ms, of now] by blast
  obtain w2 where w2: "lthread_resume_end s a w1 = Inr w2" "lts w2 = (lts w1)(a \<mapsto> parked l)" "ready_q w2 = ready_q w"
    "scheds w2 = (scheds w1)(s := (scheds w1 s)\<lparr>current_lthread := NULL\<rparr>)" "sleep_node w2 = sleep_node w1"
    "blocked_q w2 = blocked_q w1" "conds w2 = conds w1" "held w2 = {}"
    using resume_end_ok [OF w1(2,3), of s] w1(5,6,11,12) by auto
  have cur: "current_lthread (scheds w2 q) = Some b" "current_lthread (scheds w2 s) = NULL"
    using w2(4) w1(13) q by (simp_all add: active_def)
  have ab: "a \<noteq> b" using current_unique [OF inv s(1) q(1), of a] s(2) q(2,3) by (auto simp: active_def)
  have ci2: "cond_inv C w2 (B(c := [a]))"
    by (rule cond_keep [OF w1(7) w2(6,7)]) (use w2(2) w1(4) in \<open>auto simp: parked_def\<close>)
  have fam2: "sleep_family (set ss) w2 (S(s := xs))"
    using w1(9) sleep_family_cong [of w2 w1 "set ss" "S(s := xs)"] w2(4,5) by simp
  let ?w3 = "set_owner c (Some b) w2"
  have w3: "lthread_cond_lock now' q c w2 = Inr (False, ?w3)"
    by (rule cond_lock_free [OF ci2 c(1) cur(1)]) (use w1(8) w2(7,8) in \<open>simp_all add: owner_of_def\<close>)
  have ci3: "cond_inv C ?w3 (B(c := [a]))" by (rule cond_inv_owner [OF ci2 c(1)]) (use ab in simp)
  let ?h = "?w3\<lparr>held := {Cond_mutex c}\<rparr>"
  have "\<exists>w'. lthread_cond_signal c b ?h = Inr (True, w') \<and> tq_family (set ss) (ready_q w') (R(s := R s @ [a])) \<and>
      sleep_family (set ss) w' (S(s := xs)) \<and> owner_of w' c = Some a \<and> held w' = held ?h"
    by (rule signal_timed_waiter [where B = "B(c := [a])" and l = "parked l" and C = C])
      (use ci3 c(1) w2(2,3,8) w1(3) cur(2) s(1) i(1) fam2 not_in_queues(1) [OF inv act(3)]
         sleep_family_cong [of ?h w2 "set ss" "S(s := xs)"] in \<open>simp_all add: parked_def\<close>)
  then obtain w' where w': "lthread_cond_signal c b ?h = Inr (True, w')" "tq_family (set ss) (ready_q w') (R(s := R s @ [a]))"
    "sleep_family (set ss) w' (S(s := xs))" "owner_of w' c = Some a" "held w' = {Cond_mutex c}" by auto
  have "lthread_cond_unlock_signal q c ?w3 = Inr (w'\<lparr>held := {}\<rparr>)"
    using w'(1,5) cur(1) w2(8) by (simp add: lthread_cond_unlock_signal_def lthread_current_def)
  moreover have "sleep_family (set ss) (w'\<lparr>held := {}\<rparr>) (S(s := xs))"
    using w'(3) sleep_family_cong [of "w'\<lparr>held := {}\<rparr>" w'] by simp
  ultimately show ?thesis using w1(1,10) w2(1) w3 w'(2,4)
    by (intro exI [of _ w1] exI [of _ w2] exI [of _ ?w3] exI [of _ "w'\<lparr>held := {}\<rparr>"] exI [of _ "R(s := R s @ [a])"] exI [of _ "S(s := xs)"]) simp
qed

theorem lthread_cond_signal_timed_waiter_witness:
  "\<exists>a w w1 w2 w3 w4 R S. sys_reach [10, 11] {20} (w, {}, \<lambda>_. Own) \<and> lthread_cond_wait 7 10 20 50 w = Inr w1 \<and>
    lthread_resume_end 10 a w1 = Inr w2 \<and> lthread_cond_lock 8 11 20 w2 = Inr (False, w3) \<and> lthread_cond_unlock_signal 11 20 w3 = Inr w4 \<and>
    tq_family {10, 11} (ready_q w4) R \<and> a \<in> set (R 10) \<and> sleep_family {10, 11} w4 S \<and> a \<in> set (S 10)"
proof -
  obtain a b w R B where w: "at20 w {} (\<lambda>_. Own) R B" "mon w B 20 = (Some a, [])" "a \<noteq> b"
    "current_lthread (scheds w 10) = Some a" "current_lthread (scheds w 11) = Some b" using owner_run by blast
  obtain S M loc where r: "sys_reach [10, 11] {20} (w, {}, \<lambda>_. Own)" by (rule at20E [OF w(1)])
  have "tq_repr (blocked_q w) 20 []" "owner_of w 20 = Some a" using at20_repr [OF w(1)] w(2) by (simp_all add: mon_def)
  with lthread_cond_signal_timed_waiter [OF r, of 10 a 11 b 20 50 7 8] w(4,5) r show ?thesis by (simp add: active_def) blast
qed

end
