(* ===== verification/Run_Loop.thy ===== *)
theory Run_Loop
  imports System
begin

section \<open>The loop of a scheduler\<close>

text \<open>
  \<open>_lthread_run_sched\<close> as a whole. What happens while the function is away is a parameter: \<open>run lt\<close> is the time from
  \<open>mco_resume\<close> to the moment the lthread gives up the processor, \<open>wait t\<close> the time inside \<open>lthread_os_cond_wait\<close>; in both
  the other threads may do anything. \<open>clock n\<close> is the \<open>n\<close>th answer of \<open>_lthread_usec_now\<close>.
\<close>

partial_function (option) run_sched_ready ::
  "(nat \<Rightarrow> u64) \<Rightarrow> (addr \<Rightarrow> world \<Rightarrow> world res) \<Rightarrow> nat \<Rightarrow> addr \<Rightarrow> world \<Rightarrow> (nat \<times> world) res option" where
  "run_sched_ready clock run n s w =
     (case run_sched_round (clock n) run s w of
        Inl e \<Rightarrow> Some (Inl e)
      | Inr (again, w) \<Rightarrow> if again then run_sched_ready clock run (Suc n) s w else Some (Inr (Suc n, w)))"

partial_function (option) lthread_run_sched ::
  "(nat \<Rightarrow> u64) \<Rightarrow> (addr \<Rightarrow> world \<Rightarrow> world res) \<Rightarrow> (u64 \<Rightarrow> world \<Rightarrow> world) \<Rightarrow> nat \<Rightarrow> addr \<Rightarrow> world \<Rightarrow> world res option" where
  "lthread_run_sched clock run wait n s w =
     Option.bind (run_sched_ready clock run n s w) (\<lambda>r.
     case r of
       Inl e \<Rightarrow> Some (Inl e)
     | Inr (n, w) \<Rightarrow>
         (case run_sched_block (clock n) s w of
            Inl e \<Rightarrow> Some (Inl e)
          | Inr (Continue, w) \<Rightarrow> lthread_run_sched clock run wait (Suc n) s w
          | Inr (Wait timeout deep_sleep, w) \<Rightarrow>
              (case run_sched_unblock deep_sleep s (wait timeout w) of
                 Inl e \<Rightarrow> Some (Inl e)
               | Inr w \<Rightarrow> lthread_run_sched clock run wait (Suc n) s w)
          | Inr (All_done, w) \<Rightarrow> Some (run_sched_exit s w)))"

subsection \<open>The loop does not fail\<close>

text \<open>What the lthreads and the other threads are expected to do: the system stays in its invariant, the scheduler keeps the
  lthread it runs, and that lthread has given up the processor at the end.\<close>

definition coroutines_ok :: "addr list \<Rightarrow> addr set \<Rightarrow> addr \<Rightarrow> (addr \<Rightarrow> world \<Rightarrow> world res) \<Rightarrow> bool" where
  "coroutines_ok ss C s run \<longleftrightarrow> (\<forall>w U a. sys_inv ss C (w, U) \<and> active w U s a \<longrightarrow>
     (\<exists>w' U'. run a w = Inr w' \<and> sys_inv ss C (w', U') \<and> s \<in> U' \<and> current_lthread (scheds w' s) = Some a))"

definition waiting_ok :: "addr list \<Rightarrow> addr set \<Rightarrow> addr \<Rightarrow> (u64 \<Rightarrow> world \<Rightarrow> world) \<Rightarrow> bool" where
  "waiting_ok ss C s wait \<longleftrightarrow> (\<forall>w U t. sys_inv ss C (w, U) \<and> current_lthread (scheds w s) = NULL \<longrightarrow>
     (\<exists>U'. sys_inv ss C (wait t w, U') \<and> current_lthread (scheds (wait t w) s) = NULL))"

text \<open>The scheduler is between two lthreads.\<close>

definition sched_free :: "addr list \<Rightarrow> addr set \<Rightarrow> addr \<Rightarrow> world \<Rightarrow> bool" where
  "sched_free ss C s w \<longleftrightarrow> (\<exists>U. sys_inv ss C (w, U)) \<and> current_lthread (scheds w s) = NULL"

lemma run_round_ok:
  assumes ss: "distinct ss" "s \<in> set ss" and run: "coroutines_ok ss C s run" and w: "sched_free ss C s w"
  shows "\<exists>again w'. run_sched_round now run s w = Inr (again, w') \<and> sched_free ss C s w' \<and>
    (\<not> again \<longrightarrow> (\<forall>R. tq_family (set ss) (ready_q w') R \<longrightarrow> (\<forall>q \<in> set ss. R q = [])))"
proof -
  obtain U where U: "sys_inv ss C (w, U)" and cur: "current_lthread (scheds w s) = NULL" using w by (auto simp: sched_free_def)
  obtain R S M B loc where inv: "sys_at ss C w U R S M B loc" using U by (rule sys_invE)
  obtain w1 R1 S1 loc1 where 1: "lthread_schedule_expired now s w = Inr w1" "sys_at ss C w1 U R1 S1 M B loc1"
    "current_lthread (scheds w1 s) = NULL"
    using expire_step [OF inv ss(2) cur, of now] cur by auto
  from pick_step [OF 1(2) ss(2) 1(3) ss(1)] show ?thesis
  proof (elim disjE exE conjE)
    assume none: "lthread_pop_ready s w1 = Inr (NULL, w1)" "\<forall>q \<in> set ss. R1 q = []"
    have "R q = []" if "tq_family (set ss) (ready_q w1) R" "q \<in> set ss" for R q
      using tq_family_unique [OF that(1) sys_atD(1) [OF 1(2)] that(2)] none(2) that(2) by simp
    with none(1) 1 show ?thesis
      by (intro exI [of _ False] exI [of _ w1]) (auto simp: run_sched_round_def lthread_resume_ready_def sched_free_def)
  next
    fix a w2 w3 R3 loc3
    assume got: "lthread_pop_ready s w1 = Inr (Some a, w2)" "lthread_resume_begin s a w2 = Inr w3"
      "sys_at ss C w3 U R3 S1 M B loc3" "current_lthread (scheds w3 s) = Some a"
    have "s \<notin> U" using sys_atD(13) [OF inv, of s] cur by auto
    then have "active w3 U s a" using got(4) by (simp add: active_def)
    with run sys_invI [OF got(3)] obtain w4 U4 where 4: "run a w3 = Inr w4" "sys_inv ss C (w4, U4)" "s \<in> U4"
      "current_lthread (scheds w4 s) = Some a"
      unfolding coroutines_ok_def by blast
    obtain R4 S4 M4 B4 loc4 where inv4: "sys_at ss C w4 U4 R4 S4 M4 B4 loc4" using 4(2) by (rule sys_invE)
    from finish_step [OF inv4 4(3,4)] obtain w5 where 5: "lthread_resume_end s a w4 = Inr w5" "sys_inv ss C (w5, U4 - {s})"
      "current_lthread (scheds w5 s) = NULL" by blast
    have "run_sched_round now run s w = Inr (True, w5)"
      using 1(1) got(1,2) 4(1) 5(1) by (simp add: run_sched_round_def lthread_resume_ready_def lthread_resume_def)
    with 5(2,3) show ?thesis by (auto simp: sched_free_def)
  qed
qed

lemma run_ready_ok:
  "run_sched_ready clock run n s w = Some r \<Longrightarrow> distinct ss \<Longrightarrow> s \<in> set ss \<Longrightarrow> coroutines_ok ss C s run \<Longrightarrow> sched_free ss C s w \<Longrightarrow>
   \<exists>n' w'. r = Inr (n', w') \<and> sched_free ss C s w' \<and> (\<forall>R. tq_family (set ss) (ready_q w') R \<longrightarrow> (\<forall>q \<in> set ss. R q = []))"
proof (induction rule: run_sched_ready.raw_induct [rotated, consumes 1])
  case (1 loop clock run n s w r)
  obtain again w' where w': "run_sched_round (clock n) run s w = Inr (again, w')" "sched_free ss C s w'"
    "\<not> again \<longrightarrow> (\<forall>R. tq_family (set ss) (ready_q w') R \<longrightarrow> (\<forall>q \<in> set ss. R q = []))"
    using run_round_ok [OF 1(3-6), of "clock n"] by blast
  show ?case
  proof (cases again)
    case True
    with 1(2) w'(1) have "loop clock run (Suc n) s w' = Some r" by simp
    from 1(1) [OF this 1(3-5) w'(2)] show ?thesis .
  next
    case False
    with 1(2) w'(1) have "r = Inr (Suc n, w')" by simp
    with False w'(2,3) show ?thesis by blast
  qed
qed

lemma block_unblock_free:
  assumes "s \<in> set ss" "sched_free ss C s w"
  shows "\<exists>d w'. run_sched_block now s w = Inr (d, w') \<and> sched_free ss C s w'"
    and "\<exists>w'. run_sched_unblock deep s w = Inr w' \<and> sched_free ss C s w'"
proof -
  obtain U where U: "sys_inv ss C (w, U)" and cur: "current_lthread (scheds w s) = NULL" using assms(2) by (auto simp: sched_free_def)
  obtain R S M B loc where inv: "sys_at ss C w U R S M B loc" using U by (rule sys_invE)
  have keep: "current_lthread (scheds w' s) = NULL" if "same_core w w'" for w' using that cur unfolding same_core_def by metis
  from block_step [OF inv assms(1), of now] show "\<exists>d w'. run_sched_block now s w = Inr (d, w') \<and> sched_free ss C s w'"
    using same_core_block keep unfolding sched_free_def by blast
  from unblock_step [OF inv, of deep s] show "\<exists>w'. run_sched_unblock deep s w = Inr w' \<and> sched_free ss C s w'"
    using same_core_unblock keep unfolding sched_free_def by blast
qed

lemma exit_ok_free:
  assumes "distinct ss" "s \<in> set ss" "sched_free ss C s w"
  shows "\<exists>w'. run_sched_exit s w = Inr w'"
proof -
  obtain U where U: "sys_inv ss C (w, U)" using assms(3) by (auto simp: sched_free_def)
  obtain R S M B loc where inv: "sys_at ss C w U R S M B loc" using U by (rule sys_invE)
  note i = sys_atD [OF inv]
  obtain j where j: "j < length ss" "ss ! j = s" using assms(2) by (auto simp: in_set_conv_nth)
  with i(9) have "neighbor w s = Some (ss ! (Suc j mod length ss))" unfolding is_ring_def by blast
  then show ?thesis using i(8) wake_ok by (simp add: run_sched_exit_def)
qed

lemma run_sched_ok:
  "lthread_run_sched clock run wait n s w = Some r \<Longrightarrow> distinct ss \<Longrightarrow> s \<in> set ss \<Longrightarrow> coroutines_ok ss C s run \<Longrightarrow>
   waiting_ok ss C s wait \<Longrightarrow> sched_free ss C s w \<Longrightarrow> \<exists>w'. r = Inr w'"
proof (induction rule: lthread_run_sched.raw_induct [rotated, consumes 1])
  case (1 loop clock run wait n s w r)
  from 1(2) obtain r1 where r1: "run_sched_ready clock run n s w = Some r1" by (auto split: Option.bind_splits)
  from run_ready_ok [OF r1 1(3-5,7)] obtain n' w1 where w1: "r1 = Inr (n', w1)" "sched_free ss C s w1" by blast
  obtain d w2 where w2: "run_sched_block (clock n') s w1 = Inr (d, w2)" "sched_free ss C s w2"
    using block_unblock_free(1) [OF 1(4) w1(2)] by blast
  note eq = 1(2) [unfolded r1 w1(1), simplified, unfolded w2(1), simplified]
  show ?case
  proof (cases d)
    case Continue
    with eq have "loop clock run wait (Suc n') s w2 = Some r" by simp
    from 1(1) [OF this 1(3-6) w2(2)] show ?thesis .
  next
    case (Wait t deep)
    have "sched_free ss C s (wait t w2)" using 1(6) w2(2) unfolding waiting_ok_def sched_free_def by blast
    then obtain w3 where w3: "run_sched_unblock deep s (wait t w2) = Inr w3" "sched_free ss C s w3"
      using block_unblock_free(2) [OF 1(4)] by blast
    with eq Wait have "loop clock run wait (Suc n') s w3 = Some r" by simp
    from 1(1) [OF this 1(3-6) w3(2)] show ?thesis .
  next
    case All_done
    with eq exit_ok_free [OF 1(3,4) w2(2)] show ?thesis by auto
  qed
qed

subsection \<open>The end of the program\<close>

text \<open>No scheduler has anything to do: by the test of \<open>_lthread_sched_isdone\<close> nothing is ready or asleep, no lthread runs and no event is
  pending. Lthreads may be left, which nobody will ever wake.\<close>

definition idle_pool :: "addr list \<Rightarrow> addr set \<Rightarrow> world \<Rightarrow> bool" where
  "idle_pool ss C w \<longleftrightarrow> sys_inv ss C (w, {}) \<and>
     (\<forall>s \<in> set ss. lthread_sched_isdone s w \<and> current_lthread (scheds w s) = NULL) \<and> num_pending_events (poller w) = 0"

text \<open>The schedulers in \<open>A\<close> are marked as asleep and those in \<open>W\<close> are inside \<open>lthread_os_cond_wait\<close>.\<close>

definition pool_at :: "addr list \<Rightarrow> addr set \<Rightarrow> addr set \<Rightarrow> addr set \<Rightarrow> world \<Rightarrow> bool" where
  "pool_at ss C A W w \<longleftrightarrow> idle_pool ss C w \<and> num_schedulers (pool w) = length ss \<and> length (asleep (pool w)) = length ss \<and>
     (\<forall>i < length ss. sched_id (scheds w (ss ! i)) = i \<and> asleep (pool w) ! i = (ss ! i \<in> A) \<and>
        (block_state (scheds w (ss ! i)) = LTHREAD_SCHED_IS_BLOCKING) = (ss ! i \<in> W))"

definition set_block :: "addr \<Rightarrow> sched_block_state \<Rightarrow> world \<Rightarrow> world" where
  "set_block s b = upd_sched s (block_state_update (\<lambda>_. b))"

definition set_asleep :: "addr \<Rightarrow> bool \<Rightarrow> world \<Rightarrow> world" where
  "set_asleep s b w = w\<lparr>pool := (pool w)\<lparr>asleep := (asleep (pool w))[sched_id (scheds w s) := b]\<rparr>\<rparr>"

lemma same_core_sets:
  "same_core w (set_block s b w)" "same_core w (set_asleep s t w)" "same_core w (lthread_os_cond_signal s w)"
  unfolding set_block_def set_asleep_def by (rule same_core_upd(4), rule same_core_upd(2), simp add: same_core_def lthread_os_cond_signal_def rest_def)

lemma held_sets [simp]:
  "held (set_block s b w) = held w" "held (set_asleep s t w) = held w" "held (lthread_os_cond_signal s w) = held w"
  by (simp_all add: set_block_def set_asleep_def lthread_os_cond_signal_def)

lemma neighbor_sets [simp]:
  "neighbor (set_block s b w) = neighbor w" "neighbor (set_asleep s t w) = neighbor w" "neighbor (lthread_os_cond_signal s w) = neighbor w"
  by (auto simp: set_block_def set_asleep_def lthread_os_cond_signal_def fun_eq_iff)

lemma sys_inv_cong: "sys_inv ss C (w, U) \<Longrightarrow> same_core w w' \<Longrightarrow> held w' = {} \<Longrightarrow> sys_inv ss C (w', U)"
  by (blast elim: sys_invE intro: sys_at_cong)

lemma idle_cong:
  assumes "idle_pool ss C w" "same_core w w'" "held w' = {}"
  shows "idle_pool ss C w'"
  using assms sys_inv_cong [OF _ assms(2,3)]
  by (simp add: idle_pool_def same_core_def rest_def lthread_sched_isdone_def sleeping_def)

lemma idle_held: "idle_pool ss C w \<Longrightarrow> held w = {}"
  by (auto simp: idle_pool_def elim!: sys_invE dest: sys_atD(8))

lemma idle_keep:
  assumes "idle_pool ss C w"
  shows "idle_pool ss C (set_block s b w)" "idle_pool ss C (set_asleep s t w)" "idle_pool ss C (lthread_os_cond_signal s w)"
  by (rule idle_cong [OF assms]; simp add: same_core_sets idle_held [OF assms])+

text \<open>How the two sets follow the updates.\<close>

lemma pool_at_sets:
  assumes "distinct ss" "s \<in> set ss" "pool_at ss C A W w"
  shows "pool_at ss C (if t then insert s A else A - {s}) W (set_asleep s t w)"
    and "pool_at ss C A (if b = LTHREAD_SCHED_IS_BLOCKING then insert s W else W - {s}) (set_block s b w)"
    and "pool_at ss C A W (lthread_os_cond_signal q w)"
proof -
  obtain k where k: "k < length ss" "s = ss ! k" using assms(2) by (auto simp: in_set_conv_nth)
  have eq: "ss ! i = s \<longleftrightarrow> i = k" if "i < length ss" for i using that k assms(1) by (simp add: nth_eq_iff_index_eq)
  have p: "idle_pool ss C w" using assms(3) by (simp add: pool_at_def)
  show "pool_at ss C (if t then insert s A else A - {s}) W (set_asleep s t w)"
    using assms(3) idle_keep(2) [OF p, of s t] eq k by (auto simp: pool_at_def set_asleep_def nth_list_update)
  show "pool_at ss C A (if b = LTHREAD_SCHED_IS_BLOCKING then insert s W else W - {s}) (set_block s b w)"
    using assms(3) idle_keep(1) [OF p, of s b] eq k by (auto simp: pool_at_def set_block_def upd_sched_def)
  show "pool_at ss C A W (lthread_os_cond_signal q w)"
    using assms(3) idle_keep(3) [OF p, of q] by (auto simp: pool_at_def lthread_os_cond_signal_def)
qed

lemma pool_all_asleep:
  assumes "pool_at ss C A W w"
  shows "list_all id (take (num_schedulers (pool w)) (asleep (pool w))) \<longleftrightarrow> set ss \<subseteq> A"
  using assms by (auto simp: pool_at_def list_all_length in_set_conv_nth subset_iff)

lemma schedule_expired_none:
  assumes "sleep_family K w S" "s \<in> K" "S s = []" "held w = {}"
  shows "lthread_schedule_expired now s w = Inr w"
proof -
  have m: "RB_MIN (sleeping s (w\<lparr>held := {Sched_mutex s}\<rparr>)) = Some NULL"
    using rb_repr_min [OF sleep_family_repr [OF assms(1,2)]] assms(3) by (simp add: sleeping_def)
  have "w\<lparr>held := {}\<rparr> = w" using assms(4) by simp
  with m assms(4) show ?thesis
    by (simp add: lthread_schedule_expired_def schedule_expired_loop.simps)
qed

lemma idle_ready:
  assumes "distinct ss" "s \<in> set ss" "idle_pool ss C w"
  shows "run_sched_ready clock run n s w = Some (Inr (Suc n, w))"
proof -
  obtain R S M B loc where inv: "sys_at ss C w {} R S M B loc" using assms(3) by (auto simp: idle_pool_def elim: sys_invE)
  note i = sys_atD [OF inv]
  have e: "R q = []" "S q = []" "current_lthread (scheds w q) = NULL" if "q \<in> set ss" for q
    using assms(3) isdone_iff [OF i(2,1) that] that by (auto simp: idle_pool_def)
  have exp: "lthread_schedule_expired now s w = Inr w" for now by (rule schedule_expired_none [OF i(2) assms(2) e(2) [OF assms(2)] i(8)])
  from pick_step [OF inv assms(2) e(3) [OF assms(2)] assms(1)] e(1) have "lthread_pop_ready s w = Inr (NULL, w)" by force
  with exp show ?thesis by (simp add: run_sched_ready.simps run_sched_round_def lthread_resume_ready_def)
qed

text \<open>The decision of a scheduler that is not inside \<open>lthread_os_cond_wait\<close>: one more round, deep sleep, or the end.\<close>

lemma idle_block:
  assumes ss: "distinct ss" "s \<in> set ss" and at: "pool_at ss C A W w"
  shows "block_state (scheds w s) = LTHREAD_SCHED_WONT_BLOCK \<Longrightarrow>
      run_sched_block now s w = Inr (Continue, set_block s LTHREAD_SCHED_WILL_BLOCK w)"
    and "block_state (scheds w s) = LTHREAD_SCHED_WILL_BLOCK \<Longrightarrow> \<not> set ss \<subseteq> insert s A \<Longrightarrow>
      run_sched_block now s w = Inr (Wait 0 True, set_asleep s True (set_block s LTHREAD_SCHED_IS_BLOCKING w))"
    and "block_state (scheds w s) = LTHREAD_SCHED_WILL_BLOCK \<Longrightarrow> set ss \<subseteq> insert s A \<Longrightarrow>
      run_sched_block now s w = Inr (All_done, set_asleep s True (set_block s LTHREAD_SCHED_WILL_BLOCK w))"
proof -
  have idle: "idle_pool ss C w" using at by (simp add: pool_at_def)
  have held: "held w = {}" by (rule idle_held [OF idle])
  then have same: "w\<lparr>held := {}\<rparr> = w" by simp
  have isd: "lthread_sched_isdone s ((upd_sched s (block_state_update (\<lambda>_. LTHREAD_SCHED_IS_BLOCKING)) w)\<lparr>held := {Sched_mutex s}\<rparr>)"
    and none: "num_pending_events (poller w) = 0"
    using idle ss(2) by (simp_all add: idle_pool_def lthread_sched_isdone_def sleeping_def)
  have all: "list_all id (take (num_schedulers (pool w)) ((asleep (pool w))[sched_id (scheds w s) := True])) \<longleftrightarrow> set ss \<subseteq> insert s A"
    using pool_all_asleep [OF pool_at_sets(1) [OF ss at, of True]] by (simp add: set_asleep_def)
  note defs = run_sched_block_def lthread_poller_has_pending_events_def Let_def lthread_pool_begin_deep_sleep_def
    set_asleep_def set_block_def held_last
  show "run_sched_block now s w = Inr (Continue, set_block s LTHREAD_SCHED_WILL_BLOCK w)"
    if "block_state (scheds w s) = LTHREAD_SCHED_WONT_BLOCK" using that held same by (simp add: defs)
  show "run_sched_block now s w = Inr (Wait 0 True, set_asleep s True (set_block s LTHREAD_SCHED_IS_BLOCKING w))"
    if "block_state (scheds w s) = LTHREAD_SCHED_WILL_BLOCK" "\<not> set ss \<subseteq> insert s A"
    using that held same isd none all by (simp add: defs)
  show "run_sched_block now s w = Inr (All_done, set_asleep s True (set_block s LTHREAD_SCHED_WILL_BLOCK w))"
    if "block_state (scheds w s) = LTHREAD_SCHED_WILL_BLOCK" "set ss \<subseteq> insert s A"
    using that held same isd none all by (simp add: defs)
qed

text \<open>A scheduler goes to its deep sleep: it goes round the loop until it calls \<open>lthread_os_cond_wait\<close> without a timeout.\<close>

inductive to_sleep :: "(nat \<Rightarrow> u64) \<Rightarrow> (addr \<Rightarrow> world \<Rightarrow> world res) \<Rightarrow> addr \<Rightarrow> world \<Rightarrow> world \<Rightarrow> bool" for clock run s where
  waits: "run_sched_ready clock run n s w = Some (Inr (n', w1)) \<Longrightarrow> run_sched_block (clock n') s w1 = Inr (Wait 0 True, w') \<Longrightarrow>
    to_sleep clock run s w w'"
| again: "run_sched_ready clock run n s w = Some (Inr (n', w1)) \<Longrightarrow> run_sched_block (clock n') s w1 = Inr (Continue, w2) \<Longrightarrow>
    to_sleep clock run s w2 w' \<Longrightarrow> to_sleep clock run s w w'"

text \<open>The schedulers of a list return one after the other: each one wakes the next, which leaves its wait and goes on with its loop.\<close>

inductive return_in_turn :: "(nat \<Rightarrow> u64) \<Rightarrow> (addr \<Rightarrow> world \<Rightarrow> world res) \<Rightarrow> (u64 \<Rightarrow> world \<Rightarrow> world) \<Rightarrow> addr list \<Rightarrow> world \<Rightarrow> world \<Rightarrow> bool"
  for clock run wait where
  last: "lthread_run_sched clock run wait n s w = Some (Inr w') \<Longrightarrow> return_in_turn clock run wait [s] w w'"
| wake: "lthread_run_sched clock run wait n s w = Some (Inr w1) \<Longrightarrow> q \<in> signalled w1 \<Longrightarrow> run_sched_unblock True q w1 = Inr w2 \<Longrightarrow>
    return_in_turn clock run wait (q # qs) w2 w' \<Longrightarrow> return_in_turn clock run wait (s # q # qs) w w'"

lemma not_waiting:
  assumes "pool_at ss C A W w" "s \<in> set ss" "s \<notin> W"
  shows "block_state (scheds w s) = LTHREAD_SCHED_WILL_BLOCK \<or> block_state (scheds w s) = LTHREAD_SCHED_WONT_BLOCK"
  using assms by (cases "block_state (scheds w s)") (auto simp: pool_at_def in_set_conv_nth)

lemma pool_at_idle: "pool_at ss C A W w \<Longrightarrow> idle_pool ss C w"
  by (simp add: pool_at_def)

lemma pool_at_will:
  assumes "distinct ss" "s \<in> set ss" "pool_at ss C A W w" "s \<notin> W"
  shows "pool_at ss C A W (set_block s LTHREAD_SCHED_WILL_BLOCK w)"
  using pool_at_sets(2) [OF assms(1-3), of LTHREAD_SCHED_WILL_BLOCK] assms(4) by simp

lemma block_state_set [simp]: "block_state (scheds (set_block s b w) s) = b"
  by (simp add: set_block_def)

lemma goes_to_sleep:
  assumes ss: "distinct ss" "s \<in> set ss" and at: "pool_at ss C A W w" and s: "s \<notin> W" "\<not> set ss \<subseteq> insert s A"
  shows "\<exists>w'. to_sleep clock run s w w' \<and> pool_at ss C (insert s A) (insert s W) w' \<and> neighbor w' = neighbor w"
proof -
  have will: "\<exists>w'. to_sleep clock run s w w' \<and> pool_at ss C (insert s A) (insert s W) w' \<and> neighbor w' = neighbor w"
    if at: "pool_at ss C A W w" and b: "block_state (scheds w s) = LTHREAD_SCHED_WILL_BLOCK" for w
  proof (intro exI conjI)
    let ?w = "set_block s LTHREAD_SCHED_IS_BLOCKING w"
    show "to_sleep clock run s w (set_asleep s True ?w)"
      by (rule to_sleep.waits [OF idle_ready [OF ss pool_at_idle [OF at]] idle_block(2) [OF ss at b s(2)]])
    show "pool_at ss C (insert s A) (insert s W) (set_asleep s True ?w)"
      using pool_at_sets(1) [OF ss pool_at_sets(2) [OF ss at, of LTHREAD_SCHED_IS_BLOCKING], of True] by simp
    show "neighbor (set_asleep s True ?w) = neighbor w" by simp
  qed
  show ?thesis
  proof (cases "block_state (scheds w s) = LTHREAD_SCHED_WILL_BLOCK")
    case True
    with will [OF at] show ?thesis by blast
  next
    case False
    then have b: "block_state (scheds w s) = LTHREAD_SCHED_WONT_BLOCK" using not_waiting [OF at ss(2) s(1)] by blast
    let ?w = "set_block s LTHREAD_SCHED_WILL_BLOCK w"
    from will [OF pool_at_will [OF ss at s(1)]] obtain w' where w': "to_sleep clock run s ?w w'"
      "pool_at ss C (insert s A) (insert s W) w'" "neighbor w' = neighbor ?w" by auto
    have "to_sleep clock run s w w'"
      by (rule to_sleep.again [OF idle_ready [OF ss pool_at_idle [OF at]] idle_block(1) [OF ss at b] w'(1)])
    with w'(2,3) show ?thesis by auto
  qed
qed

lemma returns_when_all_asleep:
  assumes ss: "distinct ss" "s \<in> set ss" and at: "pool_at ss C A W w" and s: "s \<notin> W" "set ss \<subseteq> insert s A"
  shows "\<exists>v. lthread_run_sched clock run wait n s w = Some (run_sched_exit s v) \<and> pool_at ss C (insert s A) W v \<and> neighbor v = neighbor w"
proof -
  have will: "\<exists>v. lthread_run_sched clock run wait n s w = Some (run_sched_exit s v) \<and> pool_at ss C (insert s A) W v \<and> neighbor v = neighbor w"
    if at: "pool_at ss C A W w" and b: "block_state (scheds w s) = LTHREAD_SCHED_WILL_BLOCK" for w n
  proof (intro exI conjI)
    let ?w = "set_asleep s True (set_block s LTHREAD_SCHED_WILL_BLOCK w)"
    show "lthread_run_sched clock run wait n s w = Some (run_sched_exit s ?w)"
      using idle_ready [OF ss pool_at_idle [OF at]] idle_block(3) [OF ss at b s(2)] by (simp add: lthread_run_sched.simps)
    show "pool_at ss C (insert s A) W ?w" using pool_at_sets(1) [OF ss pool_at_will [OF ss at s(1)], of True] by simp
    show "neighbor ?w = neighbor w" by simp
  qed
  show ?thesis
  proof (cases "block_state (scheds w s) = LTHREAD_SCHED_WILL_BLOCK")
    case True
    with will [OF at] show ?thesis by blast
  next
    case False
    then have b: "block_state (scheds w s) = LTHREAD_SCHED_WONT_BLOCK" using not_waiting [OF at ss(2) s(1)] by blast
    let ?w = "set_block s LTHREAD_SCHED_WILL_BLOCK w"
    have "lthread_run_sched clock run wait n s w = lthread_run_sched clock run wait (Suc (Suc n)) s ?w"
      using idle_ready [OF ss pool_at_idle [OF at]] idle_block(1) [OF ss at b] by (simp add: lthread_run_sched.simps [of clock run wait n s w])
    with will [OF pool_at_will [OF ss at s(1)], of "Suc (Suc n)"] show ?thesis by auto
  qed
qed

lemma exit_wakes_next:
  assumes ss: "distinct ss" "q \<in> set ss" and at: "pool_at ss C A W v" and q: "neighbor v s = Some q" "q \<noteq> s" "q \<in> W"
  shows "\<exists>w1 w2. run_sched_exit s v = Inr w1 \<and> q \<in> signalled w1 \<and> run_sched_unblock True q w1 = Inr w2 \<and>
    pool_at ss C (A - {q}) (W - {q}) w2 \<and> neighbor w2 = neighbor v"
proof -
  let ?w1 = "lthread_os_cond_signal q (set_asleep q False v)"
  let ?w2 = "set_block q LTHREAD_SCHED_WILL_BLOCK (set_asleep q False ?w1)"
  have held: "held v = {}" by (rule idle_held [OF pool_at_idle [OF at]])
  have b: "block_state (scheds v q) = LTHREAD_SCHED_IS_BLOCKING" using at q(3) ss(2) by (auto simp: pool_at_def in_set_conv_nth)
  have "run_sched_exit s v = Inr ?w1"
    using q(1,2) held b wake_ok [of v q] by (simp add: run_sched_exit_def wake_result_def set_asleep_def)
  moreover have "q \<in> signalled ?w1" by (simp add: lthread_os_cond_signal_def)
  moreover have "w\<lparr>held := {}\<rparr> = w" if "held w = {}" for w :: world using that by simp
  from this [of ?w1] held have "run_sched_unblock True q ?w1 = Inr ?w2"
    by (simp add: run_sched_unblock_def lthread_pool_end_deep_sleep_def Let_def set_asleep_def set_block_def held_last lthread_os_cond_signal_def)
  moreover have "pool_at ss C (A - {q}) W (set_asleep q False ?w1)"
    using pool_at_sets(1) [OF ss pool_at_sets(3) [OF ss pool_at_sets(1) [OF ss at, of False]], of False q] by simp
  then have "pool_at ss C (A - {q}) (W - {q}) ?w2" using pool_at_sets(2) [OF ss, of C "A - {q}" W _ LTHREAD_SCHED_WILL_BLOCK] by simp
  ultimately show ?thesis by (intro exI [of _ ?w1] exI [of _ ?w2]) simp
qed

lemma all_return:
  assumes ss: "distinct ss"
  shows "distinct (s # qs) \<Longrightarrow> set (s # qs) \<subseteq> set ss \<Longrightarrow> successively (\<lambda>a b. nb a = Some b) (s # qs) \<Longrightarrow>
    pool_at ss C (set ss - {s}) (set qs) w \<Longrightarrow> neighbor w = nb \<Longrightarrow> \<exists>w'. return_in_turn clock run wait (s # qs) w w'"
proof (induction qs arbitrary: s w)
  case Nil
  then have s: "s \<in> set ss" by simp
  obtain v where v: "lthread_run_sched clock run wait 0 s w = Some (run_sched_exit s v)" "pool_at ss C (set ss) {} v"
    using returns_when_all_asleep [OF ss s Nil(4), of clock run wait 0] s by (auto simp: insert_absorb)
  have "sched_free ss C s v" using pool_at_idle [OF v(2)] s by (auto simp: idle_pool_def sched_free_def)
  then obtain w' where "run_sched_exit s v = Inr w'" using exit_ok_free [OF ss s] by blast
  with v(1) return_in_turn.last show ?case by metis
next
  case (Cons q qs)
  then have s: "s \<in> set ss" "q \<in> set ss" "q \<noteq> s" "s \<notin> set (q # qs)" and nb: "nb s = Some q" by auto
  obtain v where v: "lthread_run_sched clock run wait 0 s w = Some (run_sched_exit s v)" "pool_at ss C (set ss) (set (q # qs)) v"
    "neighbor v = nb"
    using returns_when_all_asleep [OF ss s(1) Cons.prems(4) s(4), of clock run wait 0] s(1) Cons.prems(5) by (auto simp: insert_absorb)
  obtain w1 w2 where w: "run_sched_exit s v = Inr w1" "q \<in> signalled w1" "run_sched_unblock True q w1 = Inr w2"
    "pool_at ss C (set ss - {q}) (set (q # qs) - {q}) w2" "neighbor w2 = nb"
    using exit_wakes_next [OF ss s(2) v(2) _ s(3)] nb v(3) fun_cong [OF v(3), of s] by auto
  have "set (q # qs) - {q} = set qs" using Cons.prems(1) by auto
  then have "\<exists>w'. return_in_turn clock run wait (q # qs) w2 w'"
    using Cons.IH [of q w2] Cons.prems(1-3) w(4,5) by (simp add: successively_Cons)
  with v(1) w(1-3) return_in_turn.wake [of clock run wait 0 s w w1 q w2 qs] show ?case by auto
qed

text \<open>The schedulers of a list go to sleep one after the other.\<close>

primrec all_to_sleep :: "(nat \<Rightarrow> u64) \<Rightarrow> (addr \<Rightarrow> world \<Rightarrow> world res) \<Rightarrow> addr list \<Rightarrow> world \<Rightarrow> world \<Rightarrow> bool" where
  "all_to_sleep clock run [] w w' \<longleftrightarrow> w' = w"
| "all_to_sleep clock run (s # ps) w w' \<longleftrightarrow> (\<exists>w1. to_sleep clock run s w w1 \<and> all_to_sleep clock run ps w1 w')"

lemma all_sleep:
  assumes ss: "distinct ss" and k: "k \<in> set ss" "k \<notin> A"
  shows "distinct ps \<Longrightarrow> set ps \<subseteq> set ss - {k} - A \<Longrightarrow> pool_at ss C A A w \<Longrightarrow>
    \<exists>w'. all_to_sleep clock run ps w w' \<and> pool_at ss C (A \<union> set ps) (A \<union> set ps) w' \<and> neighbor w' = neighbor w"
  using k(2)
proof (induction ps arbitrary: w A)
  case (Cons s ps)
  then have s: "s \<in> set ss" "s \<notin> A" "\<not> set ss \<subseteq> insert s A" using k(1) by auto
  obtain w1 where w1: "to_sleep clock run s w w1" "pool_at ss C (insert s A) (insert s A) w1" "neighbor w1 = neighbor w"
    using goes_to_sleep [OF ss s(1) Cons.prems(3) s(2,3)] by blast
  obtain w' where "all_to_sleep clock run ps w1 w'" "pool_at ss C (insert s A \<union> set ps) (insert s A \<union> set ps) w'" "neighbor w' = neighbor w1"
    using Cons.IH [of "insert s A" w1] Cons.prems w1(2) by auto
  with w1 show ?case by auto
qed simp

lemma ring_rotate:
  assumes "is_ring nb ss"
  shows "successively (\<lambda>a b. nb a = Some b) (rotate k ss)"
  unfolding successively_conv_nth
proof (intro allI impI)
  fix i assume i: "Suc i < length (rotate k ss)"
  then have l: "0 < length ss" by (cases ss) simp_all
  have "nb (ss ! ((k + i) mod length ss)) = Some (ss ! (Suc ((k + i) mod length ss) mod length ss))"
    using assms l by (simp add: is_ring_def)
  then show "nb (rotate k ss ! i) = Some (rotate k ss ! Suc i)" using i by (simp add: nth_rotate mod_Suc_eq add.commute)
qed

lemma exiting_ok:
  assumes "s \<in> set ss"
  shows "coroutines_ok ss C s (\<lambda>_. lthread_exit s)"
  unfolding coroutines_ok_def
proof (intro allI impI, elim conjE)
  fix w U a assume inv: "sys_inv ss C (w, U)" and a: "active w U s a"
  obtain R S M B loc where at: "sys_at ss C w U R S M B loc" using inv by (rule sys_invE)
  have act: "current_lthread (scheds w s) = Some a" "s \<notin> U" using a by (simp_all add: active_def)
  obtain w' where w': "lthread_exit s w = Inr w'" "sys_at ss C w' (insert s U) R S M B loc" using exit_step [OF at assms act] by blast
  obtain l where "lts w a = Some l" "lt_sched l = Some s" using sys_at_active [OF at assms act] by blast
  from exit_ok [OF act(1) this] w'(1) act(1) have "current_lthread (scheds w' s) = Some a" by auto
  with w' show "\<exists>w' U'. lthread_exit s w = Inr w' \<and> sys_inv ss C (w', U') \<and> s \<in> U' \<and> current_lthread (scheds w' s) = Some a" by blast
qed

lemma pool2_at: "pool_at [10, 11] {} {} {} pool2"
proof -
  have cur: "current_lthread (scheds pool2 11) = NULL" using pool2_init(10) [of 1] by simp
  have "sys_inv [10, 11] {} (pool2, {})" using sys_reachE [OF pool2_reach] by blast
  moreover have "lthread_sched_isdone s pool2" if "s \<in> {10, 11}" for s using isdone_iff [OF pool2_facts(4,3) that] by simp
  ultimately have "idle_pool [10, 11] {} pool2" using cur by (simp add: idle_pool_def)
  then show ?thesis using pool2_init(5,6) pool2_init(10) by (simp add: pool_at_def nth_Cons' less_Suc_eq numeral_2_eq_2)
qed

subsection \<open>Properties\<close>

text \<open>(C5) The loop of a scheduler never fails, whatever the clock says and whatever the lthreads and the other threads do in the
  meantime as long as they keep the invariant of the system. Every round of the inner loop, every decision to block, the return from the
  wait and the exit succeed and leave the scheduler ready for the next part, and an execution of \<open>_lthread_run_sched\<close> that ends has
  returned and not violated an assertion or used a bad pointer.\<close>

theorem lthread_run_sched_safe:
  assumes "distinct ss" "s \<in> set ss" "coroutines_ok ss C s run" "waiting_ok ss C s wait" and w: "sched_free ss C s w"
  shows "(\<exists>again w'. run_sched_round now run s w = Inr (again, w') \<and> sched_free ss C s w') \<and>
    (\<exists>d w'. run_sched_block now s w = Inr (d, w') \<and> sched_free ss C s w' \<and>
       (\<exists>w''. run_sched_unblock deep s (wait t w') = Inr w'' \<and> sched_free ss C s w'')) \<and>
    (\<exists>w'. run_sched_exit s w = Inr w') \<and>
    (\<forall>e. lthread_run_sched clock run wait n s w \<noteq> Some (Inl e))"
proof (intro conjI)
  show "\<exists>again w'. run_sched_round now run s w = Inr (again, w') \<and> sched_free ss C s w'" using run_round_ok [OF assms(1-3) w] by blast
  obtain d w' where w': "run_sched_block now s w = Inr (d, w')" "sched_free ss C s w'" using block_unblock_free(1) [OF assms(2) w] by blast
  have "sched_free ss C s (wait t w')" using assms(4) w'(2) unfolding waiting_ok_def sched_free_def by blast
  from block_unblock_free(2) [OF assms(2) this] w'
  show "\<exists>d w'. run_sched_block now s w = Inr (d, w') \<and> sched_free ss C s w' \<and>
      (\<exists>w''. run_sched_unblock deep s (wait t w') = Inr w'' \<and> sched_free ss C s w'')" by blast
  show "\<exists>w'. run_sched_exit s w = Inr w'" by (rule exit_ok_free [OF assms(1,2) w])
  show "\<forall>e. lthread_run_sched clock run wait n s w \<noteq> Some (Inl e)" using run_sched_ok [OF _ assms] by blast
qed

theorem lthread_run_sched_safe_witness:
  "\<exists>w. sched_free [10, 11] {} 10 w \<and> (\<exists>again w'. run_sched_round 7 (\<lambda>_. lthread_exit 10) 10 w = Inr (again, w')) \<and>
     (\<exists>r. lthread_run_sched (\<lambda>_. 7) (\<lambda>_. lthread_exit 10) (\<lambda>_ w. w) 0 10 w = Some r \<and> (\<forall>e. r \<noteq> Inl e))"
proof -
  have wait: "waiting_ok [10, 11] {} 10 (\<lambda>_ w. w)" by (auto simp: waiting_ok_def)
  obtain w where w: "pool_at [10, 11] {} {11} {11} w" using goes_to_sleep [OF _ _ pool2_at, of 11] by auto
  obtain v where run: "lthread_run_sched (\<lambda>_. 7) (\<lambda>_. lthread_exit 10) (\<lambda>_ w. w) 0 10 w = Some (run_sched_exit 10 v)"
    using returns_when_all_asleep [OF _ _ w, of 10 "\<lambda>_. 7" "\<lambda>_. lthread_exit 10" "\<lambda>_ w. w" 0] by auto
  have free: "sched_free [10, 11] {} 10 w" using pool_at_idle [OF w] by (auto simp: idle_pool_def sched_free_def)
  from lthread_run_sched_safe [where now = 7 and deep = False and t = 0 and clock = "\<lambda>_. 7" and n = 0, OF _ _ exiting_ok wait free] run free
  show ?thesis by fastforce
qed

text \<open>(C6) The pool shuts down. Suppose no scheduler has anything to do: nothing is ready or asleep, no event is pending and no lthread runs. The schedulers that are not yet in
  their deep sleep (all but those in \<open>A\<close>) go there, in any order \<open>ps\<close>. The remaining one finds all the others asleep: its \<open>_lthread_run_sched\<close> returns and wakes its neighbour, that
  one returns and wakes the next, and so on once round the ring, so that every scheduler returns. This includes a pool of a single
  scheduler and the last one of the ring, whose neighbour has returned before.\<close>

theorem lthread_run_sched_shuts_down:
  assumes ss: "distinct ss" and k: "k < length ss" "ss ! k \<notin> A" "A \<subseteq> set ss" and w: "pool_at ss C A A w"
    and ps: "distinct ps" "set ps = set ss - {ss ! k} - A"
  shows "\<exists>w1 w'. all_to_sleep clock run ps w w1 \<and> return_in_turn clock run wait (rotate k ss) w1 w'"
proof -
  obtain w1 where w1: "all_to_sleep clock run ps w w1" "pool_at ss C (A \<union> set ps) (A \<union> set ps) w1"
    using all_sleep [OF ss nth_mem [OF k(1)] k(2) ps(1) _ w] ps(2) by blast
  obtain qs where qs: "rotate k ss = ss ! k # qs"
    using hd_rotate_conv_nth [of ss k] k(1) by (cases ss; cases "rotate k ss") auto
  have d: "distinct (ss ! k # qs)" "set (ss ! k # qs) = set ss" unfolding qs [symmetric] using ss by simp_all
  have "is_ring (neighbor w1) ss" using pool_at_idle [OF w1(2)] by (auto simp: idle_pool_def elim!: sys_invE dest: sys_atD(9))
  then have ring: "successively (\<lambda>a b. neighbor w1 a = Some b) (ss ! k # qs)" using ring_rotate [of "neighbor w1" ss k] qs by simp
  have "A \<union> set ps = set ss - {ss ! k}" "set ss - {ss ! k} = set qs" using ps(2) k(2,3) d by auto
  then have "pool_at ss C (set ss - {ss ! k}) (set qs) w1" using w1(2) by simp
  from all_return [OF ss d(1) _ ring this refl, of clock run wait] d(2)
  have "\<exists>w'. return_in_turn clock run wait (ss ! k # qs) w1 w'" by blast
  with w1(1) qs show ?thesis by auto
qed

theorem lthread_run_sched_shuts_down_witness:
  "\<exists>w1 w'. all_to_sleep (\<lambda>_. 7) (\<lambda>_. Inr) [11] pool2 w1 \<and> return_in_turn (\<lambda>_. 7) (\<lambda>_. Inr) (\<lambda>_ w. w) [10, 11] w1 w'"
  using lthread_run_sched_shuts_down [OF _ _ _ _ pool2_at, of 0 "[11]" "\<lambda>_. 7" "\<lambda>_. Inr" "\<lambda>_ w. w"] by simp

end
