(* ===== verification/Socket.thy ===== *)
theory Socket
  imports Poller
begin

section \<open>The socket calls of \<^verbatim>\<open>lthread_socket.c\<close>\<close>

text \<open>
  \<open>src/src/lthread_socket.c\<close>: the calls an lthread makes instead of the blocking ones of the system. The system
  calls and \<open>_lthread_wait_fd\<close> run on to the wake-up (other lthreads run meanwhile) are functions on a state
  of the environment, the fields of \<open>syscalls\<close>: what they answer is theirs to choose. An answer is an error
  number or a value; \<open>-1\<close> and \<open>errno\<close> of the C code are the first. \<open>EWOULDBLOCK\<close> is \<open>EAGAIN\<close>. A loop that
  never gets an answer other than \<open>EAGAIN\<close> does not end, which is the value \<open>None\<close>.
\<close>

type_synonym byte = "8 word"

datatype errno = EAGAIN | ENFILE | EMFILE | ECONNABORTED | EINPROGRESS | EISCONN | Other_error nat

type_synonym 'a answer = "errno + 'a"

record 's syscalls =
  sc_wait_fd    :: "int \<Rightarrow> lthread_event \<Rightarrow> 's \<Rightarrow> int \<times> 's"
  sc_recv       :: "int \<Rightarrow> nat \<Rightarrow> int \<Rightarrow> 's \<Rightarrow> byte list answer \<times> 's"
  sc_read       :: "int \<Rightarrow> nat \<Rightarrow> 's \<Rightarrow> byte list answer \<times> 's"
  sc_recvmsg    :: "int \<Rightarrow> int \<Rightarrow> 's \<Rightarrow> byte list answer \<times> 's"
  sc_recvfrom   :: "int \<Rightarrow> nat \<Rightarrow> int \<Rightarrow> 's \<Rightarrow> byte list answer \<times> 's"
  sc_sendmsg    :: "int \<Rightarrow> byte list \<Rightarrow> int \<Rightarrow> 's \<Rightarrow> nat answer \<times> 's"
  sc_sendto     :: "int \<Rightarrow> byte list \<Rightarrow> int \<Rightarrow> addr \<Rightarrow> 's \<Rightarrow> nat answer \<times> 's"
  sc_writev     :: "int \<Rightarrow> byte list list \<Rightarrow> 's \<Rightarrow> nat answer \<times> 's"
  sc_accept     :: "int \<Rightarrow> 's \<Rightarrow> nat answer \<times> 's"
  sc_connect    :: "int \<Rightarrow> addr \<Rightarrow> 's \<Rightarrow> unit answer \<times> 's"
  sc_socket     :: "int \<Rightarrow> int \<Rightarrow> int \<Rightarrow> 's \<Rightarrow> nat answer \<times> 's"
  sc_setsockopt :: "int \<Rightarrow> 's \<Rightarrow> unit answer \<times> 's"
  sc_fcntl      :: "int \<Rightarrow> 's \<Rightarrow> unit answer \<times> 's"
  sc_pipe       :: "'s \<Rightarrow> (nat \<times> nat) answer \<times> 's"
  sc_close      :: "int \<Rightarrow> 's \<Rightarrow> unit answer \<times> 's"

definition status :: "'a answer \<Rightarrow> int" where
  "status a = (case a of Inl _ \<Rightarrow> - 1 | Inr _ \<Rightarrow> 0)"

subsection \<open>Receiving and sending\<close>

text \<open>The loop of the two macros, which differ in the event that is waited for. The result is \<open>None\<close> for the
  return value -1 and otherwise what the system call delivered.\<close>

partial_function (option) io_loop ::
  "('s \<Rightarrow> 'r answer \<times> 's) \<Rightarrow> ('s \<Rightarrow> int \<times> 's) \<Rightarrow> 's \<Rightarrow> ('r option \<times> 's) option" where
  "io_loop y wait_fd s =
     (case y s of
        (Inr r, s) \<Rightarrow> Some (Some r, s)
      | (Inl err, s) \<Rightarrow>
          if err = EAGAIN
          then (case wait_fd s of (res, s) \<Rightarrow> if res = - 1 then Some (None, s) else io_loop y wait_fd s)
          else Some (None, s))"

declare io_loop.simps [code]

definition LTHREAD_RECV :: "'s syscalls \<Rightarrow> int \<Rightarrow> ('s \<Rightarrow> 'r answer \<times> 's) \<Rightarrow> 's \<Rightarrow> ('r option \<times> 's) option" where
  "LTHREAD_RECV sc fd y = io_loop y (sc_wait_fd sc fd LT_EV_READ)"

definition LTHREAD_SEND :: "'s syscalls \<Rightarrow> int \<Rightarrow> ('s \<Rightarrow> 'r answer \<times> 's) \<Rightarrow> 's \<Rightarrow> ('r option \<times> 's) option" where
  "LTHREAD_SEND sc fd y = io_loop y (sc_wait_fd sc fd LT_EV_WRITE)"

text \<open>The instances of the macros; \<open>timeout\<close> is an argument that no body uses.\<close>

definition lthread_recv :: "'s syscalls \<Rightarrow> int \<Rightarrow> nat \<Rightarrow> int \<Rightarrow> u64 \<Rightarrow> 's \<Rightarrow> (byte list option \<times> 's) option" where
  "lthread_recv sc fd len flags timeout = LTHREAD_RECV sc fd (sc_recv sc fd len flags)"

definition lthread_read :: "'s syscalls \<Rightarrow> int \<Rightarrow> nat \<Rightarrow> u64 \<Rightarrow> 's \<Rightarrow> (byte list option \<times> 's) option" where
  "lthread_read sc fd len timeout = LTHREAD_RECV sc fd (sc_read sc fd len)"

definition lthread_recvmsg :: "'s syscalls \<Rightarrow> int \<Rightarrow> int \<Rightarrow> u64 \<Rightarrow> 's \<Rightarrow> (byte list option \<times> 's) option" where
  "lthread_recvmsg sc fd flags timeout = LTHREAD_RECV sc fd (sc_recvmsg sc fd flags)"

definition lthread_recvfrom :: "'s syscalls \<Rightarrow> int \<Rightarrow> nat \<Rightarrow> int \<Rightarrow> u64 \<Rightarrow> 's \<Rightarrow> (byte list option \<times> 's) option" where
  "lthread_recvfrom sc fd len flags timeout = LTHREAD_RECV sc fd (sc_recvfrom sc fd len flags)"

definition lthread_sendmsg :: "'s syscalls \<Rightarrow> int \<Rightarrow> byte list \<Rightarrow> int \<Rightarrow> 's \<Rightarrow> (nat option \<times> 's) option" where
  "lthread_sendmsg sc fd message flags = LTHREAD_SEND sc fd (sc_sendmsg sc fd message flags)"

definition lthread_sendto :: "'s syscalls \<Rightarrow> int \<Rightarrow> byte list \<Rightarrow> int \<Rightarrow> addr \<Rightarrow> 's \<Rightarrow> (nat option \<times> 's) option" where
  "lthread_sendto sc fd buf flags dest = LTHREAD_SEND sc fd (sc_sendto sc fd buf flags dest)"

subsection \<open>Descriptors\<close>

definition lthread_unblock_fd :: "'s syscalls \<Rightarrow> int \<Rightarrow> 's \<Rightarrow> int \<times> 's" where
  "lthread_unblock_fd sc fd s =
     (let (a, s) = sc_fcntl sc fd s
      in if status a = - 1 then (let (_, s) = sc_close sc fd s in (- 1, s)) else (0, s))"

text \<open>The loop of \<open>lthread_accept\<close>: it goes on while the result is not positive. The result of the wait is not
  used.\<close>

partial_function (option) accept_loop :: "'s syscalls \<Rightarrow> int \<Rightarrow> 's \<Rightarrow> (int \<times> 's) option" where
  "accept_loop sc fd s =
     (case sc_accept sc fd s of
        (Inl err, s) \<Rightarrow>
          if err = ENFILE \<or> err = EAGAIN \<or> err = EMFILE
          then accept_loop sc fd (snd (sc_wait_fd sc fd LT_EV_READ s))
          else if err = ECONNABORTED then accept_loop sc fd s
          else Some (- 1, s)
      | (Inr ret, s) \<Rightarrow> if ret = 0 then accept_loop sc fd s else Some (int ret, s))"

declare accept_loop.simps [code]

definition lthread_accept :: "'s syscalls \<Rightarrow> int \<Rightarrow> 's \<Rightarrow> (int \<times> 's) option" where
  "lthread_accept sc fd s =
     (case accept_loop sc fd s of
        None \<Rightarrow> None
      | Some (ret, s) \<Rightarrow>
          if ret = - 1 then Some (- 1, s)
          else (let (res, s) = lthread_unblock_fd sc ret s
                in Some (if res = - 1 then - 1 else ret, s)))"

definition lthread_close :: "'s syscalls \<Rightarrow> int \<Rightarrow> 's \<Rightarrow> int \<times> 's" where
  "lthread_close sc fd s = (let (a, s) = sc_close sc fd s in (status a, s))"

definition lthread_socket :: "'s syscalls \<Rightarrow> int \<Rightarrow> int \<Rightarrow> int \<Rightarrow> 's \<Rightarrow> int \<times> 's" where
  "lthread_socket sc domain type protocol s =
     (case sc_socket sc domain type protocol s of
        (Inl _, s) \<Rightarrow> (- 1, s)
      | (Inr fd, s) \<Rightarrow>
          (case lthread_unblock_fd sc (int fd) s of
             (res, s) \<Rightarrow>
               if res = - 1 then (- 1, s)
               else (case sc_setsockopt sc (int fd) s of
                       (Inl _, s) \<Rightarrow> (- 1, snd (sc_close sc (int fd) s))
                     | (Inr _, s) \<Rightarrow> (int fd, s))))"

text \<open>\<open>lthread_pipe\<close>: the return code and the two descriptors.\<close>

definition lthread_pipe :: "'s syscalls \<Rightarrow> 's \<Rightarrow> (int \<times> (nat \<times> nat) option) \<times> 's" where
  "lthread_pipe sc s =
     (let err = (\<lambda>fd0 fd1 ret s.
            (let (_, s) = sc_close sc (int fd0) s; (_, s) = sc_close sc (int fd1) s in ((ret, Some (fd0, fd1)), s)))
      in case sc_pipe sc s of
        (Inl _, s) \<Rightarrow> ((- 1, None), s)
      | (Inr (fd0, fd1), s) \<Rightarrow>
          (case sc_fcntl sc (int fd0) s of
             (a, s) \<Rightarrow>
               if status a \<noteq> 0 then err fd0 fd1 (status a) s
               else (case sc_fcntl sc (int fd1) s of
                       (a, s) \<Rightarrow>
                         if status a \<noteq> 0 then err fd0 fd1 (status a) s
                         else ((0, Some (fd0, fd1)), s))))"

partial_function (option) lthread_connect :: "'s syscalls \<Rightarrow> int \<Rightarrow> addr \<Rightarrow> 's \<Rightarrow> (int \<times> 's) option" where
  "lthread_connect sc fd name s =
     (case sc_connect sc fd name s of
        (Inr _, s) \<Rightarrow> Some (0, s)
      | (Inl err, s) \<Rightarrow>
          if err = EAGAIN \<or> err = EINPROGRESS
          then lthread_connect sc fd name (snd (sc_wait_fd sc fd LT_EV_WRITE s))
          else Some (- 1, s))"

declare lthread_connect.simps [code]

subsection \<open>Lines\<close>

definition newline :: byte where "newline = 10"

text \<open>The loop of \<open>lthread_readline\<close>; \<open>data\<close> is what has been read, \<open>total_read\<close> its length. \<open>Inl r\<close> is the return
  with the code \<open>r\<close> and the buffer freed. \<open>data + total_read\<close> receives the first byte of the answer; an
  answer to a request of one byte has no more.\<close>

function readline_loop ::
  "'s syscalls \<Rightarrow> int \<Rightarrow> nat \<Rightarrow> u64 \<Rightarrow> byte list \<Rightarrow> 's \<Rightarrow> ((int + byte list) \<times> 's) option" where
  "readline_loop sc fd maxlen timeout data s =
     (if length data < maxlen then
        (case lthread_recv sc fd 1 0 timeout s of
           None \<Rightarrow> None
         | Some (None, s) \<Rightarrow> Some (Inl (- 1), s)
         | Some (Some [], s) \<Rightarrow> Some (Inl 0, s)
         | Some (Some (b # _), s) \<Rightarrow>
             if b = newline then Some (Inr (data @ [b]), s)
             else readline_loop sc fd maxlen timeout (data @ [b]) s)
      else Some (Inr data, s))"
  by pat_completeness auto

termination
  by (relation "measure (\<lambda>(sc, fd, maxlen, timeout, data, s). maxlen - length data)") auto

declare readline_loop.simps [simp del]

text \<open>\<open>lthread_readline\<close>: \<open>mem\<close> tells whether \<open>calloc\<close> succeeds; the second component is \<open>*buf\<close>, whose rest is zero.\<close>

definition lthread_readline ::
  "bool \<Rightarrow> 's syscalls \<Rightarrow> int \<Rightarrow> nat \<Rightarrow> u64 \<Rightarrow> 's \<Rightarrow> (int \<times> byte list option \<times> 's) option" where
  "lthread_readline mem sc fd maxlen timeout s =
     (if \<not> mem then Some (- 1, None, s)
      else (case readline_loop sc fd maxlen timeout [] s of
              None \<Rightarrow> None
            | Some (Inl r, s) \<Rightarrow> Some (r, None, s)
            | Some (Inr data, s) \<Rightarrow>
                Some (int (length data), Some (data @ replicate (maxlen + 1 - length data) 0), s)))"

subsection \<open>Vectors\<close>

text \<open>The inner loop of \<open>lthread_writev\<close>, from \<open>i = iov_index\<close> on: what is left of the vector and the new \<open>iov_index\<close>.\<close>

function writev_advance :: "nat \<Rightarrow> nat \<Rightarrow> byte list list \<Rightarrow> byte list list \<times> nat" where
  "writev_advance n iov_index iov =
     (if iov_index < length iov \<and> n > 0 then
        (if n < length (iov ! iov_index)
         then (iov[iov_index := drop n (iov ! iov_index)], iov_index)
         else writev_advance (n - length (iov ! iov_index)) (iov_index + 1) iov)
      else (iov, iov_index))"
  by pat_completeness auto

termination
  by (relation "measure (\<lambda>(n, iov_index, iov). length iov - iov_index)") auto

declare writev_advance.simps [simp del]

partial_function (option) writev_loop ::
  "'s syscalls \<Rightarrow> int \<Rightarrow> byte list list \<Rightarrow> nat \<Rightarrow> nat \<Rightarrow> 's \<Rightarrow> (int \<times> 's) option" where
  "writev_loop sc fd iov iov_index tot s =
     (case sc_writev sc fd (drop iov_index iov) s of
        (Inr n, s) \<Rightarrow>
          if n > 0 then
            (case writev_advance n iov_index iov of
               (iov, iov_index) \<Rightarrow>
                 if iov_index < length iov then writev_loop sc fd iov iov_index (tot + n) s
                 else Some (int (tot + n), s))
          else Some (0, s)
      | (Inl err, s) \<Rightarrow>
          if err = EAGAIN then
            (case sc_wait_fd sc fd LT_EV_WRITE s of
               (_, s) \<Rightarrow>
                 if iov_index < length iov then writev_loop sc fd iov iov_index tot s
                 else Some (int tot, s))
          else Some (- 1, s))"

declare writev_loop.simps [code]

definition lthread_writev :: "'s syscalls \<Rightarrow> int \<Rightarrow> byte list list \<Rightarrow> 's \<Rightarrow> (int \<times> 's) option" where
  "lthread_writev sc fd iov s = writev_loop sc fd iov 0 0 s"

subsection \<open>The loops\<close>







subsection \<open>Lines\<close>

text \<open>The calls of \<open>rcv\<close> from \<open>s\<close> on deliver the bytes \<open>bs\<close>, one by one, and lead to \<open>s'\<close>.\<close>

fun delivers :: "('s \<Rightarrow> (byte list option \<times> 's) option) \<Rightarrow> 's \<Rightarrow> byte list \<Rightarrow> 's \<Rightarrow> bool" where
  "delivers rcv s [] s' \<longleftrightarrow> s' = s"
| "delivers rcv s (b # bs) s' \<longleftrightarrow> (\<exists>s1. rcv s = Some (Some [b], s1) \<and> delivers rcv s1 bs s')"

lemma readline_loop_line:
  assumes "delivers (lthread_recv sc fd 1 0 t) s bs s'" "newline \<notin> set (butlast bs)" "length data + length bs \<le> n"
    "bs \<noteq> [] \<and> last bs = newline \<or> length data + length bs = n"
  shows "readline_loop sc fd n t data s = Some (Inr (data @ bs), s')"
  using assms
proof (induction bs arbitrary: data s)
  case Nil
  then show ?case by (simp add: readline_loop.simps)
next
  case (Cons b bs)
  from Cons.prems(1) obtain s1 where s1: "lthread_recv sc fd 1 0 t s = Some (Some [b], s1)"
    "delivers (lthread_recv sc fd 1 0 t) s1 bs s'" by auto
  show ?case
  proof (cases "b = newline")
    case True
    with Cons.prems(2) have "bs = []" by (auto split: if_splits)
    with True s1 Cons.prems(3) show ?thesis by (simp add: readline_loop.simps [of sc fd n t data])
  next
    case False
    have "newline \<notin> set (butlast bs)" using Cons.prems(2) by (auto split: if_splits)
    moreover have "bs \<noteq> [] \<and> last bs = newline \<or> length (data @ [b]) + length bs = n"
      using Cons.prems(4) False by (auto split: if_splits)
    ultimately have "readline_loop sc fd n t (data @ [b]) s1 = Some (Inr ((data @ [b]) @ bs), s')"
      using Cons.IH [OF s1(2), of "data @ [b]"] Cons.prems(3) by simp
    with False s1(1) Cons.prems(3) show ?thesis by (simp add: readline_loop.simps [of sc fd n t data])
  qed
qed

lemma readline_loop_breaks:
  assumes "delivers (lthread_recv sc fd 1 0 t) s bs s'" "newline \<notin> set bs" "length data + length bs < n"
    "lthread_recv sc fd 1 0 t s' = Some (r, s'')" "r = None \<or> r = Some []"
  shows "readline_loop sc fd n t data s = Some (Inl (if r = None then - 1 else 0), s'')"
  using assms
proof (induction bs arbitrary: data s)
  case Nil
  then show ?case by (auto simp: readline_loop.simps [of sc fd n t data])
next
  case (Cons b bs)
  from Cons.prems(1) obtain s1 where s1: "lthread_recv sc fd 1 0 t s = Some (Some [b], s1)"
    "delivers (lthread_recv sc fd 1 0 t) s1 bs s'" by auto
  have "readline_loop sc fd n t (data @ [b]) s1 = Some (Inl (if r = None then - 1 else 0), s'')"
    by (rule Cons.IH [OF s1(2) _ _ Cons.prems(4,5)]) (use Cons.prems(2,3) in simp_all)
  moreover have "b \<noteq> newline" using Cons.prems(2) by auto
  ultimately show ?case using s1(1) Cons.prems(3) by (simp add: readline_loop.simps [of sc fd n t data])
qed

subsection \<open>Vectors\<close>

lemma writev_advance_ok:
  assumes "iov_index \<le> length iov" "n \<le> length (concat (drop iov_index iov))" "iov \<noteq> [] \<Longrightarrow> last iov \<noteq> []"
    "writev_advance n iov_index iov = (iov', i')"
  shows "length iov' = length iov \<and> i' \<le> length iov' \<and> concat (drop i' iov') = drop n (concat (drop iov_index iov)) \<and>
    (iov' \<noteq> [] \<longrightarrow> last iov' \<noteq> [])"
  using assms
proof (induction n iov_index iov rule: writev_advance.induct)
  case (1 n i iov)
  show ?case
  proof (cases "i < length iov \<and> n > 0")
    case True
    then have d: "drop i iov = iov ! i # drop (Suc i) iov" by (simp add: Cons_nth_drop_Suc)
    show ?thesis
    proof (cases "n < length (iov ! i)")
      case lt: True
      with True 1(5) have e: "iov' = iov[i := drop n (iov ! i)]" "i' = i" by (auto simp: writev_advance.simps [of n i])
      have "iov \<noteq> []" using True by auto
      with e lt 1(4) have "last iov' \<noteq> []" by (auto simp: last_list_update)
      with e True d lt show ?thesis by (simp add: drop_update_cancel Cons_nth_drop_Suc [symmetric] nth_list_update)
    next
      case ge: False
      with True 1(5) have "writev_advance (n - length (iov ! i)) (i + 1) iov = (iov', i')"
        by (simp add: writev_advance.simps [of n i])
      moreover have "n - length (iov ! i) \<le> length (concat (drop (i + 1) iov))" using 1(3) d by simp
      ultimately have "length iov' = length iov \<and> i' \<le> length iov' \<and>
          concat (drop i' iov') = drop (n - length (iov ! i)) (concat (drop (i + 1) iov)) \<and> (iov' \<noteq> [] \<longrightarrow> last iov' \<noteq> [])"
        using 1(1) [OF True ge] 1(4) True by simp
      with d ge show ?thesis by simp
    qed
  next
    case False
    with 1(2-5) show ?thesis by (auto simp: writev_advance.simps [of n i])
  qed
qed

text \<open>What is documented of \<open>writev\<close>: a successful call takes some of the bytes it is offered, from the first on,
  at least one if there is one; a failing one takes none. \<open>sent\<close> is what the descriptor has got. \<open>m\<close>
  bounds how often the descriptor is found full: it decreases with every wait.\<close>

definition writev_kernel :: "'s syscalls \<Rightarrow> int \<Rightarrow> ('s \<Rightarrow> byte list) \<Rightarrow> ('s \<Rightarrow> nat) \<Rightarrow> bool" where
  "writev_kernel sc fd sent m \<longleftrightarrow> (\<forall>iov s. case sc_writev sc fd iov s of
       (Inr n, s1) \<Rightarrow> n \<le> length (concat iov) \<and> (concat iov \<noteq> [] \<longrightarrow> n > 0) \<and> sent s1 = sent s @ take n (concat iov)
     | (Inl err, s1) \<Rightarrow> sent s1 = sent s \<and> sent (snd (sc_wait_fd sc fd LT_EV_WRITE s1)) = sent s \<and>
         (err = EAGAIN \<longrightarrow> m (snd (sc_wait_fd sc fd LT_EV_WRITE s1)) < m s))"

lemma writev_kernelD:
  assumes "writev_kernel sc fd sent m"
  shows "sc_writev sc fd iov s = (Inr n, s1) \<Longrightarrow>
      n \<le> length (concat iov) \<and> (concat iov \<noteq> [] \<longrightarrow> n > 0) \<and> sent s1 = sent s @ take n (concat iov)"
    and "sc_writev sc fd iov s = (Inl err, s1) \<Longrightarrow> sent s1 = sent s \<and> sent (snd (sc_wait_fd sc fd LT_EV_WRITE s1)) = sent s \<and>
      (err = EAGAIN \<longrightarrow> m (snd (sc_wait_fd sc fd LT_EV_WRITE s1)) < m s)"
proof -
  show "sc_writev sc fd iov s = (Inr n, s1) \<Longrightarrow>
      n \<le> length (concat iov) \<and> (concat iov \<noteq> [] \<longrightarrow> n > 0) \<and> sent s1 = sent s @ take n (concat iov)"
    using assms unfolding writev_kernel_def by (elim allE [of _ iov] allE [of _ s]) simp
  show "sc_writev sc fd iov s = (Inl err, s1) \<Longrightarrow> sent s1 = sent s \<and> sent (snd (sc_wait_fd sc fd LT_EV_WRITE s1)) = sent s \<and>
      (err = EAGAIN \<longrightarrow> m (snd (sc_wait_fd sc fd LT_EV_WRITE s1)) < m s)"
    using assms unfolding writev_kernel_def by (elim allE [of _ iov] allE [of _ s]) simp
qed

definition writev_outcome :: "('s \<Rightarrow> byte list) \<Rightarrow> nat \<Rightarrow> byte list \<Rightarrow> 's \<Rightarrow> (int \<times> 's) option \<Rightarrow> bool" where
  "writev_outcome sent tot bytes s res \<longleftrightarrow> (\<exists>r s'. res = Some (r, s') \<and>
     (r = int (tot + length bytes) \<and> sent s' = sent s @ bytes \<or> r = - 1 \<and> (\<exists>k. sent s' = sent s @ take k bytes)))"

lemma writev_outcome_step:
  assumes "writev_outcome sent (tot + n) (drop n bytes) s1 res" "n \<le> length bytes" "sent s1 = sent s @ take n bytes"
  shows "writev_outcome sent tot bytes s res"
proof -
  obtain r s' where r: "res = Some (r, s')" and o: "r = int (tot + n + length (drop n bytes)) \<and> sent s' = sent s1 @ drop n bytes \<or>
     r = - 1 \<and> (\<exists>k. sent s' = sent s1 @ take k (drop n bytes))"
    using assms(1) by (auto simp: writev_outcome_def)
  from o show ?thesis
  proof
    assume "r = int (tot + n + length (drop n bytes)) \<and> sent s' = sent s1 @ drop n bytes"
    with r assms(2,3) show ?thesis by (simp add: writev_outcome_def)
  next
    assume "r = - 1 \<and> (\<exists>k. sent s' = sent s1 @ take k (drop n bytes))"
    then obtain k where "r = - 1" "sent s' = sent s @ take (n + k) bytes" using assms(3) by (auto simp: take_add)
    with r show ?thesis unfolding writev_outcome_def by blast
  qed
qed

lemma concat_drop_nonempty:
  assumes "i < length iov" "last iov \<noteq> []"
  shows "concat (drop i iov) \<noteq> []"
proof -
  have "last iov \<in> set (drop i iov)" using assms(1) by (metis drop_eq_Nil2 last_drop last_in_set not_le)
  with assms(2) show ?thesis by auto
qed

lemma writev_loop_ok:
  assumes K: "writev_kernel sc fd sent m"
  shows "i < length iov \<Longrightarrow> last iov \<noteq> [] \<Longrightarrow> length (concat (drop i iov)) = N \<Longrightarrow> m s = M \<Longrightarrow>
    writev_outcome sent tot (concat (drop i iov)) s (writev_loop sc fd iov i tot s)"
proof (induction N arbitrary: iov i tot s M rule: less_induct)
  case (less N)
  note outer = less.IH
  from less.prems show ?case
  proof (induction M arbitrary: s rule: less_induct)
    case (less M)
    let ?B = "concat (drop i iov)"
    show ?case
    proof (cases "sc_writev sc fd (drop i iov) s")
      case (Pair a s1)
      show ?thesis
      proof (cases a)
        case (Inr n)
        with Pair have w: "sc_writev sc fd (drop i iov) s = (Inr n, s1)" by simp
        have n: "n \<le> length ?B" "n > 0" "sent s1 = sent s @ take n ?B"
          using writev_kernelD(1) [OF K w] concat_drop_nonempty [OF less.prems(1,2)] by auto
        obtain iov' i' where adv: "writev_advance n i iov = (iov', i')" by fastforce
        have adv': "length iov' = length iov" "i' \<le> length iov'" "concat (drop i' iov') = drop n ?B" "iov' \<noteq> [] \<Longrightarrow> last iov' \<noteq> []"
          using writev_advance_ok [OF _ n(1) _ adv] less.prems(1,2) by auto
        have res: "writev_loop sc fd iov i tot s =
            (if i' < length iov' then writev_loop sc fd iov' i' (tot + n) s1 else Some (int (tot + n), s1))"
          by (subst writev_loop.simps) (simp add: w n(2) adv)
        have "writev_outcome sent (tot + n) (drop n ?B) s1 (writev_loop sc fd iov i tot s)"
        proof (cases "i' < length iov'")
          case True
          then have "iov' \<noteq> []" by auto
          then have "last iov' \<noteq> []" by (rule adv'(4))
          have "length (drop n ?B) < N" using n(1,2) less.prems(3) by simp
          from outer [OF this True \<open>last iov' \<noteq> []\<close> _ refl] adv'(3) res True show ?thesis by simp
        next
          case False
          with adv'(2,3) have "drop n ?B = []" by simp
          with False res show ?thesis by (simp add: writev_outcome_def)
        qed
        from writev_outcome_step [OF this n(1,3)] show ?thesis .
      next
        case (Inl err)
        with Pair have w: "sc_writev sc fd (drop i iov) s = (Inl err, s1)" by simp
        let ?s2 = "snd (sc_wait_fd sc fd LT_EV_WRITE s1)"
        have k: "sent s1 = sent s" "sent ?s2 = sent s" "err = EAGAIN \<Longrightarrow> m ?s2 < m s"
          using writev_kernelD(2) [OF K w] by auto
        show ?thesis
        proof (cases "err = EAGAIN")
          case True
          have "writev_loop sc fd iov i tot s = writev_loop sc fd iov i tot ?s2"
            by (subst writev_loop.simps) (simp add: w True less.prems(1) split: prod.split)
          moreover have "writev_outcome sent tot ?B ?s2 (writev_loop sc fd iov i tot ?s2)"
            by (rule less.IH [OF _ less.prems(1-3) refl]) (use k(3) True less.prems(4) in simp)
          ultimately show ?thesis by (simp add: writev_outcome_def k(2))
        next
          case False
          then have "writev_loop sc fd iov i tot s = Some (- 1, s1)" by (subst writev_loop.simps) (simp add: w)
          moreover have "sent s1 = sent s @ take 0 ?B" by (simp add: k(1))
          ultimately show ?thesis unfolding writev_outcome_def by blast
        qed
      qed
    qed
  qed
qed

lemma writev_advance_all:
  assumes "n = length (concat iov)" "n > 0" "last iov \<noteq> []"
  shows "writev_advance n (length zs) (zs @ iov @ es) = (zs @ iov @ es, length (zs @ iov))"
  using assms
proof (induction iov arbitrary: n zs)
  case (Cons x iov)
  have step: "writev_advance n (length zs) (zs @ (x # iov) @ es) =
      writev_advance (n - length x) (Suc (length zs)) (zs @ (x # iov) @ es)"
    using Cons.prems(1,2) by (simp add: writev_advance.simps [of "length x + length (concat iov)" "length zs"])
  show ?case
  proof (cases "iov = []")
    case True
    with Cons.prems(1) step show ?thesis by (simp add: writev_advance.simps [of 0])
  next
    case False
    then have "last iov \<noteq> []" using Cons.prems(3) by simp
    moreover from False this have "concat iov \<noteq> []" by (metis concat_eq_Nil_conv last_in_set)
    ultimately show ?thesis
      using Cons.IH [of "length (concat iov)" "zs @ [x]"] step Cons.prems(1) by simp
  qed
qed simp

subsection \<open>Properties\<close>

text \<open>A small system for the instances below: what \<open>recv\<close> is going to answer, how much room \<open>writev\<close> finds (0: none),
  what has been written, the open descriptors and whether \<open>fcntl\<close> fails.\<close>

record kstate =
  k_in   :: "byte list answer list"
  k_room :: "nat list"
  k_sent :: "byte list"
  k_open :: "int set"
  k_fail :: bool

definition k_take :: "kstate \<Rightarrow> byte list answer \<times> kstate" where
  "k_take k = (case k_in k of [] \<Rightarrow> (Inr [], k) | a # as \<Rightarrow> (a, k\<lparr>k_in := as\<rparr>))"

definition k_put :: "byte list \<Rightarrow> kstate \<Rightarrow> nat answer \<times> kstate" where
  "k_put bs k =
     (case k_room k of
        [] \<Rightarrow> (Inr (length bs), k\<lparr>k_sent := k_sent k @ bs\<rparr>)
      | 0 # r \<Rightarrow> (Inl EAGAIN, k\<lparr>k_room := r\<rparr>)
      | n # r \<Rightarrow> (Inr (min n (length bs)), k\<lparr>k_room := r, k_sent := k_sent k @ take n bs\<rparr>))"

definition k_new :: "kstate \<Rightarrow> nat answer \<times> kstate" where
  "k_new k = (if 7 \<in> k_open k then (Inl EMFILE, k) else (Inr 7, k\<lparr>k_open := insert 7 (k_open k)\<rparr>))"

definition small_sys :: "kstate syscalls" where
  "small_sys = \<lparr>sc_wait_fd = (\<lambda>_ _ k. (0, k)), sc_recv = (\<lambda>_ _ _. k_take), sc_read = (\<lambda>_ _. k_take),
     sc_recvmsg = (\<lambda>_ _. k_take), sc_recvfrom = (\<lambda>_ _ _. k_take), sc_sendmsg = (\<lambda>_ bs _. k_put bs),
     sc_sendto = (\<lambda>_ bs _ _. k_put bs), sc_writev = (\<lambda>_ iov. k_put (concat iov)), sc_accept = (\<lambda>_. k_new),
     sc_connect = (\<lambda>_ _ k. (Inr (), k)), sc_socket = (\<lambda>_ _ _. k_new), sc_setsockopt = (\<lambda>_ k. (Inr (), k)),
     sc_fcntl = (\<lambda>_ k. (if k_fail k then Inl (Other_error 0) else Inr (), k)),
     sc_pipe = (\<lambda>k. if {8, 9} \<inter> k_open k = {} then (Inr (8, 9), k\<lparr>k_open := k_open k \<union> {8, 9}\<rparr>) else (Inl EMFILE, k)),
     sc_close = (\<lambda>fd k. (Inr (), k\<lparr>k_open := k_open k - {fd}\<rparr>))\<rparr>"

definition k0 :: kstate where
  "k0 = \<lparr>k_in = [], k_room = [], k_sent = [], k_open = {}, k_fail = False\<rparr>"



lemma small_recv:
  "lthread_recv small_sys fd n flags t (k\<lparr>k_in := Inr bs # as\<rparr>) = Some (Some bs, k\<lparr>k_in := as\<rparr>)"
  "lthread_recv small_sys fd n flags t (k\<lparr>k_in := Inl EAGAIN # as\<rparr>) = lthread_recv small_sys fd n flags t (k\<lparr>k_in := as\<rparr>)"
  "lthread_recv small_sys fd n flags t (k\<lparr>k_in := []\<rparr>) = Some (Some [], k\<lparr>k_in := []\<rparr>)"
  unfolding lthread_recv_def LTHREAD_RECV_def by (subst io_loop.simps, simp add: small_sys_def k_take_def)+

text \<open>(C38) \<open>lthread_readline\<close> on received bytes that end with a newline, or that fill \<open>max\<close> without one: it returns their
  number, the buffer holds them with zeros behind, and nothing after the line has been read.\<close>

theorem lthread_readline_reads_line:
  assumes "delivers (lthread_recv sc fd 1 0 timeout) s bs s'" "newline \<notin> set (butlast bs)" "length bs \<le> maxlen"
    "bs \<noteq> [] \<and> last bs = newline \<or> length bs = maxlen"
  shows "lthread_readline True sc fd maxlen timeout s =
    Some (int (length bs), Some (bs @ replicate (maxlen + 1 - length bs) 0), s')"
  using readline_loop_line [of sc fd timeout s bs s' "[]" maxlen] assms by (simp add: lthread_readline_def)

theorem lthread_readline_reads_line_witness:
  "lthread_readline True small_sys 3 5 0 (k0\<lparr>k_in := [Inr [104], Inl EAGAIN, Inr [10], Inr [99]]\<rparr>) =
     Some (2, Some [104, 10, 0, 0, 0, 0], k0\<lparr>k_in := [Inr [99]]\<rparr>)"
proof -
  have "delivers (lthread_recv small_sys 3 1 0 0) (k0\<lparr>k_in := [Inr [104], Inl EAGAIN, Inr [10], Inr [99]]\<rparr>) [104, 10]
      (k0\<lparr>k_in := [Inr [99]]\<rparr>)"
    by (simp add: small_recv)
  moreover have "replicate 4 (0 :: byte) = [0, 0, 0, 0]" by (simp add: eval_nat_numeral)
  ultimately show ?thesis
    using lthread_readline_reads_line [of small_sys 3 0 _ "[104, 10]" "k0\<lparr>k_in := [Inr [99]]\<rparr>" 5] by (simp add: newline_def)
qed

text \<open>When the peer closes or an error occurs inside a line, \<open>lthread_readline\<close> returns 0 or -1 without a buffer: the
  bytes of the line that were received already are lost.\<close>

theorem lthread_readline_drops_partial_line:
  assumes "delivers (lthread_recv sc fd 1 0 timeout) s bs s'" "newline \<notin> set bs" "length bs < maxlen"
    "lthread_recv sc fd 1 0 timeout s' = Some (r, s'')" "r = None \<or> r = Some []"
  shows "lthread_readline True sc fd maxlen timeout s = Some (if r = None then - 1 else 0, None, s'')"
  using readline_loop_breaks [of sc fd timeout s bs s' "[]" maxlen r s''] assms by (simp add: lthread_readline_def)

theorem lthread_readline_drops_partial_line_witness:
  "lthread_readline True small_sys 3 5 0 (k0\<lparr>k_in := [Inr [104], Inr [105]]\<rparr>) = Some (0, None, k0\<lparr>k_in := []\<rparr>)"
proof -
  have "delivers (lthread_recv small_sys 3 1 0 0) (k0\<lparr>k_in := [Inr [104], Inr [105]]\<rparr>) [104, 105] (k0\<lparr>k_in := []\<rparr>)"
    by (simp add: small_recv)
  from lthread_readline_drops_partial_line [OF this, of 5 "Some []"] show ?thesis by (simp add: newline_def small_recv)
qed

text \<open>(C18) \<open>lthread_writev\<close> on a vector whose last part is not empty, with a system that takes a part of the bytes at a
  time and is not full for ever: it returns, and either it returns the number of all bytes and they have
  been written once and in order, or it returns -1 and a prefix of them has been written.\<close>

theorem lthread_writev_writes_all:
  assumes "writev_kernel sc fd sent m" "iov \<noteq> []" "last iov \<noteq> []"
  shows "\<exists>r s'. lthread_writev sc fd iov s = Some (r, s') \<and>
    (r = int (length (concat iov)) \<and> sent s' = sent s @ concat iov \<or> r = - 1 \<and> (\<exists>k. sent s' = sent s @ take k (concat iov)))"
  using writev_loop_ok [OF assms(1), of 0 iov "length (concat iov)" s "m s" 0] assms(2,3)
  by (simp add: lthread_writev_def writev_outcome_def)

lemma small_writev_kernel: "writev_kernel small_sys fd k_sent (\<lambda>k. length (k_room k))"
  by (auto simp: writev_kernel_def small_sys_def k_put_def min_def split: list.split nat.split)

theorem lthread_writev_writes_all_witness:
  "\<exists>r s'. lthread_writev small_sys 3 [[1], [], [2, 3]] (k0\<lparr>k_room := [2, 0]\<rparr>) = Some (r, s') \<and>
    (r = 3 \<and> k_sent s' = [1, 2, 3] \<or> r = - 1)"
  using lthread_writev_writes_all [OF small_writev_kernel, of "[[1], [], [2, 3]]" 3 "k0\<lparr>k_room := [2, 0]\<rparr>"]
  by (auto simp: k0_def)

text \<open>With empty parts at the end of the vector, \<open>lthread_writev\<close> does not stop when everything is written: it calls
  \<open>writev\<close> once more, for nothing, and returns the 0 of that call instead of the number of bytes.\<close>

theorem lthread_writev_trailing_empty:
  assumes "sc_writev sc fd (iov @ [[]]) s = (Inr (length (concat iov)), s1)" "iov \<noteq> []" "last iov \<noteq> []"
    "sc_writev sc fd [[]] s1 = (Inr 0, s2)"
  shows "lthread_writev sc fd (iov @ [[]]) s = Some (0, s2)"
proof -
  have "length (concat iov) > 0" using concat_drop_nonempty [of 0 iov] assms(2,3) by simp
  then have "lthread_writev sc fd (iov @ [[]]) s = writev_loop sc fd (iov @ [[]]) (length iov) (length (concat iov)) s1"
    unfolding lthread_writev_def using writev_advance_all [OF refl _ assms(3), of "[]" "[[]]"] assms(1)
    by (subst writev_loop.simps) simp
  also have "\<dots> = Some (0, s2)" by (subst writev_loop.simps) (simp add: assms(4))
  finally show ?thesis .
qed

theorem lthread_writev_trailing_empty_witness:
  "lthread_writev small_sys 3 [[1, 2], []] k0 = Some (0, k0\<lparr>k_sent := [1, 2]\<rparr>)"
  using lthread_writev_trailing_empty [of small_sys 3 "[[1, 2]]" k0 "k0\<lparr>k_sent := [1, 2]\<rparr>" "k0\<lparr>k_sent := [1, 2]\<rparr>"]
  by (simp add: small_sys_def k_put_def k0_def)

text \<open>What is documented of the calls that make and close descriptors; \<open>opened\<close> are the open ones.\<close>

definition fd_kernel :: "'s syscalls \<Rightarrow> ('s \<Rightarrow> int set) \<Rightarrow> bool" where
  "fd_kernel sc opened \<longleftrightarrow>
     (\<forall>fd s. opened (snd (sc_close sc fd s)) = opened s - {fd} \<and> opened (snd (sc_fcntl sc fd s)) = opened s \<and>
        opened (snd (sc_setsockopt sc fd s)) = opened s) \<and>
     (\<forall>d t p s. case sc_socket sc d t p s of
        (Inr fd, s1) \<Rightarrow> int fd \<notin> opened s \<and> opened s1 = insert (int fd) (opened s) | (Inl _, s1) \<Rightarrow> opened s1 = opened s) \<and>
     (\<forall>s. case sc_pipe sc s of
        (Inr (a, b), s1) \<Rightarrow> int a \<notin> opened s \<and> int b \<notin> opened s \<and> opened s1 = opened s \<union> {int a, int b}
      | (Inl _, s1) \<Rightarrow> opened s1 = opened s)"

lemma fd_kernelD:
  assumes "fd_kernel sc opened"
  shows "sc_close sc fd s = (a, s1) \<Longrightarrow> opened s1 = opened s - {fd}" "sc_fcntl sc fd s = (a, s1) \<Longrightarrow> opened s1 = opened s"
    "sc_setsockopt sc fd s = (a, s1) \<Longrightarrow> opened s1 = opened s"
    "sc_socket sc d t p s = (Inr f, s1) \<Longrightarrow> int f \<notin> opened s \<and> opened s1 = insert (int f) (opened s)"
    "sc_socket sc d t p s = (Inl e, s1) \<Longrightarrow> opened s1 = opened s"
    "sc_pipe sc s = (Inr (b, c), s1) \<Longrightarrow> int b \<notin> opened s \<and> int c \<notin> opened s \<and> opened s1 = opened s \<union> {int b, int c}"
    "sc_pipe sc s = (Inl e, s1) \<Longrightarrow> opened s1 = opened s"
proof -
  note k = assms [unfolded fd_kernel_def]
  have "opened (snd (sc_close sc fd s)) = opened s - {fd}" "opened (snd (sc_fcntl sc fd s)) = opened s"
    "opened (snd (sc_setsockopt sc fd s)) = opened s"
    using conjunct1 [OF k] by simp_all
  then show "sc_close sc fd s = (a, s1) \<Longrightarrow> opened s1 = opened s - {fd}" "sc_fcntl sc fd s = (a, s1) \<Longrightarrow> opened s1 = opened s"
    "sc_setsockopt sc fd s = (a, s1) \<Longrightarrow> opened s1 = opened s" by simp_all
  note sock = conjunct1 [OF conjunct2 [OF k], THEN spec, of d, THEN spec, of t, THEN spec, of p, THEN spec, of s]
  show "sc_socket sc d t p s = (Inr f, s1) \<Longrightarrow> int f \<notin> opened s \<and> opened s1 = insert (int f) (opened s)"
    "sc_socket sc d t p s = (Inl e, s1) \<Longrightarrow> opened s1 = opened s" using sock by simp_all
  note pipe = conjunct2 [OF conjunct2 [OF k], THEN spec, of s]
  show "sc_pipe sc s = (Inr (b, c), s1) \<Longrightarrow> int b \<notin> opened s \<and> int c \<notin> opened s \<and> opened s1 = opened s \<union> {int b, int c}"
    "sc_pipe sc s = (Inl e, s1) \<Longrightarrow> opened s1 = opened s" using pipe by simp_all
qed

lemma unblock_fd_opened:
  assumes "fd_kernel sc opened" "lthread_unblock_fd sc fd s = (r, s')"
  shows "r = 0 \<and> opened s' = opened s \<or> r = - 1 \<and> opened s' = opened s - {fd}"
  using assms(2) fd_kernelD(1,2) [OF assms(1)]
  by (auto simp: lthread_unblock_fd_def status_def Let_def split: prod.splits sum.splits if_splits)

lemma socket_opened:
  assumes "fd_kernel sc opened"
  shows "case lthread_socket sc d t p s of (r, s') \<Rightarrow>
      (if r = - 1 then opened s' = opened s else r \<notin> opened s \<and> opened s' = insert r (opened s))"
proof -
  note k = fd_kernelD [OF assms]
  obtain a s1 where 1: "sc_socket sc d t p s = (a, s1)" by fastforce
  show ?thesis
  proof (cases a)
    case (Inl e)
    with 1 k(5) show ?thesis by (simp add: lthread_socket_def)
  next
    case (Inr fd)
    with 1 have fd: "int fd \<notin> opened s" "opened s1 = insert (int fd) (opened s)" using k(4) by simp_all
    obtain r s2 where 2: "lthread_unblock_fd sc (int fd) s1 = (r, s2)" by fastforce
    obtain a3 s3 where 3: "sc_setsockopt sc (int fd) s2 = (a3, s3)" by fastforce
    obtain a4 s4 where 4: "sc_close sc (int fd) s3 = (a4, s4)" by fastforce
    from unblock_fd_opened [OF assms 2] show ?thesis
      using 1 2 3 4 Inr fd k(1) [OF 4] k(3) [OF 3] by (auto simp: lthread_socket_def split: sum.split)
  qed
qed

lemma pipe_opened:
  assumes "fd_kernel sc opened"
  shows "case lthread_pipe sc s of ((r, fds), s') \<Rightarrow>
      (if r = 0 then \<exists>a b. fds = Some (a, b) \<and> opened s' = opened s \<union> {int a, int b} else opened s' = opened s)"
proof -
  note k = fd_kernelD [OF assms]
  obtain a s1 where 1: "sc_pipe sc s = (a, s1)" by fastforce
  show ?thesis
  proof (cases a)
    case (Inl e)
    with 1 k(7) show ?thesis by (simp add: lthread_pipe_def)
  next
    case (Inr fds)
    obtain b c where bc: "fds = (b, c)" by (cases fds)
    with 1 Inr have fd: "int b \<notin> opened s" "int c \<notin> opened s" "opened s1 = opened s \<union> {int b, int c}" using k(6) by simp_all
    obtain a2 s2 where 2: "sc_fcntl sc (int b) s1 = (a2, s2)" by fastforce
    obtain a3 s3 where 3: "sc_fcntl sc (int c) s2 = (a3, s3)" by fastforce
    have close: "\<exists>a4 s4 a5 s5. sc_close sc (int b) z = (a4, s4) \<and> sc_close sc (int c) s4 = (a5, s5) \<and> opened s5 = opened s"
      if "opened z = opened s \<union> {int b, int c}" for z
    proof -
      obtain a4 s4 where 4: "sc_close sc (int b) z = (a4, s4)" by fastforce
      obtain a5 s5 where 5: "sc_close sc (int c) s4 = (a5, s5)" by fastforce
      show ?thesis using k(1) [OF 4] k(1) [OF 5] 4 5 that fd(1,2) by auto
    qed
    show ?thesis
      using 1 2 3 Inr bc fd(3) close [of s2] close [of s3] k(2) [OF 2] k(2) [OF 3]
      by (auto simp: lthread_pipe_def Let_def status_def split: sum.split)
  qed
qed

text \<open>No call that makes descriptors leaks one when it fails: \<open>lthread_socket\<close> either returns a descriptor and exactly that
  one is new, or returns -1 and the open descriptors are the same as before; \<open>lthread_pipe\<close> likewise with
  its two descriptors, whichever of its two \<open>fcntl\<close> fails.\<close>

theorem lthread_socket_pipe_no_leak:
  assumes "fd_kernel sc opened"
  shows "(case lthread_socket sc d t p s of (r, s') \<Rightarrow>
      (if r = - 1 then opened s' = opened s else r \<notin> opened s \<and> opened s' = insert r (opened s))) \<and>
    (case lthread_pipe sc s of ((r, fds), s') \<Rightarrow>
      (if r = 0 then \<exists>a b. fds = Some (a, b) \<and> opened s' = opened s \<union> {int a, int b} else opened s' = opened s))"
  by (simp add: socket_opened [OF assms] pipe_opened [OF assms])

theorem lthread_socket_pipe_no_leak_witness:
  "(case lthread_pipe small_sys (k0\<lparr>k_fail := True\<rparr>) of ((r, fds), s') \<Rightarrow> r = - 1 \<and> k_open s' = {})"
proof -
  have "fd_kernel small_sys k_open" by (auto simp: fd_kernel_def small_sys_def k_new_def)
  from lthread_socket_pipe_no_leak [OF this, where d = 0 and t = 0 and p = 0 and s = "k0\<lparr>k_fail := True\<rparr>"] show ?thesis
    by (simp add: lthread_pipe_def small_sys_def k0_def status_def)
qed

end
