(* ===== verification/Machine.thy ===== *)
theory Machine
  imports Prelude
begin

section \<open>Machine words, memory cells and addresses\<close>

text \<open>
  What the processor models share. A register and a memory cell hold a \<open>'w word\<close> of the width of
  the machine, 32 or 64; the memory is a function from the addresses of naturally aligned cells to
  their contents. The lemmas compute with addresses at a constant distance from a base.
\<close>

named_theorems addr_simps \<open>addresses at a constant distance from a base\<close>

subsection \<open>Cells and addresses\<close>

definition cell_bytes :: "'w::len word \<Rightarrow> nat" where
  "cell_bytes a = LENGTH('w) div 8"

definition cell_off :: "'w::len word \<Rightarrow> nat" where
  "cell_off a = unat a mod cell_bytes a"

definition aligned :: "'w::len word \<Rightarrow> bool" where
  "aligned a \<longleftrightarrow> cell_off a = 0"

text \<open>The \<open>n\<close> bits of a cell from bit \<open>k\<close> on.\<close>

definition get_bits :: "nat \<Rightarrow> nat \<Rightarrow> 'w::len word \<Rightarrow> 'v::len word" where
  "get_bits n k c = ucast (take_bit n (drop_bit k c))"

definition put_bits :: "nat \<Rightarrow> nat \<Rightarrow> 'v::len word \<Rightarrow> 'w::len word \<Rightarrow> 'w word" where
  "put_bits n k v c = (c AND NOT (push_bit k (mask n))) OR push_bit k (take_bit n (ucast v))"

lemma get_put_bits:
  assumes "n = LENGTH('v)" "k + n \<le> LENGTH('w)"
  shows "(get_bits n k (put_bits n k (v :: 'v::len word) (c :: 'w::len word)) :: 'v word) = v"
  using assms by (intro bit_eqI) (auto simp: get_bits_def put_bits_def bit_simps)

lemma get_put_bits_other:
  assumes "k + n \<le> j \<or> j + l \<le> k"
  shows "(get_bits l j (put_bits n k (v :: 'v::len word) (c :: 'w::len word)) :: 'u::len word) = get_bits l j c"
  using assms
  by (intro bit_eqI) (auto simp: get_bits_def put_bits_def bit_simps dest: bit_imp_le_length)

text \<open>Where control goes when it leaves a routine: an address, or a function of another module.\<close>

datatype 'a target = Goto 'a | External string

lemma bind_weak_cong: "m = m' \<Longrightarrow> Option.bind m f = Option.bind m' f"
  by simp

subsection \<open>Addresses\<close>

lemma cell_bytes_simps [addr_simps]:
  "cell_bytes (a :: 64 word) = 8" "cell_bytes (b :: 32 word) = 4"
  by (simp_all add: cell_bytes_def)

lemma cell_off_add:
  assumes "aligned a" "cell_bytes a dvd 2 ^ LENGTH('w)"
  shows "cell_off (a + b :: 'w::len word) = cell_off b"
proof -
  let ?n = "LENGTH('w) div 8"
  have "(unat a + unat b) mod 2 ^ LENGTH('w) mod ?n = (unat a + unat b) mod ?n"
    using assms(2) by (simp add: mod_mod_cancel cell_bytes_def)
  also have "\<dots> = (unat a mod ?n + unat b) mod ?n" by presburger
  finally show ?thesis
    using assms(1) by (simp add: aligned_def cell_off_def cell_bytes_def unat_word_ariths)
qed

lemma cell_off_numeral [addr_simps]:
  fixes a :: "'w::len word"
  assumes "aligned a" "cell_bytes a dvd 2 ^ LENGTH('w)"
  shows "cell_off (a + numeral n) = unat (numeral n :: 'w word) mod cell_bytes a"
    "cell_off (a - numeral n) = unat (- numeral n :: 'w word) mod cell_bytes a"
    "aligned (a + numeral n) \<longleftrightarrow> unat (numeral n :: 'w word) mod cell_bytes a = 0"
    "aligned (a - numeral n) \<longleftrightarrow> unat (- numeral n :: 'w word) mod cell_bytes a = 0"
    "cell_off a = 0"
  using cell_off_add [OF assms, of "numeral n"] cell_off_add [OF assms, of "- numeral n"] assms(1)
  by (simp_all add: aligned_def cell_off_def cell_bytes_def)

lemma addr_arith [addr_simps]:
  fixes a :: "'w::len word"
  shows "a + numeral m + numeral n = a + (numeral m + numeral n)"
    "a - numeral m - numeral n = a - (numeral m + numeral n)"
    "a - numeral m + numeral n = a - (numeral m - numeral n)"
    "a + numeral m - numeral n = a + (numeral m - numeral n)"
    "a + - numeral n = a - numeral n"
  by (simp_all only: add.assoc diff_diff_eq diff_diff_eq2 add_diff_eq diff_add_eq add_uminus_conv_diff)

lemma addr_eq [addr_simps]:
  fixes a :: "'w::len word"
  shows "a - numeral m = a - numeral n \<longleftrightarrow> (numeral m = (numeral n :: 'w word))"
    "a - numeral m = a \<longleftrightarrow> (numeral m = (0 :: 'w word))"
    "a = a - numeral m \<longleftrightarrow> (numeral m = (0 :: 'w word))"
    "a - numeral m = a + numeral n \<longleftrightarrow> (- numeral m = (numeral n :: 'w word))"
    "a + numeral n = a - numeral m \<longleftrightarrow> (numeral n = (- numeral m :: 'w word))"
  using add_left_cancel [of a "- numeral m" "numeral n"] add_left_cancel [of a "numeral n" "- numeral m"]
  by auto

lemma unat_mod_16_add:
  assumes "unat (a :: u64) mod 16 = 0" shows "unat (a + b) mod 16 = unat b mod 16"
proof -
  have "(unat a + unat b) mod 2 ^ 64 mod 16 = (unat a + unat b) mod 16"
    by (simp add: mod_mod_cancel)
  also have "\<dots> = (unat a mod 16 + unat b) mod 16" by presburger
  finally show ?thesis using assms by (simp add: unat_word_ariths)
qed

text \<open>Rounding an address down to a multiple of 16.\<close>

lemma unat_and_minus_16: "unat (a AND - 16 :: 'w::len word) mod 16 = 0"
proof -
  have "take_bit 4 (a AND - 16) = take_bit 4 a AND take_bit 4 (- 16 :: 'w word)"
    by (simp add: take_bit_and)
  also have "take_bit 4 (- 16 :: 'w word) = 0"
    using take_bit_push_bit [of 4 4 "- 1 :: 'w word"] by (simp add: push_bit_eq_mult)
  finally have "take_bit 4 (unat (a AND - 16)) = 0"
    by (metis and_zero_eq unsigned_0 unsigned_take_bit_eq)
  then show ?thesis by (simp add: take_bit_eq_mod)
qed

lemma aligned_and_minus_16 [addr_simps]:
  "aligned (a AND - 16 :: 64 word)" "aligned (b AND - 16 :: 32 word)"
  using unat_and_minus_16 [of a] unat_and_minus_16 [of b]
  by (auto simp: aligned_def cell_off_def cell_bytes_def elim!: dvd_trans [rotated] simp flip: dvd_eq_mod_eq_0)

text \<open>
  Two cells with different bases are told apart by a hypothesis, kept as it is stated: rewriting
  would move the constants of an inequality of addresses from one side to the other.
\<close>

definition apart :: "'a \<Rightarrow> 'a \<Rightarrow> bool" where
  "apart a b \<longleftrightarrow> a \<noteq> b"

lemma fun_upd_apart [addr_simps]: "apart z x \<Longrightarrow> (f(x := y)) z = f z"
  by (simp add: apart_def)

end
