(* ===== verification/Fcontext.thy ===== *)
theory Fcontext
  imports Machine
begin

section \<open>The contract of a context switch\<close>

text \<open>
  What \<open>lthread.c\<close> relies on when it calls \<open>jump_fcontext\<close> and \<open>make_fcontext\<close>
  (\<open>src/src/libcontext.h\<close>), for every platform. A machine state holds the arguments of the
  call where the calling convention puts them.

  \<open>jump_fcontext(ofc, nfc, vp, preserve_fpu)\<close> saves the caller's context below its stack
  pointer, stores the handle of the saved context in \<open>*ofc\<close> and takes up the context \<open>nfc\<close>:
  execution goes on at the address saved there, with the registers saved there, and \<open>vp\<close> both
  as the result of the call that saved \<open>nfc\<close> and as the first argument of a function that is
  started. \<open>ctx b m h\<close> reads the context saved at \<open>h\<close>: the preserved registers (with the
  floating point part if \<open>b\<close>), the address to go on at, and the stack pointer there.
\<close>

locale context_jump =
  fixes jump :: "'s \<Rightarrow> ('a target \<times> 's) option"
    and mem :: "'s \<Rightarrow> 'a \<Rightarrow> 'a"
    and sp :: "'s \<Rightarrow> 'a"                          \<comment> \<open>stack pointer\<close>
    and ret :: "'s \<Rightarrow> 'a"                         \<comment> \<open>return address at the entry of a function\<close>
    and caller_sp :: "'s \<Rightarrow> 'a"                   \<comment> \<open>stack pointer after that return\<close>
    and result :: "'s \<Rightarrow> 'a"                      \<comment> \<open>result of a call\<close>
    and arg1 :: "'s \<Rightarrow> 'a"                        \<comment> \<open>first argument at the entry of a function\<close>
    and kept :: "bool \<Rightarrow> 's \<Rightarrow> 'k"                \<comment> \<open>registers a call preserves\<close>
    and link :: "'k \<Rightarrow> ('a \<Rightarrow> 'a) \<Rightarrow> 'a \<Rightarrow> 'a"     \<comment> \<open>return address from registers and stack\<close>
    and ofc :: "'s \<Rightarrow> 'a" and nfc :: "'s \<Rightarrow> 'a" and vp :: "'s \<Rightarrow> 'a" and fpu :: "'s \<Rightarrow> bool"
    and handle :: "'s \<Rightarrow> 'a"                      \<comment> \<open>where the caller's context is saved\<close>
    and area :: "'a \<Rightarrow> 'a set"                    \<comment> \<open>the cells of a saved context\<close>
    and touched :: "'s \<Rightarrow> 'a set"                 \<comment> \<open>the cells a switch may change\<close>
    and ctx :: "bool \<Rightarrow> ('a \<Rightarrow> 'a) \<Rightarrow> 'a \<Rightarrow> 'k \<times> 'a \<times> 'a"
    and ready :: "bool \<Rightarrow> ('a \<Rightarrow> 'a) \<Rightarrow> 'a \<Rightarrow> bool"
    and callable :: "'s \<Rightarrow> bool"
  assumes jump_switches: "\<lbrakk>callable s; ready (fpu s) (mem s) (nfc s)\<rbrakk> \<Longrightarrow>
      \<exists>p s'. jump s = Some (Goto p, s')
        \<and> (kept (fpu s) s', p, sp s') = ctx (fpu s) (mem s) (nfc s)
        \<and> result s' = vp s \<and> arg1 s' = vp s
        \<and> mem s' (ofc s) = handle s
        \<and> ctx (fpu s) (mem s') (handle s) = (kept (fpu s) s, ret s, caller_sp s)
        \<and> ready (fpu s) (mem s') (handle s)
        \<and> (\<forall>a. a \<notin> touched s \<longrightarrow> mem s' a = mem s a)"
    and ctx_local: "(\<And>a. a \<in> area h \<Longrightarrow> m a = m' a) \<Longrightarrow>
      ctx b m h = ctx b m' h \<and> ready b m h = ready b m' h"
    and ret_link: "ret s = link (kept b s) (mem s) (sp s)"
    and link_local: "m p = m' p \<Longrightarrow> link k m p = link k m' p"
begin

text \<open>A context whose cells the switch does not change stays as it is.\<close>

lemma bystander:
  assumes "callable s" "ready (fpu s) (mem s) (nfc s)" "jump s = Some (g, s')"
    and "area h \<inter> touched s = {}"
  shows "ctx b (mem s') h = ctx b (mem s) h" "ready b (mem s') h = ready b (mem s) h"
proof -
  have "a \<in> area h \<Longrightarrow> mem s' a = mem s a" for a
    using jump_switches [OF assms(1,2)] assms(3,4) by auto
  then show "ctx b (mem s') h = ctx b (mem s) h" "ready b (mem s') h = ready b (mem s) h"
    using ctx_local by blast+
qed

text \<open>
  The round trip: a context that switched away and is taken up again, after any execution that
  left its cells alone, finds the preserved registers and the stack pointer as they were, goes
  on after its call, and gets the value passed by the one who took it up.
\<close>

lemma round_trip:
  assumes away: "callable s" "ready (fpu s) (mem s) (nfc s)" "jump s = Some (g, s1)"
    and kept_area: "\<And>a. a \<in> area (handle s) \<Longrightarrow> mem s2 a = mem s1 a"
    and again: "callable s2" "nfc s2 = handle s" "fpu s2 = fpu s"
  shows "\<exists>s3. jump s2 = Some (Goto (ret s), s3) \<and> kept (fpu s) s3 = kept (fpu s) s
    \<and> sp s3 = caller_sp s \<and> result s3 = vp s2"
proof -
  from jump_switches [OF away(1,2)] away(3)
  have saved: "ctx (fpu s) (mem s1) (handle s) = (kept (fpu s) s, ret s, caller_sp s)"
    "ready (fpu s) (mem s1) (handle s)" by auto
  have same: "ctx (fpu s) (mem s2) (handle s) = ctx (fpu s) (mem s1) (handle s)
      \<and> ready (fpu s) (mem s2) (handle s) = ready (fpu s) (mem s1) (handle s)"
    by (rule ctx_local) (rule kept_area)
  then have "ready (fpu s2) (mem s2) (nfc s2)" using saved(2) again(2,3) by simp
  from jump_switches [OF again(1) this] same saved(1) again(2,3) show ?thesis by auto
qed

text \<open>
  A switch and the switch back, as the scheduler and an lthread make them: each side finds the
  handle of the other in the memory, where the other's switch has put it. After the second switch,
  the first context goes on, and the second one is suspended where it switched.
\<close>

lemma switch_pair:
  assumes away: "callable s" "ready (fpu s) (mem s) (nfc s)" "jump s = Some (g, s1)"
    and kept_area: "\<And>a. a \<in> insert (ofc s) (area (handle s)) \<Longrightarrow> mem s2 a = mem s1 a"
    and again: "callable s2" "nfc s2 = mem s2 (ofc s)" "fpu s2 = fpu s"
  shows "\<exists>s3. jump s2 = Some (Goto (ret s), s3) \<and> kept (fpu s) s3 = kept (fpu s) s
    \<and> sp s3 = caller_sp s \<and> mem s3 (ofc s2) = handle s2
    \<and> ctx (fpu s) (mem s3) (handle s2) = (kept (fpu s) s2, ret s2, caller_sp s2)
    \<and> ready (fpu s) (mem s3) (handle s2)"
proof -
  have "mem s1 (ofc s) = handle s" using jump_switches [OF away(1,2)] away(3) by auto
  then have h: "nfc s2 = handle s" using kept_area [of "ofc s"] again(2) by simp
  obtain s3 where s3: "jump s2 = Some (Goto (ret s), s3)" "kept (fpu s) s3 = kept (fpu s) s"
    "sp s3 = caller_sp s"
    using round_trip [OF away _ again(1) h again(3)] kept_area by blast
  have "ready (fpu s) (mem s1) (handle s)" using jump_switches [OF away(1,2)] away(3) by auto
  moreover have "ready (fpu s) (mem s2) (handle s) = ready (fpu s) (mem s1) (handle s)"
    by (rule ctx_local [THEN conjunct2]) (simp add: kept_area)
  ultimately have "ready (fpu s2) (mem s2) (nfc s2)" using h again(3) by simp
  from jump_switches [OF again(1) this] s3 again(3) show ?thesis by auto
qed

text \<open>
  Any number of suspended contexts: \<open>S\<close> maps their handles to what they go on with. A switch takes
  up exactly what was suspended, and leaves the other contexts alone.
\<close>

lemma pool_switch:
  assumes inv: "\<And>h c. S h = Some c \<Longrightarrow> ctx (fpu s) (mem s) h = c \<and> ready (fpu s) (mem s) h"
    and s: "callable s" "S (nfc s) = Some c"
    and others: "\<And>h. h \<in> dom S - {nfc s} \<Longrightarrow> area h \<inter> touched s = {}"
  shows "\<exists>p s'. jump s = Some (Goto p, s') \<and> (kept (fpu s) s', p, sp s') = c \<and> result s' = vp s
    \<and> (\<forall>h c. (S(nfc s := None, handle s \<mapsto> (kept (fpu s) s, ret s, caller_sp s))) h = Some c
          \<longrightarrow> ctx (fpu s) (mem s') h = c \<and> ready (fpu s) (mem s') h)"
proof -
  have r: "ready (fpu s) (mem s) (nfc s)" "ctx (fpu s) (mem s) (nfc s) = c" using inv [OF s(2)] by auto
  from jump_switches [OF s(1) r(1)] obtain p s' where
    j: "jump s = Some (Goto p, s')" "(kept (fpu s) s', p, sp s') = c" "result s' = vp s"
      "ctx (fpu s) (mem s') (handle s) = (kept (fpu s) s, ret s, caller_sp s)"
      "ready (fpu s) (mem s') (handle s)" using r(2) by auto
  have "ctx (fpu s) (mem s') h = c' \<and> ready (fpu s) (mem s') h"
    if "(S(nfc s := None, handle s \<mapsto> (kept (fpu s) s, ret s, caller_sp s))) h = Some c'" for h c'
  proof (cases "h = handle s")
    case True with j(4,5) that show ?thesis by simp
  next
    case False
    with that have h: "S h = Some c'" "h \<noteq> nfc s" by (auto split: if_splits)
    then have "area h \<inter> touched s = {}" using others by auto
    from bystander [OF s(1) r(1) j(1) this, of "fpu s"] inv [OF h(1)] show ?thesis by simp
  qed
  with j show ?thesis by blast
qed

end

text \<open>
  \<open>make_fcontext(sp, size, fn)\<close> lays out a context on a fresh stack whose top is \<open>sp\<close>. Taking
  it up starts \<open>fn\<close> at the stack pointer \<open>entry_sp\<close>; when \<open>fn\<close> returns, execution goes on at
  the label \<open>finish\<close> of the routine.
\<close>

locale context_make = context_jump +
  fixes make :: "'s \<Rightarrow> ('a target \<times> 's) option"
    and fn :: "'s \<Rightarrow> 'a"                          \<comment> \<open>third argument of \<open>make_fcontext\<close>\<close>
    and made :: "'s \<Rightarrow> 'a"                        \<comment> \<open>handle of the new context\<close>
    and made_cells :: "'s \<Rightarrow> 'a set"              \<comment> \<open>the cells \<open>make_fcontext\<close> may write\<close>
    and entry_sp :: "'s \<Rightarrow> 'a"                    \<comment> \<open>stack pointer when \<open>fn\<close> starts\<close>
    and finish :: 'a
    and makeable :: "'s \<Rightarrow> bool"
  assumes make_context: "makeable s \<Longrightarrow>
      \<exists>k s'. make s = Some (Goto (ret s), s')
        \<and> kept True s' = kept True s \<and> sp s' = caller_sp s
        \<and> result s' = made s
        \<and> ctx b (mem s') (made s) = (k, fn s, entry_sp s)
        \<and> link k (mem s') (entry_sp s) = finish
        \<and> ready b (mem s') (made s)
        \<and> (\<forall>a. a \<notin> made_cells s \<longrightarrow> mem s' a = mem s a)"
begin

text \<open>The first switch to a new context starts its function.\<close>

lemma start:
  assumes made: "makeable s" "make s = Some (g, s1)"
    and kept_area: "\<And>a. a \<in> insert (entry_sp s) (area (made s)) \<Longrightarrow> mem s2 a = mem s1 a"
    and first: "callable s2" "nfc s2 = made s" "entry_sp s \<notin> touched s2"
  shows "\<exists>s3. jump s2 = Some (Goto (fn s), s3) \<and> sp s3 = entry_sp s \<and> arg1 s3 = vp s2
    \<and> ret s3 = finish"
proof -
  from make_context [OF made(1), of "fpu s2"] made(2) obtain k where
    k: "ctx (fpu s2) (mem s1) (made s) = (k, fn s, entry_sp s)"
      "link k (mem s1) (entry_sp s) = finish" "ready (fpu s2) (mem s1) (made s)" by auto
  have same: "ctx (fpu s2) (mem s2) (made s) = ctx (fpu s2) (mem s1) (made s)
      \<and> ready (fpu s2) (mem s2) (made s) = ready (fpu s2) (mem s1) (made s)"
    by (rule ctx_local) (simp add: kept_area)
  then have "ready (fpu s2) (mem s2) (nfc s2)" using k(3) first(2) by simp
  from jump_switches [OF first(1) this] obtain p s3 where
    j: "jump s2 = Some (Goto p, s3)" "(kept (fpu s2) s3, p, sp s3) = (k, fn s, entry_sp s)"
      "arg1 s3 = vp s2" "mem s3 (entry_sp s) = mem s2 (entry_sp s)"
    using same k(1) first(2,3) by auto
  have "ret s3 = link k (mem s3) (entry_sp s)" using ret_link [of s3 "fpu s2"] j(2) by simp
  also have "\<dots> = link k (mem s1) (entry_sp s)"
    by (rule link_local) (simp add: j(4) kept_area)
  finally show ?thesis using j k(2) by auto
qed

end

end
