(* ===== verification/X86.thy ===== *)
theory X86
  imports Machine
begin

section \<open>The x86 processor, as far as the context switch uses it\<close>

text \<open>
  The registers, the memory and the instructions that \<open>src/src/libcontext.c\<close> is written in for
  the i386 and x86-64 platforms. The width \<open>'w\<close> is 32 or 64: a register and a memory cell hold
  a \<open>'w word\<close>, and the memory is read and written one naturally aligned cell at a time.
  An access that crosses cells makes the machine stop (\<open>None\<close>), so that a theorem that a routine
  returns also shows that all its accesses are aligned. \<open>stmxcsr\<close> and \<open>fnstcw\<close> replace the 32
  and 16 bits they write inside the cell.
\<close>

named_theorems x86_simps \<open>execution of instructions on a symbolic state\<close>

subsection \<open>State\<close>

datatype xreg = RAX | RBX | RCX | RDX | RSI | RDI | RBP | RSP
  | R8 | R9 | R10 | R11 | R12 | R13 | R14 | R15

record 'a xstate =
  xr :: "xreg \<Rightarrow> 'a"               \<comment> \<open>the general registers\<close>
  xmem :: "'a \<Rightarrow> 'a"               \<comment> \<open>the cell at an aligned address\<close>
  zf :: bool                        \<comment> \<open>zero flag\<close>
  mxcsr :: u32                      \<comment> \<open>SSE control and status\<close>
  fpucw :: u16                      \<comment> \<open>x87 control word\<close>
  xmm :: "nat \<Rightarrow> 'a \<times> 'a"         \<comment> \<open>the SSE registers, low and high half\<close>
  segbase :: 'a                     \<comment> \<open>base of the thread's segment, \<open>fs\<close> or \<open>gs\<close>\<close>
  xsym :: "string \<Rightarrow> 'a"            \<comment> \<open>the values the linker gives to symbols\<close>

datatype operand =
    Imm int
  | Reg xreg
  | Mem int xreg                    \<comment> \<open>\<open>disp(base)\<close>\<close>
  | Idx xreg xreg                   \<comment> \<open>\<open>(base,index,1)\<close>\<close>
  | Seg int                         \<comment> \<open>\<open>%fs:disp\<close>, \<open>%gs:disp\<close>\<close>
  | Lab string                      \<comment> \<open>the address of a label\<close>
  | Dist string string              \<comment> \<open>the distance of two labels\<close>
  | Sym string                      \<comment> \<open>a value the linker gives\<close>

text \<open>Operands in the order of the AT\&T syntax: the destination comes last.\<close>

datatype xinstr =
    MOV operand operand
  | LEA operand xreg
  | PUSH xreg
  | POP xreg
  | TEST xreg xreg
  | CMP operand xreg
  | ANDL operand xreg
  | ADD operand xreg
  | SUB operand xreg
  | XORL xreg xreg
  | NEG xreg
  | INC xreg
  | DEC xreg
  | XCHG xreg xreg
  | STMXCSR operand
  | LDMXCSR operand
  | FNSTCW operand
  | FLDCW operand
  | MOVAPS_ST nat operand
  | MOVAPS_LD operand nat
  | LABEL string
  | JE string
  | JMP string
  | JMPR xreg
  | CALL string
  | CALL_EXT string
  | CALL_ABS int
  | RET
  | HLT

subsection \<open>Operands\<close>

fun eff_addr :: "operand \<Rightarrow> 'w::len word xstate \<Rightarrow> 'w word option" where
  "eff_addr (Mem d b) s = Some (xr s b + of_int d)"
| "eff_addr (Idx b i) s = Some (xr s b + xr s i)"
| "eff_addr (Seg d) s = Some (segbase s + of_int d)"
| "eff_addr _ s = None"

definition load :: "'w::len word \<Rightarrow> 'w word xstate \<Rightarrow> 'w word option" where
  "load a s = (if aligned a then Some (xmem s a) else None)"

definition store :: "'w::len word \<Rightarrow> 'w word \<Rightarrow> 'w word xstate \<Rightarrow> 'w word xstate option" where
  "store a v s = (if aligned a then Some (s\<lparr>xmem := (xmem s)(a := v)\<rparr>) else None)"

definition load_part :: "nat \<Rightarrow> 'w::len word \<Rightarrow> 'w word xstate \<Rightarrow> 'v::len word option" where
  "load_part n a s = (if cell_off a mod (n div 8) = 0
     then Some (get_bits n (8 * cell_off a) (xmem s (a - of_nat (cell_off a)))) else None)"

definition store_part :: "nat \<Rightarrow> 'w::len word \<Rightarrow> 'v::len word \<Rightarrow> 'w word xstate \<Rightarrow> 'w word xstate option" where
  "store_part n a v s = (if cell_off a mod (n div 8) = 0
     then let c = a - of_nat (cell_off a) in
       Some (s\<lparr>xmem := (xmem s)(c := put_bits n (8 * cell_off a) v (xmem s c))\<rparr>)
     else None)"

fun xget :: "(string \<Rightarrow> 'w::len word) \<Rightarrow> operand \<Rightarrow> 'w word xstate \<Rightarrow> 'w word option" where
  "xget lab (Imm i) s = Some (of_int i)"
| "xget lab (Reg r) s = Some (xr s r)"
| "xget lab (Lab l) s = Some (lab l)"
| "xget lab (Dist l k) s = Some (lab l - lab k)"
| "xget lab (Sym x) s = Some (xsym s x)"
| "xget lab m s = do {a \<leftarrow> eff_addr m s; load a s}"

fun xset :: "operand \<Rightarrow> 'w::len word \<Rightarrow> 'w word xstate \<Rightarrow> 'w word xstate option" where
  "xset (Reg r) v s = Some (s\<lparr>xr := (xr s)(r := v)\<rparr>)"
| "xset m v s = do {a \<leftarrow> eff_addr m s; store a v s}"

definition set_alu :: "xreg \<Rightarrow> 'w::len word \<Rightarrow> 'w word xstate \<Rightarrow> 'w word xstate" where
  "set_alu r v s = s\<lparr>xr := (xr s)(r := v), zf := (v = 0)\<rparr>"

definition xpush :: "'w::len word \<Rightarrow> 'w word xstate \<Rightarrow> 'w word xstate option" where
  "xpush v s = (let a = xr s RSP - of_nat (cell_bytes (xr s RSP)) in
     store a v (s\<lparr>xr := (xr s)(RSP := a)\<rparr>))"

definition xpop :: "'w::len word xstate \<Rightarrow> ('w word \<times> 'w word xstate) option" where
  "xpop s = do {
     v \<leftarrow> load (xr s RSP) s;
     Some (v, s\<lparr>xr := (xr s)(RSP := xr s RSP + of_nat (cell_bytes (xr s RSP)))\<rparr>)
   }"

subsection \<open>Instructions\<close>

text \<open>
  \<open>ldmxcsr\<close> faults on a value with reserved bits, \<open>movaps\<close> on an address that is not a multiple
  of 16. Both stop the machine.
\<close>

definition mxcsr_ok :: "u32 \<Rightarrow> bool" where
  "mxcsr_ok v \<longleftrightarrow> drop_bit 16 v = 0"

fun xstep :: "(string \<Rightarrow> 'w::len word) \<Rightarrow> xinstr \<Rightarrow> 'w word xstate \<Rightarrow> 'w word xstate option" where
  "xstep lab (MOV x y) s = do {v \<leftarrow> xget lab x s; xset y v s}"
| "xstep lab (LEA (Lab l) r) s = xset (Reg r) (lab l) s"
| "xstep lab (LEA m r) s = do {a \<leftarrow> eff_addr m s; xset (Reg r) a s}"
| "xstep lab (PUSH r) s = xpush (xr s r) s"
| "xstep lab (POP r) s = do {(v, s) \<leftarrow> xpop s; xset (Reg r) v s}"
| "xstep lab (TEST q r) s = Some (s\<lparr>zf := (xr s q AND xr s r = 0)\<rparr>)"
| "xstep lab (CMP x r) s = do {v \<leftarrow> xget lab x s; Some (s\<lparr>zf := (xr s r - v = 0)\<rparr>)}"
| "xstep lab (ANDL x r) s = do {v \<leftarrow> xget lab x s; Some (set_alu r (xr s r AND v) s)}"
| "xstep lab (ADD x r) s = do {v \<leftarrow> xget lab x s; Some (set_alu r (xr s r + v) s)}"
| "xstep lab (SUB x r) s = do {v \<leftarrow> xget lab x s; Some (set_alu r (xr s r - v) s)}"
| "xstep lab (XORL q r) s = Some (set_alu r (xr s r XOR xr s q) s)"
| "xstep lab (NEG r) s = Some (set_alu r (- xr s r) s)"
| "xstep lab (INC r) s = Some (set_alu r (xr s r + 1) s)"
| "xstep lab (DEC r) s = Some (set_alu r (xr s r - 1) s)"
| "xstep lab (XCHG q r) s = Some (s\<lparr>xr := (xr s)(q := xr s r, r := xr s q)\<rparr>)"
| "xstep lab (STMXCSR m) s = do {a \<leftarrow> eff_addr m s; store_part 32 a (mxcsr s) s}"
| "xstep lab (FNSTCW m) s = do {a \<leftarrow> eff_addr m s; store_part 16 a (fpucw s) s}"
| "xstep lab (LDMXCSR m) s = do {
     a \<leftarrow> eff_addr m s;
     v \<leftarrow> load_part 32 a s;
     if mxcsr_ok v then Some (s\<lparr>mxcsr := v\<rparr>) else None
   }"
| "xstep lab (FLDCW m) s = do {
     a \<leftarrow> eff_addr m s;
     v \<leftarrow> load_part 16 a s;
     Some (s\<lparr>fpucw := v\<rparr>)
   }"
| "xstep lab (MOVAPS_ST i m) s = do {
     a \<leftarrow> eff_addr m s;
     if unat a mod 16 = 0 \<and> cell_bytes a = 8
     then Some (s\<lparr>xmem := (xmem s)(a := fst (xmm s i), a + 8 := snd (xmm s i))\<rparr>) else None
   }"
| "xstep lab (MOVAPS_LD m i) s = do {
     a \<leftarrow> eff_addr m s;
     if unat a mod 16 = 0 \<and> cell_bytes a = 8
     then Some (s\<lparr>xmm := (xmm s)(i := (xmem s a, xmem s (a + 8)))\<rparr>) else None
   }"
| "xstep lab _ s = None"

subsection \<open>Programs\<close>

text \<open>
  A program is the instruction list of one routine. \<open>adr n\<close> is the address of its \<open>n\<close>th
  instruction in the running program (the assembler's and the linker's choice). Execution goes on until control leaves the routine:
  for an address, or for a function of another module.
\<close>

definition from_label :: "string \<Rightarrow> xinstr list \<Rightarrow> xinstr list" where
  "from_label l prog = dropWhile (\<lambda>i. i \<noteq> LABEL l) prog"

definition lab_addr :: "(nat \<Rightarrow> 'w::len word) \<Rightarrow> xinstr list \<Rightarrow> string \<Rightarrow> 'w word" where
  "lab_addr adr prog l = adr (length prog - length (from_label l prog))"

text \<open>
  One instruction: the code to go on with, or where control goes when it leaves the routine.
\<close>

definition xnext :: "(nat \<Rightarrow> 'w::len word) \<Rightarrow> xinstr list \<Rightarrow> xinstr \<Rightarrow> xinstr list \<Rightarrow> 'w word xstate
    \<Rightarrow> ((xinstr list + 'w word target) \<times> 'w word xstate) option" where
  "xnext adr prog i rest s = (case i of
       LABEL l \<Rightarrow> Some (Inl rest, s)
     | JE l \<Rightarrow> Some (Inl (if zf s then from_label l prog else rest), s)
     | JMP l \<Rightarrow> Some (Inl (from_label l prog), s)
     | JMPR r \<Rightarrow> Some (Inr (Goto (xr s r)), s)
     | RET \<Rightarrow> do {(v, s) \<leftarrow> xpop s; Some (Inr (Goto v), s)}
     | CALL l \<Rightarrow> do {
         s \<leftarrow> xpush (adr (length prog - length rest)) s;
         Some (Inl (from_label l prog), s)
       }
     | CALL_EXT f \<Rightarrow> do {
         s \<leftarrow> xpush (adr (length prog - length rest)) s;
         Some (Inr (External f), s)
       }
     | CALL_ABS i \<Rightarrow> do {
         s \<leftarrow> xpush (adr (length prog - length rest)) s;
         Some (Inr (Goto (of_int i)), s)
       }
     | _ \<Rightarrow> do {s \<leftarrow> xstep (lab_addr adr prog) i s; Some (Inl rest, s)})"

partial_function (option) xrun ::
  "(nat \<Rightarrow> 'w::len word) \<Rightarrow> xinstr list \<Rightarrow> xinstr list \<Rightarrow> 'w word xstate
    \<Rightarrow> ('w word target \<times> 'w word xstate) option" where
  "xrun adr prog code s = (case code of
     [] \<Rightarrow> None
   | i # rest \<Rightarrow> do {
       (k, s) \<leftarrow> xnext adr prog i rest s;
       (case k of Inl code \<Rightarrow> xrun adr prog code s | Inr t \<Rightarrow> Some (t, s))
     })"

definition xcall :: "(nat \<Rightarrow> 'w::len word) \<Rightarrow> xinstr list \<Rightarrow> 'w word xstate
    \<Rightarrow> ('w word target \<times> 'w word xstate) option" where
  "xcall adr prog s = xrun adr prog prog s"

lemma xrun_Cons:
  "xrun adr prog (i # rest) s = do {
     (k, s) \<leftarrow> xnext adr prog i rest s;
     (case k of Inl code \<Rightarrow> xrun adr prog code s | Inr t \<Rightarrow> Some (t, s))}"
  by (subst xrun.simps) simp

lemma xrun_Nil [x86_simps]: "xrun adr prog [] s = None"
  by (subst xrun.simps) simp

lemma xrun_label: "xrun adr prog (LABEL l # rest) s = xrun adr prog rest s"
  by (simp add: xrun_Cons xnext_def)

lemma xrun_control [x86_simps]:
  "xrun adr prog (JE l # rest) s =
     (if zf s then xrun adr prog (from_label l prog) s else xrun adr prog rest s)"
  "xrun adr prog (JMP l # rest) s = xrun adr prog (from_label l prog) s"
  "xrun adr prog (JMPR r # rest) s = Some (Goto (xr s r), s)"
  "xrun adr prog (RET # rest) s = do {(v, s) \<leftarrow> xpop s; Some (Goto v, s)}"
  "xrun adr prog (CALL l # rest) s = do {
     s \<leftarrow> xpush (adr (length prog - length rest)) s;
     xrun adr prog (from_label l prog) s}"
  "xrun adr prog (CALL_EXT f # rest) s = do {
     s \<leftarrow> xpush (adr (length prog - length rest)) s; Some (External f, s)}"
  "xrun adr prog (CALL_ABS j # rest) s = do {
     s \<leftarrow> xpush (adr (length prog - length rest)) s; Some (Goto (of_int j), s)}"
  by (simp_all add: xrun_Cons xnext_def split: bind_splits)

fun is_control :: "xinstr \<Rightarrow> bool" where
  "is_control (LABEL _) = True"
| "is_control (JE _) = True"
| "is_control (JMP _) = True"
| "is_control (JMPR _) = True"
| "is_control RET = True"
| "is_control (CALL _) = True"
| "is_control (CALL_EXT _) = True"
| "is_control (CALL_ABS _) = True"
| "is_control _ = False"

lemma xrun_step [x86_simps]:
  "\<not> is_control i \<Longrightarrow> xrun adr prog (i # rest) s =
     do {s \<leftarrow> xstep (lab_addr adr prog) i s; xrun adr prog rest s}"
  by (cases i) (simp_all add: xrun_Cons xnext_def split: bind_splits)

subsection \<open>Symbolic execution\<close>

text \<open>
  The routines are executed by rewriting, label by label: the code from a label on is folded
  into \<open>from_label\<close>, so that a run of the code before it stops there. Only the first argument
  of a bind is rewritten, the rest of the code waits for its state.
\<close>

lemma from_label_Nil [simp]: "from_label l [] = []"
  by (simp add: from_label_def)

lemma from_label_Cons [simp]:
  "from_label l (i # prog) = (if i = LABEL l then i # prog else from_label l prog)"
  by (simp add: from_label_def)

text \<open>Updates of different fields, in the order of the fields.\<close>

lemma xstate_order [x86_simps]:
  fixes s :: "'a xstate"
  shows
  "s\<lparr>xmem := v0, xr := u0\<rparr> = s\<lparr>xr := u0, xmem := v0\<rparr>"
  "s\<lparr>zf := v1, xr := u1\<rparr> = s\<lparr>xr := u1, zf := v1\<rparr>"
  "s\<lparr>mxcsr := v2, xr := u2\<rparr> = s\<lparr>xr := u2, mxcsr := v2\<rparr>"
  "s\<lparr>fpucw := v3, xr := u3\<rparr> = s\<lparr>xr := u3, fpucw := v3\<rparr>"
  "s\<lparr>xmm := v4, xr := u4\<rparr> = s\<lparr>xr := u4, xmm := v4\<rparr>"
  "s\<lparr>zf := v5, xmem := u5\<rparr> = s\<lparr>xmem := u5, zf := v5\<rparr>"
  "s\<lparr>mxcsr := v6, xmem := u6\<rparr> = s\<lparr>xmem := u6, mxcsr := v6\<rparr>"
  "s\<lparr>fpucw := v7, xmem := u7\<rparr> = s\<lparr>xmem := u7, fpucw := v7\<rparr>"
  "s\<lparr>xmm := v8, xmem := u8\<rparr> = s\<lparr>xmem := u8, xmm := v8\<rparr>"
  "s\<lparr>mxcsr := v9, zf := u9\<rparr> = s\<lparr>zf := u9, mxcsr := v9\<rparr>"
  "s\<lparr>fpucw := v10, zf := u10\<rparr> = s\<lparr>zf := u10, fpucw := v10\<rparr>"
  "s\<lparr>xmm := v11, zf := u11\<rparr> = s\<lparr>zf := u11, xmm := v11\<rparr>"
  "s\<lparr>fpucw := v12, mxcsr := u12\<rparr> = s\<lparr>mxcsr := u12, fpucw := v12\<rparr>"
  "s\<lparr>xmm := v13, mxcsr := u13\<rparr> = s\<lparr>mxcsr := u13, xmm := v13\<rparr>"
  "s\<lparr>xmm := v14, fpucw := u14\<rparr> = s\<lparr>fpucw := u14, xmm := v14\<rparr>"
  by simp_all

lemmas x86_run = x86_simps addr_simps xpush_def xpop_def load_def store_def load_part_def
  store_part_def set_alu_def Let_def fun_upd_same fun_upd_other

end
