(* ===== verification/Fcontext_X64.thy ===== *)
theory Fcontext_X64
  imports Fcontext X86
begin

section \<open>Context switching on x86-64, System V calling convention\<close>

text \<open>
  \<open>jump_fcontext\<close> and \<open>make_fcontext\<close> of \<open>src/src/libcontext.c\<close> for Linux and for Apple systems
  on x86-64, instruction by instruction.
\<close>

definition jump_fcontext_linux_x86_64 :: "xinstr list" where
  "jump_fcontext_linux_x86_64 = [
    PUSH RBP, PUSH RBX, PUSH R15, PUSH R14, PUSH R13, PUSH R12, LEA (Mem (-0x8) RSP) RSP,
    CMP (Imm 0) RCX, JE ''1'', STMXCSR (Mem 0 RSP), FNSTCW (Mem 0x4 RSP), LABEL ''1'',
    MOV (Reg RSP) (Mem 0 RDI), MOV (Reg RSI) (Reg RSP), CMP (Imm 0) RCX, JE ''2'',
    LDMXCSR (Mem 0 RSP), FLDCW (Mem 0x4 RSP), LABEL ''2'', LEA (Mem 0x8 RSP) RSP, POP R12,
    POP R13, POP R14, POP R15, POP RBX, POP RBP, POP R8, MOV (Reg RDX) (Reg RAX),
    MOV (Reg RDX) (Reg RDI), JMPR R8]"

definition make_fcontext_linux_x86_64 :: "xinstr list" where
  "make_fcontext_linux_x86_64 = [
    MOV (Reg RDI) (Reg RAX), ANDL (Imm (-16)) RAX, LEA (Mem (-0x48) RAX) RAX,
    MOV (Reg RDX) (Mem 0x38 RAX), STMXCSR (Mem 0 RAX), FNSTCW (Mem 0x4 RAX),
    LEA (Lab ''finish'') RCX, MOV (Reg RCX) (Mem 0x40 RAX), RET, LABEL ''finish'', XORL RDI RDI,
    CALL_EXT ''_exit'', HLT]"

definition jump_fcontext_apple_x86_64 :: "xinstr list" where
  "jump_fcontext_apple_x86_64 = [
    PUSH RBP, PUSH RBX, PUSH R15, PUSH R14, PUSH R13, PUSH R12, LEA (Mem (-0x8) RSP) RSP,
    CMP (Imm 0) RCX, JE ''1'', STMXCSR (Mem 0 RSP), FNSTCW (Mem 0x4 RSP), LABEL ''1'',
    MOV (Reg RSP) (Mem 0 RDI), MOV (Reg RSI) (Reg RSP), CMP (Imm 0) RCX, JE ''2'',
    LDMXCSR (Mem 0 RSP), FLDCW (Mem 0x4 RSP), LABEL ''2'', LEA (Mem 0x8 RSP) RSP, POP R12,
    POP R13, POP R14, POP R15, POP RBX, POP RBP, POP R8, MOV (Reg RDX) (Reg RAX),
    MOV (Reg RDX) (Reg RDI), JMPR R8]"

definition make_fcontext_apple_x86_64 :: "xinstr list" where
  "make_fcontext_apple_x86_64 = [
    MOV (Reg RDI) (Reg RAX), MOV (Imm (-16)) (Reg R8), ANDL (Reg R8) RAX,
    LEA (Mem (-0x48) RAX) RAX, MOV (Reg RDX) (Mem 0x38 RAX), STMXCSR (Mem 0 RAX),
    FNSTCW (Mem 0x4 RAX), LEA (Lab ''finish'') RCX, MOV (Reg RCX) (Mem 0x40 RAX), RET,
    LABEL ''finish'', XORL RDI RDI, CALL_EXT ''__exit'', HLT]"

text \<open>The two systems have the same \<open>jump_fcontext\<close>.\<close>

lemma jump_fcontext_apple_x86_64: "jump_fcontext_apple_x86_64 = jump_fcontext_linux_x86_64"
  by (simp add: jump_fcontext_apple_x86_64_def jump_fcontext_linux_x86_64_def)

subsection \<open>The saved context\<close>

text \<open>
  Eight cells: control words, \<open>r12\<close> to \<open>r15\<close>, \<open>rbx\<close>, \<open>rbp\<close> and the address to go on at.
\<close>

definition x64_area :: "u64 \<Rightarrow> u64 set" where
  "x64_area h = {h, h + 8, h + 16, h + 24, h + 32, h + 40, h + 48, h + 56}"

definition x64_kept :: "bool \<Rightarrow> u64 xstate \<Rightarrow> u64 list \<times> (u32 \<times> u16) option" where
  "x64_kept b s = (map (xr s) [R12, R13, R14, R15, RBX, RBP],
     if b then Some (mxcsr s, fpucw s) else None)"

definition x64_ctx ::
  "bool \<Rightarrow> (u64 \<Rightarrow> u64) \<Rightarrow> u64 \<Rightarrow> (u64 list \<times> (u32 \<times> u16) option) \<times> u64 \<times> u64" where
  "x64_ctx b m h = ((map m [h + 8, h + 16, h + 24, h + 32, h + 40, h + 48],
     if b then Some (get_bits 32 0 (m h), get_bits 16 32 (m h)) else None), m (h + 56), h + 64)"

definition x64_ready :: "bool \<Rightarrow> (u64 \<Rightarrow> u64) \<Rightarrow> u64 \<Rightarrow> bool" where
  "x64_ready b m h \<longleftrightarrow> aligned h \<and> (b \<longrightarrow> mxcsr_ok (get_bits 32 0 (m h)))"

definition x64_handle :: "u64 xstate \<Rightarrow> u64" where
  "x64_handle s = xr s RSP - 56"

definition x64_touched :: "u64 xstate \<Rightarrow> u64 set" where
  "x64_touched s = insert (xr s RDI) (x64_area (x64_handle s))"

text \<open>
  A call is fine when the stack is aligned, the control word has no reserved bits, and the
  cells of the two contexts and \<open>*ofc\<close> are apart.
\<close>

definition x64_callable :: "u64 xstate \<Rightarrow> bool" where
  "x64_callable s \<longleftrightarrow> aligned (xr s RSP) \<and> aligned (xr s RDI) \<and> mxcsr_ok (mxcsr s)
     \<and> x64_area (x64_handle s) \<inter> x64_area (xr s RSI) = {}
     \<and> xr s RDI \<notin> x64_area (x64_handle s) \<union> x64_area (xr s RSI)"

subsection \<open>Execution of \<open>jump_fcontext\<close>\<close>

text \<open>The memory after the caller's context is saved.\<close>

definition x64_frame :: "u64 xstate \<Rightarrow> u64 \<Rightarrow> u64" where
  "x64_frame s = (let p = xr s RSP; m = (xmem s)(p - 8 := xr s RBP, p - 16 := xr s RBX,
      p - 24 := xr s R15, p - 32 := xr s R14, p - 40 := xr s R13, p - 48 := xr s R12) in
    if xr s RCX = 0 then m
    else m(p - 56 := put_bits 16 32 (fpucw s) (put_bits 32 0 (mxcsr s) (m (p - 56)))))"

lemmas jump_x64_1 = arg_cong [OF jump_fcontext_linux_x86_64_def, of "from_label ''1''", simplified]
lemmas jump_x64_2 = arg_cong [OF jump_fcontext_linux_x86_64_def, of "from_label ''2''", simplified]

lemma jump_x64_save:
  fixes s :: "u64 xstate"
  assumes "aligned (xr s RSP)"
  shows "xrun adr jump_fcontext_linux_x86_64 jump_fcontext_linux_x86_64 s =
    xrun adr jump_fcontext_linux_x86_64 (from_label ''1'' jump_fcontext_linux_x86_64)
      (s\<lparr>xr := (xr s)(RSP := x64_handle s), xmem := x64_frame s, zf := (xr s RCX = 0)\<rparr>)"
  using assms
  by (subst (2) jump_fcontext_linux_x86_64_def, cases "xr s RCX = 0")
    (simp_all del: fun_upd_apply cong: bind_weak_cong
      add: x86_run x64_frame_def x64_handle_def jump_x64_1 [symmetric])

lemma jump_x64_load:
  fixes s :: "u64 xstate"
  assumes "aligned (xr s RDI)" "aligned (xr s RSI)" 
    "xr s RCX \<noteq> 0 \<longrightarrow> mxcsr_ok (get_bits 32 0 (((xmem s)(xr s RDI := xr s RSP)) (xr s RSI)))"
  defines "m \<equiv> (xmem s)(xr s RDI := xr s RSP)"
  shows "xrun adr jump_fcontext_linux_x86_64 (from_label ''1'' jump_fcontext_linux_x86_64) s =
    xrun adr jump_fcontext_linux_x86_64 (from_label ''2'' jump_fcontext_linux_x86_64)
      (s\<lparr>xr := (xr s)(RSP := xr s RSI), xmem := m, zf := (xr s RCX = 0),
         mxcsr := (if xr s RCX = 0 then mxcsr s else get_bits 32 0 (m (xr s RSI))),
         fpucw := (if xr s RCX = 0 then fpucw s else get_bits 16 32 (m (xr s RSI)))\<rparr>)"
  using assms
  by (subst jump_x64_1, cases "xr s RCX = 0")
    (simp_all del: fun_upd_apply cong: bind_weak_cong
      add: x86_run xrun_label jump_x64_2 [symmetric])

lemma jump_x64_resume:
  fixes s :: "u64 xstate"
  assumes "aligned (xr s RSP)"
  shows "xrun adr jump_fcontext_linux_x86_64 (from_label ''2'' jump_fcontext_linux_x86_64) s =
    Some (Goto (xmem s (xr s RSP + 56)), s\<lparr>xr := (xr s)(
      R12 := xmem s (xr s RSP + 8), R13 := xmem s (xr s RSP + 16), R14 := xmem s (xr s RSP + 24),
      R15 := xmem s (xr s RSP + 32), RBX := xmem s (xr s RSP + 40), RBP := xmem s (xr s RSP + 48),
      RSP := xr s RSP + 64, R8 := xmem s (xr s RSP + 56), RAX := xr s RDX, RDI := xr s RDX)\<rparr>)"
  using assms
  by (subst jump_x64_2)
    (simp del: fun_upd_apply cong: bind_weak_cong add: x86_run xrun_label)

definition x64_made :: "u64 xstate \<Rightarrow> u64" where
  "x64_made s = (xr s RDI AND - 16) - 0x48"

definition x64_entry_sp :: "u64 xstate \<Rightarrow> u64" where
  "x64_entry_sp s = (xr s RDI AND - 16) - 8"

definition x64_made_cells :: "u64 xstate \<Rightarrow> u64 set" where
  "x64_made_cells s = {x64_made s, x64_made s + 0x38, x64_entry_sp s}"

definition x64_makeable :: "u64 xstate \<Rightarrow> bool" where
  "x64_makeable s \<longleftrightarrow> aligned (xr s RSP) \<and> mxcsr_ok (mxcsr s) \<and> xr s RSP \<notin> x64_made_cells s"

lemma jump_x64:
  assumes "aligned (xr s RSP)" "aligned (xr s RDI)" "aligned (xr s RSI)"
  defines "m \<equiv> (x64_frame s)(xr s RDI := x64_handle s)"
  assumes "xr s RCX \<noteq> 0 \<longrightarrow> mxcsr_ok (get_bits 32 0 (m (xr s RSI)))"
  shows "\<exists>s'. xcall adr jump_fcontext_linux_x86_64 s = Some (Goto (m (xr s RSI + 56)), s')
    \<and> x64_kept (xr s RCX \<noteq> 0) s' = fst (x64_ctx (xr s RCX \<noteq> 0) m (xr s RSI))
    \<and> xr s' RSP = xr s RSI + 64 \<and> xmem s' = m \<and> xr s' RAX = xr s RDX \<and> xr s' RDI = xr s RDX"
  using assms
  by (cases "xr s RCX = 0") (simp_all del: fun_upd_apply add: fun_upd_same fun_upd_other xcall_def
      jump_x64_save jump_x64_load jump_x64_resume x64_kept_def x64_ctx_def)

lemma x64_frame_other: "a \<notin> x64_area (x64_handle s) \<Longrightarrow> x64_frame s a = xmem s a"
  by (auto simp: x64_area_def x64_frame_def x64_handle_def Let_def addr_simps)

lemma x64_frame_ctx:
  "x64_ctx (xr s RCX \<noteq> 0) (x64_frame s) (x64_handle s)
    = (x64_kept (xr s RCX \<noteq> 0) s, xmem s (xr s RSP), xr s RSP + 8)"
  by (simp add: x64_ctx_def x64_frame_def x64_handle_def Let_def addr_simps x64_kept_def
      get_put_bits get_put_bits_other)

lemma x64_ctx_local:
  "(\<And>a. a \<in> x64_area h \<Longrightarrow> m a = m' a) \<Longrightarrow>
    x64_ctx b m h = x64_ctx b m' h \<and> x64_ready b m h = x64_ready b m' h"
  by (simp add: x64_ctx_def x64_ready_def x64_area_def)

lemma jump_x64_switches:
  assumes "x64_callable s" "x64_ready (xr s RCX \<noteq> 0) (xmem s) (xr s RSI)"
  shows "\<exists>p s'. xcall adr jump_fcontext_linux_x86_64 s = Some (Goto p, s')
    \<and> (x64_kept (xr s RCX \<noteq> 0) s', p, xr s' RSP) = x64_ctx (xr s RCX \<noteq> 0) (xmem s) (xr s RSI)
    \<and> xr s' RAX = xr s RDX \<and> xr s' RDI = xr s RDX
    \<and> xmem s' (xr s RDI) = x64_handle s
    \<and> x64_ctx (xr s RCX \<noteq> 0) (xmem s') (x64_handle s)
      = (x64_kept (xr s RCX \<noteq> 0) s, xmem s (xr s RSP), xr s RSP + 8)
    \<and> x64_ready (xr s RCX \<noteq> 0) (xmem s') (x64_handle s)
    \<and> (\<forall>a. a \<notin> x64_touched s \<longrightarrow> xmem s' a = xmem s a)"
proof -
  let ?b = "xr s RCX \<noteq> 0" and ?n = "xr s RSI"
  define m where "m = (x64_frame s)(xr s RDI := x64_handle s)"
  have apart: "x64_area (x64_handle s) \<inter> x64_area ?n = {}"
    "xr s RDI \<notin> x64_area (x64_handle s)" "xr s RDI \<notin> x64_area ?n" "aligned (xr s RSP)"
    "aligned (xr s RDI)" "mxcsr_ok (mxcsr s)"
    using assms(1) by (auto simp: x64_callable_def)
  have "x64_ctx ?b m ?n = x64_ctx ?b (xmem s) ?n \<and> x64_ready ?b m ?n = x64_ready ?b (xmem s) ?n"
    using apart by (intro x64_ctx_local) (auto simp: m_def disjoint_iff intro!: x64_frame_other)
  moreover have own: "x64_ctx ?b m (x64_handle s) = x64_ctx ?b (x64_frame s) (x64_handle s)
      \<and> x64_ready ?b m (x64_handle s) = x64_ready ?b (x64_frame s) (x64_handle s)"
    using apart by (intro x64_ctx_local) (auto simp: m_def)
  moreover have "x64_ready ?b (x64_frame s) (x64_handle s)"
    using apart by (simp add: x64_ready_def x64_frame_def x64_handle_def Let_def addr_simps x86_simps
        get_put_bits get_put_bits_other)
  moreover have "a \<notin> x64_touched s \<Longrightarrow> m a = xmem s a" for a
    by (simp add: m_def x64_touched_def x64_frame_other)
  moreover obtain s' where "xcall adr jump_fcontext_linux_x86_64 s = Some (Goto (m (?n + 56)), s')"
    "x64_kept ?b s' = fst (x64_ctx ?b m ?n)" "xr s' RSP = ?n + 64" "xmem s' = m"
    "xr s' RAX = xr s RDX" "xr s' RDI = xr s RDX"
    using jump_x64 [of s adr] assms(2) apart calculation(1)
    by (auto simp: x64_ready_def m_def simp del: fun_upd_apply)
  moreover have "m (xr s RDI) = x64_handle s" by (simp add: m_def)
  moreover have "x64_ctx ?b m ?n = (fst (x64_ctx ?b m ?n), m (?n + 56), ?n + 64)"
    by (simp add: x64_ctx_def)
  ultimately show ?thesis by (metis x64_frame_ctx)
qed

subsection \<open>Execution of \<open>make_fcontext\<close>\<close>

definition x64_made_mem :: "u64 \<Rightarrow> u64 xstate \<Rightarrow> u64 \<Rightarrow> u64" where
  "x64_made_mem fin s = (xmem s)(x64_made s + 0x38 := xr s RDX,
     x64_made s := put_bits 16 32 (fpucw s) (put_bits 32 0 (mxcsr s) (xmem s (x64_made s))),
     x64_entry_sp s := fin)"

lemma make_x64_linux:
  assumes "x64_makeable s"
  shows "\<exists>s'. xcall adr make_fcontext_linux_x86_64 s = Some (Goto (xmem s (xr s RSP)), s')
    \<and> x64_kept True s' = x64_kept True s \<and> xr s' RSP = xr s RSP + 8 \<and> xr s' RAX = x64_made s
    \<and> xmem s' = x64_made_mem (lab_addr adr make_fcontext_linux_x86_64 ''finish'') s"
  using assms unfolding xcall_def
  by (subst (2) make_fcontext_linux_x86_64_def)
    (simp del: fun_upd_apply cong: bind_weak_cong add: x86_run x64_makeable_def x64_made_cells_def
      x64_made_def x64_entry_sp_def x64_made_mem_def x64_kept_def)

lemma make_x64_apple:
  assumes "x64_makeable s"
  shows "\<exists>s'. xcall adr make_fcontext_apple_x86_64 s = Some (Goto (xmem s (xr s RSP)), s')
    \<and> x64_kept True s' = x64_kept True s \<and> xr s' RSP = xr s RSP + 8 \<and> xr s' RAX = x64_made s
    \<and> xmem s' = x64_made_mem (lab_addr adr make_fcontext_apple_x86_64 ''finish'') s"
  using assms unfolding xcall_def
  by (subst (2) make_fcontext_apple_x86_64_def)
    (simp del: fun_upd_apply cong: bind_weak_cong add: x86_run x64_makeable_def x64_made_cells_def
      x64_made_def x64_entry_sp_def x64_made_mem_def x64_kept_def)

lemma x64_made_ctx:
  assumes "mxcsr_ok (mxcsr s)"
  shows "\<exists>k. x64_ctx b (x64_made_mem fin s) (x64_made s) = (k, xr s RDX, x64_entry_sp s)"
    "x64_made_mem fin s (x64_entry_sp s) = fin" "x64_ready b (x64_made_mem fin s) (x64_made s)"
    "a \<notin> x64_made_cells s \<Longrightarrow> x64_made_mem fin s a = xmem s a"
  using assms by (auto simp: x64_ctx_def x64_made_mem_def x64_made_def x64_entry_sp_def addr_simps
      x86_simps x64_ready_def get_put_bits get_put_bits_other x64_made_cells_def)

lemma make_x64_law:
  assumes "x64_makeable s" and "\<exists>s'. call = Some (Goto (xmem s (xr s RSP)), s')
    \<and> x64_kept True s' = x64_kept True s \<and> xr s' RSP = xr s RSP + 8 \<and> xr s' RAX = x64_made s
    \<and> xmem s' = x64_made_mem fin s"
  shows "\<exists>k s'. call = Some (Goto (xmem s (xr s RSP)), s')
    \<and> x64_kept True s' = x64_kept True s \<and> xr s' RSP = xr s RSP + 8 \<and> xr s' RAX = x64_made s
    \<and> x64_ctx b (xmem s') (x64_made s) = (k, xr s RDX, x64_entry_sp s)
    \<and> xmem s' (x64_entry_sp s) = fin \<and> x64_ready b (xmem s') (x64_made s)
    \<and> (\<forall>a. a \<notin> x64_made_cells s \<longrightarrow> xmem s' a = xmem s a)"
proof -
  have ok: "mxcsr_ok (mxcsr s)" using assms(1) by (simp add: x64_makeable_def)
  from x64_made_ctx(1) [OF ok] obtain k where
    "x64_ctx b (x64_made_mem fin s) (x64_made s) = (k, xr s RDX, x64_entry_sp s)" by blast
  moreover from assms(2) obtain s' where "call = Some (Goto (xmem s (xr s RSP)), s')"
    "x64_kept True s' = x64_kept True s" "xr s' RSP = xr s RSP + 8" "xr s' RAX = x64_made s"
    "xmem s' = x64_made_mem fin s" by blast
  ultimately show ?thesis
    using x64_made_ctx(2-4) [OF ok] by (intro exI [of _ k] exI [of _ s']) simp
qed

text \<open>
  A function that returns comes to \<open>finish\<close>, which ends the process with status 0.
\<close>

lemma finish_x64_linux:
  fixes s :: "u64 xstate"
  assumes "aligned (xr s RSP)"
  shows "\<exists>s'. xrun adr make_fcontext_linux_x86_64 (from_label ''finish'' make_fcontext_linux_x86_64) s
    = Some (External ''_exit'', s') \<and> xr s' RDI = 0"
  using assms by (simp del: fun_upd_apply cong: bind_weak_cong add: x86_run xrun_label
      arg_cong [OF make_fcontext_linux_x86_64_def, of "from_label ''finish''", simplified])

lemma finish_x64_apple:
  fixes s :: "u64 xstate"
  assumes "aligned (xr s RSP)"
  shows "\<exists>s'. xrun adr make_fcontext_apple_x86_64 (from_label ''finish'' make_fcontext_apple_x86_64) s
    = Some (External ''__exit'', s') \<and> xr s' RDI = 0"
  using assms by (simp del: fun_upd_apply cong: bind_weak_cong add: x86_run xrun_label
      arg_cong [OF make_fcontext_apple_x86_64_def, of "from_label ''finish''", simplified])

interpretation x64: context_jump "xcall adr jump_fcontext_linux_x86_64" xmem "\<lambda>s. xr s RSP"
  "\<lambda>s. xmem s (xr s RSP)" "\<lambda>s. xr s RSP + 8" "\<lambda>s. xr s RAX" "\<lambda>s. xr s RDI" x64_kept "\<lambda>k m p. m p"
  "\<lambda>s. xr s RDI" "\<lambda>s. xr s RSI" "\<lambda>s. xr s RDX" "\<lambda>s. xr s RCX \<noteq> 0" x64_handle x64_area x64_touched
  x64_ctx x64_ready x64_callable for adr
  by unfold_locales ((rule jump_x64_switches x64_ctx_local; assumption) | rule refl | assumption)+

interpretation linux_x64: context_make "xcall adr jump_fcontext_linux_x86_64" xmem "\<lambda>s. xr s RSP"
  "\<lambda>s. xmem s (xr s RSP)" "\<lambda>s. xr s RSP + 8" "\<lambda>s. xr s RAX" "\<lambda>s. xr s RDI" x64_kept "\<lambda>k m p. m p"
  "\<lambda>s. xr s RDI" "\<lambda>s. xr s RSI" "\<lambda>s. xr s RDX" "\<lambda>s. xr s RCX \<noteq> 0" x64_handle x64_area x64_touched
  x64_ctx x64_ready x64_callable "xcall adr' make_fcontext_linux_x86_64" "\<lambda>s. xr s RDX" x64_made
  x64_made_cells x64_entry_sp "lab_addr adr' make_fcontext_linux_x86_64 ''finish''" x64_makeable
  for adr adr'
  by unfold_locales (rule make_x64_law [OF _ make_x64_linux]; assumption)

interpretation apple_x64: context_make "xcall adr jump_fcontext_linux_x86_64" xmem "\<lambda>s. xr s RSP"
  "\<lambda>s. xmem s (xr s RSP)" "\<lambda>s. xr s RSP + 8" "\<lambda>s. xr s RAX" "\<lambda>s. xr s RDI" x64_kept "\<lambda>k m p. m p"
  "\<lambda>s. xr s RDI" "\<lambda>s. xr s RSI" "\<lambda>s. xr s RDX" "\<lambda>s. xr s RCX \<noteq> 0" x64_handle x64_area x64_touched
  x64_ctx x64_ready x64_callable "xcall adr' make_fcontext_apple_x86_64" "\<lambda>s. xr s RDX" x64_made
  x64_made_cells x64_entry_sp "lab_addr adr' make_fcontext_apple_x86_64 ''finish''" x64_makeable
  for adr adr'
  by unfold_locales (rule make_x64_law [OF _ make_x64_apple]; assumption)

end
