(* ===== verification/Fcontext_I386.thy ===== *)
theory Fcontext_I386
  imports Fcontext X86
begin

section \<open>Context switching on i386, System V calling convention\<close>

text \<open>
  \<open>jump_fcontext\<close> and \<open>make_fcontext\<close> of \<open>src/src/libcontext.c\<close> for Linux and for Apple systems
  on i386. The arguments are on the stack, above the return address. The register names are
  those of the 64-bit processor, \<open>RAX\<close> being \<open>eax\<close>.
\<close>

definition jump_fcontext_linux_i386 :: "xinstr list" where
  "jump_fcontext_linux_i386 = [
    MOV (Mem 0x10 RSP) (Reg RCX), PUSH RBP, PUSH RBX, PUSH RSI, PUSH RDI,
    LEA (Mem (-0x8) RSP) RSP, TEST RCX RCX, JE ''1'', STMXCSR (Mem 0 RSP), FNSTCW (Mem 0x4 RSP),
    LABEL ''1'', MOV (Mem 0x1c RSP) (Reg RAX), MOV (Reg RSP) (Mem 0 RAX),
    MOV (Mem 0x20 RSP) (Reg RDX), MOV (Mem 0x24 RSP) (Reg RAX), MOV (Reg RDX) (Reg RSP),
    TEST RCX RCX, JE ''2'', LDMXCSR (Mem 0 RSP), FLDCW (Mem 0x4 RSP), LABEL ''2'',
    LEA (Mem 0x8 RSP) RSP, POP RDI, POP RSI, POP RBX, POP RBP, POP RDX,
    MOV (Reg RAX) (Mem 0x4 RSP), JMPR RDX]"

definition make_fcontext_linux_i386 :: "xinstr list" where
  "make_fcontext_linux_i386 = [
    MOV (Mem 0x4 RSP) (Reg RAX), LEA (Mem (-0x8) RAX) RAX, ANDL (Imm (-16)) RAX,
    LEA (Mem (-0x20) RAX) RAX, MOV (Mem 0xc RSP) (Reg RDX), MOV (Reg RDX) (Mem 0x18 RAX),
    STMXCSR (Mem 0 RAX), FNSTCW (Mem 0x4 RAX), CALL ''1'', LABEL ''1'', POP RCX,
    ADD (Dist ''finish'' ''1'') RCX, MOV (Reg RCX) (Mem 0x1c RAX), RET, LABEL ''finish'',
    CALL ''2'', LABEL ''2'', POP RBX, ADD (Sym ''_GLOBAL_OFFSET_TABLE_+[.-2b]'') RBX,
    XORL RAX RAX, MOV (Reg RAX) (Mem 0 RSP), CALL_EXT ''_exit'', HLT]"

definition jump_fcontext_apple_i386 :: "xinstr list" where
  "jump_fcontext_apple_i386 = [
    MOV (Mem 0x10 RSP) (Reg RCX), PUSH RBP, PUSH RBX, PUSH RSI, PUSH RDI,
    LEA (Mem (-0x8) RSP) RSP, TEST RCX RCX, JE ''1'', STMXCSR (Mem 0 RSP), FNSTCW (Mem 0x4 RSP),
    LABEL ''1'', MOV (Mem 0x1c RSP) (Reg RAX), MOV (Reg RSP) (Mem 0 RAX),
    MOV (Mem 0x20 RSP) (Reg RDX), MOV (Mem 0x24 RSP) (Reg RAX), MOV (Reg RDX) (Reg RSP),
    TEST RCX RCX, JE ''2'', LDMXCSR (Mem 0 RSP), FLDCW (Mem 0x4 RSP), LABEL ''2'',
    LEA (Mem 0x8 RSP) RSP, POP RDI, POP RSI, POP RBX, POP RBP, POP RDX,
    MOV (Reg RAX) (Mem 0x4 RSP), JMPR RDX]"

definition make_fcontext_apple_i386 :: "xinstr list" where
  "make_fcontext_apple_i386 = [
    MOV (Mem 0x4 RSP) (Reg RAX), LEA (Mem (-0x8) RAX) RAX, ANDL (Imm (-16)) RAX,
    LEA (Mem (-0x20) RAX) RAX, MOV (Mem 0xc RSP) (Reg RDX), MOV (Reg RDX) (Mem 0x18 RAX),
    STMXCSR (Mem 0 RAX), FNSTCW (Mem 0x4 RAX), CALL ''1'', LABEL ''1'', POP RCX,
    ADD (Dist ''finish'' ''1'') RCX, MOV (Reg RCX) (Mem 0x1c RAX), RET, LABEL ''finish'',
    XORL RAX RAX, MOV (Reg RAX) (Mem 0 RSP), CALL_EXT ''__exit'', HLT]"

text \<open>The two systems have the same \<open>jump_fcontext\<close>.\<close>

lemma jump_fcontext_apple_i386: "jump_fcontext_apple_i386 = jump_fcontext_linux_i386"
  by (simp add: jump_fcontext_apple_i386_def jump_fcontext_linux_i386_def)

subsection \<open>The saved context\<close>

text \<open>
  Seven cells: control words, \<open>edi\<close>, \<open>esi\<close>, \<open>ebx\<close>, \<open>ebp\<close> and the address to go on at.
  Above them are the arguments of the call that saved the context; taking it up stores the
  passed value in the second of them, which is the first argument of a function that is started.
\<close>

definition i386_area :: "u32 \<Rightarrow> u32 set" where
  "i386_area h = {h, h + 4, h + 8, h + 12, h + 16, h + 20, h + 24}"

definition i386_kept :: "bool \<Rightarrow> u32 xstate \<Rightarrow> u32 list \<times> (u32 \<times> u16) option" where
  "i386_kept b s = (map (xr s) [RDI, RSI, RBX, RBP],
     if b then Some (mxcsr s, fpucw s) else None)"

definition i386_ctx ::
  "bool \<Rightarrow> (u32 \<Rightarrow> u32) \<Rightarrow> u32 \<Rightarrow> (u32 list \<times> (u32 \<times> u16) option) \<times> u32 \<times> u32" where
  "i386_ctx b m h = ((map m [h + 8, h + 12, h + 16, h + 20],
     if b then Some (get_bits 32 0 (m h), get_bits 16 0 (m (h + 4))) else None), m (h + 24), h + 28)"

definition i386_ready :: "bool \<Rightarrow> (u32 \<Rightarrow> u32) \<Rightarrow> u32 \<Rightarrow> bool" where
  "i386_ready b m h \<longleftrightarrow> aligned h \<and> (b \<longrightarrow> mxcsr_ok (get_bits 32 0 (m h)))"

definition i386_arg :: "u32 \<Rightarrow> u32 xstate \<Rightarrow> u32" where
  "i386_arg d s = xmem s (xr s RSP + d)"

definition i386_handle :: "u32 xstate \<Rightarrow> u32" where
  "i386_handle s = xr s RSP - 24"

definition i386_touched :: "u32 xstate \<Rightarrow> u32 set" where
  "i386_touched s = insert (i386_arg 4 s) (insert (i386_arg 8 s + 32) (i386_area (i386_handle s)))"

text \<open>
  The cells of the two contexts, the cell for the passed value, \<open>*ofc\<close> and the arguments that
  are read after \<open>*ofc\<close> is written have to be apart.
\<close>

definition i386_callable :: "u32 xstate \<Rightarrow> bool" where
  "i386_callable s \<longleftrightarrow> aligned (xr s RSP) \<and> aligned (i386_arg 4 s) \<and> mxcsr_ok (mxcsr s)
     \<and> i386_area (i386_handle s) \<inter> i386_area (i386_arg 8 s) = {}
     \<and> i386_arg 4 s \<notin> i386_area (i386_handle s) \<union> i386_area (i386_arg 8 s)
     \<and> i386_arg 4 s \<notin> {xr s RSP + 8, xr s RSP + 12}
     \<and> i386_arg 8 s + 32 \<notin> insert (i386_arg 4 s) (i386_area (i386_handle s))"

subsection \<open>Execution of \<open>jump_fcontext\<close>\<close>

text \<open>The memory after the caller's context is saved.\<close>

definition i386_frame :: "u32 xstate \<Rightarrow> u32 \<Rightarrow> u32" where
  "i386_frame s = (let p = xr s RSP; m = (xmem s)(p - 4 := xr s RBP, p - 8 := xr s RBX,
      p - 12 := xr s RSI, p - 16 := xr s RDI) in
    if i386_arg 16 s = 0 then m
    else m(p - 24 := put_bits 32 0 (mxcsr s) (xmem s (p - 24)),
           p - 20 := put_bits 16 0 (fpucw s) (xmem s (p - 20))))"

lemmas jump_i386_1 = arg_cong [OF jump_fcontext_linux_i386_def, of "from_label ''1''", simplified]
lemmas jump_i386_2 = arg_cong [OF jump_fcontext_linux_i386_def, of "from_label ''2''", simplified]

lemma jump_i386_save:
  assumes "aligned (xr s RSP)"
  shows "xrun adr jump_fcontext_linux_i386 jump_fcontext_linux_i386 s =
    xrun adr jump_fcontext_linux_i386 (from_label ''1'' jump_fcontext_linux_i386)
      (s\<lparr>xr := (xr s)(RCX := i386_arg 16 s, RSP := i386_handle s), xmem := i386_frame s,
         zf := (i386_arg 16 s = 0)\<rparr>)"
  using assms
  by (subst (2) jump_fcontext_linux_i386_def, cases "i386_arg 16 s = 0")
    (simp_all del: fun_upd_apply cong: bind_weak_cong
      add: x86_run i386_frame_def i386_handle_def i386_arg_def jump_i386_1 [symmetric])

lemma jump_i386_load:
  fixes s :: "u32 xstate"
  defines "m \<equiv> (xmem s)(xmem s (xr s RSP + 0x1c) := xr s RSP)"
    and "n \<equiv> xmem s (xr s RSP + 0x20)"
  assumes "aligned (xr s RSP)" "aligned (xmem s (xr s RSP + 0x1c))" "aligned n"
    "xr s RSP + 0x20 \<noteq> xmem s (xr s RSP + 0x1c)" "xr s RSP + 0x24 \<noteq> xmem s (xr s RSP + 0x1c)"
    "xr s RCX \<noteq> 0 \<longrightarrow> mxcsr_ok (get_bits 32 0 (m n))"
  shows "xrun adr jump_fcontext_linux_i386 (from_label ''1'' jump_fcontext_linux_i386) s =
    xrun adr jump_fcontext_linux_i386 (from_label ''2'' jump_fcontext_linux_i386)
      (s\<lparr>xr := (xr s)(RDX := n, RAX := xmem s (xr s RSP + 0x24), RSP := n), xmem := m,
         zf := (xr s RCX = 0),
         mxcsr := (if xr s RCX = 0 then mxcsr s else get_bits 32 0 (m n)),
         fpucw := (if xr s RCX = 0 then fpucw s else get_bits 16 0 (m (n + 4)))\<rparr>)"
  using assms
  by (subst jump_i386_1, cases "xr s RCX = 0")
    (simp_all del: fun_upd_apply cong: bind_weak_cong
      add: x86_run xrun_label jump_i386_2 [symmetric])

lemma jump_i386_resume:
  fixes s :: "u32 xstate"
  assumes "aligned (xr s RSP)"
  shows "xrun adr jump_fcontext_linux_i386 (from_label ''2'' jump_fcontext_linux_i386) s =
    Some (Goto (xmem s (xr s RSP + 24)), s\<lparr>xr := (xr s)(
      RDI := xmem s (xr s RSP + 8), RSI := xmem s (xr s RSP + 12), RBX := xmem s (xr s RSP + 16),
      RBP := xmem s (xr s RSP + 20), RSP := xr s RSP + 28, RDX := xmem s (xr s RSP + 24)),
      xmem := (xmem s)(xr s RSP + 32 := xr s RAX)\<rparr>)"
  using assms
  by (subst jump_i386_2)
    (simp del: fun_upd_apply cong: bind_weak_cong add: x86_run xrun_label)

lemma i386_frame_other: "a \<notin> i386_area (i386_handle s) \<Longrightarrow> i386_frame s a = xmem s a"
  by (auto simp: i386_area_def i386_frame_def i386_handle_def Let_def addr_simps)

lemma i386_frame_ctx:
  "i386_ctx (i386_arg 16 s \<noteq> 0) (i386_frame s) (i386_handle s)
    = (i386_kept (i386_arg 16 s \<noteq> 0) s, xmem s (xr s RSP), xr s RSP + 4)"
  by (simp add: i386_ctx_def i386_frame_def i386_handle_def Let_def addr_simps i386_kept_def
      get_put_bits)

lemma i386_ctx_local:
  "(\<And>a. a \<in> i386_area h \<Longrightarrow> m a = m' a) \<Longrightarrow>
    i386_ctx b m h = i386_ctx b m' h \<and> i386_ready b m h = i386_ready b m' h"
  by (simp add: i386_ctx_def i386_ready_def i386_area_def)

lemma jump_i386:
  assumes "i386_callable s" "i386_ready (i386_arg 16 s \<noteq> 0) (xmem s) (i386_arg 8 s)"
  defines "m \<equiv> (i386_frame s)(i386_arg 4 s := i386_handle s)"
  shows "\<exists>s'. xcall adr jump_fcontext_linux_i386 s = Some (Goto (m (i386_arg 8 s + 24)), s')
    \<and> i386_kept (i386_arg 16 s \<noteq> 0) s' = fst (i386_ctx (i386_arg 16 s \<noteq> 0) m (i386_arg 8 s))
    \<and> xr s' RSP = i386_arg 8 s + 28 \<and> xmem s' = m(i386_arg 8 s + 32 := i386_arg 12 s)
    \<and> xr s' RAX = i386_arg 12 s"
proof -
  have args: "i386_frame s (xr s RSP + 4) = i386_arg 4 s" "i386_frame s (xr s RSP + 8) = i386_arg 8 s"
    "i386_frame s (xr s RSP + 12) = i386_arg 12 s"
    by (simp_all add: i386_arg_def i386_frame_def Let_def addr_simps)
  have "i386_ctx b m (i386_arg 8 s) = i386_ctx b (xmem s) (i386_arg 8 s)
      \<and> i386_ready b m (i386_arg 8 s) = i386_ready b (xmem s) (i386_arg 8 s)" for b
    using assms(1)
    by (intro i386_ctx_local) (auto simp: i386_callable_def m_def disjoint_iff intro!: i386_frame_other)
  then have "i386_ready (i386_arg 16 s \<noteq> 0) m (i386_arg 8 s)" using assms(2) by simp
  moreover have "aligned (xr s RSP)" "aligned (i386_arg 4 s)"
    "xr s RSP + 8 \<noteq> i386_arg 4 s" "xr s RSP + 12 \<noteq> i386_arg 4 s"
    using assms(1) by (auto simp: i386_callable_def)
  ultimately show ?thesis
    using args
    by (cases "i386_arg 16 s = 0") (simp_all del: fun_upd_apply add: fun_upd_same fun_upd_other
       xcall_def jump_i386_save jump_i386_load jump_i386_resume i386_kept_def i386_ctx_def addr_simps
       cell_bytes_simps i386_handle_def m_def i386_ready_def)
qed

lemma jump_i386_switches:
  assumes "i386_callable s" "i386_ready (i386_arg 16 s \<noteq> 0) (xmem s) (i386_arg 8 s)"
  shows "\<exists>p s'. xcall adr jump_fcontext_linux_i386 s = Some (Goto p, s')
    \<and> (i386_kept (i386_arg 16 s \<noteq> 0) s', p, xr s' RSP)
      = i386_ctx (i386_arg 16 s \<noteq> 0) (xmem s) (i386_arg 8 s)
    \<and> xr s' RAX = i386_arg 12 s \<and> i386_arg 4 s' = i386_arg 12 s
    \<and> xmem s' (i386_arg 4 s) = i386_handle s
    \<and> i386_ctx (i386_arg 16 s \<noteq> 0) (xmem s') (i386_handle s)
      = (i386_kept (i386_arg 16 s \<noteq> 0) s, xmem s (xr s RSP), xr s RSP + 4)
    \<and> i386_ready (i386_arg 16 s \<noteq> 0) (xmem s') (i386_handle s)
    \<and> (\<forall>a. a \<notin> i386_touched s \<longrightarrow> xmem s' a = xmem s a)"
proof -
  let ?b = "i386_arg 16 s \<noteq> 0" and ?n = "i386_arg 8 s" and ?h = "i386_handle s"
  define m where "m = (i386_frame s)(i386_arg 4 s := ?h)"
  define m' where "m' = m(?n + 32 := i386_arg 12 s)"
  have apart: "i386_area ?h \<inter> i386_area ?n = {}" "i386_arg 4 s \<notin> i386_area ?h"
    "i386_arg 4 s \<notin> i386_area ?n" "?n + 32 \<notin> i386_area ?h" "?n + 32 \<noteq> i386_arg 4 s"
    "aligned (xr s RSP)" "mxcsr_ok (mxcsr s)"
    using assms(1) by (auto simp: i386_callable_def)
  have "i386_ctx ?b m ?n = i386_ctx ?b (xmem s) ?n \<and> i386_ready ?b m ?n = i386_ready ?b (xmem s) ?n"
    using apart by (intro i386_ctx_local) (auto simp: m_def disjoint_iff intro!: i386_frame_other)
  moreover have "i386_ctx ?b m' ?h = i386_ctx ?b (i386_frame s) ?h
      \<and> i386_ready ?b m' ?h = i386_ready ?b (i386_frame s) ?h"
    using apart by (intro i386_ctx_local) (auto simp: m_def m'_def)
  moreover have "i386_ready ?b (i386_frame s) ?h"
    using apart by (simp add: i386_ready_def i386_frame_def i386_handle_def Let_def addr_simps
        x86_simps get_put_bits)
  moreover have "a \<notin> i386_touched s \<Longrightarrow> m' a = xmem s a" for a
    by (simp add: m_def m'_def i386_touched_def i386_frame_other)
  moreover obtain s' where "xcall adr jump_fcontext_linux_i386 s = Some (Goto (m (?n + 24)), s')"
    "i386_kept ?b s' = fst (i386_ctx ?b m ?n)" "xr s' RSP = ?n + 28" "xmem s' = m'"
    "xr s' RAX = i386_arg 12 s"
    using jump_i386 [OF assms, of adr] by (auto simp: m_def m'_def simp del: fun_upd_apply)
  moreover have "m' (i386_arg 4 s) = ?h" "m' (?n + 28 + 4) = i386_arg 12 s"
    using apart by (auto simp: m_def m'_def addr_simps)
  moreover have "i386_ctx ?b m ?n = (fst (i386_ctx ?b m ?n), m (?n + 24), ?n + 28)"
    by (simp add: i386_ctx_def)
  ultimately show ?thesis by (metis i386_frame_ctx i386_arg_def)
qed

subsection \<open>Execution of \<open>make_fcontext\<close>\<close>

definition i386_made :: "u32 xstate \<Rightarrow> u32" where
  "i386_made s = (i386_arg 4 s - 8 AND - 16) - 0x20"

definition i386_entry_sp :: "u32 xstate \<Rightarrow> u32" where
  "i386_entry_sp s = (i386_arg 4 s - 8 AND - 16) - 4"

definition i386_made_cells :: "u32 xstate \<Rightarrow> u32 set" where
  "i386_made_cells s = {i386_made s, i386_made s + 4, i386_made s + 0x18, i386_entry_sp s, xr s RSP - 4}"

text \<open>
  \<open>call 1f\<close> uses the cell below the stack pointer, which must not be one of the new context.
\<close>

definition i386_makeable :: "u32 xstate \<Rightarrow> bool" where
  "i386_makeable s \<longleftrightarrow> aligned (xr s RSP) \<and> mxcsr_ok (mxcsr s)
     \<and> xr s RSP \<notin> i386_made_cells s \<and> xr s RSP - 4 \<notin> insert (i386_entry_sp s) (i386_area (i386_made s))"

definition i386_made_mem :: "u32 \<Rightarrow> u32 \<Rightarrow> u32 xstate \<Rightarrow> u32 \<Rightarrow> u32" where
  "i386_made_mem pc fin s = (xmem s)(i386_made s + 0x18 := i386_arg 12 s,
     i386_made s := put_bits 32 0 (mxcsr s) (xmem s (i386_made s)),
     i386_made s + 4 := put_bits 16 0 (fpucw s) (xmem s (i386_made s + 4)),
     xr s RSP - 4 := pc, i386_entry_sp s := fin)"

lemmas i386_make_defs = i386_makeable_def i386_made_cells_def i386_arg_def i386_made_def
  i386_entry_sp_def i386_made_mem_def i386_kept_def

lemma make_i386_linux:
  assumes "i386_makeable s"
  shows "\<exists>s'. xcall adr make_fcontext_linux_i386 s = Some (Goto (xmem s (xr s RSP)), s')
    \<and> i386_kept True s' = i386_kept True s \<and> xr s' RSP = xr s RSP + 4 \<and> xr s' RAX = i386_made s
    \<and> xmem s' = i386_made_mem (lab_addr adr make_fcontext_linux_i386 ''1'')
        (lab_addr adr make_fcontext_linux_i386 ''finish'') s"
proof -
  have [simp]: "length make_fcontext_linux_i386 = 23"
    "lab_addr adr make_fcontext_linux_i386 ''1'' = adr 9"
    by (simp_all add: lab_addr_def make_fcontext_linux_i386_def numeral_eq_Suc)
  show ?thesis
    using assms unfolding xcall_def
    by (subst (2) make_fcontext_linux_i386_def) (simp del: fun_upd_apply cong: bind_weak_cong
        add: x86_run xrun_label i386_make_defs
        arg_cong [OF make_fcontext_linux_i386_def, of "from_label ''1''", simplified])
qed

lemma make_i386_apple:
  assumes "i386_makeable s"
  shows "\<exists>s'. xcall adr make_fcontext_apple_i386 s = Some (Goto (xmem s (xr s RSP)), s')
    \<and> i386_kept True s' = i386_kept True s \<and> xr s' RSP = xr s RSP + 4 \<and> xr s' RAX = i386_made s
    \<and> xmem s' = i386_made_mem (lab_addr adr make_fcontext_apple_i386 ''1'')
        (lab_addr adr make_fcontext_apple_i386 ''finish'') s"
proof -
  have [simp]: "length make_fcontext_apple_i386 = 19"
    "lab_addr adr make_fcontext_apple_i386 ''1'' = adr 9"
    by (simp_all add: lab_addr_def make_fcontext_apple_i386_def numeral_eq_Suc)
  show ?thesis
    using assms unfolding xcall_def
    by (subst (2) make_fcontext_apple_i386_def) (simp del: fun_upd_apply cong: bind_weak_cong
        add: x86_run xrun_label i386_make_defs
        arg_cong [OF make_fcontext_apple_i386_def, of "from_label ''1''", simplified])
qed

lemma i386_made_ctx:
  assumes "i386_makeable s"
  shows "\<exists>k. i386_ctx b (i386_made_mem pc fin s) (i386_made s) = (k, i386_arg 12 s, i386_entry_sp s)"
    "i386_made_mem pc fin s (i386_entry_sp s) = fin" "i386_ready b (i386_made_mem pc fin s) (i386_made s)"
    "a \<notin> i386_made_cells s \<Longrightarrow> i386_made_mem pc fin s a = xmem s a"
  using assms by (auto simp: i386_ctx_def i386_make_defs addr_simps x86_simps i386_ready_def
      get_put_bits i386_area_def)

lemma make_i386_law:
  assumes "i386_makeable s" and "\<exists>s'. call = Some (Goto (xmem s (xr s RSP)), s')
    \<and> i386_kept True s' = i386_kept True s \<and> xr s' RSP = xr s RSP + 4 \<and> xr s' RAX = i386_made s
    \<and> xmem s' = i386_made_mem pc fin s"
  shows "\<exists>k s'. call = Some (Goto (xmem s (xr s RSP)), s')
    \<and> i386_kept True s' = i386_kept True s \<and> xr s' RSP = xr s RSP + 4 \<and> xr s' RAX = i386_made s
    \<and> i386_ctx b (xmem s') (i386_made s) = (k, i386_arg 12 s, i386_entry_sp s)
    \<and> xmem s' (i386_entry_sp s) = fin \<and> i386_ready b (xmem s') (i386_made s)
    \<and> (\<forall>a. a \<notin> i386_made_cells s \<longrightarrow> xmem s' a = xmem s a)"
proof -
  from i386_made_ctx(1) [OF assms(1)] obtain k where
    "i386_ctx b (i386_made_mem pc fin s) (i386_made s) = (k, i386_arg 12 s, i386_entry_sp s)" by blast
  moreover from assms(2) obtain s' where "call = Some (Goto (xmem s (xr s RSP)), s')"
    "i386_kept True s' = i386_kept True s" "xr s' RSP = xr s RSP + 4" "xr s' RAX = i386_made s"
    "xmem s' = i386_made_mem pc fin s" by blast
  ultimately show ?thesis
    using i386_made_ctx(2-4) [OF assms(1)] by (intro exI [of _ k] exI [of _ s']) simp
qed

text \<open>
  A function that returns comes to \<open>finish\<close>, which ends the process with status 0.
\<close>

lemma finish_i386_linux:
  fixes s :: "u32 xstate"
  assumes "aligned (xr s RSP)"
  shows "\<exists>s'. xrun adr make_fcontext_linux_i386 (from_label ''finish'' make_fcontext_linux_i386) s
    = Some (External ''_exit'', s') \<and> i386_arg 4 s' = 0"
  using assms by (simp del: fun_upd_apply cong: bind_weak_cong add: x86_run xrun_label i386_arg_def
      arg_cong [OF make_fcontext_linux_i386_def, of "from_label ''finish''", simplified]
      arg_cong [OF make_fcontext_linux_i386_def, of "from_label ''2''", simplified])

lemma finish_i386_apple:
  fixes s :: "u32 xstate"
  assumes "aligned (xr s RSP)"
  shows "\<exists>s'. xrun adr make_fcontext_apple_i386 (from_label ''finish'' make_fcontext_apple_i386) s
    = Some (External ''__exit'', s') \<and> i386_arg 4 s' = 0"
  using assms by (simp del: fun_upd_apply cong: bind_weak_cong add: x86_run xrun_label i386_arg_def
      arg_cong [OF make_fcontext_apple_i386_def, of "from_label ''finish''", simplified]
      arg_cong [OF make_fcontext_apple_i386_def, of "from_label ''2''", simplified])

interpretation i386: context_jump "xcall adr jump_fcontext_linux_i386" xmem "\<lambda>s. xr s RSP"
  "\<lambda>s. xmem s (xr s RSP)" "\<lambda>s. xr s RSP + 4" "\<lambda>s. xr s RAX" "i386_arg 4" i386_kept "\<lambda>k m p. m p"
  "i386_arg 4" "i386_arg 8" "i386_arg 12" "\<lambda>s. i386_arg 16 s \<noteq> 0" i386_handle i386_area i386_touched
  i386_ctx i386_ready i386_callable for adr
  by unfold_locales ((rule jump_i386_switches i386_ctx_local; assumption) | rule refl | assumption)+

interpretation linux_i386: context_make "xcall adr jump_fcontext_linux_i386" xmem "\<lambda>s. xr s RSP"
  "\<lambda>s. xmem s (xr s RSP)" "\<lambda>s. xr s RSP + 4" "\<lambda>s. xr s RAX" "i386_arg 4" i386_kept "\<lambda>k m p. m p"
  "i386_arg 4" "i386_arg 8" "i386_arg 12" "\<lambda>s. i386_arg 16 s \<noteq> 0" i386_handle i386_area i386_touched
  i386_ctx i386_ready i386_callable "xcall adr' make_fcontext_linux_i386" "i386_arg 12" i386_made
  i386_made_cells i386_entry_sp "lab_addr adr' make_fcontext_linux_i386 ''finish''" i386_makeable
  for adr adr'
  by unfold_locales (rule make_i386_law [OF _ make_i386_linux]; assumption)

interpretation apple_i386: context_make "xcall adr jump_fcontext_linux_i386" xmem "\<lambda>s. xr s RSP"
  "\<lambda>s. xmem s (xr s RSP)" "\<lambda>s. xr s RSP + 4" "\<lambda>s. xr s RAX" "i386_arg 4" i386_kept "\<lambda>k m p. m p"
  "i386_arg 4" "i386_arg 8" "i386_arg 12" "\<lambda>s. i386_arg 16 s \<noteq> 0" i386_handle i386_area i386_touched
  i386_ctx i386_ready i386_callable "xcall adr' make_fcontext_apple_i386" "i386_arg 12" i386_made
  i386_made_cells i386_entry_sp "lab_addr adr' make_fcontext_apple_i386 ''finish''" i386_makeable
  for adr adr'
  by unfold_locales (rule make_i386_law [OF _ make_i386_apple]; assumption)

end
