(* ===== verification/Fcontext_Win64.thy ===== *)
theory Fcontext_Win64
  imports Fcontext X86
begin

section \<open>Context switching on x86-64 Windows\<close>

text \<open>
  \<open>jump_fcontext\<close> and \<open>make_fcontext\<close> of \<open>src/src/libcontext.c\<close> for Windows on x86-64. Besides the
  registers, a context holds four fields of the thread environment block, which describe the
  stack a thread runs on: \<open>%gs:0x30\<close> holds the address of the block.
\<close>

definition jump_fcontext_windows_x86_64 :: "xinstr list" where
  "jump_fcontext_windows_x86_64 = [
    PUSH RBP, PUSH RBX, PUSH RSI, PUSH RDI, PUSH R15, PUSH R14, PUSH R13, PUSH R12,
    MOV (Seg 0x30) (Reg R10), MOV (Mem 0x8 R10) (Reg RAX), PUSH RAX,
    MOV (Mem 0x10 R10) (Reg RAX), PUSH RAX, MOV (Mem 0x1478 R10) (Reg RAX), PUSH RAX,
    MOV (Mem 0x18 R10) (Reg RAX), PUSH RAX, LEA (Mem (-0xa8) RSP) RSP, TEST R9 R9, JE ''nxt1'',
    STMXCSR (Mem 0xa0 RSP), FNSTCW (Mem 0xa4 RSP), MOVAPS_ST 6 (Mem 0 RSP),
    MOVAPS_ST 7 (Mem 0x10 RSP), MOVAPS_ST 8 (Mem 0x20 RSP), MOVAPS_ST 9 (Mem 0x30 RSP),
    MOVAPS_ST 10 (Mem 0x40 RSP), MOVAPS_ST 11 (Mem 0x50 RSP), MOVAPS_ST 12 (Mem 0x60 RSP),
    MOVAPS_ST 13 (Mem 0x70 RSP), MOVAPS_ST 14 (Mem 0x80 RSP), MOVAPS_ST 15 (Mem 0x90 RSP),
    LABEL ''nxt1'', XORL R10 R10, PUSH R10, MOV (Reg RSP) (Mem 0 RCX), MOV (Reg RDX) (Reg RSP),
    POP R10, TEST R9 R9, JE ''nxt2'', LDMXCSR (Mem 0xa0 RSP), FLDCW (Mem 0xa4 RSP),
    MOVAPS_LD (Mem 0 RSP) 6, MOVAPS_LD (Mem 0x10 RSP) 7, MOVAPS_LD (Mem 0x20 RSP) 8,
    MOVAPS_LD (Mem 0x30 RSP) 9, MOVAPS_LD (Mem 0x40 RSP) 10, MOVAPS_LD (Mem 0x50 RSP) 11,
    MOVAPS_LD (Mem 0x60 RSP) 12, MOVAPS_LD (Mem 0x70 RSP) 13, MOVAPS_LD (Mem 0x80 RSP) 14,
    MOVAPS_LD (Mem 0x90 RSP) 15, LABEL ''nxt2'', MOV (Imm 0xa8) (Reg RCX), TEST R10 R10,
    JE ''nxt3'', ADD (Imm 0x8) RCX, LABEL ''nxt3'', LEA (Idx RSP RCX) RSP,
    MOV (Seg 0x30) (Reg R10), POP RAX, MOV (Reg RAX) (Mem 0x18 R10), POP RAX,
    MOV (Reg RAX) (Mem 0x1478 R10), POP RAX, MOV (Reg RAX) (Mem 0x10 R10), POP RAX,
    MOV (Reg RAX) (Mem 0x8 R10), POP R12, POP R13, POP R14, POP R15, POP RDI, POP RSI, POP RBX,
    POP RBP, POP R10, MOV (Reg R8) (Reg RAX), MOV (Reg R8) (Reg RCX), JMPR R10]"

definition make_fcontext_windows_x86_64 :: "xinstr list" where
  "make_fcontext_windows_x86_64 = [
    MOV (Reg RCX) (Reg RAX), SUB (Imm 0x28) RAX, ANDL (Imm 0xfffffffffffffff0) RAX,
    SUB (Imm 0x128) RAX, MOV (Reg R8) (Mem 0x118 RAX), MOV (Reg RCX) (Mem 0xd0 RAX), NEG RDX,
    LEA (Idx RCX RDX) RCX, MOV (Reg RCX) (Mem 0xc8 RAX), MOV (Reg RCX) (Mem 0xc0 RAX),
    STMXCSR (Mem 0xa8 RAX), FNSTCW (Mem 0xac RAX), LEA (Lab ''finish'') RCX,
    MOV (Reg RCX) (Mem 0x120 RAX), MOV (Imm 0x1) (Reg RCX), MOV (Reg RCX) (Mem 0 RAX), RET,
    LABEL ''finish'', XORL RCX RCX, CALL_ABS 0x63, HLT]"

subsection \<open>The saved context\<close>

text \<open>
  A flag, ten SSE registers, the control words, the fields of the thread environment block, the
  registers and the address to go on at. The flag is 0 in a context that \<open>jump_fcontext\<close> saved;
  \<open>make_fcontext\<close> sets it to 1 and lays out the part above the control words one cell higher.
\<close>

definition win64_area :: "u64 \<Rightarrow> u64 set" where
  "win64_area h = {h, h + 0x8, h + 0x10, h + 0x18, h + 0x20, h + 0x28, h + 0x30, h + 0x38, h + 0x40, h +
     0x48, h + 0x50, h + 0x58, h + 0x60, h + 0x68, h + 0x70, h + 0x78, h + 0x80, h + 0x88, h +
     0x90, h + 0x98, h + 0xa0, h + 0xa8, h + 0xb0, h + 0xb8, h + 0xc0, h + 0xc8, h + 0xd0, h +
     0xd8, h + 0xe0, h + 0xe8, h + 0xf0, h + 0xf8, h + 0x100, h + 0x108, h + 0x110, h + 0x118}"

definition win64_teb :: "u64 \<Rightarrow> u64 set" where
  "win64_teb t = {t + 8, t + 0x10, t + 0x18, t + 0x1478}"

definition win64_kept :: "bool \<Rightarrow> u64 xstate \<Rightarrow> u64 list \<times> (u32 \<times> u16 \<times> (u64 \<times> u64) list) option" where
  "win64_kept b s = (map (\<lambda>d. xmem s (segbase s + d)) [0x18, 0x1478, 0x10, 8]
      @ map (xr s) [R12, R13, R14, R15, RDI, RSI, RBX, RBP],
     if b then Some (mxcsr s, fpucw s, map (xmm s) [6, 7, 8, 9, 10, 11, 12, 13, 14, 15]) else None)"

definition win64_base :: "(u64 \<Rightarrow> u64) \<Rightarrow> u64 \<Rightarrow> u64" where
  "win64_base m h = (if m h = 0 then h + 0xb0 else h + 0xb8)"

definition win64_xmm :: "(u64 \<Rightarrow> u64) \<Rightarrow> u64 \<Rightarrow> (u64 \<times> u64) list" where
  "win64_xmm m q = map (\<lambda>(d, e). (m (q + d), m (q + e)))
     [(0, 8), (0x10, 0x18), (0x20, 0x28), (0x30, 0x38), (0x40, 0x48), (0x50, 0x58), (0x60, 0x68),
      (0x70, 0x78), (0x80, 0x88), (0x90, 0x98)]"

definition win64_ctx :: "bool \<Rightarrow> (u64 \<Rightarrow> u64) \<Rightarrow> u64
    \<Rightarrow> (u64 list \<times> (u32 \<times> u16 \<times> (u64 \<times> u64) list) option) \<times> u64 \<times> u64" where
  "win64_ctx b m h = (let q = win64_base m h in
    ((map (\<lambda>d. m (q + d)) [0, 8, 0x10, 0x18, 0x20, 0x28, 0x30, 0x38, 0x40, 0x48, 0x50, 0x58],
      if b then Some (get_bits 32 0 (m (h + 0xa8)), get_bits 16 32 (m (h + 0xa8)),
        win64_xmm m (h + 8)) else None),
     m (q + 0x60), q + 0x68))"

definition win64_ready :: "bool \<Rightarrow> (u64 \<Rightarrow> u64) \<Rightarrow> u64 \<Rightarrow> bool" where
  "win64_ready b m h \<longleftrightarrow> unat (h + 8) mod 16 = 0 \<and> (b \<longrightarrow> mxcsr_ok (get_bits 32 0 (m (h + 0xa8))))"

definition win64_handle :: "u64 xstate \<Rightarrow> u64" where
  "win64_handle s = xr s RSP - 0x110"

definition win64_touched :: "u64 xstate \<Rightarrow> u64 set" where
  "win64_touched s = insert (xr s RCX) (win64_area (win64_handle s) \<union> win64_teb (segbase s))"

text \<open>
  The stack pointer is 8 below a multiple of 16, as it is at the entry of every function. The
  cells of the two contexts, \<open>*ofc\<close> and the fields of the environment block are apart.
\<close>

definition win64_callable :: "u64 xstate \<Rightarrow> bool" where
  "win64_callable s \<longleftrightarrow> unat (xr s RSP + 8) mod 16 = 0 \<and> aligned (xr s RCX) \<and> mxcsr_ok (mxcsr s)
     \<and> aligned (segbase s) \<and> xmem s (segbase s + 0x30) = segbase s
     \<and> win64_area (win64_handle s) \<inter> win64_area (xr s RDX) = {}
     \<and> insert (segbase s + 0x30) (win64_teb (segbase s)) \<inter>
       insert (xr s RCX) (win64_area (win64_handle s) \<union> win64_area (xr s RDX)) = {}
     \<and> xr s RCX \<notin> win64_area (win64_handle s) \<union> win64_area (xr s RDX)"

subsection \<open>Execution of \<open>jump_fcontext\<close>\<close>

definition win64_push :: "u64 xstate \<Rightarrow> u64 \<Rightarrow> u64" where
  "win64_push s = (let p = xr s RSP; t = segbase s in
     (xmem s)(p - 8 := xr s RBP, p - 0x10 := xr s RBX, p - 0x18 := xr s RSI, p - 0x20 := xr s RDI,
       p - 0x28 := xr s R15, p - 0x30 := xr s R14, p - 0x38 := xr s R13, p - 0x40 := xr s R12,
       p - 0x48 := xmem s (t + 8), p - 0x50 := xmem s (t + 0x10), p - 0x58 := xmem s (t + 0x1478),
       p - 0x60 := xmem s (t + 0x18)))"

definition win64_fpu :: "u64 xstate \<Rightarrow> u64 \<Rightarrow> u64" where
  "win64_fpu s = (let p = xr s RSP in (win64_push s)(
     p - 0x68 := put_bits 16 32 (fpucw s) (put_bits 32 0 (mxcsr s) (xmem s (p - 0x68))),
     p - 0x108 := fst (xmm s 6), p - 0x100 := snd (xmm s 6), p - 0xf8 := fst (xmm s 7), p - 0xf0
     := snd (xmm s 7), p - 0xe8 := fst (xmm s 8), p - 0xe0 := snd (xmm s 8), p - 0xd8 := fst (xmm
     s 9), p - 0xd0 := snd (xmm s 9), p - 0xc8 := fst (xmm s 10), p - 0xc0 := snd (xmm s 10), p -
     0xb8 := fst (xmm s 11), p - 0xb0 := snd (xmm s 11), p - 0xa8 := fst (xmm s 12), p - 0xa0 :=
     snd (xmm s 12), p - 0x98 := fst (xmm s 13), p - 0x90 := snd (xmm s 13), p - 0x88 := fst (xmm
     s 14), p - 0x80 := snd (xmm s 14), p - 0x78 := fst (xmm s 15), p - 0x70 := snd (xmm s 15)))"

definition win64_frame :: "u64 xstate \<Rightarrow> u64 \<Rightarrow> u64" where
  "win64_frame s = (if xr s R9 = 0 then win64_push s else win64_fpu s)(win64_handle s := 0)"

lemmas jump_win64_1 = arg_cong [OF jump_fcontext_windows_x86_64_def, of "from_label ''nxt1''", simplified]
lemmas jump_win64_2 = arg_cong [OF jump_fcontext_windows_x86_64_def, of "from_label ''nxt2''", simplified]
lemmas jump_win64_3 = arg_cong [OF jump_fcontext_windows_x86_64_def, of "from_label ''nxt3''", simplified]

lemma unat_mod_16_odd:
  assumes "unat (a + 8 :: u64) mod 16 = 0"
  shows "unat (a + numeral n) mod 16 = unat (numeral n - 8 :: u64) mod 16"
    "unat (a - numeral n) mod 16 = unat (- numeral n - 8 :: u64) mod 16" "aligned a"
proof -
  have add: "unat (a + x) mod 16 = unat (x - 8) mod 16" for x
    using unat_mod_16_add [OF assms, of "x - 8"] by simp
  show "unat (a + numeral n) mod 16 = unat (numeral n - 8 :: u64) mod 16" by (rule add)
  show "unat (a - numeral n) mod 16 = unat (- numeral n - 8 :: u64) mod 16"
    using add [of "- numeral n"] by (simp only: add_uminus_conv_diff)
  have "unat a mod 16 = 8" using add [of 0] by simp
  then have "unat a mod 8 = 0" by presburger
  then show "aligned a" by (simp add: aligned_def cell_off_def cell_bytes_def)
qed

lemma jump_win64_save:
  assumes "unat (xr s RSP + 8) mod 16 = 0" "aligned (segbase s)" "xmem s (segbase s + 0x30) = segbase s"
   "segbase s + 0x30 \<notin> win64_area (win64_handle s)"
   "segbase s + 0x8 \<notin> win64_area (win64_handle s)"
   "segbase s + 0x10 \<notin> win64_area (win64_handle s)"
   "segbase s + 0x18 \<notin> win64_area (win64_handle s)"
   "segbase s + 0x1478 \<notin> win64_area (win64_handle s)"
  shows "xrun adr jump_fcontext_windows_x86_64 jump_fcontext_windows_x86_64 s =
    xrun adr jump_fcontext_windows_x86_64 (from_label ''nxt1'' jump_fcontext_windows_x86_64)
      (s\<lparr>xr := (xr s)(R10 := segbase s, RAX := xmem s (segbase s + 0x18), RSP := xr s RSP - 0x108),
         xmem := (if xr s R9 = 0 then win64_push s else win64_fpu s), zf := (xr s R9 = 0)\<rparr>)"
  using assms 
  apply (subst (2) jump_fcontext_windows_x86_64_def, cases "xr s R9 = 0")
  apply (simp_all del: fun_upd_apply cong: bind_weak_cong
      add: x86_run unat_mod_16_odd win64_push_def win64_fpu_def win64_area_def win64_handle_def jump_win64_1 [symmetric])
  done

lemma jump_win64_load:
  fixes s :: "u64 xstate"
  defines "m \<equiv> (xmem s)(xr s RSP - 8 := 0, xr s RCX := xr s RSP - 8)" and "n \<equiv> xr s RDX"
  assumes "aligned (xr s RSP)" "aligned (xr s RCX)" "unat (n + 8) mod 16 = 0"
    "xr s R9 \<noteq> 0 \<longrightarrow> mxcsr_ok (get_bits 32 0 (m (n + 0xa8)))"
  shows "xrun adr jump_fcontext_windows_x86_64 (from_label ''nxt1'' jump_fcontext_windows_x86_64) s =
    xrun adr jump_fcontext_windows_x86_64 (from_label ''nxt2'' jump_fcontext_windows_x86_64)
      (s\<lparr>xr := (xr s)(RSP := n + 8, R10 := m n), xmem := m, zf := (xr s R9 = 0),
         mxcsr := (if xr s R9 = 0 then mxcsr s else get_bits 32 0 (m (n + 0xa8))),
         fpucw := (if xr s R9 = 0 then fpucw s else get_bits 16 32 (m (n + 0xa8))),
         xmm := (if xr s R9 = 0 then xmm s else (xmm s)(
           6 := (m (n + 0x8), m (n + 0x10)), 7 := (m (n + 0x18), m (n + 0x20)), 8 := (m (n +
           0x28), m (n + 0x30)), 9 := (m (n + 0x38), m (n + 0x40)), 10 := (m (n + 0x48), m (n +
           0x50)), 11 := (m (n + 0x58), m (n + 0x60)), 12 := (m (n + 0x68), m (n + 0x70)), 13
           := (m (n + 0x78), m (n + 0x80)), 14 := (m (n + 0x88), m (n + 0x90)), 15 := (m (n +
           0x98), m (n + 0xa0))))\<rparr>)"
  using assms
  by (subst jump_win64_1, cases "xr s R9 = 0") (simp_all del: fun_upd_apply cong: bind_weak_cong
      add: x86_run xrun_label unat_mod_16_odd jump_win64_2 [symmetric])

lemma jump_win64_skip:
  fixes s :: "u64 xstate"
  shows "xrun adr jump_fcontext_windows_x86_64 (from_label ''nxt2'' jump_fcontext_windows_x86_64) s =
    xrun adr jump_fcontext_windows_x86_64 (from_label ''nxt3'' jump_fcontext_windows_x86_64)
      (s\<lparr>xr := (xr s)(RCX := (if xr s R10 = 0 then 0xa8 else 0xb0)), zf := (xr s R10 = 0)\<rparr>)"
  by (subst jump_win64_2, cases "xr s R10 = 0") (simp_all del: fun_upd_apply cong: bind_weak_cong
      add: x86_run xrun_label jump_win64_3 [symmetric])

lemma jump_win64_resume:
  fixes s :: "u64 xstate"
  defines "q \<equiv> xr s RSP + xr s RCX" and "t \<equiv> segbase s"
  assumes "aligned q" "aligned t" "xmem s (t + 0x30) = t"
    "\<forall>c\<in>{q, q + 8, q + 0x10, q + 0x18, q + 0x20, q + 0x28, q + 0x30, q + 0x38, q + 0x40,
      q + 0x48, q + 0x50, q + 0x58, q + 0x60}. \<forall>d\<in>win64_teb t. apart c d"
  shows "xrun adr jump_fcontext_windows_x86_64 (from_label ''nxt3'' jump_fcontext_windows_x86_64) s =
    Some (Goto (xmem s (q + 0x60)), s\<lparr>xr := (xr s)(
      R12 := xmem s (q + 0x20), R13 := xmem s (q + 0x28), R14 := xmem s (q + 0x30),
      R15 := xmem s (q + 0x38), RDI := xmem s (q + 0x40), RSI := xmem s (q + 0x48),
      RBX := xmem s (q + 0x50), RBP := xmem s (q + 0x58), RSP := q + 0x68, R10 := xmem s (q + 0x60),
      RAX := xr s R8, RCX := xr s R8),
      xmem := (xmem s)(t + 0x18 := xmem s q, t + 0x1478 := xmem s (q + 8),
        t + 0x10 := xmem s (q + 0x10), t + 8 := xmem s (q + 0x18))\<rparr>)"
  using assms
  by (subst jump_win64_3) (simp del: fun_upd_apply cong: bind_weak_cong
      add: x86_run xrun_label win64_teb_def)

lemma win64_ctx_local:
  assumes "\<And>a. a \<in> win64_area h \<Longrightarrow> m a = m' a"
  shows "win64_ctx b m h = win64_ctx b m' h \<and> win64_ready b m h = win64_ready b m' h"
proof -
  have "\<forall>a\<in>win64_area h. m a = m' a" using assms by blast
  then show ?thesis
    by (cases "m' h = 0") (simp_all add: win64_area_def win64_ctx_def win64_ready_def win64_base_def
        win64_xmm_def Let_def addr_simps)
qed

lemma win64_frame_other:
  assumes "a \<notin> win64_area (win64_handle s)" shows "win64_frame s a = xmem s a"
  using assms by (simp add: win64_area_def win64_handle_def addr_simps win64_frame_def
      win64_push_def win64_fpu_def Let_def)

lemma win64_frame_ctx:
  "win64_ctx (xr s R9 \<noteq> 0) (win64_frame s) (win64_handle s)
    = (win64_kept (xr s R9 \<noteq> 0) s, xmem s (xr s RSP), xr s RSP + 8)"
  by (simp add: win64_ctx_def win64_frame_def win64_handle_def Let_def addr_simps win64_kept_def
      win64_base_def win64_push_def win64_fpu_def win64_xmm_def get_put_bits get_put_bits_other)

lemma win64_frame_ready:
  assumes "unat (xr s RSP + 8) mod 16 = 0" "mxcsr_ok (mxcsr s)"
  shows "win64_ready (xr s R9 \<noteq> 0) (win64_frame s) (win64_handle s)"
  using assms by (simp add: win64_ready_def win64_frame_def win64_handle_def addr_simps
      unat_mod_16_odd win64_fpu_def Let_def get_put_bits get_put_bits_other)

lemma jump_win64:
  fixes s :: "u64 xstate"
  defines "m \<equiv> (win64_frame s)(xr s RCX := win64_handle s)" and "n \<equiv> xr s RDX" and "t \<equiv> segbase s"
  defines "q \<equiv> win64_base m n"
  assumes "win64_callable s" "win64_ready (xr s R9 \<noteq> 0) m n"
  shows "\<exists>s'. xcall adr jump_fcontext_windows_x86_64 s = Some (Goto (m (q + 0x60)), s')
    \<and> win64_kept (xr s R9 \<noteq> 0) s' = fst (win64_ctx (xr s R9 \<noteq> 0) m n)
    \<and> xr s' RSP = q + 0x68 \<and> xr s' RAX = xr s R8 \<and> xr s' RCX = xr s R8
    \<and> xmem s' = m(t + 0x18 := m q, t + 0x1478 := m (q + 8), t + 0x10 := m (q + 0x10), t + 8 := m (q + 0x18))"
proof -
  define s1 where "s1 = s\<lparr>xr := (xr s)(R10 := t, RAX := xmem s (t + 0x18), RSP := xr s RSP - 0x108),
    xmem := (if xr s R9 = 0 then win64_push s else win64_fpu s), zf := (xr s R9 = 0)\<rparr>"
  have 1: "xcall adr jump_fcontext_windows_x86_64 s =
    xrun adr jump_fcontext_windows_x86_64 (from_label ''nxt1'' jump_fcontext_windows_x86_64) s1"
    using assms(5) unfolding xcall_def s1_def t_def
    by (intro jump_win64_save) (auto simp: win64_callable_def win64_teb_def)
  have al: "aligned (xr s RSP)" "unat (n + 8) mod 16 = 0" "aligned n" "aligned t" "aligned q"
    "aligned (xr s RCX)"
    using assms(5,6) unat_mod_16_odd(3) [of "xr s RSP"] unat_mod_16_odd(3) [of n]
    by (auto simp: win64_callable_def win64_ready_def t_def q_def win64_base_def addr_simps x86_simps)
  have m: "(xmem s1)(xr s1 RSP - 8 := 0, xr s1 RCX := xr s1 RSP - 8) = m"
    by (simp add: s1_def m_def win64_frame_def win64_handle_def addr_simps)
  have regs: "xr s1 RDX = n" "xr s1 R9 = xr s R9" "xr s1 R8 = xr s R8" "segbase s1 = t"
    "xr s1 RCX = xr s RCX" "aligned (xr s1 RSP)"
    using al(1) by (simp_all add: s1_def n_def t_def addr_simps x86_simps)
  have teb: "m (t + 0x30) = t"
    using assms(5) by (auto simp: m_def t_def win64_callable_def win64_frame_other)
  have "{q, q + 8, q + 0x10, q + 0x18, q + 0x20, q + 0x28, q + 0x30, q + 0x38, q + 0x40,
      q + 0x48, q + 0x50, q + 0x58, q + 0x60} \<subseteq> win64_area n"
    by (cases "m n = 0") (simp_all add: q_def win64_base_def win64_area_def addr_simps)
  then have ne: "\<forall>c\<in>{q, q + 8, q + 0x10, q + 0x18, q + 0x20, q + 0x28, q + 0x30, q + 0x38, q + 0x40,
      q + 0x48, q + 0x50, q + 0x58, q + 0x60}. \<forall>d\<in>win64_teb t. apart c d"
    using assms(5) unfolding apart_def win64_callable_def n_def t_def by blast
  define s2 where "s2 = s1\<lparr>xr := (xr s1)(RSP := n + 8, R10 := m n), xmem := m, zf := (xr s R9 = 0),
     mxcsr := (if xr s R9 = 0 then mxcsr s1 else get_bits 32 0 (m (n + 0xa8))),
     fpucw := (if xr s R9 = 0 then fpucw s1 else get_bits 16 32 (m (n + 0xa8))),
     xmm := (if xr s R9 = 0 then xmm s1 else (xmm s1)(
       6 := (m (n + 0x8), m (n + 0x10)), 7 := (m (n + 0x18), m (n + 0x20)), 8 := (m (n + 0x28),
       m (n + 0x30)), 9 := (m (n + 0x38), m (n + 0x40)), 10 := (m (n + 0x48), m (n + 0x50)), 11
       := (m (n + 0x58), m (n + 0x60)), 12 := (m (n + 0x68), m (n + 0x70)), 13 := (m (n +
       0x78), m (n + 0x80)), 14 := (m (n + 0x88), m (n + 0x90)), 15 := (m (n + 0x98), m (n +
       0xa0))))\<rparr>"
  define s3 where
    "s3 = s2\<lparr>xr := (xr s2)(RCX := (if xr s2 R10 = 0 then 0xa8 else 0xb0)), zf := (xr s2 R10 = 0)\<rparr>"
  have 2: "xrun adr jump_fcontext_windows_x86_64 (from_label ''nxt1'' jump_fcontext_windows_x86_64) s1
    = xrun adr jump_fcontext_windows_x86_64 (from_label ''nxt3'' jump_fcontext_windows_x86_64) s3"
    using jump_win64_load [of s1 adr, unfolded m, unfolded regs, folded s2_def] al regs(6) assms(6)
      jump_win64_skip [of adr s2, folded s3_def]
    by (simp add: win64_ready_def)
  have 3: "xr s3 RSP + xr s3 RCX = q" "xmem s3 = m" "segbase s3 = t" "xr s3 R8 = xr s R8"
    using regs by (simp_all add: s3_def s2_def q_def win64_base_def addr_simps)
  have fpu: "xr s R9 \<noteq> 0 \<Longrightarrow> mxcsr s3 = get_bits 32 0 (m (n + 0xa8))"
    "xr s R9 \<noteq> 0 \<Longrightarrow> fpucw s3 = get_bits 16 32 (m (n + 0xa8))"
    "xr s R9 \<noteq> 0 \<Longrightarrow> map (xmm s3) [6, 7, 8, 9, 10, 11, 12, 13, 14, 15] = win64_xmm m (n + 8)"
    by (simp_all add: s3_def s2_def win64_xmm_def addr_simps)
  from jump_win64_resume [of s3 adr, unfolded 3, OF al(5,4) teb ne] show ?thesis
    using fpu by (simp add: 1 2 3 win64_kept_def win64_ctx_def q_def [symmetric] Let_def addr_simps)
qed

lemma jump_win64_switches:
  assumes "win64_callable s" "win64_ready (xr s R9 \<noteq> 0) (xmem s) (xr s RDX)"
  shows "\<exists>p s'. xcall adr jump_fcontext_windows_x86_64 s = Some (Goto p, s')
    \<and> (win64_kept (xr s R9 \<noteq> 0) s', p, xr s' RSP) = win64_ctx (xr s R9 \<noteq> 0) (xmem s) (xr s RDX)
    \<and> xr s' RAX = xr s R8 \<and> xr s' RCX = xr s R8
    \<and> xmem s' (xr s RCX) = win64_handle s
    \<and> win64_ctx (xr s R9 \<noteq> 0) (xmem s') (win64_handle s)
      = (win64_kept (xr s R9 \<noteq> 0) s, xmem s (xr s RSP), xr s RSP + 8)
    \<and> win64_ready (xr s R9 \<noteq> 0) (xmem s') (win64_handle s)
    \<and> (\<forall>a. a \<notin> win64_touched s \<longrightarrow> xmem s' a = xmem s a)"
proof -
  let ?b = "xr s R9 \<noteq> 0" and ?n = "xr s RDX" and ?h = "win64_handle s" and ?t = "segbase s"
  define m where "m = (win64_frame s)(xr s RCX := ?h)"
  define q where "q = win64_base m ?n"
  define m' where
    "m' = m(?t + 0x18 := m q, ?t + 0x1478 := m (q + 8), ?t + 0x10 := m (q + 0x10), ?t + 8 := m (q + 0x18))"
  have apart: "win64_area ?h \<inter> win64_area ?n = {}" "xr s RCX \<notin> win64_area ?h"
    "xr s RCX \<notin> win64_area ?n" "win64_teb ?t \<inter> win64_area ?h = {}" "xr s RCX \<notin> win64_teb ?t"
    "unat (xr s RSP + 8) mod 16 = 0" "mxcsr_ok (mxcsr s)"
    using assms(1) unfolding win64_callable_def by blast+
  have m': "a \<notin> win64_teb ?t \<Longrightarrow> m' a = m a" for a
    by (simp add: m'_def win64_teb_def)
  have "win64_ctx ?b m ?n = win64_ctx ?b (xmem s) ?n \<and> win64_ready ?b m ?n = win64_ready ?b (xmem s) ?n"
    using apart by (intro win64_ctx_local) (auto simp: m_def disjoint_iff intro!: win64_frame_other)
  moreover have "win64_ctx ?b m' ?h = win64_ctx ?b (win64_frame s) ?h
      \<and> win64_ready ?b m' ?h = win64_ready ?b (win64_frame s) ?h"
    using apart by (intro win64_ctx_local) (subst m', auto simp: m_def)
  moreover have "a \<notin> win64_touched s \<Longrightarrow> m' a = xmem s a" for a
    by (simp add: m' m_def win64_touched_def win64_frame_other)
  moreover obtain s' where
    "xcall adr jump_fcontext_windows_x86_64 s = Some (Goto (m (q + 0x60)), s')"
    "win64_kept ?b s' = fst (win64_ctx ?b m ?n)" "xr s' RSP = q + 0x68" "xmem s' = m'"
    "xr s' RAX = xr s R8" "xr s' RCX = xr s R8"
    using jump_win64 [OF assms(1), of adr] assms(2) calculation(1)
    by (auto simp: m_def m'_def q_def simp del: fun_upd_apply)
  moreover have "m' (xr s RCX) = ?h"
    using apart(5) by (simp add: m' m_def)
  moreover have "win64_ctx ?b m ?n = (fst (win64_ctx ?b m ?n), m (q + 0x60), q + 0x68)"
    by (simp add: win64_ctx_def q_def Let_def)
  ultimately show ?thesis
    by (metis win64_frame_ctx win64_frame_ready [OF apart(6,7)])
qed

subsection \<open>Execution of \<open>make_fcontext\<close>\<close>

definition win64_made :: "u64 xstate \<Rightarrow> u64" where
  "win64_made s = (xr s RCX - 0x28 AND - 16) - 0x128"

definition win64_entry_sp :: "u64 xstate \<Rightarrow> u64" where
  "win64_entry_sp s = (xr s RCX - 0x28 AND - 16) - 8"

definition win64_made_cells :: "u64 xstate \<Rightarrow> u64 set" where
  "win64_made_cells s = (let h = win64_made s in
     {h, h + 0xa8, h + 0xc0, h + 0xc8, h + 0xd0, h + 0x118, win64_entry_sp s})"

definition win64_makeable :: "u64 xstate \<Rightarrow> bool" where
  "win64_makeable s \<longleftrightarrow> aligned (xr s RSP) \<and> mxcsr_ok (mxcsr s) \<and> xr s RSP \<notin> win64_made_cells s
     \<and> win64_teb (segbase s) \<inter> win64_made_cells s = {}"

text \<open>
  The new context gets the fields of the environment block that describe its stack: the top, the
  limit and the address to free.
\<close>

definition win64_made_mem :: "u64 \<Rightarrow> u64 xstate \<Rightarrow> u64 \<Rightarrow> u64" where
  "win64_made_mem fin s = (let h = win64_made s in (xmem s)(h + 0x118 := xr s R8, h + 0xd0 := xr s RCX,
     h + 0xc8 := xr s RCX - xr s RDX, h + 0xc0 := xr s RCX - xr s RDX,
     h + 0xa8 := put_bits 16 32 (fpucw s) (put_bits 32 0 (mxcsr s) (xmem s (h + 0xa8))),
     win64_entry_sp s := fin, h := 1))"

lemmas win64_make_defs = win64_makeable_def win64_made_cells_def win64_made_def win64_entry_sp_def
  win64_made_mem_def Let_def

lemma make_win64:
  assumes "win64_makeable s"
  shows "\<exists>s'. xcall adr make_fcontext_windows_x86_64 s = Some (Goto (xmem s (xr s RSP)), s')
    \<and> segbase s' = segbase s \<and> map (xr s') [R12, R13, R14, R15, RDI, RSI, RBX, RBP]
      = map (xr s) [R12, R13, R14, R15, RDI, RSI, RBX, RBP]
    \<and> mxcsr s' = mxcsr s \<and> fpucw s' = fpucw s \<and> xmm s' = xmm s
    \<and> xr s' RSP = xr s RSP + 8 \<and> xr s' RAX = win64_made s
    \<and> xmem s' = win64_made_mem (lab_addr adr make_fcontext_windows_x86_64 ''finish'') s"
proof -
  have m16: "(0xfffffffffffffff0 :: u64) = - 16" by simp
  show ?thesis using assms unfolding xcall_def
    by (subst (2) make_fcontext_windows_x86_64_def)
      (simp del: fun_upd_apply cong: bind_weak_cong add: x86_run m16 win64_make_defs)
qed

lemma win64_made_ctx:
  assumes "win64_makeable s"
  shows "\<exists>k. win64_ctx b (win64_made_mem fin s) (win64_made s) = (k, xr s R8, win64_entry_sp s)"
    "win64_made_mem fin s (win64_entry_sp s) = fin" "win64_ready b (win64_made_mem fin s) (win64_made s)"
    "a \<notin> win64_made_cells s \<Longrightarrow> win64_made_mem fin s a = xmem s a"
proof -
  have r: "unat ((xr s RCX - 0x28 AND - 16) - 0x120) mod 16 = 0"
    using unat_mod_16_add [OF unat_and_minus_16, of "xr s RCX - 0x28" "- 0x120"] by simp
  show "\<exists>k. win64_ctx b (win64_made_mem fin s) (win64_made s) = (k, xr s R8, win64_entry_sp s)"
    "win64_made_mem fin s (win64_entry_sp s) = fin"
    by (simp_all add: win64_ctx_def win64_base_def win64_make_defs addr_simps)
  show "win64_ready b (win64_made_mem fin s) (win64_made s)"
    using assms r
    by (simp add: win64_ready_def win64_make_defs addr_simps get_put_bits get_put_bits_other)
  show "a \<notin> win64_made_cells s \<Longrightarrow> win64_made_mem fin s a = xmem s a"
    by (simp add: win64_make_defs)
qed

lemma make_win64_law:
  assumes "win64_makeable s"
  shows "\<exists>k s'. xcall adr make_fcontext_windows_x86_64 s = Some (Goto (xmem s (xr s RSP)), s')
    \<and> win64_kept True s' = win64_kept True s \<and> xr s' RSP = xr s RSP + 8 \<and> xr s' RAX = win64_made s
    \<and> win64_ctx b (xmem s') (win64_made s) = (k, xr s R8, win64_entry_sp s)
    \<and> xmem s' (win64_entry_sp s) = lab_addr adr make_fcontext_windows_x86_64 ''finish''
    \<and> win64_ready b (xmem s') (win64_made s)
    \<and> (\<forall>a. a \<notin> win64_made_cells s \<longrightarrow> xmem s' a = xmem s a)"
proof -
  let ?fin = "lab_addr adr make_fcontext_windows_x86_64 ''finish''"
  from win64_made_ctx(1) [OF assms] obtain k where
    k: "win64_ctx b (win64_made_mem ?fin s) (win64_made s) = (k, xr s R8, win64_entry_sp s)" by blast
  from make_win64 [OF assms] obtain s' where
    s': "xcall adr make_fcontext_windows_x86_64 s = Some (Goto (xmem s (xr s RSP)), s')"
      "segbase s' = segbase s" "map (xr s') [R12, R13, R14, R15, RDI, RSI, RBX, RBP]
        = map (xr s) [R12, R13, R14, R15, RDI, RSI, RBX, RBP]"
      "mxcsr s' = mxcsr s" "fpucw s' = fpucw s" "xmm s' = xmm s" "xr s' RSP = xr s RSP + 8"
      "xr s' RAX = win64_made s" "xmem s' = win64_made_mem ?fin s" by blast
  have teb: "\<forall>a\<in>win64_teb (segbase s). a \<notin> win64_made_cells s"
    using assms unfolding win64_makeable_def by blast
  then have "win64_kept True s' = win64_kept True s"
    using s' win64_made_ctx(4) [OF assms] by (simp add: win64_kept_def win64_teb_def)
  then show ?thesis
    using k s' win64_made_ctx(2-4) [OF assms] by (intro exI [of _ k] exI [of _ s']) simp
qed

text \<open>
  A function that returns comes to \<open>finish\<close>. There, \<open>callq 0x63\<close> calls the address \<open>0x63\<close>, where
  the other platforms call \<open>_exit\<close>.
\<close>

lemma finish_win64:
  fixes s :: "u64 xstate"
  assumes "aligned (xr s RSP)"
  shows "\<exists>s'. xrun adr make_fcontext_windows_x86_64
      (from_label ''finish'' make_fcontext_windows_x86_64) s = Some (Goto 0x63, s') \<and> xr s' RCX = 0"
  using assms by (simp del: fun_upd_apply cong: bind_weak_cong add: x86_run xrun_label
      arg_cong [OF make_fcontext_windows_x86_64_def, of "from_label ''finish''", simplified])

interpretation win64: context_make "xcall adr jump_fcontext_windows_x86_64" xmem "\<lambda>s. xr s RSP"
  "\<lambda>s. xmem s (xr s RSP)" "\<lambda>s. xr s RSP + 8" "\<lambda>s. xr s RAX" "\<lambda>s. xr s RCX" win64_kept "\<lambda>k m p. m p"
  "\<lambda>s. xr s RCX" "\<lambda>s. xr s RDX" "\<lambda>s. xr s R8" "\<lambda>s. xr s R9 \<noteq> 0" win64_handle win64_area win64_touched
  win64_ctx win64_ready win64_callable "xcall adr' make_fcontext_windows_x86_64" "\<lambda>s. xr s R8" win64_made
  win64_made_cells win64_entry_sp "lab_addr adr' make_fcontext_windows_x86_64 ''finish''" win64_makeable
  for adr adr'
  by unfold_locales
    ((rule jump_win64_switches win64_ctx_local make_win64_law; assumption) | rule refl | assumption)+

end
