(* ===== verification/Fcontext_Win32.thy ===== *)
theory Fcontext_Win32
  imports Fcontext X86
begin

section \<open>Context switching on i386 Windows\<close>

text \<open>
  \<open>jump_fcontext\<close> and \<open>make_fcontext\<close> of \<open>src/src/libcontext.c\<close> for Windows on i386. The arguments
  are on the stack. A context holds five fields of the thread environment block, whose address
  is at \<open>%fs:0x18\<close>: the head of the list of exception handlers and the description of the stack.
  \<open>make_fcontext\<close> walks the list of exception handlers to its last record and gives the new
  context a list of its own, with the handler of that record.
\<close>

definition jump_fcontext_windows_i386 :: "xinstr list" where
  "jump_fcontext_windows_i386 = [
    MOV (Mem 0x10 RSP) (Reg RCX), PUSH RBP, PUSH RBX, PUSH RSI, PUSH RDI,
    MOV (Seg 0x18) (Reg RDX), MOV (Mem 0 RDX) (Reg RAX), PUSH RAX, MOV (Mem 0x4 RDX) (Reg RAX),
    PUSH RAX, MOV (Mem 0x8 RDX) (Reg RAX), PUSH RAX, MOV (Mem 0xe0c RDX) (Reg RAX), PUSH RAX,
    MOV (Mem 0x10 RDX) (Reg RAX), PUSH RAX, LEA (Mem (-0x8) RSP) RSP, TEST RCX RCX, JE ''nxt1'',
    STMXCSR (Mem 0 RSP), FNSTCW (Mem 0x4 RSP), LABEL ''nxt1'', MOV (Mem 0x30 RSP) (Reg RAX),
    MOV (Reg RSP) (Mem 0 RAX), MOV (Mem 0x34 RSP) (Reg RDX), MOV (Mem 0x38 RSP) (Reg RAX),
    MOV (Reg RDX) (Reg RSP), TEST RCX RCX, JE ''nxt2'', LDMXCSR (Mem 0 RSP), FLDCW (Mem 0x4 RSP),
    LABEL ''nxt2'', LEA (Mem 0x8 RSP) RSP, MOV (Seg 0x18) (Reg RDX), POP RCX,
    MOV (Reg RCX) (Mem 0x10 RDX), POP RCX, MOV (Reg RCX) (Mem 0xe0c RDX), POP RCX,
    MOV (Reg RCX) (Mem 0x8 RDX), POP RCX, MOV (Reg RCX) (Mem 0x4 RDX), POP RCX,
    MOV (Reg RCX) (Mem 0 RDX), POP RDI, POP RSI, POP RBX, POP RBP, POP RDX,
    MOV (Reg RAX) (Mem 0x4 RSP), JMPR RDX]"

definition make_fcontext_windows_i386 :: "xinstr list" where
  "make_fcontext_windows_i386 = [
    MOV (Mem 0x4 RSP) (Reg RAX), LEA (Mem (-0x8) RAX) RAX, ANDL (Imm 0xfffffff0) RAX,
    LEA (Mem (-0x3c) RAX) RAX, MOV (Mem 0x4 RSP) (Reg RCX), MOV (Reg RCX) (Mem 0x14 RAX),
    MOV (Mem 0x8 RSP) (Reg RDX), NEG RDX, LEA (Idx RCX RDX) RCX, MOV (Reg RCX) (Mem 0x10 RAX),
    MOV (Reg RCX) (Mem 0xc RAX), MOV (Mem 0xc RSP) (Reg RCX), MOV (Reg RCX) (Mem 0x2c RAX),
    STMXCSR (Mem 0 RAX), FNSTCW (Mem 0x4 RAX), MOV (Lab ''finish'') (Reg RCX),
    MOV (Reg RCX) (Mem 0x30 RAX), MOV (Seg 0x0) (Reg RCX), LABEL ''walk'',
    MOV (Mem 0 RCX) (Reg RDX), INC RDX, JE ''found'', DEC RDX, XCHG RDX RCX, JMP ''walk'',
    LABEL ''found'', MOV (Mem 0x4 RCX) (Reg RCX), MOV (Reg RCX) (Mem 0x3c RAX),
    MOV (Imm 0xffffffff) (Reg RCX), MOV (Reg RCX) (Mem 0x38 RAX), LEA (Mem 0x38 RAX) RCX,
    MOV (Reg RCX) (Mem 0x18 RAX), RET, LABEL ''finish'', XORL RAX RAX, MOV (Reg RAX) (Mem 0 RSP),
    CALL_EXT ''_exit'', HLT]"

subsection \<open>The saved context\<close>

text \<open>
  Twelve cells: control words, the fields of the environment block, \<open>edi\<close>, \<open>esi\<close>, \<open>ebx\<close>, \<open>ebp\<close>
  and the address to go on at. Taking up the context stores the passed value eight bytes above
  that address.
\<close>

definition win32_area :: "u32 \<Rightarrow> u32 set" where
  "win32_area h = {h, h + 4, h + 8, h + 12, h + 16, h + 20, h + 24, h + 28, h + 32, h + 36, h + 40, h + 44}"

definition win32_teb :: "u32 \<Rightarrow> u32 set" where
  "win32_teb t = {t, t + 4, t + 8, t + 0x10, t + 0xe0c}"

definition win32_kept :: "bool \<Rightarrow> u32 xstate \<Rightarrow> u32 list \<times> (u32 \<times> u16) option" where
  "win32_kept b s = (map (\<lambda>d. xmem s (segbase s + d)) [0x10, 0xe0c, 8, 4, 0] @ map (xr s) [RDI, RSI, RBX, RBP],
     if b then Some (mxcsr s, fpucw s) else None)"

definition win32_ctx ::
  "bool \<Rightarrow> (u32 \<Rightarrow> u32) \<Rightarrow> u32 \<Rightarrow> (u32 list \<times> (u32 \<times> u16) option) \<times> u32 \<times> u32" where
  "win32_ctx b m h = ((map m [h + 8, h + 12, h + 16, h + 20, h + 24, h + 28, h + 32, h + 36, h + 40],
     if b then Some (get_bits 32 0 (m h), get_bits 16 0 (m (h + 4))) else None), m (h + 44), h + 48)"

definition win32_ready :: "bool \<Rightarrow> (u32 \<Rightarrow> u32) \<Rightarrow> u32 \<Rightarrow> bool" where
  "win32_ready b m h \<longleftrightarrow> aligned h \<and> (b \<longrightarrow> mxcsr_ok (get_bits 32 0 (m h)))"

definition win32_arg :: "u32 \<Rightarrow> u32 xstate \<Rightarrow> u32" where
  "win32_arg d s = xmem s (xr s RSP + d)"

definition win32_handle :: "u32 xstate \<Rightarrow> u32" where
  "win32_handle s = xr s RSP - 44"

definition win32_touched :: "u32 xstate \<Rightarrow> u32 set" where
  "win32_touched s = insert (win32_arg 4 s) (insert (win32_arg 8 s + 52)
     (win32_area (win32_handle s) \<union> win32_teb (segbase s)))"

definition win32_callable :: "u32 xstate \<Rightarrow> bool" where
  "win32_callable s \<longleftrightarrow> aligned (xr s RSP) \<and> aligned (win32_arg 4 s) \<and> mxcsr_ok (mxcsr s)
     \<and> aligned (segbase s) \<and> xmem s (segbase s + 0x18) = segbase s
     \<and> win32_area (win32_handle s) \<inter> win32_area (win32_arg 8 s) = {}
     \<and> win32_arg 4 s \<notin> win32_area (win32_handle s) \<union> win32_area (win32_arg 8 s)
     \<and> win32_arg 4 s \<notin> {xr s RSP + 8, xr s RSP + 12}
     \<and> win32_arg 8 s + 52 \<notin> insert (win32_arg 4 s) (win32_area (win32_handle s))
     \<and> insert (segbase s + 0x18) (win32_teb (segbase s)) \<inter> insert (win32_arg 4 s)
       (insert (win32_arg 8 s + 52) (win32_area (win32_handle s) \<union> win32_area (win32_arg 8 s))) = {}"

subsection \<open>Execution of \<open>jump_fcontext\<close>\<close>

definition win32_frame :: "u32 xstate \<Rightarrow> u32 \<Rightarrow> u32" where
  "win32_frame s = (let p = xr s RSP; t = segbase s;
     m = (xmem s)(p - 4 := xr s RBP, p - 8 := xr s RBX, p - 12 := xr s RSI, p - 16 := xr s RDI,
       p - 20 := xmem s t, p - 24 := xmem s (t + 4), p - 28 := xmem s (t + 8),
       p - 32 := xmem s (t + 0xe0c), p - 36 := xmem s (t + 0x10)) in
    if win32_arg 16 s = 0 then m
    else m(p - 44 := put_bits 32 0 (mxcsr s) (xmem s (p - 44)),
           p - 40 := put_bits 16 0 (fpucw s) (xmem s (p - 40))))"

lemmas jump_win32_1 = arg_cong [OF jump_fcontext_windows_i386_def, of "from_label ''nxt1''", simplified]
lemmas jump_win32_2 = arg_cong [OF jump_fcontext_windows_i386_def, of "from_label ''nxt2''", simplified]

lemma jump_win32_save:
  fixes s :: "u32 xstate"
  defines "t \<equiv> segbase s"
  assumes "aligned (xr s RSP)" "aligned t" "xmem s (t + 0x18) = t"
    "\<forall>d\<in>insert (t + 0x18) (win32_teb t). \<forall>c\<in>win32_area (win32_handle s). apart d c"
  shows "xrun adr jump_fcontext_windows_i386 jump_fcontext_windows_i386 s =
    xrun adr jump_fcontext_windows_i386 (from_label ''nxt1'' jump_fcontext_windows_i386)
      (s\<lparr>xr := (xr s)(RCX := win32_arg 16 s, RDX := t, RAX := xmem s (t + 0x10), RSP := win32_handle s),
         xmem := win32_frame s, zf := (win32_arg 16 s = 0)\<rparr>)"
  using assms
  by (subst (2) jump_fcontext_windows_i386_def, cases "win32_arg 16 s = 0")
    (simp_all del: fun_upd_apply cong: bind_weak_cong
      add: x86_run win32_frame_def win32_handle_def win32_teb_def win32_area_def win32_arg_def
        jump_win32_1 [symmetric])

lemma jump_win32_load:
  fixes s :: "u32 xstate"
  defines "m \<equiv> (xmem s)(xmem s (xr s RSP + 0x30) := xr s RSP)"
    and "n \<equiv> xmem s (xr s RSP + 0x34)"
  assumes "aligned (xr s RSP)" "aligned (xmem s (xr s RSP + 0x30))" "aligned n"
    "xr s RSP + 0x34 \<noteq> xmem s (xr s RSP + 0x30)" "xr s RSP + 0x38 \<noteq> xmem s (xr s RSP + 0x30)"
    "xr s RCX \<noteq> 0 \<longrightarrow> mxcsr_ok (get_bits 32 0 (m n))"
  shows "xrun adr jump_fcontext_windows_i386 (from_label ''nxt1'' jump_fcontext_windows_i386) s =
    xrun adr jump_fcontext_windows_i386 (from_label ''nxt2'' jump_fcontext_windows_i386)
      (s\<lparr>xr := (xr s)(RDX := n, RAX := xmem s (xr s RSP + 0x38), RSP := n), xmem := m,
         zf := (xr s RCX = 0),
         mxcsr := (if xr s RCX = 0 then mxcsr s else get_bits 32 0 (m n)),
         fpucw := (if xr s RCX = 0 then fpucw s else get_bits 16 0 (m (n + 4)))\<rparr>)"
  using assms
  by (subst jump_win32_1, cases "xr s RCX = 0")
    (simp_all del: fun_upd_apply cong: bind_weak_cong
      add: x86_run xrun_label jump_win32_2 [symmetric])

lemma jump_win32_resume:
  fixes s :: "u32 xstate"
  defines "q \<equiv> xr s RSP" and "t \<equiv> segbase s"
  assumes "aligned q" "aligned t" "xmem s (t + 0x18) = t"
    "\<forall>c\<in>win32_area q. \<forall>d\<in>win32_teb t. apart c d"
  shows "xrun adr jump_fcontext_windows_i386 (from_label ''nxt2'' jump_fcontext_windows_i386) s =
    Some (Goto (xmem s (q + 44)), s\<lparr>xr := (xr s)(
      RCX := xmem s (q + 24), RDI := xmem s (q + 28), RSI := xmem s (q + 32), RBX := xmem s (q + 36),
      RBP := xmem s (q + 40), RSP := q + 48, RDX := xmem s (q + 44)),
      xmem := (xmem s)(t + 0x10 := xmem s (q + 8), t + 0xe0c := xmem s (q + 12),
        t + 8 := xmem s (q + 16), t + 4 := xmem s (q + 20), t := xmem s (q + 24),
        q + 52 := xr s RAX)\<rparr>)"
  using assms
  by (subst jump_win32_2)
    (simp del: fun_upd_apply cong: bind_weak_cong
      add: x86_run xrun_label win32_teb_def win32_area_def)

lemma win32_frame_other: "a \<notin> win32_area (win32_handle s) \<Longrightarrow> win32_frame s a = xmem s a"
  by (auto simp: win32_area_def win32_frame_def win32_handle_def Let_def addr_simps)

lemma win32_frame_ctx:
  "win32_ctx (win32_arg 16 s \<noteq> 0) (win32_frame s) (win32_handle s)
    = (win32_kept (win32_arg 16 s \<noteq> 0) s, xmem s (xr s RSP), xr s RSP + 4)"
  by (simp add: win32_ctx_def win32_frame_def win32_handle_def Let_def addr_simps win32_kept_def
      get_put_bits)

lemma win32_ctx_local:
  "(\<And>a. a \<in> win32_area h \<Longrightarrow> m a = m' a) \<Longrightarrow>
    win32_ctx b m h = win32_ctx b m' h \<and> win32_ready b m h = win32_ready b m' h"
  by (simp add: win32_ctx_def win32_ready_def win32_area_def)

lemma jump_win32:
  fixes s :: "u32 xstate"
  defines "m \<equiv> (win32_frame s)(win32_arg 4 s := win32_handle s)" and "n \<equiv> win32_arg 8 s"
    and "t \<equiv> segbase s" and "b \<equiv> win32_arg 16 s \<noteq> 0"
  assumes callable: "win32_callable s" and ready: "win32_ready b m n"
  shows "\<exists>s'. xcall adr jump_fcontext_windows_i386 s = Some (Goto (m (n + 44)), s')
    \<and> win32_kept b s' = fst (win32_ctx b m n)
    \<and> xr s' RSP = n + 48 \<and> xr s' RAX = win32_arg 12 s
    \<and> xmem s' = m(t + 0x10 := m (n + 8), t + 0xe0c := m (n + 12), t + 8 := m (n + 16),
        t + 4 := m (n + 20), t := m (n + 24), n + 52 := win32_arg 12 s)"
proof -
  define s1 where "s1 = s\<lparr>xr := (xr s)(RCX := win32_arg 16 s, RDX := t, RAX := xmem s (t + 0x10),
      RSP := win32_handle s), xmem := win32_frame s, zf := (win32_arg 16 s = 0)\<rparr>"
  define s2 where "s2 = s1\<lparr>xr := (xr s1)(RDX := n, RAX := win32_arg 12 s, RSP := n), xmem := m,
    zf := (win32_arg 16 s = 0),
    mxcsr := (if win32_arg 16 s = 0 then mxcsr s1 else get_bits 32 0 (m n)),
    fpucw := (if win32_arg 16 s = 0 then fpucw s1 else get_bits 16 0 (m (n + 4)))\<rparr>"
  have al: "aligned (xr s RSP)" "aligned (win32_arg 4 s)" "aligned t" "aligned n"
    "aligned (win32_handle s)" "xr s RSP + 8 \<noteq> win32_arg 4 s" "xr s RSP + 12 \<noteq> win32_arg 4 s"
    using callable ready
    by (auto simp: win32_callable_def win32_ready_def t_def win32_handle_def addr_simps x86_simps)
  have 1: "xcall adr jump_fcontext_windows_i386 s =
    xrun adr jump_fcontext_windows_i386 (from_label ''nxt1'' jump_fcontext_windows_i386) s1"
    using callable unfolding xcall_def s1_def t_def
    by (intro jump_win32_save) (auto simp: win32_callable_def apart_def disjoint_iff)
  have args: "win32_frame s (xr s RSP + 4) = win32_arg 4 s" "win32_frame s (xr s RSP + 8) = n"
    "win32_frame s (xr s RSP + 12) = win32_arg 12 s"
    by (simp_all add: win32_arg_def n_def win32_frame_def Let_def addr_simps)
  have s1: "xr s1 RSP = win32_handle s" "xmem s1 = win32_frame s" "xr s1 RCX = win32_arg 16 s"
    "win32_frame s (win32_handle s + 0x30) = win32_arg 4 s" "win32_frame s (win32_handle s + 0x34) = n"
    "win32_frame s (win32_handle s + 0x38) = win32_arg 12 s"
    "win32_handle s + 0x34 = xr s RSP + 8" "win32_handle s + 0x38 = xr s RSP + 12"
    using args by (simp_all add: s1_def win32_handle_def addr_simps)
  have 2: "xrun adr jump_fcontext_windows_i386 (from_label ''nxt1'' jump_fcontext_windows_i386) s1
    = xrun adr jump_fcontext_windows_i386 (from_label ''nxt2'' jump_fcontext_windows_i386) s2"
    using jump_win32_load [of s1 adr, unfolded s1, unfolded args, folded m_def, folded s2_def] al ready
    by (simp add: win32_ready_def b_def)
  have 3: "xr s2 RSP = n" "xmem s2 = m" "segbase s2 = t" "xr s2 RAX = win32_arg 12 s"
    by (simp_all add: s2_def s1_def t_def)
  have teb: "m (t + 0x18) = t" "\<forall>c\<in>win32_area n. \<forall>d\<in>win32_teb t. apart c d" "n + 52 \<notin> win32_teb t"
    using callable unfolding win32_callable_def n_def t_def m_def apart_def
    by (auto simp: win32_frame_other)
  have "kept_teb \<in> win32_teb t \<Longrightarrow> kept_teb \<noteq> n + 52" for kept_teb using teb(3) by blast
  then have "t + 0x10 \<noteq> n + 52" "t + 0xe0c \<noteq> n + 52" "t + 8 \<noteq> n + 52" "t + 4 \<noteq> n + 52" "t \<noteq> n + 52"
    by (simp_all only: win32_teb_def insert_iff simp_thms)
  then show ?thesis
    using jump_win32_resume [of s2 adr, unfolded 3, OF al(4,3) teb(1,2)]
    by (simp del: fun_upd_apply add: fun_upd_same fun_upd_other 1 2 3 win32_kept_def win32_ctx_def
        addr_simps b_def) (simp add: s2_def)
qed

lemma jump_win32_switches:
  assumes "win32_callable s" "win32_ready (win32_arg 16 s \<noteq> 0) (xmem s) (win32_arg 8 s)"
  shows "\<exists>p s'. xcall adr jump_fcontext_windows_i386 s = Some (Goto p, s')
    \<and> (win32_kept (win32_arg 16 s \<noteq> 0) s', p, xr s' RSP)
      = win32_ctx (win32_arg 16 s \<noteq> 0) (xmem s) (win32_arg 8 s)
    \<and> xr s' RAX = win32_arg 12 s \<and> win32_arg 4 s' = win32_arg 12 s
    \<and> xmem s' (win32_arg 4 s) = win32_handle s
    \<and> win32_ctx (win32_arg 16 s \<noteq> 0) (xmem s') (win32_handle s)
      = (win32_kept (win32_arg 16 s \<noteq> 0) s, xmem s (xr s RSP), xr s RSP + 4)
    \<and> win32_ready (win32_arg 16 s \<noteq> 0) (xmem s') (win32_handle s)
    \<and> (\<forall>a. a \<notin> win32_touched s \<longrightarrow> xmem s' a = xmem s a)"
proof -
  let ?b = "win32_arg 16 s \<noteq> 0" and ?n = "win32_arg 8 s" and ?h = "win32_handle s" and ?t = "segbase s"
  define m where "m = (win32_frame s)(win32_arg 4 s := ?h)"
  define m' where "m' = m(?t + 0x10 := m (?n + 8), ?t + 0xe0c := m (?n + 12), ?t + 8 := m (?n + 16),
    ?t + 4 := m (?n + 20), ?t := m (?n + 24), ?n + 52 := win32_arg 12 s)"
  have apart: "win32_area ?h \<inter> win32_area ?n = {}" "win32_arg 4 s \<notin> win32_area ?h"
    "win32_arg 4 s \<notin> win32_area ?n" "win32_teb ?t \<inter> win32_area ?h = {}" "win32_arg 4 s \<notin> win32_teb ?t"
    "?n + 52 \<notin> win32_area ?h" "win32_arg 4 s \<noteq> ?n + 52" "aligned (xr s RSP)" "mxcsr_ok (mxcsr s)"
    using assms(1) by (auto simp: win32_callable_def disjoint_iff)
  have m': "a \<notin> win32_teb ?t \<Longrightarrow> a \<noteq> ?n + 52 \<Longrightarrow> m' a = m a" for a
    by (simp add: m'_def win32_teb_def)
  have "win32_ctx ?b m ?n = win32_ctx ?b (xmem s) ?n \<and> win32_ready ?b m ?n = win32_ready ?b (xmem s) ?n"
    using apart by (intro win32_ctx_local) (auto simp: m_def disjoint_iff intro!: win32_frame_other)
  moreover have "win32_ctx ?b m' ?h = win32_ctx ?b (win32_frame s) ?h
      \<and> win32_ready ?b m' ?h = win32_ready ?b (win32_frame s) ?h"
    using apart by (intro win32_ctx_local) (subst m', auto simp: m_def)
  moreover have "win32_ready ?b (win32_frame s) ?h"
    using apart by (simp add: win32_ready_def win32_frame_def win32_handle_def Let_def addr_simps
        x86_simps get_put_bits)
  moreover have "a \<notin> win32_touched s \<Longrightarrow> m' a = xmem s a" for a
    by (simp add: m' m_def win32_touched_def win32_frame_other)
  moreover obtain s' where "xcall adr jump_fcontext_windows_i386 s = Some (Goto (m (?n + 44)), s')"
    "win32_kept ?b s' = fst (win32_ctx ?b m ?n)" "xr s' RSP = ?n + 48" "xmem s' = m'"
    "xr s' RAX = win32_arg 12 s"
    using jump_win32 [OF assms(1), of adr] assms(2) calculation(1)
    by (auto simp: m_def m'_def simp del: fun_upd_apply)
  moreover have "m' (win32_arg 4 s) = ?h" using apart(5,7) by (simp add: m' m_def)
  moreover have "m' (?n + 48 + 4) = win32_arg 12 s" by (simp add: m'_def addr_simps)
  moreover have "win32_ctx ?b m ?n = (fst (win32_ctx ?b m ?n), m (?n + 44), ?n + 48)"
    by (simp add: win32_ctx_def)
  ultimately show ?thesis by (metis win32_frame_ctx win32_arg_def)
qed

subsection \<open>Execution of \<open>make_fcontext\<close>\<close>

text \<open>
  The list of exception handlers from the record at \<open>a\<close> on: the first cell of a record is the
  next record, \<open>0xffffffff\<close> in the last one. On a list that comes back to itself the walk never ends.
\<close>

fun seh_list :: "(u32 \<Rightarrow> u32) \<Rightarrow> u32 list \<Rightarrow> u32 \<Rightarrow> bool" where
  "seh_list m [] a = False"
| "seh_list m [x] a \<longleftrightarrow> a = x \<and> aligned a \<and> m a = - 1"
| "seh_list m (x # y # xs) a \<longleftrightarrow> a = x \<and> aligned a \<and> m a \<noteq> - 1 \<and> seh_list m (y # xs) (m a)"

lemma seh_list_cong: "(\<And>x. x \<in> set xs \<Longrightarrow> m x = m' x) \<Longrightarrow> seh_list m xs a = seh_list m' xs a"
  by (induction m xs a rule: seh_list.induct) auto

lemma seh_list_aligned: "seh_list m xs a \<Longrightarrow> aligned (last xs)"
  by (induction m xs a rule: seh_list.induct) auto

lemmas make_win32_walk = arg_cong [OF make_fcontext_windows_i386_def, of "from_label ''walk''", simplified]
lemmas make_win32_found = arg_cong [OF make_fcontext_windows_i386_def, of "from_label ''found''", simplified]

lemma make_win32_loop:
  fixes s :: "u32 xstate"
  assumes "seh_list (xmem s) xs (xr s RCX)"
  shows "xrun adr make_fcontext_windows_i386 (from_label ''walk'' make_fcontext_windows_i386) s =
    xrun adr make_fcontext_windows_i386 (from_label ''found'' make_fcontext_windows_i386)
      (s\<lparr>xr := (xr s)(RCX := last xs, RDX := 0), zf := True\<rparr>)"
  using assms
proof (induction "xmem s" xs "xr s RCX" arbitrary: s rule: seh_list.induct)
  case (2 x)
  then have x: "x = xr s RCX" "aligned (xr s RCX)" "xmem s (xr s RCX) = - 1" by auto
  show ?case unfolding x(1) using x(2,3)
    by (subst make_win32_walk) (simp del: fun_upd_apply cong: bind_weak_cong add: x86_run xrun_label)
next
  case (3 x y xs)
  let ?s = "s\<lparr>xr := (xr s)(RDX := xr s RCX, RCX := xmem s (xr s RCX)), zf := (xmem s (xr s RCX) = 0)\<rparr>"
  from 3(2) have x: "aligned (xr s RCX)" "seh_list (xmem s) (y # xs) (xmem s (xr s RCX))"
    and "xmem s (xr s RCX) \<noteq> - 1" by auto
  then have "xmem s (xr s RCX) + 1 \<noteq> 0" by (simp add: eq_neg_iff_add_eq_0)
  then have "xrun adr make_fcontext_windows_i386 (from_label ''walk'' make_fcontext_windows_i386) s =
    xrun adr make_fcontext_windows_i386 (from_label ''walk'' make_fcontext_windows_i386) ?s"
    using x(1) by (subst (1) make_win32_walk)
      (simp del: fun_upd_apply cong: bind_weak_cong add: x86_run xrun_label)
  also have "\<dots> = xrun adr make_fcontext_windows_i386 (from_label ''found'' make_fcontext_windows_i386)
      (?s\<lparr>xr := (xr ?s)(RCX := last (y # xs), RDX := 0), zf := True\<rparr>)"
    by (rule 3(1)) (use x in simp_all)
  also have "?s\<lparr>xr := (xr ?s)(RCX := last (y # xs), RDX := 0), zf := True\<rparr>
      = s\<lparr>xr := (xr s)(RCX := last (x # y # xs), RDX := 0), zf := True\<rparr>" by simp
  finally show ?case .
qed simp

definition win32_made :: "u32 xstate \<Rightarrow> u32" where
  "win32_made s = (win32_arg 4 s - 8 AND - 16) - 0x3c"

definition win32_entry_sp :: "u32 xstate \<Rightarrow> u32" where
  "win32_entry_sp s = (win32_arg 4 s - 8 AND - 16) - 0xc"

definition win32_made_cells :: "u32 xstate \<Rightarrow> u32 set" where
  "win32_made_cells s = (let h = win32_made s in {h, h + 4, h + 0xc, h + 0x10, h + 0x14, h + 0x18,
     h + 0x2c, win32_entry_sp s, h + 0x38, h + 0x3c})"

text \<open>
  \<open>xs\<close> are the records of the caller's list of exception handlers. They, the environment block
  and the caller's frame have to be apart from the new context.
\<close>

definition win32_makeable :: "u32 list \<Rightarrow> u32 xstate \<Rightarrow> bool" where
  "win32_makeable xs s \<longleftrightarrow> aligned (xr s RSP) \<and> mxcsr_ok (mxcsr s) \<and> aligned (segbase s)
     \<and> seh_list (xmem s) xs (xmem s (segbase s))
     \<and> insert (xr s RSP) (insert (xr s RSP + 4) (insert (xr s RSP + 8) (insert (xr s RSP + 12)
       (insert (last xs + 4) (set xs \<union> win32_teb (segbase s)))))) \<inter> win32_made_cells s = {}"

text \<open>The memory when the walk starts, and at the end.\<close>

definition win32_first_mem :: "u32 \<Rightarrow> u32 xstate \<Rightarrow> u32 \<Rightarrow> u32" where
  "win32_first_mem fin s = (let h = win32_made s; top = win32_arg 4 s in
     (xmem s)(h + 0x14 := top, h + 0x10 := top - win32_arg 8 s, h + 0xc := top - win32_arg 8 s,
       h + 0x2c := win32_arg 12 s, h := put_bits 32 0 (mxcsr s) (xmem s h),
       h + 4 := put_bits 16 0 (fpucw s) (xmem s (h + 4)), win32_entry_sp s := fin))"

definition win32_made_mem :: "u32 list \<Rightarrow> u32 \<Rightarrow> u32 xstate \<Rightarrow> u32 \<Rightarrow> u32" where
  "win32_made_mem xs fin s = (let h = win32_made s in
     (win32_first_mem fin s)(h + 0x3c := xmem s (last xs + 4), h + 0x38 := 0xffffffff, h + 0x18 := h + 0x38))"

lemma win32_first_other: "a \<notin> win32_made_cells s \<Longrightarrow> win32_first_mem fin s a = xmem s a"
  by (simp add: win32_made_cells_def win32_first_mem_def Let_def)

lemma make_win32_first:
  fixes s :: "u32 xstate"
  assumes "aligned (xr s RSP)" "aligned (segbase s)"
    "\<forall>a\<in>{xr s RSP + 4, xr s RSP + 8, xr s RSP + 12, segbase s}. \<forall>c\<in>win32_made_cells s. apart a c"
  shows "xrun adr make_fcontext_windows_i386 make_fcontext_windows_i386 s =
    xrun adr make_fcontext_windows_i386 (from_label ''walk'' make_fcontext_windows_i386)
      (s\<lparr>xr := (xr s)(RAX := win32_made s, RDX := - win32_arg 8 s, RCX := xmem s (segbase s)),
         xmem := win32_first_mem (lab_addr adr make_fcontext_windows_i386 ''finish'') s,
         zf := (- win32_arg 8 s = 0)\<rparr>)"
proof -
  have m16: "(0xfffffff0 :: u32) = - 16" by simp
  show ?thesis using assms
    by (subst (2) make_fcontext_windows_i386_def)
      (simp del: fun_upd_apply cong: bind_weak_cong add: x86_run m16 win32_made_cells_def win32_made_def
        win32_entry_sp_def win32_first_mem_def win32_arg_def make_win32_walk [symmetric])
qed

lemma make_win32_last:
  fixes s :: "u32 xstate"
  defines "h \<equiv> xr s RAX"
  assumes "aligned (xr s RSP)" "aligned h" "aligned (xr s RCX)"
    "\<forall>c\<in>{h + 0x3c, h + 0x38, h + 0x18}. apart (xr s RSP) c"
  shows "xrun adr make_fcontext_windows_i386 (from_label ''found'' make_fcontext_windows_i386) s =
    Some (Goto (xmem s (xr s RSP)), s\<lparr>xr := (xr s)(RCX := h + 0x38, RSP := xr s RSP + 4),
      xmem := (xmem s)(h + 0x3c := xmem s (xr s RCX + 4), h + 0x38 := 0xffffffff, h + 0x18 := h + 0x38)\<rparr>)"
  using assms
  by (subst make_win32_found) (simp del: fun_upd_apply cong: bind_weak_cong add: x86_run xrun_label)

lemma make_win32:
  assumes "win32_makeable xs s"
  shows "\<exists>s'. xcall adr make_fcontext_windows_i386 s = Some (Goto (xmem s (xr s RSP)), s')
    \<and> segbase s' = segbase s \<and> map (xr s') [RDI, RSI, RBX, RBP] = map (xr s) [RDI, RSI, RBX, RBP]
    \<and> mxcsr s' = mxcsr s \<and> fpucw s' = fpucw s
    \<and> xr s' RSP = xr s RSP + 4 \<and> xr s' RAX = win32_made s
    \<and> xmem s' = win32_made_mem xs (lab_addr adr make_fcontext_windows_i386 ''finish'') s"
proof -
  let ?fin = "lab_addr adr make_fcontext_windows_i386 ''finish''"
  define s1 where "s1 = s\<lparr>xr := (xr s)(RAX := win32_made s, RDX := - win32_arg 8 s,
    RCX := xmem s (segbase s)), xmem := win32_first_mem ?fin s, zf := (- win32_arg 8 s = 0)\<rparr>"
  define s2 where "s2 = s1\<lparr>xr := (xr s1)(RCX := last xs, RDX := 0), zf := True\<rparr>"
  have far: "a \<notin> win32_made_cells s" if "a = xr s RSP \<or> a = xr s RSP + 4 \<or> a = xr s RSP + 8
      \<or> a = xr s RSP + 12 \<or> a = last xs + 4 \<or> a \<in> set xs \<or> a = segbase s" for a
    using assms that unfolding win32_makeable_def win32_teb_def by blast
  have wf: "aligned (xr s RSP)" "aligned (segbase s)" "seh_list (xmem s) xs (xmem s (segbase s))"
    using assms by (simp_all add: win32_makeable_def)
  have regs: "xr s2 RAX = win32_made s" "xr s2 RCX = last xs" "xr s2 RSP = xr s RSP"
    by (simp_all add: s2_def s1_def)
  have "xcall adr make_fcontext_windows_i386 s =
    xrun adr make_fcontext_windows_i386 (from_label ''walk'' make_fcontext_windows_i386) s1"
    unfolding xcall_def s1_def
    by (rule make_win32_first) (use wf far in \<open>auto simp: apart_def\<close>)
  also have "\<dots> = xrun adr make_fcontext_windows_i386 (from_label ''found'' make_fcontext_windows_i386) s2"
    unfolding s2_def
    by (rule make_win32_loop, subst seh_list_cong [of xs _ "xmem s"])
      (use wf(3) far in \<open>simp_all add: s1_def win32_first_other\<close>)
  also have "\<dots> = Some (Goto (xmem s2 (xr s RSP)), s2\<lparr>xr := (xr s2)(RCX := win32_made s + 0x38,
      RSP := xr s RSP + 4), xmem := (xmem s2)(win32_made s + 0x3c := xmem s2 (last xs + 4),
      win32_made s + 0x38 := 0xffffffff, win32_made s + 0x18 := win32_made s + 0x38)\<rparr>)"
    by (rule make_win32_last [of s2 adr, unfolded regs])
      (use wf(1) seh_list_aligned [OF wf(3)] far [of "xr s RSP"] in
        \<open>simp_all add: win32_made_def win32_made_cells_def apart_def Let_def addr_simps x86_simps\<close>)
  finally show ?thesis
    using far by (simp add: s2_def s1_def win32_first_other win32_made_mem_def Let_def
        fun_upd_same fun_upd_other del: fun_upd_apply)
qed

lemma win32_made_ctx:
  assumes "win32_makeable xs s"
  shows "\<exists>k. win32_ctx b (win32_made_mem xs fin s) (win32_made s) = (k, win32_arg 12 s, win32_entry_sp s)"
    "win32_made_mem xs fin s (win32_entry_sp s) = fin"
    "win32_ready b (win32_made_mem xs fin s) (win32_made s)"
    "a \<notin> win32_made_cells s \<Longrightarrow> win32_made_mem xs fin s a = xmem s a"
  using assms by (simp_all add: win32_makeable_def win32_ctx_def win32_ready_def win32_made_mem_def win32_first_mem_def win32_made_def
      win32_entry_sp_def win32_made_cells_def Let_def addr_simps x86_simps get_put_bits)

lemma make_win32_law:
  assumes "win32_makeable xs s"
  shows "\<exists>k s'. xcall adr make_fcontext_windows_i386 s = Some (Goto (xmem s (xr s RSP)), s')
    \<and> win32_kept True s' = win32_kept True s \<and> xr s' RSP = xr s RSP + 4 \<and> xr s' RAX = win32_made s
    \<and> win32_ctx b (xmem s') (win32_made s) = (k, win32_arg 12 s, win32_entry_sp s)
    \<and> xmem s' (win32_entry_sp s) = lab_addr adr make_fcontext_windows_i386 ''finish''
    \<and> win32_ready b (xmem s') (win32_made s)
    \<and> (\<forall>a. a \<notin> win32_made_cells s \<longrightarrow> xmem s' a = xmem s a)"
proof -
  let ?m = "win32_made_mem xs (lab_addr adr make_fcontext_windows_i386 ''finish'') s"
  from win32_made_ctx(1) [OF assms] obtain k where
    k: "win32_ctx b ?m (win32_made s) = (k, win32_arg 12 s, win32_entry_sp s)" by blast
  from make_win32 [OF assms] obtain s' where
    s': "xcall adr make_fcontext_windows_i386 s = Some (Goto (xmem s (xr s RSP)), s')"
      "segbase s' = segbase s" "map (xr s') [RDI, RSI, RBX, RBP] = map (xr s) [RDI, RSI, RBX, RBP]"
      "mxcsr s' = mxcsr s" "fpucw s' = fpucw s" "xr s' RSP = xr s RSP + 4"
      "xr s' RAX = win32_made s" "xmem s' = ?m" by blast
  have "\<forall>a\<in>win32_teb (segbase s). a \<notin> win32_made_cells s"
    using assms unfolding win32_makeable_def by blast
  then have "win32_kept True s' = win32_kept True s"
    using s' win32_made_ctx(4) [OF assms] by (simp add: win32_kept_def win32_teb_def)
  then show ?thesis
    using k s' win32_made_ctx(2-4) [OF assms] by (intro exI [of _ k] exI [of _ s']) simp
qed

text \<open>The new context has a list of exception handlers of its own, with the one handler.\<close>

lemma win32_made_seh:
  assumes "win32_makeable xs s"
  shows "win32_made_mem xs fin s (win32_made s + 0x18) = win32_made s + 0x38"
    "seh_list (win32_made_mem xs fin s) [win32_made s + 0x38] (win32_made s + 0x38)"
    "win32_made_mem xs fin s (win32_made s + 0x3c) = xmem s (last xs + 4)"
  using assms by (simp_all add: win32_makeable_def win32_made_mem_def win32_first_mem_def win32_made_def
      win32_entry_sp_def Let_def addr_simps x86_simps)

lemma finish_win32:
  fixes s :: "u32 xstate"
  assumes "aligned (xr s RSP)"
  shows "\<exists>s'. xrun adr make_fcontext_windows_i386 (from_label ''finish'' make_fcontext_windows_i386) s
    = Some (External ''_exit'', s') \<and> win32_arg 4 s' = 0"
  using assms by (simp del: fun_upd_apply cong: bind_weak_cong add: x86_run xrun_label win32_arg_def
      arg_cong [OF make_fcontext_windows_i386_def, of "from_label ''finish''", simplified])

interpretation win32: context_make "xcall adr jump_fcontext_windows_i386" xmem "\<lambda>s. xr s RSP"
  "\<lambda>s. xmem s (xr s RSP)" "\<lambda>s. xr s RSP + 4" "\<lambda>s. xr s RAX" "win32_arg 4" win32_kept "\<lambda>k m p. m p"
  "win32_arg 4" "win32_arg 8" "win32_arg 12" "\<lambda>s. win32_arg 16 s \<noteq> 0" win32_handle win32_area win32_touched
  win32_ctx win32_ready win32_callable "xcall adr' make_fcontext_windows_i386" "win32_arg 12" win32_made
  win32_made_cells win32_entry_sp "lab_addr adr' make_fcontext_windows_i386 ''finish''" "win32_makeable xs"
  for adr adr' xs
  by unfold_locales
    ((rule jump_win32_switches win32_ctx_local make_win32_law; assumption) | rule refl | assumption)+

end
