(* ===== verification/Arm.thy ===== *)
theory Arm
  imports Machine
begin

section \<open>The ARM processor, as far as the context switch uses it\<close>

text \<open>
  The registers, the memory and the instructions that \<open>src/src/libcontext.c\<close> is written in for
  the 32-bit and 64-bit ARM platforms. \<open>GR n\<close> is \<open>x\<close>\<open>n\<close> on the 64-bit processor (\<open>GR 29\<close> is \<open>fp\<close>,
  \<open>GR 30\<close> is \<open>lr\<close>) and \<open>r\<close>\<open>n\<close> on the 32-bit one, where \<open>a1\<close> to \<open>a4\<close> are \<open>GR 0\<close> to \<open>GR 3\<close>, \<open>v1\<close> to \<open>v8\<close> are
  \<open>GR 4\<close> to \<open>GR 11\<close> and \<open>lr\<close> is \<open>GR 14\<close>. The floating point registers are \<open>d0\<close>, \<open>d1\<close>, \<dots> on the 64-bit
  processor; on the 32-bit one they are the halves \<open>s0\<close>, \<open>s1\<close>, \<dots>, two for each \<open>d\<close> register.
  The machine stops (\<open>None\<close>) at an access that is not aligned, and on the 64-bit processor at an
  access through a stack pointer that is not a multiple of 16.
\<close>

named_theorems arm_simps \<open>execution of instructions on a symbolic state\<close>

subsection \<open>State\<close>

datatype areg = GR nat | SP

record 'a astate =
  ar :: "areg \<Rightarrow> 'a"               \<comment> \<open>the general registers\<close>
  amem :: "'a \<Rightarrow> 'a"               \<comment> \<open>the cell at an aligned address\<close>
  az :: bool                        \<comment> \<open>zero flag\<close>
  fr :: "nat \<Rightarrow> 'a"                \<comment> \<open>the floating point registers\<close>
  tls :: 'a                         \<comment> \<open>the thread register of coprocessor 15\<close>

datatype ainstr =
    PUSHM "areg list"
  | POPM "areg list"
  | SUBI areg areg int
  | ADDI areg areg int
  | BIC areg areg int
  | ANDI areg areg int
  | MOVR areg areg
  | MOVI areg int
  | CMPI areg int
  | CMPW areg int                   \<comment> \<open>compares the low 32 bits\<close>
  | STRI areg areg int
  | LDRI areg areg int
  | STP areg areg areg int
  | LDP areg areg areg int
  | STPD nat nat areg int
  | LDPD nat nat areg int
  | VSTMIA areg "nat list"
  | VLDMIA areg "nat list"
  | ADR areg string
  | ADRN areg int                   \<comment> \<open>distance from the instruction itself\<close>
  | MRC_TLS areg
  | ALABEL string
  | BEQ string
  | BX areg
  | POP_PC "areg list"
  | BL string

subsection \<open>Instructions\<close>

definition abase :: "areg \<Rightarrow> 'w::len word astate \<Rightarrow> 'w word option" where
  "abase r s = (if r = SP \<and> cell_bytes (ar s r) = 8 \<and> unat (ar s r) mod 16 \<noteq> 0 then None
     else Some (ar s r))"

definition aload :: "'w::len word \<Rightarrow> 'w word astate \<Rightarrow> 'w word option" where
  "aload a s = (if aligned a then Some (amem s a) else None)"

definition astore :: "'w::len word \<Rightarrow> 'w word \<Rightarrow> 'w word astate \<Rightarrow> 'w word astate option" where
  "astore a v s = (if aligned a then Some (s\<lparr>amem := (amem s)(a := v)\<rparr>) else None)"

definition aset :: "areg \<Rightarrow> 'w::len word \<Rightarrow> 'w word astate \<Rightarrow> 'w word astate" where
  "aset r v s = s\<lparr>ar := (ar s)(r := v)\<rparr>"

text \<open>A list of values in ascending cells from an address on.\<close>

fun astore_list :: "'w::len word \<Rightarrow> 'w word list \<Rightarrow> 'w word astate \<Rightarrow> 'w word astate option" where
  "astore_list a [] s = Some s"
| "astore_list a (v # vs) s = do {s \<leftarrow> astore a v s; astore_list (a + of_nat (cell_bytes a)) vs s}"

fun aload_list :: "'w::len word \<Rightarrow> areg list \<Rightarrow> 'w word astate \<Rightarrow> 'w word astate option" where
  "aload_list a [] s = Some s"
| "aload_list a (r # rs) s =
    do {v \<leftarrow> aload a s; aload_list (a + of_nat (cell_bytes a)) rs (aset r v s)}"

fun fload_list :: "'w::len word \<Rightarrow> nat list \<Rightarrow> 'w word astate \<Rightarrow> 'w word astate option" where
  "fload_list a [] s = Some s"
| "fload_list a (n # ns) s =
    do {v \<leftarrow> aload a s; fload_list (a + of_nat (cell_bytes a)) ns (s\<lparr>fr := (fr s)(n := v)\<rparr>)}"

definition apush :: "areg list \<Rightarrow> 'w::len word astate \<Rightarrow> 'w word astate option" where
  "apush rs s = (let p = ar s SP - of_nat (length rs * cell_bytes (ar s SP)) in
     astore_list p (map (ar s) rs) (aset SP p s))"

definition apop :: "areg list \<Rightarrow> 'w::len word astate \<Rightarrow> 'w word astate option" where
  "apop rs s = do {
     s' \<leftarrow> aload_list (ar s SP) rs s;
     Some (aset SP (ar s SP + of_nat (length rs * cell_bytes (ar s SP))) s')
   }"

fun astep :: "(string \<Rightarrow> 'w::len word) \<Rightarrow> 'w word \<Rightarrow> ainstr \<Rightarrow> 'w word astate \<Rightarrow> 'w word astate option" where
  "astep lab pc (PUSHM rs) s = apush rs s"
| "astep lab pc (POPM rs) s = apop rs s"
| "astep lab pc (SUBI d n i) s = Some (aset d (ar s n - of_int i) s)"
| "astep lab pc (ADDI d n i) s = Some (aset d (ar s n + of_int i) s)"
| "astep lab pc (BIC d n i) s = Some (aset d (ar s n AND NOT (of_int i)) s)"
| "astep lab pc (ANDI d n i) s = Some (aset d (ar s n AND of_int i) s)"
| "astep lab pc (MOVR d n) s = Some (aset d (ar s n) s)"
| "astep lab pc (MOVI d i) s = Some (aset d (of_int i) s)"
| "astep lab pc (CMPI n i) s = Some (s\<lparr>az := (ar s n = of_int i)\<rparr>)"
| "astep lab pc (CMPW n i) s = Some (s\<lparr>az := ((ucast (ar s n) :: u32) = of_int i)\<rparr>)"
| "astep lab pc (STRI r n i) s = do {a \<leftarrow> abase n s; astore (a + of_int i) (ar s r) s}"
| "astep lab pc (LDRI r n i) s = do {a \<leftarrow> abase n s; v \<leftarrow> aload (a + of_int i) s; Some (aset r v s)}"
| "astep lab pc (STP q r n i) s = do {a \<leftarrow> abase n s; astore_list (a + of_int i) [ar s q, ar s r] s}"
| "astep lab pc (LDP q r n i) s = do {a \<leftarrow> abase n s; aload_list (a + of_int i) [q, r] s}"
| "astep lab pc (STPD q r n i) s = do {a \<leftarrow> abase n s; astore_list (a + of_int i) [fr s q, fr s r] s}"
| "astep lab pc (LDPD q r n i) s = do {a \<leftarrow> abase n s; fload_list (a + of_int i) [q, r] s}"
| "astep lab pc (VSTMIA n fs) s = do {a \<leftarrow> abase n s; astore_list a (map (fr s) fs) s}"
| "astep lab pc (VLDMIA n fs) s = do {a \<leftarrow> abase n s; fload_list a fs s}"
| "astep lab pc (ADR r l) s = Some (aset r (lab l) s)"
| "astep lab pc (ADRN r i) s = Some (aset r (pc + of_int i) s)"
| "astep lab pc (MRC_TLS r) s = Some (aset r (tls s) s)"
| "astep lab pc _ s = None"

subsection \<open>Programs\<close>

text \<open>
  A routine is an instruction list that starts at the address \<open>org\<close>. Every instruction takes four
  bytes, a label none.
\<close>

fun code_size :: "ainstr list \<Rightarrow> nat" where
  "code_size [] = 0"
| "code_size (ALABEL l # is) = code_size is"
| "code_size (i # is) = 4 + code_size is"

definition code_addr :: "'w::len word \<Rightarrow> ainstr list \<Rightarrow> ainstr list \<Rightarrow> 'w word" where
  "code_addr org prog rest = org + of_nat (code_size prog - code_size rest)"

definition afrom_label :: "string \<Rightarrow> ainstr list \<Rightarrow> ainstr list" where
  "afrom_label l prog = dropWhile (\<lambda>i. i \<noteq> ALABEL l) prog"

definition alab :: "'w::len word \<Rightarrow> ainstr list \<Rightarrow> string \<Rightarrow> 'w word" where
  "alab org prog l = code_addr org prog (afrom_label l prog)"

text \<open>
  \<open>anext\<close> gives the code to go on with, or where control goes when it leaves the routine. \<open>lr\<close> is
  the link register of the processor.
\<close>

definition link_reg :: "'w::len word \<Rightarrow> areg" where
  "link_reg v = (if cell_bytes v = 8 then GR 30 else GR 14)"

definition anext :: "'w::len word \<Rightarrow> ainstr list \<Rightarrow> ainstr \<Rightarrow> ainstr list \<Rightarrow> 'w word astate
    \<Rightarrow> ((ainstr list + 'w word target) \<times> 'w word astate) option" where
  "anext org prog i rest s = (case i of
       ALABEL l \<Rightarrow> Some (Inl rest, s)
     | BEQ l \<Rightarrow> Some (Inl (if az s then afrom_label l prog else rest), s)
     | BX r \<Rightarrow> Some (Inr (Goto (ar s r)), s)
     | POP_PC rs \<Rightarrow> do {
         s \<leftarrow> apop rs s;
         v \<leftarrow> aload (ar s SP) s;
         Some (Inr (Goto v), aset SP (ar s SP + of_nat (cell_bytes v)) s)
       }
     | BL f \<Rightarrow> Some (Inr (External f), aset (link_reg org) (code_addr org prog rest) s)
     | _ \<Rightarrow> do {
         s \<leftarrow> astep (alab org prog) (code_addr org prog (i # rest)) i s;
         Some (Inl rest, s)
       })"

partial_function (option) arun ::
  "'w::len word \<Rightarrow> ainstr list \<Rightarrow> ainstr list \<Rightarrow> 'w word astate
    \<Rightarrow> ('w word target \<times> 'w word astate) option" where
  "arun org prog code s = (case code of
     [] \<Rightarrow> None
   | i # rest \<Rightarrow> do {
       (k, s) \<leftarrow> anext org prog i rest s;
       (case k of Inl code \<Rightarrow> arun org prog code s | Inr t \<Rightarrow> Some (t, s))
     })"

definition acall :: "'w::len word \<Rightarrow> ainstr list \<Rightarrow> 'w word astate
    \<Rightarrow> ('w word target \<times> 'w word astate) option" where
  "acall org prog s = arun org prog prog s"

subsection \<open>Symbolic execution\<close>

lemma arun_Cons:
  "arun org prog (i # rest) s = do {
     (k, s) \<leftarrow> anext org prog i rest s;
     (case k of Inl code \<Rightarrow> arun org prog code s | Inr t \<Rightarrow> Some (t, s))}"
  by (subst arun.simps) simp

lemma arun_Nil [arm_simps]: "arun org prog [] s = None"
  by (subst arun.simps) simp

lemma arun_label: "arun org prog (ALABEL l # rest) s = arun org prog rest s"
  by (simp add: arun_Cons anext_def)

lemma arun_control [arm_simps]:
  "arun org prog (BEQ l # rest) s =
     (if az s then arun org prog (afrom_label l prog) s else arun org prog rest s)"
  "arun org prog (BX r # rest) s = Some (Goto (ar s r), s)"
  "arun org prog (POP_PC rs # rest) s = do {
     s \<leftarrow> apop rs s;
     v \<leftarrow> aload (ar s SP) s;
     Some (Goto v, aset SP (ar s SP + of_nat (cell_bytes v)) s)}"
  "arun org prog (BL f # rest) s =
     Some (External f, aset (link_reg org) (code_addr org prog rest) s)"
  by (simp_all add: arun_Cons anext_def split: bind_splits)

fun is_branch :: "ainstr \<Rightarrow> bool" where
  "is_branch (ALABEL _) = True"
| "is_branch (BEQ _) = True"
| "is_branch (BX _) = True"
| "is_branch (POP_PC _) = True"
| "is_branch (BL _) = True"
| "is_branch _ = False"

lemma arun_step [arm_simps]:
  "\<not> is_branch i \<Longrightarrow> arun org prog (i # rest) s =
     do {s \<leftarrow> astep (alab org prog) (code_addr org prog (i # rest)) i s; arun org prog rest s}"
  by (cases i) (simp_all add: arun_Cons anext_def split: bind_splits)

lemma afrom_label_Nil [simp]: "afrom_label l [] = []"
  by (simp add: afrom_label_def)

lemma afrom_label_Cons [simp]:
  "afrom_label l (i # prog) = (if i = ALABEL l then i # prog else afrom_label l prog)"
  by (simp add: afrom_label_def)

text \<open>Updates of different fields, in the order of the fields.\<close>

lemma astate_order [arm_simps]:
  fixes s :: "'a astate"
  shows "s\<lparr>amem := m, ar := r\<rparr> = s\<lparr>ar := r, amem := m\<rparr>"
    "s\<lparr>az := z, ar := r\<rparr> = s\<lparr>ar := r, az := z\<rparr>"
    "s\<lparr>fr := f, ar := r\<rparr> = s\<lparr>ar := r, fr := f\<rparr>"
    "s\<lparr>az := z, amem := m\<rparr> = s\<lparr>amem := m, az := z\<rparr>"
    "s\<lparr>fr := f, amem := m\<rparr> = s\<lparr>amem := m, fr := f\<rparr>"
    "s\<lparr>fr := f, az := z\<rparr> = s\<lparr>az := z, fr := f\<rparr>"
  by simp_all

lemma not_mask_word [arm_simps]: "(NOT 15 :: 'w::len word) = - 16" "(NOT 3 :: 'w::len word) = - 4"
  by (simp_all add: not_eq_complement)

lemmas arm_run = arm_simps addr_simps abase_def aload_def astore_def aset_def apush_def apop_def
  link_reg_def Let_def fun_upd_same fun_upd_other

end
