(* ===== verification/Fcontext_Arm64.thy ===== *)
theory Fcontext_Arm64
  imports Fcontext Arm
begin

section \<open>Context switching on 64-bit ARM\<close>

text \<open>
  \<open>jump_fcontext\<close> and \<open>make_fcontext\<close> of \<open>src/src/libcontext.c\<close> for Linux and for Apple systems on
  64-bit ARM. The routine for Linux always saves the floating point registers \<open>d8\<close> to \<open>d15\<close>; the
  one for Apple systems only when \<open>preserve_fpu\<close> is set. (The \<open>#if\<close> lines of the latter are inside
  the assembler text, where a line that starts with \<open>#\<close> is a comment.)
\<close>

definition jump_fcontext_linux_arm64 :: "ainstr list" where
  "jump_fcontext_linux_arm64 = [
    SUBI SP SP 0xb0, STPD 8 9 SP 0x00, STPD 10 11 SP 0x10, STPD 12 13 SP 0x20,
    STPD 14 15 SP 0x30, ALABEL ''1'', STP (GR 19) (GR 20) SP 0x40, STP (GR 21) (GR 22) SP 0x50,
    STP (GR 23) (GR 24) SP 0x60, STP (GR 25) (GR 26) SP 0x70, STP (GR 27) (GR 28) SP 0x80,
    STP (GR 29) (GR 30) SP 0x90, STRI (GR 30) SP 0xa0, MOVR (GR 4) SP, STRI (GR 4) (GR 0) 0,
    MOVR SP (GR 1), LDPD 8 9 SP 0x00, LDPD 10 11 SP 0x10, LDPD 12 13 SP 0x20,
    LDPD 14 15 SP 0x30, ALABEL ''2'', LDP (GR 19) (GR 20) SP 0x40, LDP (GR 21) (GR 22) SP 0x50,
    LDP (GR 23) (GR 24) SP 0x60, LDP (GR 25) (GR 26) SP 0x70, LDP (GR 27) (GR 28) SP 0x80,
    LDP (GR 29) (GR 30) SP 0x90, MOVR (GR 0) (GR 2), LDRI (GR 4) SP 0xa0, ADDI SP SP 0xb0,
    BX (GR 4)]"

definition make_fcontext_linux_arm64 :: "ainstr list" where
  "make_fcontext_linux_arm64 = [
    ANDI (GR 0) (GR 0) (-16), SUBI (GR 0) (GR 0) 0xb0, STRI (GR 2) (GR 0) 0xa0,
    ADR (GR 1) ''finish'', STRI (GR 1) (GR 0) 0x98, BX (GR 30), ALABEL ''finish'',
    MOVI (GR 0) 0, BL ''_exit'']"

definition make_fcontext_apple_arm64 :: "ainstr list" where
  "make_fcontext_apple_arm64 = [
    ANDI (GR 0) (GR 0) (-16), SUBI (GR 0) (GR 0) 0xb0, STRI (GR 2) (GR 0) 0xa0,
    ADRN (GR 1) 0x0c, STRI (GR 1) (GR 0) 0x98, BX (GR 30), ALABEL ''finish'', MOVI (GR 0) 0,
    BL ''__exit'']"

definition jump_fcontext_apple_arm64 :: "ainstr list" where
  "jump_fcontext_apple_arm64 = [
    SUBI SP SP 0xb0, CMPW (GR 3) 0, BEQ ''1'', STPD 8 9 SP 0x00, STPD 10 11 SP 0x10,
    STPD 12 13 SP 0x20, STPD 14 15 SP 0x30, ALABEL ''1'', STP (GR 19) (GR 20) SP 0x40,
    STP (GR 21) (GR 22) SP 0x50, STP (GR 23) (GR 24) SP 0x60, STP (GR 25) (GR 26) SP 0x70,
    STP (GR 27) (GR 28) SP 0x80, STP (GR 29) (GR 30) SP 0x90, STRI (GR 30) SP 0xa0,
    MOVR (GR 4) SP, STRI (GR 4) (GR 0) 0, MOVR SP (GR 1), CMPW (GR 3) 0, BEQ ''2'',
    LDPD 8 9 SP 0x00, LDPD 10 11 SP 0x10, LDPD 12 13 SP 0x20, LDPD 14 15 SP 0x30, ALABEL ''2'',
    LDP (GR 19) (GR 20) SP 0x40, LDP (GR 21) (GR 22) SP 0x50, LDP (GR 23) (GR 24) SP 0x60,
    LDP (GR 25) (GR 26) SP 0x70, LDP (GR 27) (GR 28) SP 0x80, LDP (GR 29) (GR 30) SP 0x90,
    MOVR (GR 0) (GR 2), LDRI (GR 4) SP 0xa0, ADDI SP SP 0xb0, BX (GR 4)]"

subsection \<open>The saved context\<close>

text \<open>
  Eight floating point registers, \<open>x19\<close> to \<open>x30\<close> and the address to go on at. The flag says
  whether the floating point registers are part of the context.
\<close>

definition a64_area :: "u64 \<Rightarrow> u64 set" where
  "a64_area h = {h, h + 0x8, h + 0x10, h + 0x18, h + 0x20, h + 0x28, h + 0x30, h + 0x38, h + 0x40, h + 0x48,
     h + 0x50, h + 0x58, h + 0x60, h + 0x68, h + 0x70, h + 0x78, h + 0x80, h + 0x88, h +
     0x90, h + 0x98, h + 0xa0}"

definition a64_kept :: "bool \<Rightarrow> u64 astate \<Rightarrow> u64 list \<times> u64 list option" where
  "a64_kept f s = (map (ar s) [GR 19, GR 20, GR 21, GR 22, GR 23, GR 24, GR 25, GR 26, GR 27, GR 28,
      GR 29, GR 30],
     if f then Some (map (fr s) [8, 9, 10, 11, 12, 13, 14, 15]) else None)"

definition a64_ctx :: "bool \<Rightarrow> (u64 \<Rightarrow> u64) \<Rightarrow> u64 \<Rightarrow> (u64 list \<times> u64 list option) \<times> u64 \<times> u64" where
  "a64_ctx f m h = ((map m [h + 0x40, h + 0x48, h + 0x50, h + 0x58, h + 0x60, h + 0x68, h + 0x70, h + 0x78, h + 0x80, h + 0x88, h + 0x90, h + 0x98],
     if f then Some (map m [h, h + 0x8, h + 0x10, h + 0x18, h + 0x20, h + 0x28, h + 0x30, h + 0x38])
     else None), m (h + 0xa0), h + 0xb0)"

definition a64_ready :: "(u64 \<Rightarrow> u64) \<Rightarrow> u64 \<Rightarrow> bool" where
  "a64_ready m h \<longleftrightarrow> unat h mod 16 = 0"

definition a64_handle :: "u64 astate \<Rightarrow> u64" where
  "a64_handle s = ar s SP - 0xb0"

definition a64_touched :: "u64 astate \<Rightarrow> u64 set" where
  "a64_touched s = insert (ar s (GR 0)) (a64_area (a64_handle s))"

definition a64_callable :: "u64 astate \<Rightarrow> bool" where
  "a64_callable s \<longleftrightarrow> unat (ar s SP) mod 16 = 0 \<and> aligned (ar s (GR 0))
     \<and> a64_area (a64_handle s) \<inter> a64_area (ar s (GR 1)) = {}
     \<and> ar s (GR 0) \<notin> a64_area (a64_handle s) \<union> a64_area (ar s (GR 1))"

definition a64_fpu :: "u64 astate \<Rightarrow> bool" where
  "a64_fpu s \<longleftrightarrow> (ucast (ar s (GR 3)) :: u32) \<noteq> 0"

definition a64_fpu_mem :: "u64 astate \<Rightarrow> u64 \<Rightarrow> u64" where
  "a64_fpu_mem s = (let p = ar s SP in (amem s)(
       p - 0xb0 := fr s 8, p - 0xa8 := fr s 9, p - 0xa0 := fr s 10, p - 0x98 := fr s 11, p -
       0x90 := fr s 12, p - 0x88 := fr s 13, p - 0x80 := fr s 14, p - 0x78 := fr s 15))"

definition a64_frame :: "bool \<Rightarrow> u64 astate \<Rightarrow> u64 \<Rightarrow> u64" where
  "a64_frame f s = (let p = ar s SP in
     (if f then a64_fpu_mem s else amem s)(
       p - 0x70 := ar s (GR 19), p - 0x68 := ar s (GR 20), p - 0x60 := ar s (GR 21), p - 0x58
       := ar s (GR 22), p - 0x50 := ar s (GR 23), p - 0x48 := ar s (GR 24), p - 0x40 := ar s
       (GR 25), p - 0x38 := ar s (GR 26), p - 0x30 := ar s (GR 27), p - 0x28 := ar s (GR 28), p
       - 0x20 := ar s (GR 29), p - 0x18 := ar s (GR 30), p - 0x10 := ar s (GR 30)))"

text \<open>What the code after the label \<open>1\<close> adds to the frame, and the registers it loads.\<close>

definition a64_regs_mem :: "u64 astate \<Rightarrow> u64 \<Rightarrow> u64" where
  "a64_regs_mem s = (let p = ar s SP in (amem s)(
       p + 0x40 := ar s (GR 19), p + 0x48 := ar s (GR 20), p + 0x50 := ar s (GR 21), p + 0x58
       := ar s (GR 22), p + 0x60 := ar s (GR 23), p + 0x68 := ar s (GR 24), p + 0x70 := ar s
       (GR 25), p + 0x78 := ar s (GR 26), p + 0x80 := ar s (GR 27), p + 0x88 := ar s (GR 28), p
       + 0x90 := ar s (GR 29), p + 0x98 := ar s (GR 30), p + 0xa0 := ar s (GR 30),
       ar s (GR 0) := p))"

definition a64_fr_load :: "(u64 \<Rightarrow> u64) \<Rightarrow> u64 \<Rightarrow> (nat \<Rightarrow> u64) \<Rightarrow> nat \<Rightarrow> u64" where
  "a64_fr_load m h f = f(8 := m h, 9 := m (h + 0x8), 10 := m (h + 0x10), 11 := m (h + 0x18), 12 := m (h + 0x20),
       13 := m (h + 0x28), 14 := m (h + 0x30), 15 := m (h + 0x38))"

definition a64_ar_load :: "(u64 \<Rightarrow> u64) \<Rightarrow> u64 \<Rightarrow> (areg \<Rightarrow> u64) \<Rightarrow> areg \<Rightarrow> u64" where
  "a64_ar_load m h r = r(GR 19 := m (h + 0x40), GR 20 := m (h + 0x48), GR 21 := m (h + 0x50), GR
       22 := m (h + 0x58), GR 23 := m (h + 0x60), GR 24 := m (h + 0x68), GR 25
       := m (h + 0x70), GR 26 := m (h + 0x78), GR 27 := m (h + 0x80), GR 28 :=
       m (h + 0x88), GR 29 := m (h + 0x90), GR 30 := m (h + 0x98),
       GR 0 := r (GR 2), GR 4 := m (h + 0xa0), SP := h + 0xb0)"

lemma a64_aligned:
  assumes "unat (a :: u64) mod 16 = 0"
  shows "aligned a" "unat (a - 0xb0) mod 16 = 0" "unat (a + 0xb0) mod 16 = 0"
proof -
  have "unat a mod 8 = 0" using assms by presburger
  then show "aligned a" by (simp add: aligned_def cell_off_def cell_bytes_def)
  show "unat (a - 0xb0) mod 16 = 0" "unat (a + 0xb0) mod 16 = 0"
    using unat_mod_16_add [OF assms, of "- 0xb0"] unat_mod_16_add [OF assms, of "0xb0"] by simp_all
qed

subsection \<open>Execution of \<open>jump_fcontext\<close>\<close>

lemmas jump_linux64_1 = arg_cong [OF jump_fcontext_linux_arm64_def, of "afrom_label ''1''", simplified]
lemmas jump_linux64_2 = arg_cong [OF jump_fcontext_linux_arm64_def, of "afrom_label ''2''", simplified]
lemmas jump_apple64_1 = arg_cong [OF jump_fcontext_apple_arm64_def, of "afrom_label ''1''", simplified]
lemmas jump_apple64_2 = arg_cong [OF jump_fcontext_apple_arm64_def, of "afrom_label ''2''", simplified]

lemma jump_linux64_save:
  fixes s :: "u64 astate"
  assumes "unat (ar s SP) mod 16 = 0"
  shows "arun org jump_fcontext_linux_arm64 jump_fcontext_linux_arm64 s =
    arun org jump_fcontext_linux_arm64 (afrom_label ''1'' jump_fcontext_linux_arm64)
      (s\<lparr>ar := (ar s)(SP := ar s SP - 0xb0), amem := a64_fpu_mem s\<rparr>)"
  using assms
  by (subst (2) jump_fcontext_linux_arm64_def)
    (simp del: fun_upd_apply cong: bind_weak_cong add: arm_run a64_aligned a64_fpu_mem_def jump_linux64_1 [symmetric])

lemma jump_apple64_save:
  fixes s :: "u64 astate"
  assumes "unat (ar s SP) mod 16 = 0"
  shows "arun org jump_fcontext_apple_arm64 jump_fcontext_apple_arm64 s =
    arun org jump_fcontext_apple_arm64 (afrom_label ''1'' jump_fcontext_apple_arm64)
      (s\<lparr>ar := (ar s)(SP := ar s SP - 0xb0), amem := (if a64_fpu s then a64_fpu_mem s else amem s),
         az := (\<not> a64_fpu s)\<rparr>)"
  using assms
  by (subst (2) jump_fcontext_apple_arm64_def, cases "a64_fpu s")
    (simp_all del: fun_upd_apply cong: bind_weak_cong
      add: arm_run a64_aligned a64_fpu_def a64_fpu_mem_def jump_apple64_1 [symmetric])

lemma jump_linux64_load:
  fixes s :: "u64 astate"
  defines "m \<equiv> a64_regs_mem s"
  assumes "unat (ar s SP) mod 16 = 0" "aligned (ar s (GR 0))" "unat (ar s (GR 1)) mod 16 = 0"
  shows "arun org jump_fcontext_linux_arm64 (afrom_label ''1'' jump_fcontext_linux_arm64) s =
    arun org jump_fcontext_linux_arm64 (afrom_label ''2'' jump_fcontext_linux_arm64)
      (s\<lparr>ar := (ar s)(GR 4 := ar s SP, SP := ar s (GR 1)), amem := m,
         fr := a64_fr_load m (ar s (GR 1)) (fr s)\<rparr>)"
  using assms
  by (subst jump_linux64_1) (simp del: fun_upd_apply cong: bind_weak_cong
      add: arm_run arun_label a64_aligned a64_regs_mem_def a64_fr_load_def jump_linux64_2 [symmetric])

lemma jump_apple64_load:
  fixes s :: "u64 astate"
  defines "m \<equiv> a64_regs_mem s"
  assumes "unat (ar s SP) mod 16 = 0" "aligned (ar s (GR 0))" "unat (ar s (GR 1)) mod 16 = 0"
  shows "arun org jump_fcontext_apple_arm64 (afrom_label ''1'' jump_fcontext_apple_arm64) s =
    arun org jump_fcontext_apple_arm64 (afrom_label ''2'' jump_fcontext_apple_arm64)
      (s\<lparr>ar := (ar s)(GR 4 := ar s SP, SP := ar s (GR 1)), amem := m, az := (\<not> a64_fpu s),
         fr := (if a64_fpu s then a64_fr_load m (ar s (GR 1)) (fr s) else fr s)\<rparr>)"
  using assms
  by (subst jump_apple64_1, cases "a64_fpu s") (simp_all del: fun_upd_apply cong: bind_weak_cong
      add: arm_run arun_label a64_aligned a64_fpu_def a64_regs_mem_def a64_fr_load_def
        jump_apple64_2 [symmetric])

lemma jump_linux64_resume:
  fixes s :: "u64 astate"
  assumes "unat (ar s SP) mod 16 = 0"
  shows "arun org jump_fcontext_linux_arm64 (afrom_label ''2'' jump_fcontext_linux_arm64) s =
    Some (Goto (amem s (ar s SP + 0xa0)), s\<lparr>ar := a64_ar_load (amem s) (ar s SP) (ar s)\<rparr>)"
  using assms
  by (subst jump_linux64_2) (simp del: fun_upd_apply cong: bind_weak_cong
      add: arm_run arun_label a64_aligned a64_ar_load_def)

lemma jump_apple64_resume:
  fixes s :: "u64 astate"
  assumes "unat (ar s SP) mod 16 = 0"
  shows "arun org jump_fcontext_apple_arm64 (afrom_label ''2'' jump_fcontext_apple_arm64) s =
    Some (Goto (amem s (ar s SP + 0xa0)), s\<lparr>ar := a64_ar_load (amem s) (ar s SP) (ar s)\<rparr>)"
  using assms
  by (subst jump_apple64_2) (simp del: fun_upd_apply cong: bind_weak_cong
      add: arm_run arun_label a64_aligned a64_ar_load_def)

text \<open>
  Both routines in terms of the frame: with \<open>f\<close>, the floating point registers are saved and loaded.
\<close>

definition a64_switch :: "bool \<Rightarrow> u64 astate \<Rightarrow> u64 astate \<Rightarrow> bool" where
  "a64_switch f s s' \<longleftrightarrow> (let m = (a64_frame f s)(ar s (GR 0) := a64_handle s); n = ar s (GR 1) in
     amem s' = m \<and> map (ar s') [GR 19, GR 20, GR 21, GR 22, GR 23, GR 24, GR 25, GR 26, GR 27, GR 28,
      GR 29, GR 30] = fst (fst (a64_ctx f m n))
     \<and> fr s' = (if f then a64_fr_load m n (fr s) else fr s)
     \<and> ar s' SP = n + 0xb0 \<and> ar s' (GR 0) = ar s (GR 2))"

lemma jump_linux64:
  assumes "a64_callable s" "a64_ready m (ar s (GR 1))"
  shows "\<exists>s'. acall org jump_fcontext_linux_arm64 s = Some (Goto
      (((a64_frame True s)(ar s (GR 0) := a64_handle s)) (ar s (GR 1) + 0xa0)), s') \<and> a64_switch True s s'"
  using assms
  by (simp del: fun_upd_apply add: acall_def a64_callable_def a64_ready_def jump_linux64_save
      jump_linux64_load jump_linux64_resume a64_aligned a64_switch_def a64_frame_def a64_ctx_def
      a64_regs_mem_def a64_fpu_mem_def a64_handle_def a64_ar_load_def Let_def addr_simps
      fun_upd_same fun_upd_other)

lemma jump_apple64:
  assumes "a64_callable s" "a64_ready m (ar s (GR 1))"
  shows "\<exists>s'. acall org jump_fcontext_apple_arm64 s = Some (Goto
      (((a64_frame (a64_fpu s) s)(ar s (GR 0) := a64_handle s)) (ar s (GR 1) + 0xa0)), s')
      \<and> a64_switch (a64_fpu s) s s'"
  using assms
  by (cases "a64_fpu s") (simp_all del: fun_upd_apply add: acall_def a64_callable_def a64_ready_def
      jump_apple64_save jump_apple64_load jump_apple64_resume a64_aligned a64_switch_def a64_frame_def
      a64_ctx_def a64_regs_mem_def a64_fpu_mem_def a64_handle_def a64_ar_load_def a64_fpu_def Let_def
      addr_simps fun_upd_same fun_upd_other)

lemma a64_ctx_local:
  "(\<And>a. a \<in> a64_area h \<Longrightarrow> m a = m' a) \<Longrightarrow>
    a64_ctx f m h = a64_ctx f m' h \<and> a64_ready m h = a64_ready m' h"
  by (simp add: a64_ctx_def a64_ready_def a64_area_def)

lemma a64_frame_other: "a \<notin> a64_area (a64_handle s) \<Longrightarrow> a64_frame f s a = amem s a"
  by (simp add: a64_area_def a64_frame_def a64_fpu_mem_def a64_handle_def Let_def addr_simps)

lemma a64_frame_ctx:
  "a64_ctx f (a64_frame f s) (a64_handle s) = (a64_kept f s, ar s (GR 30), ar s SP)"
  by (simp add: a64_ctx_def a64_frame_def a64_fpu_mem_def a64_handle_def Let_def addr_simps a64_kept_def)

lemma a64_law:
  assumes "a64_callable s" "a64_ready (amem s) (ar s (GR 1))"
    and run: "\<exists>s'. call = Some (Goto (((a64_frame f s)(ar s (GR 0) := a64_handle s)) (ar s (GR 1) + 0xa0)), s')
      \<and> a64_switch f s s'"
  shows "\<exists>p s'. call = Some (Goto p, s')
    \<and> (a64_kept f s', p, ar s' SP) = a64_ctx f (amem s) (ar s (GR 1))
    \<and> ar s' (GR 0) = ar s (GR 2) \<and> ar s' (GR 0) = ar s (GR 2)
    \<and> amem s' (ar s (GR 0)) = a64_handle s
    \<and> a64_ctx f (amem s') (a64_handle s) = (a64_kept f s, ar s (GR 30), ar s SP)
    \<and> a64_ready (amem s') (a64_handle s)
    \<and> (\<forall>a. a \<notin> a64_touched s \<longrightarrow> amem s' a = amem s a)"
proof -
  let ?n = "ar s (GR 1)" and ?h = "a64_handle s"
  define m where "m = (a64_frame f s)(ar s (GR 0) := ?h)"
  have apart: "a64_area ?h \<inter> a64_area ?n = {}" "ar s (GR 0) \<notin> a64_area ?h"
    "ar s (GR 0) \<notin> a64_area ?n" "unat (ar s SP) mod 16 = 0"
    using assms(1) by (auto simp: a64_callable_def)
  have "a64_ctx f m ?n = a64_ctx f (amem s) ?n \<and> a64_ready m ?n = a64_ready (amem s) ?n"
    using apart by (intro a64_ctx_local) (auto simp: m_def disjoint_iff intro!: a64_frame_other)
  moreover have "a64_ctx f m ?h = a64_ctx f (a64_frame f s) ?h \<and> a64_ready m ?h = a64_ready (a64_frame f s) ?h"
    using apart by (intro a64_ctx_local) (auto simp: m_def)
  moreover have "a64_ready m ?h" using a64_aligned [OF apart(4)] by (simp add: a64_ready_def a64_handle_def)
  moreover have "a \<notin> a64_touched s \<Longrightarrow> m a = amem s a" for a
    by (simp add: m_def a64_touched_def a64_frame_other)
  moreover from run obtain s' where s': "call = Some (Goto (m (?n + 0xa0)), s')" "a64_switch f s s'"
    by (auto simp: m_def simp del: fun_upd_apply)
  moreover have "amem s' = m" "ar s' SP = ?n + 0xb0" "ar s' (GR 0) = ar s (GR 2)"
    "a64_kept f s' = fst (a64_ctx f m ?n)"
    using s'(2) by (simp_all add: a64_switch_def m_def Let_def a64_kept_def a64_ctx_def a64_fr_load_def
        del: fun_upd_apply) (simp_all add: fun_upd_same fun_upd_other)
  moreover have "m (ar s (GR 0)) = ?h" by (simp add: m_def)
  moreover have "a64_ctx f m ?n = (fst (a64_ctx f m ?n), m (?n + 0xa0), ?n + 0xb0)"
    by (simp add: a64_ctx_def)
  ultimately show ?thesis by (metis a64_frame_ctx)
qed

subsection \<open>Execution of \<open>make_fcontext\<close>\<close>

definition a64_made :: "u64 astate \<Rightarrow> u64" where
  "a64_made s = (ar s (GR 0) AND - 16) - 0xb0"

definition a64_entry_sp :: "u64 astate \<Rightarrow> u64" where
  "a64_entry_sp s = ar s (GR 0) AND - 16"

definition a64_made_cells :: "u64 astate \<Rightarrow> u64 set" where
  "a64_made_cells s = {a64_made s + 0x98, a64_made s + 0xa0}"

definition a64_made_mem :: "u64 \<Rightarrow> u64 astate \<Rightarrow> u64 \<Rightarrow> u64" where
  "a64_made_mem fin s = (amem s)(a64_made s + 0xa0 := ar s (GR 2), a64_made s + 0x98 := fin)"

text \<open>
  For Apple systems the address of \<open>finish\<close> is computed from the distance of 12 bytes between the
  \<open>adr\<close> instruction and the label.
\<close>

lemma make_linux64:
  fixes s :: "u64 astate"
  shows "\<exists>s'. acall org make_fcontext_linux_arm64 s = Some (Goto (ar s (GR 30)), s')
    \<and> a64_kept True s' = a64_kept True s \<and> ar s' SP = ar s SP \<and> ar s' (GR 0) = a64_made s
    \<and> amem s' = a64_made_mem (alab org make_fcontext_linux_arm64 ''finish'') s"
  unfolding acall_def
  by (subst (2) make_fcontext_linux_arm64_def) (simp del: fun_upd_apply cong: bind_weak_cong
      add: arm_run a64_kept_def a64_made_def a64_made_mem_def)

lemma finish_linux64:
  fixes s :: "u64 astate"
  shows "\<exists>s'. arun org make_fcontext_linux_arm64 (afrom_label ''finish'' make_fcontext_linux_arm64) s
    = Some (External ''_exit'', s') \<and> ar s' (GR 0) = 0"
  by (simp del: fun_upd_apply cong: bind_weak_cong add: arm_run arun_label
      arg_cong [OF make_fcontext_linux_arm64_def, of "afrom_label ''finish''", simplified])

lemma make_apple64:
  fixes s :: "u64 astate"
  shows "\<exists>s'. acall org make_fcontext_apple_arm64 s = Some (Goto (ar s (GR 30)), s')
    \<and> a64_kept True s' = a64_kept True s \<and> ar s' SP = ar s SP \<and> ar s' (GR 0) = a64_made s
    \<and> amem s' = a64_made_mem (alab org make_fcontext_apple_arm64 ''finish'') s"
  unfolding acall_def
  by (subst (2) make_fcontext_apple_arm64_def) (simp del: fun_upd_apply cong: bind_weak_cong
      add: arm_run a64_kept_def a64_made_def a64_made_mem_def
        alab_def code_addr_def make_fcontext_apple_arm64_def)

lemma finish_apple64:
  fixes s :: "u64 astate"
  shows "\<exists>s'. arun org make_fcontext_apple_arm64 (afrom_label ''finish'' make_fcontext_apple_arm64) s
    = Some (External ''__exit'', s') \<and> ar s' (GR 0) = 0"
  by (simp del: fun_upd_apply cong: bind_weak_cong add: arm_run arun_label
      arg_cong [OF make_fcontext_apple_arm64_def, of "afrom_label ''finish''", simplified])

lemma a64_made_ctx:
  "\<exists>k. a64_ctx f (a64_made_mem fin s) (a64_made s) = (k, ar s (GR 2), a64_entry_sp s) \<and> last (fst k) = fin"
  "a64_ready m (a64_made s)" "a \<notin> a64_made_cells s \<Longrightarrow> a64_made_mem fin s a = amem s a"
proof -
  show "\<exists>k. a64_ctx f (a64_made_mem fin s) (a64_made s) = (k, ar s (GR 2), a64_entry_sp s) \<and> last (fst k) = fin"
    by (simp add: a64_ctx_def a64_made_mem_def a64_made_def a64_entry_sp_def addr_simps)
  show "a64_ready m (a64_made s)"
    using a64_aligned(2) [OF unat_and_minus_16] by (simp add: a64_ready_def a64_made_def)
qed (simp add: a64_made_cells_def a64_made_mem_def)

lemma make_a64_law:
  assumes "\<exists>s'. call = Some (Goto (ar s (GR 30)), s') \<and> a64_kept True s' = a64_kept True s
    \<and> ar s' SP = ar s SP \<and> ar s' (GR 0) = a64_made s \<and> amem s' = a64_made_mem fin s"
  shows "\<exists>k s'. call = Some (Goto (ar s (GR 30)), s') \<and> a64_kept True s' = a64_kept True s
    \<and> ar s' SP = ar s SP \<and> ar s' (GR 0) = a64_made s
    \<and> a64_ctx f (amem s') (a64_made s) = (k, ar s (GR 2), a64_entry_sp s) \<and> last (fst k) = fin
    \<and> a64_ready (amem s') (a64_made s) \<and> (\<forall>a. a \<notin> a64_made_cells s \<longrightarrow> amem s' a = amem s a)"
proof -
  from a64_made_ctx(1) obtain k where "a64_ctx f (a64_made_mem fin s) (a64_made s) =
    (k, ar s (GR 2), a64_entry_sp s)" "last (fst k) = fin" by blast
  moreover from assms obtain s' where "call = Some (Goto (ar s (GR 30)), s')"
    "a64_kept True s' = a64_kept True s" "ar s' SP = ar s SP" "ar s' (GR 0) = a64_made s"
    "amem s' = a64_made_mem fin s" by blast
  ultimately show ?thesis
    using a64_made_ctx(2,3) by (intro exI [of _ k] exI [of _ s']) simp
qed

interpretation linux64: context_make "acall org jump_fcontext_linux_arm64" amem "\<lambda>s. ar s SP"
  "\<lambda>s. ar s (GR 30)" "\<lambda>s. ar s SP" "\<lambda>s. ar s (GR 0)" "\<lambda>s. ar s (GR 0)" "\<lambda>b. a64_kept True" "\<lambda>k m p. last (fst k)"
  "\<lambda>s. ar s (GR 0)" "\<lambda>s. ar s (GR 1)" "\<lambda>s. ar s (GR 2)" a64_fpu a64_handle a64_area a64_touched
  "\<lambda>b. a64_ctx True" "\<lambda>b. a64_ready" a64_callable "acall org' make_fcontext_linux_arm64" "\<lambda>s. ar s (GR 2)" a64_made
  a64_made_cells a64_entry_sp "alab org' make_fcontext_linux_arm64 ''finish''" "\<lambda>s. True" for org org'
  by unfold_locales ((rule a64_law [OF _ _ jump_linux64] a64_ctx_local make_a64_law [OF make_linux64]; assumption)
    | simp add: a64_kept_def)+

interpretation apple64: context_make "acall org jump_fcontext_apple_arm64" amem "\<lambda>s. ar s SP"
  "\<lambda>s. ar s (GR 30)" "\<lambda>s. ar s SP" "\<lambda>s. ar s (GR 0)" "\<lambda>s. ar s (GR 0)" "a64_kept" "\<lambda>k m p. last (fst k)"
  "\<lambda>s. ar s (GR 0)" "\<lambda>s. ar s (GR 1)" "\<lambda>s. ar s (GR 2)" a64_fpu a64_handle a64_area a64_touched
  "a64_ctx" "\<lambda>b. a64_ready" a64_callable "acall org' make_fcontext_apple_arm64" "\<lambda>s. ar s (GR 2)" a64_made
  a64_made_cells a64_entry_sp "alab org' make_fcontext_apple_arm64 ''finish''" "\<lambda>s. True" for org org'
  by unfold_locales ((rule a64_law [OF _ _ jump_apple64] a64_ctx_local make_a64_law [OF make_apple64]; assumption)
    | simp add: a64_kept_def)+

text \<open>
  Without \<open>preserve_fpu\<close>, the routine for Apple systems leaves \<open>d8\<close> to \<open>d15\<close> of the one that
  switches away to the one that is taken up.
\<close>

lemma jump_apple64_no_fpu:
  assumes "a64_callable s" "a64_ready (amem s) (ar s (GR 1))" "\<not> a64_fpu s"
  shows "\<exists>p s'. acall org jump_fcontext_apple_arm64 s = Some (Goto p, s') \<and> fr s' = fr s"
  using jump_apple64 [OF assms(1,2), of org] assms(3) by (auto simp: a64_switch_def Let_def)

end
