(* ===== verification/Fcontext_Arm32.thy ===== *)
theory Fcontext_Arm32
  imports Fcontext Arm
begin

section \<open>Context switching on 32-bit ARM, Linux\<close>

text \<open>
  \<open>jump_fcontext\<close> and \<open>make_fcontext\<close> of \<open>src/src/libcontext.c\<close> for Linux on 32-bit ARM.
\<close>

definition jump_fcontext_linux_arm32 :: "ainstr list" where
  "jump_fcontext_linux_arm32 = [
    PUSHM [GR 14], PUSHM [GR 4, GR 5, GR 6, GR 7, GR 8, GR 9, GR 10, GR 11, GR 14],
    SUBI SP SP 64, CMPI (GR 3) 0, BEQ ''1'',
    VSTMIA SP [16, 17, 18, 19, 20, 21, 22, 23, 24, 25, 26, 27, 28, 29, 30, 31], ALABEL ''1'',
    STRI SP (GR 0) 0, MOVR SP (GR 1), CMPI (GR 3) 0, BEQ ''2'',
    VLDMIA SP [16, 17, 18, 19, 20, 21, 22, 23, 24, 25, 26, 27, 28, 29, 30, 31], ALABEL ''2'',
    ADDI SP SP 64, MOVR (GR 0) (GR 2),
    POPM [GR 4, GR 5, GR 6, GR 7, GR 8, GR 9, GR 10, GR 11, GR 14], POP_PC []]"

definition make_fcontext_linux_arm32 :: "ainstr list" where
  "make_fcontext_linux_arm32 = [
    BIC (GR 0) (GR 0) 15, SUBI (GR 0) (GR 0) 104, STRI (GR 2) (GR 0) 100,
    ADR (GR 1) ''finish'', STRI (GR 1) (GR 0) 96, BX (GR 14), ALABEL ''finish'', MOVI (GR 0) 0,
    BL ''_exit'']"

subsection \<open>The saved context\<close>

text \<open>
  The halves \<open>s16\<close> to \<open>s31\<close> of the floating point registers \<open>d8\<close> to \<open>d15\<close>, \<open>v1\<close> to \<open>v8\<close>, \<open>lr\<close> and
  the address to go on at.
\<close>

definition a32_area :: "u32 \<Rightarrow> u32 set" where
  "a32_area h = {h, h + 4, h + 8, h + 12, h + 16, h + 20, h + 24, h + 28, h + 32, h + 36, h + 40, h + 44,
     h + 48, h + 52, h + 56, h + 60, h + 64, h + 68, h + 72, h + 76, h + 80, h + 84, h + 88,
     h + 92, h + 96, h + 100}"

definition a32_kept :: "bool \<Rightarrow> u32 astate \<Rightarrow> u32 list \<times> u32 list option" where
  "a32_kept b s = (map (ar s) [GR 4, GR 5, GR 6, GR 7, GR 8, GR 9, GR 10, GR 11, GR 14],
     if b then Some (map (fr s) [16, 17, 18, 19, 20, 21, 22, 23, 24, 25, 26, 27, 28, 29, 30, 31]) else None)"

definition a32_ctx :: "bool \<Rightarrow> (u32 \<Rightarrow> u32) \<Rightarrow> u32 \<Rightarrow> (u32 list \<times> u32 list option) \<times> u32 \<times> u32" where
  "a32_ctx b m h = ((map m [h + 64, h + 68, h + 72, h + 76, h + 80, h + 84, h + 88, h + 92, h + 96],
     if b then Some (map m [h, h + 4, h + 8, h + 12, h + 16, h + 20, h + 24, h + 28, h + 32, h + 36, h + 40, h + 44,
     h + 48, h + 52, h + 56, h + 60]) else None), m (h + 100), h + 104)"

definition a32_ready :: "(u32 \<Rightarrow> u32) \<Rightarrow> u32 \<Rightarrow> bool" where
  "a32_ready m h \<longleftrightarrow> aligned h"

definition a32_handle :: "u32 astate \<Rightarrow> u32" where
  "a32_handle s = ar s SP - 104"

definition a32_touched :: "u32 astate \<Rightarrow> u32 set" where
  "a32_touched s = insert (ar s (GR 0)) (a32_area (a32_handle s))"

definition a32_callable :: "u32 astate \<Rightarrow> bool" where
  "a32_callable s \<longleftrightarrow> aligned (ar s SP) \<and> aligned (ar s (GR 0))
     \<and> a32_area (a32_handle s) \<inter> a32_area (ar s (GR 1)) = {}
     \<and> ar s (GR 0) \<notin> a32_area (a32_handle s) \<union> a32_area (ar s (GR 1))"

subsection \<open>Execution of \<open>jump_fcontext\<close>\<close>

definition a32_regs_mem :: "u32 astate \<Rightarrow> u32 \<Rightarrow> u32" where
  "a32_regs_mem s = (let p = ar s SP in (amem s)(
       p - 4 := ar s (GR 14), p - 40 := ar s (GR 4), p - 36 := ar s (GR 5), p - 32 := ar s (GR
       6), p - 28 := ar s (GR 7), p - 24 := ar s (GR 8), p - 20 := ar s (GR 9), p - 16 := ar s
       (GR 10), p - 12 := ar s (GR 11), p - 8 := ar s (GR 14)))"

definition a32_frame :: "u32 astate \<Rightarrow> u32 \<Rightarrow> u32" where
  "a32_frame s = (let p = ar s SP in if ar s (GR 3) = 0 then a32_regs_mem s else (a32_regs_mem s)(
       p - 104 := fr s 16, p - 100 := fr s 17, p - 96 := fr s 18, p - 92 := fr s 19, p - 88 :=
       fr s 20, p - 84 := fr s 21, p - 80 := fr s 22, p - 76 := fr s 23, p - 72 := fr s 24, p -
       68 := fr s 25, p - 64 := fr s 26, p - 60 := fr s 27, p - 56 := fr s 28, p - 52 := fr s
       29, p - 48 := fr s 30, p - 44 := fr s 31))"

definition a32_fr_load :: "(u32 \<Rightarrow> u32) \<Rightarrow> u32 \<Rightarrow> (nat \<Rightarrow> u32) \<Rightarrow> nat \<Rightarrow> u32" where
  "a32_fr_load m h f = f(
       16 := m h, 17 := m (h + 4), 18 := m (h + 8), 19 := m (h + 12), 20 := m (h + 16), 21 := m
       (h + 20), 22 := m (h + 24), 23 := m (h + 28), 24 := m (h + 32), 25 := m (h + 36), 26 :=
       m (h + 40), 27 := m (h + 44), 28 := m (h + 48), 29 := m (h + 52), 30 := m (h + 56), 31
       := m (h + 60))"

definition a32_ar_load :: "(u32 \<Rightarrow> u32) \<Rightarrow> u32 \<Rightarrow> (areg \<Rightarrow> u32) \<Rightarrow> areg \<Rightarrow> u32" where
  "a32_ar_load m h r = r(GR 0 := r (GR 2),
       GR 4 := m (h + 64), GR 5 := m (h + 68), GR 6 := m (h + 72), GR 7 := m (h + 76), GR 8 :=
       m (h + 80), GR 9 := m (h + 84), GR 10 := m (h + 88), GR 11 := m (h + 92), GR 14 := m (h
       + 96), SP := h + 104)"

lemmas jump_a32_1 = arg_cong [OF jump_fcontext_linux_arm32_def, of "afrom_label ''1''", simplified]
lemmas jump_a32_2 = arg_cong [OF jump_fcontext_linux_arm32_def, of "afrom_label ''2''", simplified]

lemma jump_a32_save:
  fixes s :: "u32 astate"
  assumes "aligned (ar s SP)"
  shows "arun org jump_fcontext_linux_arm32 jump_fcontext_linux_arm32 s =
    arun org jump_fcontext_linux_arm32 (afrom_label ''1'' jump_fcontext_linux_arm32)
      (s\<lparr>ar := (ar s)(SP := a32_handle s), amem := a32_frame s, az := (ar s (GR 3) = 0)\<rparr>)"
  using assms
  by (subst (2) jump_fcontext_linux_arm32_def, cases "ar s (GR 3) = 0")
    (simp_all del: fun_upd_apply cong: bind_weak_cong
      add: arm_run a32_frame_def a32_regs_mem_def a32_handle_def jump_a32_1 [symmetric])

lemma jump_a32_load:
  fixes s :: "u32 astate"
  defines "m \<equiv> (amem s)(ar s (GR 0) := ar s SP)"
  assumes "aligned (ar s (GR 0))" "aligned (ar s (GR 1))"
  shows "arun org jump_fcontext_linux_arm32 (afrom_label ''1'' jump_fcontext_linux_arm32) s =
    arun org jump_fcontext_linux_arm32 (afrom_label ''2'' jump_fcontext_linux_arm32)
      (s\<lparr>ar := (ar s)(SP := ar s (GR 1)), amem := m, az := (ar s (GR 3) = 0),
         fr := (if ar s (GR 3) = 0 then fr s else a32_fr_load m (ar s (GR 1)) (fr s))\<rparr>)"
  using assms
  by (subst jump_a32_1, cases "ar s (GR 3) = 0") (simp_all del: fun_upd_apply cong: bind_weak_cong
      add: arm_run arun_label a32_fr_load_def jump_a32_2 [symmetric])

lemma jump_a32_resume:
  fixes s :: "u32 astate"
  assumes "aligned (ar s SP)"
  shows "arun org jump_fcontext_linux_arm32 (afrom_label ''2'' jump_fcontext_linux_arm32) s =
    Some (Goto (amem s (ar s SP + 100)), s\<lparr>ar := a32_ar_load (amem s) (ar s SP) (ar s)\<rparr>)"
  using assms
  by (subst jump_a32_2) (simp del: fun_upd_apply cong: bind_weak_cong
      add: arm_run arun_label a32_ar_load_def)

lemma a32_ctx_local:
  "(\<And>a. a \<in> a32_area h \<Longrightarrow> m a = m' a) \<Longrightarrow>
    a32_ctx b m h = a32_ctx b m' h \<and> a32_ready m h = a32_ready m' h"
  by (simp add: a32_ctx_def a32_ready_def a32_area_def)

lemma a32_frame_other: "a \<notin> a32_area (a32_handle s) \<Longrightarrow> a32_frame s a = amem s a"
  by (simp add: a32_area_def a32_frame_def a32_regs_mem_def a32_handle_def Let_def addr_simps)

lemma a32_frame_ctx:
  "a32_ctx (ar s (GR 3) \<noteq> 0) (a32_frame s) (a32_handle s)
    = (a32_kept (ar s (GR 3) \<noteq> 0) s, ar s (GR 14), ar s SP)"
  by (simp add: a32_ctx_def a32_frame_def a32_regs_mem_def a32_handle_def Let_def addr_simps a32_kept_def)

lemma jump_a32:
  fixes s :: "u32 astate"
  defines "m \<equiv> (a32_frame s)(ar s (GR 0) := a32_handle s)" and "n \<equiv> ar s (GR 1)"
  assumes "a32_callable s" "aligned n"
  shows "\<exists>s'. acall org jump_fcontext_linux_arm32 s = Some (Goto (m (n + 100)), s') \<and> amem s' = m
    \<and> a32_kept (ar s (GR 3) \<noteq> 0) s' = fst (a32_ctx (ar s (GR 3) \<noteq> 0) m n)
    \<and> ar s' SP = n + 104 \<and> ar s' (GR 0) = ar s (GR 2)"
  using assms
  by (simp del: fun_upd_apply add: acall_def a32_callable_def jump_a32_save jump_a32_load
      jump_a32_resume a32_kept_def a32_ctx_def a32_ar_load_def a32_fr_load_def fun_upd_same fun_upd_other)

lemma jump_a32_switches:
  assumes "a32_callable s" "a32_ready (amem s) (ar s (GR 1))"
  shows "\<exists>p s'. acall org jump_fcontext_linux_arm32 s = Some (Goto p, s')
    \<and> (a32_kept (ar s (GR 3) \<noteq> 0) s', p, ar s' SP) = a32_ctx (ar s (GR 3) \<noteq> 0) (amem s) (ar s (GR 1))
    \<and> ar s' (GR 0) = ar s (GR 2) \<and> ar s' (GR 0) = ar s (GR 2)
    \<and> amem s' (ar s (GR 0)) = a32_handle s
    \<and> a32_ctx (ar s (GR 3) \<noteq> 0) (amem s') (a32_handle s)
      = (a32_kept (ar s (GR 3) \<noteq> 0) s, ar s (GR 14), ar s SP)
    \<and> a32_ready (amem s') (a32_handle s)
    \<and> (\<forall>a. a \<notin> a32_touched s \<longrightarrow> amem s' a = amem s a)"
proof -
  let ?b = "ar s (GR 3) \<noteq> 0" and ?n = "ar s (GR 1)" and ?h = "a32_handle s"
  define m where "m = (a32_frame s)(ar s (GR 0) := ?h)"
  have apart: "a32_area ?h \<inter> a32_area ?n = {}" "ar s (GR 0) \<notin> a32_area ?h"
    "ar s (GR 0) \<notin> a32_area ?n" "aligned (ar s SP)"
    using assms(1) by (auto simp: a32_callable_def)
  have "a32_ctx ?b m ?n = a32_ctx ?b (amem s) ?n \<and> a32_ready m ?n = a32_ready (amem s) ?n"
    using apart by (intro a32_ctx_local) (auto simp: m_def disjoint_iff intro!: a32_frame_other)
  moreover have "a32_ctx ?b m ?h = a32_ctx ?b (a32_frame s) ?h \<and> a32_ready m ?h = a32_ready (a32_frame s) ?h"
    using apart by (intro a32_ctx_local) (auto simp: m_def)
  moreover have "a32_ready m ?h"
    using apart(4) by (simp add: a32_ready_def a32_handle_def addr_simps)
  moreover have "a \<notin> a32_touched s \<Longrightarrow> m a = amem s a" for a
    by (simp add: m_def a32_touched_def a32_frame_other)
  moreover obtain s' where "acall org jump_fcontext_linux_arm32 s = Some (Goto (m (?n + 100)), s')" "amem s' = m"
    "a32_kept ?b s' = fst (a32_ctx ?b m ?n)" "ar s' SP = ?n + 104" "ar s' (GR 0) = ar s (GR 2)"
    using jump_a32 [OF assms(1), of org] assms(2)
    by (auto simp: m_def a32_ready_def simp del: fun_upd_apply)
  moreover have "m (ar s (GR 0)) = ?h" by (simp add: m_def)
  moreover have "a32_ctx ?b m ?n = (fst (a32_ctx ?b m ?n), m (?n + 100), ?n + 104)"
    by (simp add: a32_ctx_def)
  ultimately show ?thesis by (metis a32_frame_ctx)
qed

subsection \<open>Execution of \<open>make_fcontext\<close>\<close>

definition a32_made :: "u32 astate \<Rightarrow> u32" where
  "a32_made s = (ar s (GR 0) AND - 16) - 104"

definition a32_entry_sp :: "u32 astate \<Rightarrow> u32" where
  "a32_entry_sp s = ar s (GR 0) AND - 16"

definition a32_made_cells :: "u32 astate \<Rightarrow> u32 set" where
  "a32_made_cells s = {a32_made s + 96, a32_made s + 100}"

definition a32_made_mem :: "u32 \<Rightarrow> u32 astate \<Rightarrow> u32 \<Rightarrow> u32" where
  "a32_made_mem fin s = (amem s)(a32_made s + 100 := ar s (GR 2), a32_made s + 96 := fin)"

lemma make_a32:
  fixes s :: "u32 astate"
  shows "\<exists>s'. acall org make_fcontext_linux_arm32 s = Some (Goto (ar s (GR 14)), s')
    \<and> a32_kept True s' = a32_kept True s \<and> ar s' SP = ar s SP \<and> ar s' (GR 0) = a32_made s
    \<and> amem s' = a32_made_mem (alab org make_fcontext_linux_arm32 ''finish'') s"
  unfolding acall_def
  by (subst (2) make_fcontext_linux_arm32_def) (simp del: fun_upd_apply cong: bind_weak_cong
      add: arm_run a32_kept_def a32_made_def a32_made_mem_def)

lemma finish_a32:
  fixes s :: "u32 astate"
  shows "\<exists>s'. arun org make_fcontext_linux_arm32 (afrom_label ''finish'' make_fcontext_linux_arm32) s
    = Some (External ''_exit'', s') \<and> ar s' (GR 0) = 0"
  by (simp del: fun_upd_apply cong: bind_weak_cong add: arm_run arun_label
      arg_cong [OF make_fcontext_linux_arm32_def, of "afrom_label ''finish''", simplified])

lemma a32_made_ctx:
  "\<exists>k. a32_ctx b (a32_made_mem fin s) (a32_made s) = (k, ar s (GR 2), a32_entry_sp s) \<and> last (fst k) = fin"
  "a32_ready m (a32_made s)" "a \<notin> a32_made_cells s \<Longrightarrow> a32_made_mem fin s a = amem s a"
  by (simp_all add: a32_ctx_def a32_ready_def a32_made_mem_def a32_made_def a32_entry_sp_def
      a32_made_cells_def addr_simps)

lemma make_a32_law:
  shows "\<exists>k s'. acall org make_fcontext_linux_arm32 s = Some (Goto (ar s (GR 14)), s')
    \<and> a32_kept True s' = a32_kept True s \<and> ar s' SP = ar s SP \<and> ar s' (GR 0) = a32_made s
    \<and> a32_ctx b (amem s') (a32_made s) = (k, ar s (GR 2), a32_entry_sp s)
    \<and> last (fst k) = alab org make_fcontext_linux_arm32 ''finish''
    \<and> a32_ready (amem s') (a32_made s) \<and> (\<forall>a. a \<notin> a32_made_cells s \<longrightarrow> amem s' a = amem s a)"
proof -
  let ?m = "a32_made_mem (alab org make_fcontext_linux_arm32 ''finish'') s"
  from a32_made_ctx(1) obtain k where "a32_ctx b ?m (a32_made s) = (k, ar s (GR 2), a32_entry_sp s)"
    "last (fst k) = alab org make_fcontext_linux_arm32 ''finish''" by blast
  moreover from make_a32 obtain s' where "acall org make_fcontext_linux_arm32 s = Some (Goto (ar s (GR 14)), s')"
    "a32_kept True s' = a32_kept True s" "ar s' SP = ar s SP" "ar s' (GR 0) = a32_made s" "amem s' = ?m"
    by blast
  ultimately show ?thesis
    using a32_made_ctx(2,3) by (intro exI [of _ k] exI [of _ s']) simp
qed

interpretation a32: context_make "acall org jump_fcontext_linux_arm32" amem "\<lambda>s. ar s SP"
  "\<lambda>s. ar s (GR 14)" "\<lambda>s. ar s SP" "\<lambda>s. ar s (GR 0)" "\<lambda>s. ar s (GR 0)" a32_kept "\<lambda>k m p. last (fst k)"
  "\<lambda>s. ar s (GR 0)" "\<lambda>s. ar s (GR 1)" "\<lambda>s. ar s (GR 2)" "\<lambda>s. ar s (GR 3) \<noteq> 0" a32_handle a32_area
  a32_touched a32_ctx "\<lambda>b. a32_ready" a32_callable "acall org' make_fcontext_linux_arm32" "\<lambda>s. ar s (GR 2)" a32_made
  a32_made_cells a32_entry_sp "alab org' make_fcontext_linux_arm32 ''finish''" "\<lambda>s. True" for org org'
  by unfold_locales ((rule jump_a32_switches a32_ctx_local make_a32_law; assumption)
    | simp add: a32_kept_def)+

end
