(* ===== verification/Fcontext_Apple_Arm.thy ===== *)
theory Fcontext_Apple_Arm
  imports Fcontext Arm
begin

section \<open>Context switching on 32-bit ARM, Apple systems\<close>

text \<open>
  \<open>jump_fcontext\<close> and \<open>make_fcontext\<close> of \<open>src/src/libcontext.c\<close> for Apple systems on 32-bit ARM. A
  context also holds the head of the chain of exception handlers, which is kept in the thread
  local storage of the process. (The \<open>#if\<close> lines are inside the assembler text, where a line that
  starts with \<open>#\<close> is a comment.)
\<close>

definition make_fcontext_apple_arm :: "ainstr list" where
  "make_fcontext_apple_arm = [
    BIC (GR 0) (GR 0) 15, SUBI (GR 0) (GR 0) 108, STRI (GR 2) (GR 0) 104,
    ADR (GR 1) ''finish'', STRI (GR 1) (GR 0) 100, BX (GR 14), ALABEL ''finish'',
    MOVI (GR 0) 0, BL ''__exit'']"

definition jump_fcontext_apple_arm :: "ainstr list" where
  "jump_fcontext_apple_arm = [
    PUSHM [GR 14], PUSHM [GR 4, GR 5, GR 6, GR 7, GR 8, GR 9, GR 10, GR 11, GR 14],
    MRC_TLS (GR 5), BIC (GR 5) (GR 5) 3, LDRI (GR 4) (GR 5) 72, PUSHM [GR 4], SUBI SP SP 64,
    CMPI (GR 3) 0, BEQ ''1'',
    VSTMIA SP [16, 17, 18, 19, 20, 21, 22, 23, 24, 25, 26, 27, 28, 29, 30, 31], ALABEL ''1'',
    STRI SP (GR 0) 0, MOVR SP (GR 1), CMPI (GR 3) 0, BEQ ''2'',
    VLDMIA SP [16, 17, 18, 19, 20, 21, 22, 23, 24, 25, 26, 27, 28, 29, 30, 31], ALABEL ''2'',
    ADDI SP SP 64, POPM [GR 4], STRI (GR 4) (GR 5) 72, MOVR (GR 0) (GR 2),
    POP_PC [GR 4, GR 5, GR 6, GR 7, GR 8, GR 9, GR 10, GR 11, GR 14]]"

subsection \<open>The saved context\<close>

text \<open>
  The halves \<open>s16\<close> to \<open>s31\<close> of the floating point registers \<open>d8\<close> to \<open>d15\<close>, the handler, \<open>v1\<close> to \<open>v8\<close>,
  \<open>lr\<close> and the address to go on at.
\<close>

definition sjlj_cell :: "u32 astate \<Rightarrow> u32" where
  "sjlj_cell s = (tls s AND - 4) + 72"

definition aa_area :: "u32 \<Rightarrow> u32 set" where
  "aa_area h = {h, h + 4, h + 8, h + 12, h + 16, h + 20, h + 24, h + 28, h + 32, h + 36, h + 40, h + 44,
     h + 48, h + 52, h + 56, h + 60, h + 64, h + 68, h + 72, h + 76, h + 80, h + 84, h + 88,
     h + 92, h + 96, h + 100, h + 104}"

definition aa_kept :: "bool \<Rightarrow> u32 astate \<Rightarrow> u32 list \<times> u32 list option" where
  "aa_kept b s = (amem s (sjlj_cell s) # map (ar s) [GR 4, GR 5, GR 6, GR 7, GR 8, GR 9, GR 10, GR 11, GR 14],
     if b then Some (map (fr s) [16, 17, 18, 19, 20, 21, 22, 23, 24, 25, 26, 27, 28, 29, 30, 31]) else None)"

definition aa_ctx :: "bool \<Rightarrow> (u32 \<Rightarrow> u32) \<Rightarrow> u32 \<Rightarrow> (u32 list \<times> u32 list option) \<times> u32 \<times> u32" where
  "aa_ctx b m h = ((m (h + 64) # map m [h + 68, h + 72, h + 76, h + 80, h + 84, h + 88, h + 92, h + 96, h + 100],
     if b then Some (map m [h, h + 4, h + 8, h + 12, h + 16, h + 20, h + 24, h + 28, h + 32, h + 36, h + 40, h + 44,
     h + 48, h + 52, h + 56, h + 60]) else None), m (h + 104), h + 108)"

definition aa_ready :: "(u32 \<Rightarrow> u32) \<Rightarrow> u32 \<Rightarrow> bool" where
  "aa_ready m h \<longleftrightarrow> aligned h"

definition aa_handle :: "u32 astate \<Rightarrow> u32" where
  "aa_handle s = ar s SP - 108"

definition aa_touched :: "u32 astate \<Rightarrow> u32 set" where
  "aa_touched s = insert (ar s (GR 0)) (insert (sjlj_cell s) (aa_area (aa_handle s)))"

definition aa_callable :: "u32 astate \<Rightarrow> bool" where
  "aa_callable s \<longleftrightarrow> aligned (ar s SP) \<and> aligned (ar s (GR 0))
     \<and> aa_area (aa_handle s) \<inter> aa_area (ar s (GR 1)) = {}
     \<and> ar s (GR 0) \<notin> aa_area (aa_handle s) \<union> aa_area (ar s (GR 1))
     \<and> sjlj_cell s \<notin> insert (ar s (GR 0)) (aa_area (aa_handle s) \<union> aa_area (ar s (GR 1)))"

lemma sjlj_state:
  "sjlj_cell (s\<lparr>ar := r\<rparr>) = sjlj_cell s" "sjlj_cell (s\<lparr>amem := m\<rparr>) = sjlj_cell s"
  "sjlj_cell (s\<lparr>az := z\<rparr>) = sjlj_cell s" "sjlj_cell (s\<lparr>fr := f\<rparr>) = sjlj_cell s"
  by (simp_all add: sjlj_cell_def)

lemma aligned_and_minus_4: "aligned (a AND - 4 :: u32)"
proof -
  have "take_bit 2 (a AND - 4) = 0"
    using take_bit_push_bit [of 2 2 "- 1 :: u32"] by (simp add: push_bit_eq_mult)
  then have "take_bit 2 (unat (a AND - 4)) = 0"
    by (metis unsigned_0 unsigned_take_bit_eq)
  then show ?thesis by (simp add: take_bit_eq_mod aligned_def cell_off_def cell_bytes_def)
qed

subsection \<open>Execution of \<open>jump_fcontext\<close>\<close>

definition aa_regs_mem :: "u32 astate \<Rightarrow> u32 \<Rightarrow> u32" where
  "aa_regs_mem s = (let p = ar s SP in (amem s)(
       p - 4 := ar s (GR 14), p - 40 := ar s (GR 4), p - 36 := ar s (GR 5), p - 32 := ar s (GR
       6), p - 28 := ar s (GR 7), p - 24 := ar s (GR 8), p - 20 := ar s (GR 9), p - 16 := ar s
       (GR 10), p - 12 := ar s (GR 11), p - 8 := ar s (GR 14), p - 44 := amem s (sjlj_cell s)))"

definition aa_frame :: "u32 astate \<Rightarrow> u32 \<Rightarrow> u32" where
  "aa_frame s = (let p = ar s SP in if ar s (GR 3) = 0 then aa_regs_mem s else (aa_regs_mem s)(
       p - 108 := fr s 16, p - 104 := fr s 17, p - 100 := fr s 18, p - 96 := fr s 19, p - 92 :=
       fr s 20, p - 88 := fr s 21, p - 84 := fr s 22, p - 80 := fr s 23, p - 76 := fr s 24, p -
       72 := fr s 25, p - 68 := fr s 26, p - 64 := fr s 27, p - 60 := fr s 28, p - 56 := fr s
       29, p - 52 := fr s 30, p - 48 := fr s 31))"

definition aa_fr_load :: "(u32 \<Rightarrow> u32) \<Rightarrow> u32 \<Rightarrow> (nat \<Rightarrow> u32) \<Rightarrow> nat \<Rightarrow> u32" where
  "aa_fr_load m h f = f(
       16 := m h, 17 := m (h + 4), 18 := m (h + 8), 19 := m (h + 12), 20 := m (h + 16), 21 := m
       (h + 20), 22 := m (h + 24), 23 := m (h + 28), 24 := m (h + 32), 25 := m (h + 36), 26 :=
       m (h + 40), 27 := m (h + 44), 28 := m (h + 48), 29 := m (h + 52), 30 := m (h + 56), 31
       := m (h + 60))"

definition aa_ar_load :: "(u32 \<Rightarrow> u32) \<Rightarrow> u32 \<Rightarrow> (areg \<Rightarrow> u32) \<Rightarrow> areg \<Rightarrow> u32" where
  "aa_ar_load m h r = r(GR 0 := r (GR 2),
       GR 4 := m (h + 68), GR 5 := m (h + 72), GR 6 := m (h + 76), GR 7 := m (h + 80), GR 8 :=
       m (h + 84), GR 9 := m (h + 88), GR 10 := m (h + 92), GR 11 := m (h + 96), GR 14 := m (h
       + 100), SP := h + 108)"

lemmas jump_aa_1 = arg_cong [OF jump_fcontext_apple_arm_def, of "afrom_label ''1''", simplified]
lemmas jump_aa_2 = arg_cong [OF jump_fcontext_apple_arm_def, of "afrom_label ''2''", simplified]

lemma jump_aa_save:
  fixes s :: "u32 astate"
  assumes "aligned (ar s SP)" "\<forall>c\<in>aa_area (aa_handle s). apart (sjlj_cell s) c"
  shows "arun org jump_fcontext_apple_arm jump_fcontext_apple_arm s =
    arun org jump_fcontext_apple_arm (afrom_label ''1'' jump_fcontext_apple_arm)
      (s\<lparr>ar := (ar s)(GR 5 := tls s AND - 4, GR 4 := amem s (sjlj_cell s), SP := aa_handle s),
         amem := aa_frame s, az := (ar s (GR 3) = 0)\<rparr>)"
  using assms aligned_and_minus_4 [of "tls s"]
  by (subst (2) jump_fcontext_apple_arm_def, cases "ar s (GR 3) = 0")
    (simp_all del: fun_upd_apply cong: bind_weak_cong add: arm_run aa_frame_def aa_regs_mem_def
      aa_handle_def aa_area_def sjlj_cell_def jump_aa_1 [symmetric])

lemma jump_aa_load:
  fixes s :: "u32 astate"
  defines "m \<equiv> (amem s)(ar s (GR 0) := ar s SP)"
  assumes "aligned (ar s (GR 0))" "aligned (ar s (GR 1))"
  shows "arun org jump_fcontext_apple_arm (afrom_label ''1'' jump_fcontext_apple_arm) s =
    arun org jump_fcontext_apple_arm (afrom_label ''2'' jump_fcontext_apple_arm)
      (s\<lparr>ar := (ar s)(SP := ar s (GR 1)), amem := m, az := (ar s (GR 3) = 0),
         fr := (if ar s (GR 3) = 0 then fr s else aa_fr_load m (ar s (GR 1)) (fr s))\<rparr>)"
  using assms
  by (subst jump_aa_1, cases "ar s (GR 3) = 0") (simp_all del: fun_upd_apply cong: bind_weak_cong
      add: arm_run arun_label aa_fr_load_def jump_aa_2 [symmetric])

lemma jump_aa_resume:
  fixes s :: "u32 astate"
  defines "t \<equiv> ar s (GR 5) + 72"
  assumes "aligned (ar s SP)" "aligned (ar s (GR 5))" "\<forall>c\<in>aa_area (ar s SP). apart c t"
  shows "arun org jump_fcontext_apple_arm (afrom_label ''2'' jump_fcontext_apple_arm) s =
    Some (Goto (amem s (ar s SP + 104)), s\<lparr>ar := aa_ar_load (amem s) (ar s SP) (ar s),
      amem := (amem s)(t := amem s (ar s SP + 64))\<rparr>)"
  using assms
  by (subst jump_aa_2) (simp del: fun_upd_apply cong: bind_weak_cong
      add: arm_run arun_label aa_area_def aa_ar_load_def)

lemma aa_ctx_local:
  "(\<And>a. a \<in> aa_area h \<Longrightarrow> m a = m' a) \<Longrightarrow>
    aa_ctx b m h = aa_ctx b m' h \<and> aa_ready m h = aa_ready m' h"
  by (simp add: aa_ctx_def aa_ready_def aa_area_def)

lemma aa_frame_other: "a \<notin> aa_area (aa_handle s) \<Longrightarrow> aa_frame s a = amem s a"
  by (simp add: aa_area_def aa_frame_def aa_regs_mem_def aa_handle_def Let_def addr_simps)

lemma aa_frame_ctx:
  "aa_ctx (ar s (GR 3) \<noteq> 0) (aa_frame s) (aa_handle s)
    = (aa_kept (ar s (GR 3) \<noteq> 0) s, ar s (GR 14), ar s SP)"
  by (simp add: aa_ctx_def aa_frame_def aa_regs_mem_def aa_handle_def Let_def addr_simps aa_kept_def)

lemma jump_aa:
  fixes s :: "u32 astate"
  defines "m \<equiv> (aa_frame s)(ar s (GR 0) := aa_handle s)" and "n \<equiv> ar s (GR 1)"
  assumes "aa_callable s" "aligned n"
  shows "\<exists>s'. acall org jump_fcontext_apple_arm s = Some (Goto (m (n + 104)), s')
    \<and> amem s' = m(sjlj_cell s := m (n + 64))
    \<and> aa_kept (ar s (GR 3) \<noteq> 0) s' = fst (aa_ctx (ar s (GR 3) \<noteq> 0) m n)
    \<and> ar s' SP = n + 108 \<and> ar s' (GR 0) = ar s (GR 2)"
proof -
  have t: "\<forall>c\<in>aa_area (aa_handle s). apart (sjlj_cell s) c" "\<forall>c\<in>aa_area n. apart c (sjlj_cell s)"
    "aligned (ar s SP)" "aligned (ar s (GR 0))"
    using assms(3) by (auto simp: aa_callable_def apart_def n_def)
  have cell: "(tls s AND - 4) + 72 = sjlj_cell s" by (simp add: sjlj_cell_def)
  show ?thesis
    using t cell assms(4) aligned_and_minus_4 [of "tls s"]
    by (simp del: fun_upd_apply add: acall_def jump_aa_save jump_aa_load jump_aa_resume m_def n_def
       aa_kept_def aa_ctx_def aa_ar_load_def aa_fr_load_def fun_upd_same fun_upd_other
       sjlj_state)
qed

lemma jump_aa_switches:
  assumes "aa_callable s" "aa_ready (amem s) (ar s (GR 1))"
  shows "\<exists>p s'. acall org jump_fcontext_apple_arm s = Some (Goto p, s')
    \<and> (aa_kept (ar s (GR 3) \<noteq> 0) s', p, ar s' SP) = aa_ctx (ar s (GR 3) \<noteq> 0) (amem s) (ar s (GR 1))
    \<and> ar s' (GR 0) = ar s (GR 2) \<and> ar s' (GR 0) = ar s (GR 2)
    \<and> amem s' (ar s (GR 0)) = aa_handle s
    \<and> aa_ctx (ar s (GR 3) \<noteq> 0) (amem s') (aa_handle s)
      = (aa_kept (ar s (GR 3) \<noteq> 0) s, ar s (GR 14), ar s SP)
    \<and> aa_ready (amem s') (aa_handle s)
    \<and> (\<forall>a. a \<notin> aa_touched s \<longrightarrow> amem s' a = amem s a)"
proof -
  let ?b = "ar s (GR 3) \<noteq> 0" and ?n = "ar s (GR 1)" and ?h = "aa_handle s"
  define m where "m = (aa_frame s)(ar s (GR 0) := ?h)"
  define m' where "m' = m(sjlj_cell s := m (?n + 64))"
  have apart: "aa_area ?h \<inter> aa_area ?n = {}" "ar s (GR 0) \<notin> aa_area ?h"
    "ar s (GR 0) \<notin> aa_area ?n" "aligned (ar s SP)"
    "sjlj_cell s \<notin> aa_area ?h" "ar s (GR 0) \<noteq> sjlj_cell s"
    using assms(1) by (auto simp: aa_callable_def)
  have "aa_ctx ?b m ?n = aa_ctx ?b (amem s) ?n \<and> aa_ready m ?n = aa_ready (amem s) ?n"
    using apart by (intro aa_ctx_local) (auto simp: m_def disjoint_iff intro!: aa_frame_other)
  moreover have "aa_ctx ?b m' ?h = aa_ctx ?b (aa_frame s) ?h \<and> aa_ready m' ?h = aa_ready (aa_frame s) ?h"
    using apart by (intro aa_ctx_local) (auto simp: m_def m'_def)
  moreover have "aa_ready m' ?h"
    using apart(4) by (simp add: aa_ready_def aa_handle_def addr_simps)
  moreover have "a \<notin> aa_touched s \<Longrightarrow> m' a = amem s a" for a
    by (simp add: m_def m'_def aa_touched_def aa_frame_other)
  moreover obtain s' where "acall org jump_fcontext_apple_arm s = Some (Goto (m (?n + 104)), s')" "amem s' = m'"
    "aa_kept ?b s' = fst (aa_ctx ?b m ?n)" "ar s' SP = ?n + 108" "ar s' (GR 0) = ar s (GR 2)"
    using jump_aa [OF assms(1), of org] assms(2)
    by (auto simp: m_def m'_def aa_ready_def simp del: fun_upd_apply)
  moreover have "m' (ar s (GR 0)) = ?h" using apart(6) by (simp add: m_def m'_def)
  moreover have "aa_ctx ?b m ?n = (fst (aa_ctx ?b m ?n), m (?n + 104), ?n + 108)"
    by (simp add: aa_ctx_def)
  ultimately show ?thesis by (metis aa_frame_ctx)
qed

subsection \<open>Execution of \<open>make_fcontext\<close>\<close>

definition aa_made :: "u32 astate \<Rightarrow> u32" where
  "aa_made s = (ar s (GR 0) AND - 16) - 108"

definition aa_entry_sp :: "u32 astate \<Rightarrow> u32" where
  "aa_entry_sp s = ar s (GR 0) AND - 16"

definition aa_made_cells :: "u32 astate \<Rightarrow> u32 set" where
  "aa_made_cells s = {aa_made s + 100, aa_made s + 104}"

definition aa_made_mem :: "u32 \<Rightarrow> u32 astate \<Rightarrow> u32 \<Rightarrow> u32" where
  "aa_made_mem fin s = (amem s)(aa_made s + 104 := ar s (GR 2), aa_made s + 100 := fin)"

definition aa_makeable :: "u32 astate \<Rightarrow> bool" where
  "aa_makeable s \<longleftrightarrow> apart (sjlj_cell s) (aa_made s + 104) \<and> apart (sjlj_cell s) (aa_made s + 100)"

lemma make_aa:
  fixes s :: "u32 astate"
  assumes "aa_makeable s"
  shows "\<exists>s'. acall org make_fcontext_apple_arm s = Some (Goto (ar s (GR 14)), s')
    \<and> aa_kept True s' = aa_kept True s \<and> ar s' SP = ar s SP \<and> ar s' (GR 0) = aa_made s
    \<and> amem s' = aa_made_mem (alab org make_fcontext_apple_arm ''finish'') s"
  using assms
  unfolding acall_def
  by (subst (2) make_fcontext_apple_arm_def) (simp del: fun_upd_apply cong: bind_weak_cong
      add: arm_run aa_kept_def aa_made_def aa_made_mem_def aa_makeable_def sjlj_state)

lemma finish_aa:
  fixes s :: "u32 astate"
  shows "\<exists>s'. arun org make_fcontext_apple_arm (afrom_label ''finish'' make_fcontext_apple_arm) s
    = Some (External ''__exit'', s') \<and> ar s' (GR 0) = 0"
  by (simp del: fun_upd_apply cong: bind_weak_cong add: arm_run arun_label
      arg_cong [OF make_fcontext_apple_arm_def, of "afrom_label ''finish''", simplified])

lemma aa_made_ctx:
  "\<exists>k. aa_ctx b (aa_made_mem fin s) (aa_made s) = (k, ar s (GR 2), aa_entry_sp s) \<and> last (fst k) = fin"
  "aa_ready m (aa_made s)" "a \<notin> aa_made_cells s \<Longrightarrow> aa_made_mem fin s a = amem s a"
  by (simp_all add: aa_ctx_def aa_ready_def aa_made_mem_def aa_made_def aa_entry_sp_def
      aa_made_cells_def addr_simps)

text \<open>
  \<open>make_fcontext\<close> leaves the cell of the handler as it finds it on the new stack; the first switch
  to the new context makes it the head of the chain of exception handlers.
\<close>

lemma aa_made_sjlj: "aa_made_mem fin s (aa_made s + 64) = amem s (aa_made s + 64)"
  by (simp add: aa_made_mem_def)

lemma make_aa_law:
  assumes "aa_makeable s"
  shows "\<exists>k s'. acall org make_fcontext_apple_arm s = Some (Goto (ar s (GR 14)), s')
    \<and> aa_kept True s' = aa_kept True s \<and> ar s' SP = ar s SP \<and> ar s' (GR 0) = aa_made s
    \<and> aa_ctx b (amem s') (aa_made s) = (k, ar s (GR 2), aa_entry_sp s)
    \<and> last (fst k) = alab org make_fcontext_apple_arm ''finish''
    \<and> aa_ready (amem s') (aa_made s) \<and> (\<forall>a. a \<notin> aa_made_cells s \<longrightarrow> amem s' a = amem s a)"
proof -
  let ?m = "aa_made_mem (alab org make_fcontext_apple_arm ''finish'') s"
  from aa_made_ctx(1) obtain k where "aa_ctx b ?m (aa_made s) = (k, ar s (GR 2), aa_entry_sp s)"
    "last (fst k) = alab org make_fcontext_apple_arm ''finish''" by blast
  moreover from make_aa [OF assms] obtain s' where "acall org make_fcontext_apple_arm s = Some (Goto (ar s (GR 14)), s')"
    "aa_kept True s' = aa_kept True s" "ar s' SP = ar s SP" "ar s' (GR 0) = aa_made s" "amem s' = ?m"
    by blast
  ultimately show ?thesis
    using aa_made_ctx(2,3) by (intro exI [of _ k] exI [of _ s']) simp
qed

interpretation aa: context_make "acall org jump_fcontext_apple_arm" amem "\<lambda>s. ar s SP"
  "\<lambda>s. ar s (GR 14)" "\<lambda>s. ar s SP" "\<lambda>s. ar s (GR 0)" "\<lambda>s. ar s (GR 0)" aa_kept "\<lambda>k m p. last (fst k)"
  "\<lambda>s. ar s (GR 0)" "\<lambda>s. ar s (GR 1)" "\<lambda>s. ar s (GR 2)" "\<lambda>s. ar s (GR 3) \<noteq> 0" aa_handle aa_area
  aa_touched aa_ctx "\<lambda>b. aa_ready" aa_callable "acall org' make_fcontext_apple_arm" "\<lambda>s. ar s (GR 2)" aa_made
  aa_made_cells aa_entry_sp "alab org' make_fcontext_apple_arm ''finish''" aa_makeable for org org'
  by unfold_locales ((rule jump_aa_switches aa_ctx_local make_aa_law; assumption)
    | simp add: aa_kept_def)+

end
