(* ===== verification/Context_Switch.thy ===== *)
theory Context_Switch
  imports Fcontext_X64 Fcontext_I386 Fcontext_Win64 Fcontext_Win32 Fcontext_Arm64 Fcontext_Arm32
    Fcontext_Apple_Arm
begin

section \<open>Context switching in the library\<close>

text \<open>
  Which of the routines \<open>src/src/libcontext.h\<close> and \<open>libcontext.c\<close> choose for a platform, how
  \<open>lthread.c\<close> calls them (\<open>lthread_create\<close>, \<open>_lthread_resume\<close>, \<open>_lthread_yield\<close> and \<open>_switch\<close>), and
  what the lthreads and their schedulers get from them.
\<close>

subsection \<open>The choice of the routines\<close>

text \<open>
  The names \<open>x\<close> of the macros \<open>LIBCONTEXT_PLATFORM_x\<close> that the header defines when the compiler
  predefines the macros \<open>D\<close>.
\<close>

definition libcontext_platform :: "string set \<Rightarrow> string list" where
  "libcontext_platform D =
    (if ''__GNUC__'' \<in> D \<or> ''__APPLE__'' \<in> D then
       if ''__linux__'' \<in> D then
         if ''__x86_64__'' \<in> D then [''linux_x86_64'']
         else if ''__i386__'' \<in> D then [''linux_i386'']
         else if ''__arm__'' \<in> D then [''linux_arm32'']
         else if ''__aarch64__'' \<in> D then [''linux_arm64'']
         else []
       else if ''__MINGW32__'' \<in> D \<or> ''__MINGW64__'' \<in> D then
         (if ''__x86_64__'' \<in> D then [''windows_x86_64''] else [])
         @ (if ''__i386__'' \<in> D then [''windows_i386''] else [])
       else if ''__APPLE__'' \<in> D \<and> ''__MACH__'' \<in> D then
         if ''__i386__'' \<in> D then [''apple_i386'']
         else if ''__x86_64__'' \<in> D then [''apple_x86_64'']
         else if ''__arm__'' \<in> D then [''apple_arm32'']
         else if ''__aarch64__'' \<in> D then [''apple_arm64'']
         else []
       else []
     else [])"

text \<open>The two routines that \<open>libcontext.c\<close> compiles for such a macro, \<open>jump_fcontext\<close> first.\<close>

datatype routines =
    X86_routines "xinstr list" "xinstr list"
  | Arm_routines "ainstr list" "ainstr list"

definition libcontext_routines :: "string \<Rightarrow> routines option" where
  "libcontext_routines p = map_of
    [(''windows_i386'', X86_routines jump_fcontext_windows_i386 make_fcontext_windows_i386),
     (''windows_x86_64'', X86_routines jump_fcontext_windows_x86_64 make_fcontext_windows_x86_64),
     (''linux_i386'', X86_routines jump_fcontext_linux_i386 make_fcontext_linux_i386),
     (''linux_x86_64'', X86_routines jump_fcontext_linux_x86_64 make_fcontext_linux_x86_64),
     (''apple_x86_64'', X86_routines jump_fcontext_apple_x86_64 make_fcontext_apple_x86_64),
     (''apple_i386'', X86_routines jump_fcontext_apple_i386 make_fcontext_apple_i386),
     (''linux_arm32'', Arm_routines jump_fcontext_linux_arm32 make_fcontext_linux_arm32),
     (''linux_arm64'', Arm_routines jump_fcontext_linux_arm64 make_fcontext_linux_arm64),
     (''apple_arm'', Arm_routines jump_fcontext_apple_arm make_fcontext_apple_arm),
     (''apple_arm64'', Arm_routines jump_fcontext_apple_arm64 make_fcontext_apple_arm64)] p"

text \<open>
  The header names the platform \<open>apple_arm32\<close>, the code is for \<open>apple_arm\<close>: there is no routine
  for 32-bit ARM on Apple systems. Every other platform the header names has its routines.
\<close>

lemma libcontext_routines_None:
  "p \<in> set (libcontext_platform D) \<Longrightarrow> libcontext_routines p = None \<longleftrightarrow> p = ''apple_arm32''"
  by (auto simp: libcontext_platform_def libcontext_routines_def split: if_splits)

lemma libcontext_apple_arm:
  assumes "{''__APPLE__'', ''__MACH__'', ''__arm__''} \<subseteq> D"
    "D \<inter> {''__linux__'', ''__MINGW32__'', ''__MINGW64__'', ''__i386__'', ''__x86_64__''} = {}"
  shows "map libcontext_routines (libcontext_platform D) = [None]"
  using assms by (auto simp: libcontext_platform_def libcontext_routines_def)

subsection \<open>The calls of \<open>lthread.c\<close>\<close>

text \<open>
  The arguments of \<open>jump_fcontext\<close> in \<open>_switch(new_ctx, cur_ctx)\<close>, read from the memory \<open>m\<close>, and of
  the two calls of \<open>_switch\<close>. \<open>ctx\<close> is the first field of \<open>struct lthread\<close>; \<open>sc\<close> is the address of
  the scheduler's field \<open>ctx\<close>.
\<close>

definition lt_switch_args :: "'a \<Rightarrow> 'a \<Rightarrow> ('a \<Rightarrow> 'a) \<Rightarrow> 'a \<times> 'a \<times> 'a \<times> bool" where
  "lt_switch_args new_ctx cur_ctx m = (cur_ctx, m new_ctx, new_ctx, False)"

definition lt_ctx :: "'w::len word \<Rightarrow> 'w word" where
  "lt_ctx lt = lt + 0"

definition resume_switch_args :: "'w::len word \<Rightarrow> 'w word \<Rightarrow> ('w word \<Rightarrow> 'w word)
    \<Rightarrow> 'w word \<times> 'w word \<times> 'w word \<times> bool" where
  "resume_switch_args lt sc m = lt_switch_args (lt_ctx lt) sc m"

definition yield_switch_args :: "'w::len word \<Rightarrow> 'w word \<Rightarrow> ('w word \<Rightarrow> 'w word)
    \<Rightarrow> 'w word \<times> 'w word \<times> 'w word \<times> bool" where
  "yield_switch_args lt sc m = lt_switch_args sc (lt_ctx lt) m"

text \<open>\<open>make_fcontext(lt->stack + lt->stack_size, lt->stack_size, &_exec)\<close> in \<open>lthread_create\<close>.\<close>

definition create_make_args :: "'w::len word \<Rightarrow> 'w word \<Rightarrow> 'w word \<Rightarrow> 'w word \<times> 'w word \<times> 'w word" where
  "create_make_args stack stack_size exec = (stack + stack_size, stack_size, exec)"

lemmas switch_args_defs = lt_switch_args_def lt_ctx_def resume_switch_args_def yield_switch_args_def

text \<open>The arguments in the registers of the System V calling convention on x86-64, and of ARM.\<close>

definition x64_args :: "u64 xstate \<Rightarrow> u64 \<times> u64 \<times> u64 \<times> bool" where
  "x64_args s = (xr s RDI, xr s RSI, xr s RDX, xr s RCX \<noteq> 0)"

definition x64_make_args :: "u64 xstate \<Rightarrow> u64 \<times> u64 \<times> u64" where
  "x64_make_args s = (xr s RDI, xr s RSI, xr s RDX)"

definition a64_args :: "u64 astate \<Rightarrow> u64 \<times> u64 \<times> u64 \<times> bool" where
  "a64_args s = (ar s (GR 0), ar s (GR 1), ar s (GR 2), a64_fpu s)"

subsection \<open>Switching between a scheduler and its lthread\<close>

text \<open>(C8) 
  A scheduler that resumes an lthread gets its registers and its stack back when the lthread yields
  (the registers a call preserves; \<open>_switch\<close> does not ask for \<open>mxcsr\<close> and the x87 control word). On
  Linux with x86-64, \<open>_lthread_resume\<close> calls \<open>_switch\<close> with \<open>s\<close> the state at the entry of
  \<open>jump_fcontext\<close>: the lthread goes on with the registers, at the address and on the stack it was
  suspended with. When it later calls \<open>_switch\<close> in \<open>_lthread_yield\<close>, and the cells of the
  scheduler's context are as they were, the scheduler goes on after its call with the registers and
  the stack pointer it had, and \<open>lt->ctx\<close> is the handle of a context that holds the registers, the
  return address and the stack pointer of the lthread.
\<close>
theorem lthread_switch_round_trip:
  fixes s s1 s2 :: "u64 xstate"
  assumes resume: "x64_args s = resume_switch_args lt sc (xmem s)" "x64_callable s"
      "x64_ready False (xmem s) (xmem s lt)" "xcall adr jump_fcontext_linux_x86_64 s = Some (g, s1)"
    and kept: "\<And>a. a \<in> insert sc (x64_area (x64_handle s)) \<Longrightarrow> xmem s2 a = xmem s1 a"
    and yield: "x64_args s2 = yield_switch_args lt sc (xmem s2)" "x64_callable s2"
  shows "(\<exists>p. g = Goto p \<and> (x64_kept False s1, p, xr s1 RSP) = x64_ctx False (xmem s) (xmem s lt))
    \<and> (\<exists>s3. xcall adr jump_fcontext_linux_x86_64 s2 = Some (Goto (xmem s (xr s RSP)), s3)
        \<and> x64_kept False s3 = x64_kept False s \<and> xr s3 RSP = xr s RSP + 8
        \<and> xmem s3 lt = x64_handle s2
        \<and> x64_ctx False (xmem s3) (x64_handle s2) = (x64_kept False s2, xmem s2 (xr s2 RSP), xr s2 RSP + 8)
        \<and> x64_ready False (xmem s3) (x64_handle s2))"
proof -
  have args: "xr s RDI = sc" "xr s RSI = xmem s lt" "(xr s RCX \<noteq> 0) = False"
    "xr s2 RDI = lt" "xr s2 RSI = xmem s2 sc" "(xr s2 RCX \<noteq> 0) = False"
    using resume(1) yield(1) by (auto simp: x64_args_def switch_args_defs)
  have "\<exists>p. g = Goto p \<and> (x64_kept False s1, p, xr s1 RSP) = x64_ctx False (xmem s) (xmem s lt)"
    using x64.jump_switches [of s adr] resume(2-4) args(2,3) by auto
  moreover have "\<exists>s3. xcall adr jump_fcontext_linux_x86_64 s2 = Some (Goto (xmem s (xr s RSP)), s3)
        \<and> x64_kept False s3 = x64_kept False s \<and> xr s3 RSP = xr s RSP + 8
        \<and> xmem s3 lt = x64_handle s2
        \<and> x64_ctx False (xmem s3) (x64_handle s2) = (x64_kept False s2, xmem s2 (xr s2 RSP), xr s2 RSP + 8)
        \<and> x64_ready False (xmem s3) (x64_handle s2)"
    using x64.switch_pair [of s adr g s1 s2, unfolded args] resume(2-4) kept yield(2) by simp
  ultimately show ?thesis by blast
qed

text \<open>A processor state for examples: a stack pointer, the arguments of a call, an empty memory.\<close>

definition x64_demo :: "u64 \<Rightarrow> u64 \<Rightarrow> u64 \<Rightarrow> u64 \<Rightarrow> u64 xstate" where
  "x64_demo sp a1 a2 a3 = \<lparr>xr = (\<lambda>_. 0)(RSP := sp, RDI := a1, RSI := a2, RDX := a3), xmem = (\<lambda>_. 0),
     zf = False, mxcsr = 0x1f80, fpucw = 0x37f, xmm = (\<lambda>_. (0, 0)), segbase = 0, xsym = (\<lambda>_. 0)\<rparr>"

lemma x64_demo_simps:
  "xr (x64_demo p a b c) RSP = p" "xr (x64_demo p a b c) RDI = a" "xr (x64_demo p a b c) RSI = b"
  "xr (x64_demo p a b c) RDX = c" "xr (x64_demo p a b c) RCX = 0" "xmem (x64_demo p a b c) = (\<lambda>_. 0)"
  "mxcsr_ok (mxcsr (x64_demo p a b c))"
  by (simp_all add: x64_demo_def mxcsr_ok_def)

lemma aligned_numeral:
  "aligned (numeral n :: u64) \<longleftrightarrow> unat (numeral n :: u64) mod 8 = 0" "aligned (0 :: u64)"
  "aligned (numeral n :: u32) \<longleftrightarrow> unat (numeral n :: u32) mod 4 = 0" "aligned (0 :: u32)"
  by (simp_all add: aligned_def cell_off_def cell_bytes_def)

theorem lthread_switch_round_trip_witness:
  "\<exists>s3. xcall (\<lambda>_. 0) jump_fcontext_linux_x86_64 (x64_demo 0x3000 0x5000 0xfc8 0x6000
      \<lparr>xmem := ((x64_frame (x64_demo 0x1000 0x6000 0x2000 0x5000\<lparr>xmem := (\<lambda>_. 0)(0x5000 := 0x2000)\<rparr>))
         (0x6000 := 0xfc8))\<rparr>) = Some (Goto 0, s3) \<and> xr s3 RSP = 0x1008"
proof -
  let ?s = "x64_demo 0x1000 0x6000 0x2000 0x5000\<lparr>xmem := (\<lambda>_. 0)(0x5000 := 0x2000)\<rparr>"
  let ?m = "(x64_frame ?s)(0x6000 := 0xfc8)"
  let ?s2 = "x64_demo 0x3000 0x5000 0xfc8 0x6000\<lparr>xmem := ?m\<rparr>"
  have 1: "x64_args ?s = resume_switch_args 0x5000 0x6000 (xmem ?s)" "x64_callable ?s"
    "x64_ready False (xmem ?s) (xmem ?s 0x5000)"
    by (simp_all add: x64_callable_def x64_ready_def x64_args_def switch_args_defs x64_demo_simps
        x64_area_def x64_handle_def aligned_numeral)
  obtain g s1 where 2: "xcall (\<lambda>_. 0) jump_fcontext_linux_x86_64 ?s = Some (g, s1)" "xmem s1 = ?m"
    using jump_x64 [of ?s "\<lambda>_. 0"]
    by (auto simp: x64_demo_simps x64_handle_def aligned_numeral simp del: fun_upd_apply)
  have 3: "x64_args ?s2 = yield_switch_args 0x5000 0x6000 (xmem ?s2)" "x64_callable ?s2"
    by (simp_all add: x64_callable_def x64_args_def switch_args_defs x64_demo_simps x64_area_def
        x64_handle_def aligned_numeral)
  show ?thesis
    using lthread_switch_round_trip [OF 1 2(1) _ 3] 2(2) by (auto simp: x64_demo_simps x64_handle_def)
qed

subsection \<open>Starting an lthread\<close>

lemma unat_round_down: "unat (a AND - 16 :: u64) = unat a div 16 * 16"
proof -
  have w: "a AND - 16 = push_bit 4 (drop_bit 4 a)"
  proof (rule bit_word_eqI)
    fix n assume n: "n < LENGTH(64)"
    then have "bit (- 16 :: u64) n \<longleftrightarrow> 4 \<le> n"
      using bit_push_bit_iff [of 4 "- 1 :: u64" n] by (auto simp: push_bit_eq_mult)
    with n show "bit (a AND - 16) n = bit (push_bit 4 (drop_bit 4 a)) n"
      by (auto simp: bit_simps)
  qed
  have "unat a div 16 * 16 < 2 ^ 64"
    using unsigned_less [where 'a = nat, of a] by simp
  then show ?thesis
    unfolding w unsigned_push_bit_eq unsigned_drop_bit_eq
    by (simp add: push_bit_eq_mult drop_bit_eq_div take_bit_eq_mod)
qed

text \<open>(C10) 
  The first switch to a new lthread starts its function. \<open>lthread_create\<close> calls \<open>make_fcontext\<close> in
  the state \<open>s\<close> and stores the result in \<open>lt->ctx\<close>; the call returns with the preserved registers as
  they were. When the new context is still as it was made and \<open>_lthread_resume\<close> switches to it, \<open>_exec\<close>
  is entered with the address of the lthread as its argument (which is the address of its field
  \<open>ctx\<close>), on a stack that is aligned as the calling convention asks for, and its return address is
  the label \<open>finish\<close>.
\<close>
theorem lthread_first_switch_starts:
  fixes s s1 s2 :: "u64 xstate"
  assumes create: "x64_make_args s = create_make_args stack stack_size exec" "x64_makeable s"
      "xcall adr' make_fcontext_linux_x86_64 s = Some (g, s1)"
    and kept: "xmem s2 lt = xr s1 RAX"
      "\<And>a. a \<in> insert (x64_entry_sp s) (x64_area (x64_made s)) \<Longrightarrow> xmem s2 a = xmem s1 a"
    and resume: "x64_args s2 = resume_switch_args lt sc (xmem s2)" "x64_callable s2"
      "x64_entry_sp s \<notin> x64_touched s2"
  shows "g = Goto (xmem s (xr s RSP)) \<and> x64_kept True s1 = x64_kept True s \<and> xr s1 RSP = xr s RSP + 8
    \<and> (\<exists>s3. xcall adr jump_fcontext_linux_x86_64 s2 = Some (Goto exec, s3) \<and> xr s3 RDI = lt
        \<and> unat (xr s3 RSP + 8) mod 16 = 0
        \<and> xmem s3 (xr s3 RSP) = lab_addr adr' make_fcontext_linux_x86_64 ''finish'')"
proof -
  from make_x64_linux [OF create(2), of adr'] create(3)
  have made: "g = Goto (xmem s (xr s RSP))" "x64_kept True s1 = x64_kept True s"
    "xr s1 RSP = xr s RSP + 8" "xr s1 RAX = x64_made s" by auto
  have args: "xr s RDX = exec" "xr s2 RSI = x64_made s" "xr s2 RDX = lt"
    using create(1) resume(1) kept(1) made(4)
    by (auto simp: x64_make_args_def create_make_args_def x64_args_def switch_args_defs)
  from linux_x64.start [OF create(2,3) kept(2) resume(2) args(2) resume(3), of adr]
  obtain s3 where "xcall adr jump_fcontext_linux_x86_64 s2 = Some (Goto exec, s3)"
    "xr s3 RSP = x64_entry_sp s" "xr s3 RDI = lt"
    "xmem s3 (xr s3 RSP) = lab_addr adr' make_fcontext_linux_x86_64 ''finish''"
    using args by auto
  moreover have "unat (x64_entry_sp s + 8) mod 16 = 0"
    using unat_and_minus_16 [of "xr s RDI"] by (simp add: x64_entry_sp_def)
  ultimately show ?thesis using made by auto
qed

theorem lthread_first_switch_starts_witness:
  "\<exists>s3. xcall (\<lambda>_. 0) jump_fcontext_linux_x86_64 (x64_demo 0x1000 0x6000 0x2fb8 0x5000
      \<lparr>xmem := (x64_made_mem 0 (x64_demo 0x1000 0x3000 0x800 0x77))(0x5000 := 0x2fb8)\<rparr>)
    = Some (Goto 0x77, s3) \<and> xr s3 RDI = 0x5000"
proof -
  let ?s = "x64_demo 0x1000 0x3000 0x800 0x77"
  let ?s2 = "x64_demo 0x1000 0x6000 0x2fb8 0x5000\<lparr>xmem := (x64_made_mem 0 ?s)(0x5000 := 0x2fb8)\<rparr>"
  have 1: "x64_make_args ?s = create_make_args 0x2800 0x800 0x77" "x64_makeable ?s"
    by (simp_all add: x64_make_args_def create_make_args_def x64_makeable_def x64_demo_simps
        aligned_numeral x64_made_cells_def x64_made_def x64_entry_sp_def)
  obtain g s1 where 2: "xcall (\<lambda>_. 0) make_fcontext_linux_x86_64 ?s = Some (g, s1)"
    "xr s1 RAX = x64_made ?s" "xmem s1 = x64_made_mem 0 ?s"
    using make_x64_linux [OF 1(2), of "\<lambda>_. 0"] by (auto simp: lab_addr_def)
  have 3: "xmem ?s2 0x5000 = xr s1 RAX"
    by (simp add: 2(2) x64_made_def x64_demo_simps)
  have 4: "x64_args ?s2 = resume_switch_args 0x5000 0x6000 (xmem ?s2)" "x64_callable ?s2"
    "x64_entry_sp ?s \<notin> x64_touched ?s2"
    by (simp_all add: x64_callable_def x64_args_def switch_args_defs x64_demo_simps x64_area_def
        x64_handle_def aligned_numeral x64_entry_sp_def x64_touched_def)
  have 5: "xmem ?s2 a = xmem s1 a" if "a \<in> insert (x64_entry_sp ?s) (x64_area (x64_made ?s))" for a
    using that by (auto simp: 2(3) x64_area_def x64_made_def x64_entry_sp_def x64_demo_simps)
  show ?thesis
    using lthread_first_switch_starts [OF 1 2(1) 3 5 4, of "\<lambda>_. 0"] by auto
qed

lemma x64_made_inside:
  assumes "xr s RDI = stack + stack_size" "unat stack + unat stack_size < 2 ^ 64" "87 \<le> unat stack_size"
    and "a \<in> insert (x64_entry_sp s) (x64_area (x64_made s))"
  shows "aligned a \<and> unat stack \<le> unat a \<and> unat a + 8 \<le> unat stack + unat stack_size"
proof -
  let ?r = "xr s RDI AND - 16"
  have top: "unat (xr s RDI) = unat stack + unat stack_size"
    using assms(1,2) by (simp add: unat_word_ariths)
  have r: "unat (xr s RDI) < unat ?r + 16" "unat ?r \<le> unat (xr s RDI)"
    using div_mult_mod_eq [of "unat (xr s RDI)" 16] mod_less_divisor [of 16 "unat (xr s RDI)"]
    unfolding unat_round_down by linarith+
  have cell: "unat stack \<le> unat (?r - k) \<and> unat (?r - k) + 8 \<le> unat stack + unat stack_size"
    if "8 \<le> unat k" "unat k \<le> 72" for k
  proof -
    have "unat (?r - k) = unat ?r - unat k"
      using that(2) top r assms(3) by (intro unat_sub) (simp add: word_le_nat_alt)
    then show ?thesis using that top r assms(3) by linarith
  qed
  have area: "insert (x64_entry_sp s) (x64_area (x64_made s)) = (\<lambda>k. ?r - k) ` {8, 72, 64, 56, 48, 40, 32, 24, 16}"
    by (simp add: x64_entry_sp_def x64_area_def x64_made_def addr_simps)
  have off: "\<forall>k\<in>{8, 72, 64, 56, 48, 40, 32, 24, 16 :: u64}. aligned (?r - k) \<and> 8 \<le> unat k \<and> unat k \<le> 72"
    by (simp add: addr_simps)
  from assms(4) show ?thesis unfolding area
  proof (rule imageE)
    fix k assume "a = ?r - k" "k \<in> {8, 72, 64, 56, 48, 40, 32, 24, 16}"
    with bspec [OF off this(2)] cell [of k] show ?thesis by (simp only: simp_thms)
  qed
qed

text \<open>(C28) 
  The context that \<open>lthread_create\<close> makes lies inside the lthread's stack: with a stack of at least
  87 bytes that does not wrap around the address space, \<open>make_fcontext\<close> returns and writes only to
  cells between the lowest address of the stack and its top, and so are all cells of the context
  whose handle it returns.
\<close>
theorem make_fcontext_inside_stack:
  fixes s :: "u64 xstate"
  assumes "x64_make_args s = create_make_args stack stack_size exec" "x64_makeable s"
    and "unat stack + unat stack_size < 2 ^ 64" "87 \<le> unat stack_size"
  shows "\<exists>s'. xcall adr make_fcontext_linux_x86_64 s = Some (Goto (xmem s (xr s RSP)), s')
    \<and> (\<forall>a. xmem s' a \<noteq> xmem s a \<or> a \<in> x64_area (xr s' RAX) \<longrightarrow>
         aligned a \<and> unat stack \<le> unat a \<and> unat a + 8 \<le> unat stack + unat stack_size)"
proof -
  from make_x64_linux [OF assms(2), of adr] obtain s' where
    s': "xcall adr make_fcontext_linux_x86_64 s = Some (Goto (xmem s (xr s RSP)), s')" "xr s' RAX = x64_made s"
      "xmem s' = x64_made_mem (lab_addr adr make_fcontext_linux_x86_64 ''finish'') s" by blast
  have top: "xr s RDI = stack + stack_size"
    using assms(1) by (simp add: x64_make_args_def create_make_args_def)
  have "xmem s' a \<noteq> xmem s a \<Longrightarrow> a \<in> insert (x64_entry_sp s) (x64_area (x64_made s))" for a
    by (auto simp: s'(3) x64_made_mem_def x64_area_def split: if_splits)
  then show ?thesis using s'(1,2) x64_made_inside [OF top assms(3,4)] by fastforce
qed

theorem make_fcontext_inside_stack_witness:
  "\<exists>s'. xcall (\<lambda>_. 0) make_fcontext_linux_x86_64 (x64_demo 0x1000 0x3000 0x800 0x77) = Some (Goto 0, s')
    \<and> (\<forall>a\<in>x64_area (xr s' RAX). 0x2800 \<le> unat a)"
proof -
  have 1: "x64_make_args (x64_demo 0x1000 0x3000 0x800 0x77) = create_make_args 0x2800 0x800 0x77"
    by (simp add: x64_make_args_def create_make_args_def x64_demo_simps)
  have 2: "x64_makeable (x64_demo 0x1000 0x3000 0x800 0x77)"
    by (simp add: x64_makeable_def x64_demo_simps aligned_numeral x64_made_cells_def x64_made_def
        x64_entry_sp_def)
  from make_fcontext_inside_stack [OF 1 2, of "\<lambda>_. 0"] show ?thesis
    by (auto simp: x64_demo_simps)
qed

subsection \<open>Any number of contexts\<close>

text \<open>
  The execution of one thread of the operating system with its lthreads, seen from the context
  switch. \<open>S\<close> maps the handles of the suspended contexts to what they go on with: registers, address
  and stack pointer. Code that is neither of the two routines may do anything but write to the cells
  of suspended contexts; \<open>make_fcontext\<close> adds a context, with whatever its stack held for the
  registers; \<open>jump_fcontext\<close> takes up one and adds the caller. The cells a routine writes must
  not be those of the other contexts.
\<close>

type_synonym x64_cont = "(u64 list \<times> (u32 \<times> u16) option) \<times> u64 \<times> u64"

inductive x64_pool :: "(nat \<Rightarrow> u64) \<Rightarrow> (nat \<Rightarrow> u64)
    \<Rightarrow> u64 xstate \<times> (u64 \<rightharpoonup> x64_cont) \<Rightarrow> u64 xstate \<times> (u64 \<rightharpoonup> x64_cont) \<Rightarrow> bool" for adr adr' where
  pool_code: "(\<And>h a. h \<in> dom S \<Longrightarrow> a \<in> x64_area h \<Longrightarrow> xmem s' a = xmem s a) \<Longrightarrow>
    x64_pool adr adr' (s, S) (s', S)"
| pool_make: "\<lbrakk>x64_makeable s; \<And>h. h \<in> dom S \<Longrightarrow> x64_area h \<inter> x64_made_cells s = {};
    xcall adr' make_fcontext_linux_x86_64 s = Some (g, s')\<rbrakk> \<Longrightarrow>
    x64_pool adr adr' (s, S) (s', S(x64_made s \<mapsto>
      ((map (xmem s') [x64_made s + 8, x64_made s + 16, x64_made s + 24, x64_made s + 32, x64_made s + 40,
        x64_made s + 48], None), xr s RDX, x64_entry_sp s)))"
| pool_jump: "\<lbrakk>x64_callable s; xr s RCX = 0; xr s RSI \<in> dom S;
    \<And>h. h \<in> dom S - {xr s RSI} \<Longrightarrow> x64_area h \<inter> x64_touched s = {};
    xcall adr jump_fcontext_linux_x86_64 s = Some (g, s')\<rbrakk> \<Longrightarrow>
    x64_pool adr adr' (s, S) (s', S(xr s RSI := None, x64_handle s \<mapsto>
      (x64_kept False s, xmem s (xr s RSP), xr s RSP + 8)))"

definition x64_pool_inv :: "u64 xstate \<times> (u64 \<rightharpoonup> x64_cont) \<Rightarrow> bool" where
  "x64_pool_inv w \<longleftrightarrow> (\<forall>h c. snd w h = Some c \<longrightarrow>
     x64_ctx False (xmem (fst w)) h = c \<and> x64_ready False (xmem (fst w)) h)"

lemma x64_pool_invD:
  "x64_pool_inv (s, S) \<Longrightarrow> S h = Some c \<Longrightarrow> x64_ctx False (xmem s) h = c \<and> x64_ready False (xmem s) h"
  unfolding x64_pool_inv_def fst_conv snd_conv by blast

lemma x64_pool_invI:
  "(\<And>h c. S h = Some c \<Longrightarrow> x64_ctx False (xmem s) h = c \<and> x64_ready False (xmem s) h) \<Longrightarrow>
    x64_pool_inv (s, S)"
  unfolding x64_pool_inv_def fst_conv snd_conv by blast

lemma x64_pool_inv_jump:
  assumes "x64_pool_inv (s, S)" "x64_callable s" "xr s RCX = 0" "S (xr s RSI) = Some c"
    "\<And>h. h \<in> dom S - {xr s RSI} \<Longrightarrow> x64_area h \<inter> x64_touched s = {}"
  shows "\<exists>p s'. xcall adr jump_fcontext_linux_x86_64 s = Some (Goto p, s')
    \<and> (x64_kept False s', p, xr s' RSP) = c \<and> xr s' RAX = xr s RDX
    \<and> x64_pool_inv (s', S(xr s RSI := None, x64_handle s \<mapsto>
      (x64_kept False s, xmem s (xr s RSP), xr s RSP + 8)))"
proof -
  have flag: "(xr s RCX \<noteq> 0) = False" using assms(3) by simp
  from x64.pool_switch [of S s c adr, unfolded flag, OF x64_pool_invD [OF assms(1)] assms(2,4,5)]
  show ?thesis unfolding x64_pool_inv_def by simp
qed

lemma x64_pool_step_inv:
  assumes "x64_pool adr adr' w w'" "x64_pool_inv w"
  shows "x64_pool_inv w'"
  using assms
proof (induction rule: x64_pool.induct)
  case (pool_code S s' s)
  then have "x64_ctx False (xmem s') h = x64_ctx False (xmem s) h
      \<and> x64_ready False (xmem s') h = x64_ready False (xmem s) h" if "h \<in> dom S" for h
    using that by (intro x64_ctx_local) blast
  then show ?case using x64_pool_invD [OF pool_code(2)] by (intro x64_pool_invI) (metis domI)
next
  case (pool_make s S g s')
  from make_x64_linux [OF pool_make(1), of adr'] pool_make(3)
  have m: "xmem s' = x64_made_mem (lab_addr adr' make_fcontext_linux_x86_64 ''finish'') s" by auto
  have old: "x64_ctx False (xmem s') h = x64_ctx False (xmem s) h
      \<and> x64_ready False (xmem s') h = x64_ready False (xmem s) h" if "h \<in> dom S" for h
    using pool_make(1,2) that x64_made_ctx(4) [of s] unfolding m x64_makeable_def
    by (intro x64_ctx_local) blast
  have new: "x64_ready False (xmem s') (x64_made s)"
    using pool_make(1) x64_made_ctx(3) unfolding m x64_makeable_def by blast
  have ctx: "((map (xmem s') [x64_made s + 8, x64_made s + 16, x64_made s + 24, x64_made s + 32,
      x64_made s + 40, x64_made s + 48], None), xr s RDX, x64_entry_sp s)
    = x64_ctx False (xmem s') (x64_made s)"
    by (simp add: m x64_ctx_def x64_made_mem_def x64_made_def x64_entry_sp_def addr_simps)
  show ?case unfolding ctx
  proof (rule x64_pool_invI)
    fix h c assume "(S(x64_made s \<mapsto> x64_ctx False (xmem s') (x64_made s))) h = Some c"
    then consider "h = x64_made s" "c = x64_ctx False (xmem s') (x64_made s)" | "S h = Some c"
      by (cases "h = x64_made s") simp_all
    then show "x64_ctx False (xmem s') h = c \<and> x64_ready False (xmem s') h"
    proof cases
      case 2
      with old [OF domI] x64_pool_invD [OF pool_make(4)] show ?thesis by metis
    qed (simp add: new)
  qed
next
  case (pool_jump s S g s')
  from pool_jump(3) obtain c where "S (xr s RSI) = Some c" by blast
  from x64_pool_inv_jump [OF pool_jump(6,1,2) this pool_jump(4), of adr] pool_jump(5) show ?case by auto
qed

text \<open>(C9) 
  A context is taken up exactly as it was suspended, whatever happened in between. Start without
  contexts and let any code run that leaves the cells of suspended contexts alone, make contexts,
  and switch between them in any order: whenever \<open>jump_fcontext\<close> is called for a suspended context, it
  returns there, with the preserved registers, at the address and with the stack pointer that were
  recorded when that context was suspended or made, and the value passed as its result.
\<close>
theorem jump_fcontext_resumes_suspended:
  assumes "(x64_pool adr adr')\<^sup>*\<^sup>* (s0, Map.empty) (s, S)"
    and "S (xr s RSI) = Some c" "x64_callable s" "xr s RCX = 0"
    and "\<And>h. h \<in> dom S - {xr s RSI} \<Longrightarrow> x64_area h \<inter> x64_touched s = {}"
  shows "\<exists>p s'. xcall adr jump_fcontext_linux_x86_64 s = Some (Goto p, s')
    \<and> (x64_kept False s', p, xr s' RSP) = c \<and> xr s' RAX = xr s RDX"
proof -
  have "x64_pool_inv w" if "(x64_pool adr adr')\<^sup>*\<^sup>* (s0, Map.empty) w" for w
    using that
    by (induction rule: rtranclp_induct) (auto intro: x64_pool_invI x64_pool_step_inv)
  from x64_pool_inv_jump [OF this [OF assms(1)] assms(3,4,2,5)] show ?thesis by blast
qed

theorem jump_fcontext_resumes_suspended_witness:
  "\<exists>s'. xcall (\<lambda>_. 0) jump_fcontext_linux_x86_64 (x64_demo 0x1000 0x6000 0x2fb8 0x5000
      \<lparr>xmem := x64_made_mem 0 (x64_demo 0x1000 0x3000 0x800 0x77)\<rparr>) = Some (Goto 0x77, s')"
proof -
  let ?s = "x64_demo 0x1000 0x3000 0x800 0x77"
  have ok: "x64_makeable ?s"
    by (simp add: x64_makeable_def x64_demo_simps aligned_numeral x64_made_cells_def x64_made_def
        x64_entry_sp_def)
  obtain g s1 where s1: "xcall (\<lambda>_. 0) make_fcontext_linux_x86_64 ?s = Some (g, s1)"
    "xmem s1 = x64_made_mem 0 ?s"
    using make_x64_linux [OF ok, of "\<lambda>_. 0"] by (auto simp: lab_addr_def)
  let ?s2 = "x64_demo 0x1000 0x6000 0x2fb8 0x5000\<lparr>xmem := xmem s1\<rparr>"
  let ?c = "((map (xmem s1) [x64_made ?s + 8, x64_made ?s + 16, x64_made ?s + 24, x64_made ?s + 32,
      x64_made ?s + 40, x64_made ?s + 48], None), xr ?s RDX, x64_entry_sp ?s)"
  let ?S = "[x64_made ?s \<mapsto> ?c]"
  have made: "x64_made ?s = 0x2fb8" by (simp add: x64_made_def x64_demo_simps)
  have "x64_pool (\<lambda>_. 0) (\<lambda>_. 0) (?s, Map.empty) (s1, ?S)"
    by (rule pool_make [OF ok _ s1(1)]) simp
  moreover have "x64_pool (\<lambda>_. 0) (\<lambda>_. 0) (s1, ?S) (?s2, ?S)"
    by (rule pool_code) simp
  ultimately have 1: "(x64_pool (\<lambda>_. 0) (\<lambda>_. 0))\<^sup>*\<^sup>* (?s, Map.empty) (?s2, ?S)"
    by (meson converse_rtranclp_into_rtranclp rtranclp.rtrancl_refl)
  have 2: "?S (xr ?s2 RSI) = Some ?c" "x64_callable ?s2" "xr ?s2 RCX = 0"
    "\<And>h. h \<in> dom ?S - {xr ?s2 RSI} \<Longrightarrow> x64_area h \<inter> x64_touched ?s2 = {}"
    by (simp_all add: made x64_callable_def x64_demo_simps x64_area_def x64_handle_def aligned_numeral)
  from jump_fcontext_resumes_suspended [OF 1 2(1-3) 2(4)] obtain p s' where
    "xcall (\<lambda>_. 0) jump_fcontext_linux_x86_64 ?s2 = Some (Goto p, s')"
    "(x64_kept False s', p, xr s' RSP) = ?c" by blast
  then show ?thesis unfolding s1(2) by (simp add: x64_demo_simps)
qed

subsection \<open>Other platforms\<close>

text \<open>(C29) 
  \<open>make_fcontext\<close> on i386 Windows returns. The walk over the caller's exception handlers ends at the
  last record of the list; the new context gets a list with one record, which is marked as the last
  one and has the handler of the caller's last record, and the fields of the environment block that
  describe its stack.
\<close>
theorem make_fcontext_walk_returns:
  assumes "win32_makeable xs s"
  shows "\<exists>s'. xcall adr make_fcontext_windows_i386 s = Some (Goto (xmem s (xr s RSP)), s')
    \<and> xr s' RAX = win32_made s \<and> xr s' RSP = xr s RSP + 4 \<and> win32_kept True s' = win32_kept True s
    \<and> snd (win32_ctx b (xmem s') (win32_made s)) = (win32_arg 12 s, win32_entry_sp s)
    \<and> map (xmem s') [win32_made s + 12, win32_made s + 16, win32_made s + 20, win32_made s + 24]
      = [win32_arg 4 s - win32_arg 8 s, win32_arg 4 s - win32_arg 8 s, win32_arg 4 s, win32_made s + 0x38]
    \<and> seh_list (xmem s') [win32_made s + 0x38] (win32_made s + 0x38)
    \<and> xmem s' (win32_made s + 0x3c) = xmem s (last xs + 4)"
proof -
  let ?m = "win32_made_mem xs (lab_addr adr make_fcontext_windows_i386 ''finish'') s"
  from make_win32 [OF assms, of adr] obtain s' where
    s': "xcall adr make_fcontext_windows_i386 s = Some (Goto (xmem s (xr s RSP)), s')" "xmem s' = ?m"
    by blast
  from make_win32_law [OF assms, of adr b] s'(1)
  have r: "xr s' RAX = win32_made s" "xr s' RSP = xr s RSP + 4" "win32_kept True s' = win32_kept True s"
    by auto
  have "snd (win32_ctx b ?m (win32_made s)) = (win32_arg 12 s, win32_entry_sp s)"
    using win32_made_ctx(1) [OF assms] by (metis snd_conv)
  moreover have "map ?m [win32_made s + 12, win32_made s + 16, win32_made s + 20, win32_made s + 24]
      = [win32_arg 4 s - win32_arg 8 s, win32_arg 4 s - win32_arg 8 s, win32_arg 4 s, win32_made s + 0x38]"
    by (simp add: win32_made_mem_def win32_first_mem_def win32_made_def win32_entry_sp_def Let_def addr_simps)
  ultimately show ?thesis using s' r win32_made_seh [OF assms] by metis
qed

definition win32_demo :: "u32 xstate" where
  "win32_demo = \<lparr>xr = (\<lambda>_. 0)(RSP := 0x1000), xmem = (\<lambda>_. 0)(0x1004 := 0x3000, 0x1008 := 0x800,
     0x100c := 0x77, 0x8000 := 0x9000, 0x9000 := 0x9100, 0x9100 := - 1, 0x9104 := 0x55),
     zf = False, mxcsr = 0x1f80, fpucw = 0x37f, xmm = (\<lambda>_. (0, 0)), segbase = 0x8000, xsym = (\<lambda>_. 0)\<rparr>"

theorem make_fcontext_walk_returns_witness:
  "\<exists>s'. xcall (\<lambda>_. 0) make_fcontext_windows_i386 win32_demo = Some (Goto 0, s')
    \<and> xr s' RAX = 0x2fb4 \<and> xmem s' 0x2ff0 = 0x55"
proof -
  have made: "win32_made win32_demo = 0x2fb4" "win32_entry_sp win32_demo = 0x2fe4"
    by (simp_all add: win32_made_def win32_entry_sp_def win32_arg_def win32_demo_def)
  have demo: "xmem win32_demo (xr win32_demo RSP) = 0" "xmem win32_demo 0x9104 = 0x55"
    by (simp_all add: win32_demo_def)
  have "win32_makeable [0x9000, 0x9100] win32_demo"
    by (simp add: win32_makeable_def win32_made_cells_def made Let_def)
      (simp add: win32_demo_def win32_teb_def mxcsr_ok_def aligned_numeral)
  from make_fcontext_walk_returns [OF this, of "\<lambda>_. 0" False] show ?thesis
    by (auto simp: made demo)
qed

text \<open>(C33) 
  Apple systems on 64-bit ARM: the floating point registers \<open>d8\<close> to \<open>d15\<close>, which a call has to
  preserve, are not preserved by a switch of the library, because \<open>_switch\<close> passes \<open>false\<close> for
  \<open>preserve_fpu\<close>: who is taken up finds those of the one that switched away. The routine for Linux
  ignores the argument and gives them back.
\<close>
theorem lthread_switch_loses_fpu:
  assumes "a64_args s = lt_switch_args new_ctx cur_ctx (amem s)"
    and "a64_callable s" "a64_ready (amem s) (amem s new_ctx)"
  shows "(\<exists>p s'. acall org jump_fcontext_apple_arm64 s = Some (Goto p, s') \<and> fr s' = fr s)
    \<and> (\<exists>p s'. acall org jump_fcontext_linux_arm64 s = Some (Goto p, s')
        \<and> (a64_kept True s', p, ar s' SP) = a64_ctx True (amem s) (amem s new_ctx))"
proof -
  have args: "ar s (GR 1) = amem s new_ctx" "\<not> a64_fpu s"
    using assms(1) by (auto simp: a64_args_def lt_switch_args_def)
  then show ?thesis
    using jump_apple64_no_fpu [of s org] linux64.jump_switches [of s org] assms(2,3) by auto
qed

definition a64_demo :: "u64 astate" where
  "a64_demo = \<lparr>ar = (\<lambda>_. 0)(SP := 0x1000, GR 0 := 0x6000, GR 1 := 0x2000, GR 2 := 0x5000),
     amem = (\<lambda>_. 0)(0x5000 := 0x2000), az = False, fr = of_nat, tls = 0\<rparr>"

theorem lthread_switch_loses_fpu_witness:
  "\<exists>p s'. acall 0 jump_fcontext_apple_arm64 a64_demo = Some (Goto p, s') \<and> fr s' 8 = 8"
proof -
  have "a64_args a64_demo = lt_switch_args 0x5000 0x6000 (amem a64_demo)" "a64_callable a64_demo"
    "a64_ready (amem a64_demo) (amem a64_demo 0x5000)"
    by (simp_all add: a64_args_def lt_switch_args_def a64_callable_def a64_ready_def a64_area_def
        a64_handle_def a64_fpu_def a64_demo_def aligned_numeral)
  from lthread_switch_loses_fpu [OF this, of 0] show ?thesis by (auto simp: a64_demo_def)
qed

end
