(* ===== verification/Spec2Isabelle.thy ===== *)
theory Spec2Isabelle
  imports Tailq Linked Blist Stailq Slist Rbtree_Spec Rb_Loops Splay_Spec Minheap Lthread_State Sched Sched_Proof Sched_Props Cond Stacks Trace Poller Epoll System
    System_Cond Run_Loop Socket Context_Switch
begin

text \<open>
  Verification of lthread, a library of coroutines (lthreads) that are run by a pool of schedulers, one
  per OS thread, with a poller thread for descriptors.

  \<^bold>\<open>The program.\<close> \<open>lthread_run\<close> (\<open>src/src/lthread.c\<close>) makes the schedulers, links them to a ring and starts
  the loop \<open>_lthread_run_sched\<close> on each. A scheduler keeps a queue of ready lthreads (\<open>TAILQ\<close> of \<open>queue.h\<close>) and
  a tree of sleeping ones (\<open>RB\<close> of \<open>tree.h\<close>, ordered by the wake-up time); a scheduler without work takes
  from its neighbours, and one that finds nothing waits on a condition of its OS thread until it is woken.
  The poller (\<open>lthread_poller.c\<close> on \<open>lthread_kqueue.c\<close>) keeps a tree of the lthreads that wait for a descriptor
  and makes them ready when an event arrives. \<open>lthread_cond.c\<close> is a mutex for lthreads with a queue of
  blocked ones. \<open>lthread_socket.c\<close> has the socket calls, built on \<open>_lthread_wait_fd\<close>.
  A build without \<open>minicoro\<close> (\<open>USE_MINICORO 0\<close>) has stacks of its own and switches between a scheduler and its lthreads with
  \<open>jump_fcontext\<close> and \<open>make_fcontext\<close>, which \<open>libcontext.c\<close> has in assembly for ten platforms.

  \<^bold>\<open>The theories.\<close>
  \<^item> \<open>Prelude\<close>: machine types, results with faults (a failed \<open>assert\<close>, a bad dereference, a mutex that is held).
  \<^item> \<open>Tailq\<close>: every \<open>TAILQ\<close> macro on a heap of links; \<open>tq_repr\<close> relates a queue to a list, \<open>tq_family\<close> all the
    queues that share one link field. The locale \<open>fifo_queue\<close> is the contract the scheduler relies on.
  \<^item> \<open>Linked\<close>, \<open>Blist\<close>, \<open>Stailq\<close>, \<open>Slist\<close>: the loops of \<open>queue.h\<close>, with those that allow removal and the consistency checks, and the macros
    \<open>LIST\<close>, \<open>STAILQ\<close> and \<open>SLIST\<close>, each seen as a tail queue without some of its pointers. The locale \<open>linked_list\<close> treats the loops of all four kinds.
  \<^item> \<open>Rbtree\<close>, \<open>Rbtree_Proof\<close>, \<open>Rbtree_Insert\<close>, \<open>Rbtree_Remove\<close>, \<open>Rbtree_Spec\<close>: every function of
    \<open>RB_GENERATE\<close>, pointer by pointer, with colours and rotations. A context of frames describes the path
    to the node a loop works on; both rebalancing loops are shown to end and to give a red-black tree with the
    right in-order list. The locale \<open>keyed_tree\<close> is the contract of the clients; \<open>rb_family\<close> describes trees that
    share one link field. \<open>Rb_Loops\<close> has the loops of \<open>tree.h\<close> that go backwards, start inside or allow removal (locale \<open>tree_walk\<close>).
  \<^item> \<open>Splay\<close>, \<open>Splay_Spec\<close>: the splay trees of \<open>tree.h\<close>. Two chains describe the parts that a splay has taken off; the locale \<open>self_adjusting\<close> is
    the contract of a dictionary whose searches change it.
  \<^item> \<open>Minheap\<close>: the array heap of \<open>lthread_heap.h\<close> against multisets (locale \<open>priority_queue\<close>).
  \<^item> \<open>Lthread_State\<close>: the structures of \<open>lthread_int.h\<close> as records, the shared state \<open>world\<close>, the mutex wrappers.
  \<^item> \<open>Sched\<close>: the operations of \<open>lthread.c\<close>. \<open>Sched_Proof\<close>: what each does to the abstract queues and trees.
    \<open>Sched_Props\<close>: the properties of the scheduler and small concrete pools.
  \<^item> \<open>Stacks\<close>: the build with \<open>USE_MINICORO 0\<close>, that is stacks, the cache of ended lthreads and \<open>_lthread_madvise\<close>. \<open>Trace\<close>: the build with
    \<open>LTHREAD_TRACE 1\<close> and the script \<open>analyze_trace.py\<close> that reads what it writes.
  \<^item> \<open>Cond\<close>: \<open>lthread_cond.c\<close>. The invariant \<open>cond_inv\<close>; ownership is handed over in the order of arrival.
  \<^item> \<open>Poller\<close>: \<open>lthread_poller.c\<close>, the kqueue backend and \<open>_lthread_wait_fd\<close>. \<open>wait_table\<close> abstracts the tree to a map
    from descriptor and event to an lthread (locale \<open>event_table\<close>). \<open>Epoll\<close>: the backend \<open>lthread_epoll.c\<close>, whose functions do not have the
    parameters \<open>lthread_poller.h\<close> declares and so do not compile; they are modelled with them.
  \<^item> \<open>System_Proof\<close>: the invariant of all components together, that is where every lthread is, and one lemma for each
    operation. \<open>System\<close>: the step relation \<open>sys_step\<close>, in which schedulers, running lthreads and the poller take
    turns in any order, and the states \<open>sys_reach\<close> it reaches from \<open>lthread_run\<close>. \<open>System_Cond\<close>: a condition variable in the running
    system is an abstract monitor \<open>mon_step\<close>, as long as nobody waits with a timeout, and what a timeout does. \<open>Run_Loop\<close>: \<open>_lthread_run_sched\<close> as a whole, with what the lthreads and the other threads do in
    the meantime as parameters, and the end of the whole pool.
  \<^item> \<open>Socket\<close>: \<open>lthread_socket.c\<close>, with the system calls as parameters.
  \<^item> \<open>Machine\<close>, \<open>X86\<close>, \<open>Arm\<close>: memory of aligned cells, and the processors as functions from an instruction and a state to the next
    state. They have the instructions that \<open>libcontext.c\<close> uses; what is undefined there (a cell that is not aligned, reserved bits of \<open>mxcsr\<close>) is no result.
    A program runs until it leaves its own code, as a partial function into \<open>option\<close>.
  \<^item> \<open>Fcontext\<close>: the contract of the two routines. The locale \<open>context_jump\<close> says where a context is saved, what it holds and
    what a jump does; its lemmas are the round trip between two contexts and the switches among any number of them. \<open>context_make\<close> extends it with the
    making of a context. \<open>Fcontext_X64\<close>, \<open>Fcontext_I386\<close>, \<open>Fcontext_Win64\<close>, \<open>Fcontext_Win32\<close>, \<open>Fcontext_Arm64\<close>, \<open>Fcontext_Arm32\<close> and
    \<open>Fcontext_Apple_Arm\<close> have the programs of all platforms, instruction by instruction, their execution, and the interpretations.
    \<open>Context_Switch\<close>: the choice of the platform in \<open>libcontext.h\<close>, the calls in \<open>lthread.c\<close>, and what schedulers and lthreads get.

  \<^bold>\<open>How code becomes definitions.\<close> A definition has the name of the C function without its leading underscore
  (\<open>i_lthread_yield\<close> and \<open>i_lthread_exit\<close> are \<open>_lthread_yield\<close> and \<open>_lthread_exit\<close>, which would clash with the
  functions they belong to). Pointers are optional addresses. State is passed explicitly. A function during
  which other coroutines or threads run is split at that point: \<open>_lthread_resume\<close> at \<open>mco_resume\<close>,
  \<open>_lthread_run_sched\<close> at \<open>lthread_os_cond_wait\<close>, \<open>_lthread_cond_wait\<close> and \<open>_lthread_wait_fd\<close> at their yield (the
  second part has \<open>_resumed\<close> or \<open>_end\<close> in its name). Between two mutex operations the model runs
  one thread at a time; a mutex is the fact that it is held, and locking a held one is a fault, so that the
  lemmas also show that every operation gives back what it took and never locks twice. Loops that C code may
  run for ever are partial functions into \<open>option\<close>, for which the lemmas prove that there is a value; no fuel
  is used. Times are 64 bit words with wrap-around, the stored descriptor is a 16 bit word.

  \<^bold>\<open>The steps of the system.\<close> \<open>sys_step\<close> composes the operations and translates no code itself. A state is the world, the set of the schedulers whose lthread has given up the
  processor and that have not finished \<open>_lthread_resume\<close> yet, and the stage of every lthread: in its own code, behind the yield of \<open>lthread_cond_lock\<close>,
  \<open>lthread_cond_wait\<close> or \<open>_lthread_wait_fd\<close>, or \<open>Left\<close>. The steps are the parts of a scheduler's loop, the two ends of \<open>_lthread_resume\<close>, an event of the poller with the
  assertion that somebody waited for it, and what the running lthread does: \<open>lthread_spawn\<close>, \<open>lthread_yield\<close>, \<open>lthread_exit\<close>, the return from its function (\<open>mco_entry\<close>),
  \<open>lthread_sleep\<close> with any argument, \<open>_lthread_wait_fd\<close>, \<open>lthread_cond_lock\<close>, \<open>lthread_cond_wait\<close> without a timeout, \<open>lthread_cond_unlock_signal\<close>, and the
  second parts of those that suspend it. A step is taken when the call succeeds; which calls succeed is a theorem of its own (\<open>sys_no_fault\<close>), which includes the
  misuses that fail an assertion. Left out is \<open>lthread_cond_wait\<close> with a timeout, since it breaks the invariant (\<open>lthread_cond_signal_timed_waiter\<close>). A call
  of the library is one step, also where it has several critical sections one after the other: interleavings between two critical sections of one call
  are not covered. \<open>lthread_spawn\<close> is taken with an empty cache and with memory for the new lthread.

  \<^bold>\<open>What is shown.\<close> For the data structures: refinement of lists, sorted lists and multisets, termination of every loop,
  the height bound of the trees, round trips. For the scheduler: no wake-up is lost, work is found wherever
  it is in the ring, expired sleepers become ready in order, the decision to block, the ring after \<open>lthread_run\<close>,
  creation, yield, exit. For condition variables: mutual exclusion with direct hand-over, service in the order of
  arrival, the results of waits, misuse. For the poller: waiting and delivery, the count of pending events,
  the limit of 16 bits. For the socket calls: the exact result of the retry loops, lines, complete writes, no
  leaked descriptors. For the whole system, in every state the steps reach: every lthread is in exactly one structure
  or runs, but for those whose function has returned or that called \<open>lthread_sleep(0)\<close>, which are in none for ever; none runs twice, work is found by an idle scheduler, and exactly the misuses fault;
  without timeouts every condition variable is a fair monitor, in
  whose queue nobody is overtaken. The loop of a scheduler does not fail, and a pool that has nothing left to do goes to sleep and returns, one scheduler after the other round the ring. For the
  trace: what all schedulers write is what the script reads, merged by time. For the stacks: none is lost or given back twice. For context
  switching: on every platform a jump takes up the other context and saves the caller's, on x86-64 Linux also that a scheduler gets its registers and stack back
  (other than the control words of the floating point units, which \<open>_switch\<close> does not preserve) when its lthread yields, that the first switch enters \<open>_exec\<close> with the lthread as its argument, that contexts do not disturb each other, and that a new context lies inside its stack. Several properties state defects of the code as it is: a sleep that ends at once,
  \<open>lthread_sleep(0)\<close> that never returns, lthreads that are not freed when their function returns, a signalled timed
  waiter that stays in the sleep tree, a trace that is written behind its buffer, \<open>madvise\<close> that is never called, the second event of a descriptor that fails an assertion, floating point
  registers that a switch does not preserve on some platforms, bytes or
  counts that are lost at the borders of \<open>lthread_readline\<close> and \<open>lthread_writev\<close>.

  \<^bold>\<open>Not modelled.\<close> Creation of the epoll instance and \<open>epoll_wait\<close> are single system calls.
  The coroutines of the default build belong to the vendored \<open>minicoro\<close>. Of the processors only what the two routines use is modelled:
  the registers and memory a caller can rely on, not timing, flags other than zero or the unwind tables of the assembler.
  \<open>lthread_print_timestamp\<close>, \<open>lthread_os_thread.h\<close>, the end of \<open>lthread_run\<close>, which joins the OS threads, and the plots of \<open>analyze_trace.py\<close> are output and thread
  handling only. The debug variants of \<open>queue.h\<close> (\<open>QUEUE_MACRO_DEBUG\<close>) only record file names and line numbers. \<open>System\<close> describes the configuration of the
  repository, without tracing and with \<open>minicoro\<close>. Preemption inside a critical section is not modelled, since the mutexes exclude it, and a call with several of them is one step of \<open>sys_step\<close>, as said above.
\<close>

end
